(* ===== verification/Crunch_Prelude.thy ===== *)
theory Crunch_Prelude
  imports Main "HOL-Library.Word"
begin

text \<open>
  Shared vocabulary of the development: the machine types, the interleaving of threads that
  every concurrent component is run under, and the two interfaces the component proofs use.

  A thread is a step function \<open>'g \<Rightarrow> 'l \<Rightarrow> ('g \<times> 'l) option\<close> over the shared memory \<open>'g\<close>
  and the thread's own state \<open>'l\<close> (its program counter and its local variables).  One step
  performs at most one access to shared memory, so every interleaving of the atomic accesses
  of the source is an interleaving of steps.  \<open>None\<close> is a thread that cannot move: it has
  finished its script, or it blocks.  Memory is sequentially consistent; every read-modify-write
  of the library is a locked x86 instruction, and the relaxed loads it makes are validated by a
  later compare-and-swap.
\<close>

unbundle bit_operations_syntax

section \<open>Machine types\<close>

type_synonym u8 = "8 word"
type_synonym u16 = "16 word"
type_synonym u32 = "32 word"
type_synonym u64 = "64 word"

text \<open>A C++ pointer, as the 64-bit value that \<^verbatim>\<open>reinterpret_cast\<close> gives; 0 is \<^verbatim>\<open>nullptr\<close>.\<close>

type_synonym addr = u64

named_theorems word_packing \<open>facts about pointers and flags packed in one word\<close>
named_theorems step_simps \<open>equations that evaluate thread steps\<close>

text \<open>A heap update stays an update when it is not applied.\<close>

declare fun_upd_apply [simp del] fun_upd_same [simp] fun_upd_other [simp]

section \<open>Lists of counters\<close>

lemma sum_list_map_update:
  fixes f :: "'a \<Rightarrow> nat"
  assumes "i < length xs"
  shows "sum_list (map f (xs[i := x])) + f (xs ! i) = sum_list (map f xs) + f x"
proof -
  have le: "f (xs ! i) \<le> sum_list (map f xs)"
    using assms by (intro member_le_sum_list) auto
  have "sum_list (map f (xs[i := x])) = sum_list (map f xs) + f x - f (xs ! i)"
    using assms by (simp add: map_update sum_list_update)
  with le show ?thesis by simp
qed

lemma sum_list_map_nth_le:
  fixes f :: "'a \<Rightarrow> nat"
  assumes "i < length xs"
  shows "f (xs ! i) \<le> sum_list (map f xs)"
  using assms by (intro member_le_sum_list) auto

lemma sum_list_map_two_le:
  fixes f :: "'a \<Rightarrow> nat"
  assumes "i < length xs" and "j < length xs" and "i \<noteq> j"
  shows "f (xs ! i) + f (xs ! j) \<le> sum_list (map f xs)"
proof -
  have *: "a < b \<Longrightarrow> b < length xs \<Longrightarrow> f (xs ! a) + f (xs ! b) \<le> sum_list (map f xs)" for a b
  proof -
    assume ab: "a < b" "b < length xs"
    have "f (xs ! a) \<le> sum_list (map f (take b xs))"
      using sum_list_map_nth_le [of a "take b xs" f] ab by simp
    moreover have "f (xs ! b) \<le> sum_list (map f (drop b xs))"
      using sum_list_map_nth_le [of 0 "drop b xs" f] ab by simp
    moreover have "sum_list (map f xs)
        = sum_list (map f (take b xs)) + sum_list (map f (drop b xs))"
      by (metis append_take_drop_id map_append sum_list_append)
    ultimately show ?thesis by simp
  qed
  show ?thesis using *[of i j] *[of j i] assms by (cases "i < j") auto
qed

lemma list_all_update: "list_all P ts \<Longrightarrow> P t \<Longrightarrow> list_all P (ts[i := t])"
  using set_update_subset_insert [of ts i t] by (auto simp: list_all_iff)

lemma distinct_if_counts: "(\<And>x. count_list xs x \<le> 1) \<Longrightarrow> distinct xs"
proof (induction xs)
  case (Cons x xs)
  have "count_list xs x = 0" using Cons.prems [of x] by simp
  moreover have "count_list xs y \<le> 1" for y using Cons.prems [of y] by (simp split: if_splits)
  ultimately show ?case using Cons.IH by (simp add: count_list_0_iff)
qed simp

lemma count_list_of_distinct: "distinct xs \<Longrightarrow> count_list xs x = of_bool (x \<in> set xs)"
  by (induction xs) auto

lemma count_list_concat: "count_list (concat xss) x = sum_list (map (\<lambda>xs. count_list xs x) xss)"
  by (induction xss) auto

section \<open>Interleaving\<close>

inductive interleave ::
  "('g \<Rightarrow> 'l \<Rightarrow> ('g \<times> 'l) option) \<Rightarrow> 'g \<times> 'l list \<Rightarrow> 'g \<times> 'l list \<Rightarrow> bool"
  for tstep where
  thread: "i < length ls \<Longrightarrow> tstep g (ls ! i) = Some (g', l') \<Longrightarrow>
    interleave tstep (g, ls) (g', ls[i := l'])"

inductive_cases interleave_cases: "interleave tstep (g, ls) s"

text \<open>All executions: any number of steps, the scheduler choosing a thread for each.\<close>

abbreviation executes ::
  "('g \<Rightarrow> 'l \<Rightarrow> ('g \<times> 'l) option) \<Rightarrow> 'g \<times> 'l list \<Rightarrow> 'g \<times> 'l list \<Rightarrow> bool" where
  "executes tstep \<equiv> rtranclp (interleave tstep)"

lemma executes_length: "executes tstep (g, ls) (g', ls') \<Longrightarrow> length ls' = length ls"
proof (induction "(g', ls')" arbitrary: g' ls' rule: rtranclp_induct)
  case (step y)
  obtain g1 ls1 where y: "y = (g1, ls1)" by (cases y)
  show ?case using step.hyps(2) step.hyps(3) [OF y] unfolding y by (auto elim: interleave_cases)
qed simp

text \<open>What no step of a thread of its own changes, whatever the memory, holds of it for ever.\<close>

lemma executes_thread_invariant:
  assumes step: "\<And>g l g' l'. P l \<Longrightarrow> tstep g l = Some (g', l') \<Longrightarrow> P l'"
    and "executes tstep (g, ls) (g', ls')" and "i < length ls" and "P (ls ! i)"
  shows "i < length ls' \<and> P (ls' ! i)"
  using assms(2-4)
proof (induction "(g', ls')" arbitrary: g' ls' rule: rtranclp_induct)
  case base
  then show ?case by simp
next
  case (step y)
  obtain g1 ls1 where y: "y = (g1, ls1)" by (cases y)
  have "i < length ls1" "P (ls1 ! i)" using step.hyps(3) [OF y step.prems] by auto
  then show ?case using step.hyps(2) unfolding y
    by (auto elim!: interleave_cases simp: nth_list_update dest: assms(1))
qed

text \<open>The execution of one schedule, a list of thread numbers; \<open>None\<close> when a thread that is
  to move cannot.\<close>

fun run_sched ::
  "('g \<Rightarrow> 'l \<Rightarrow> ('g \<times> 'l) option) \<Rightarrow> nat list \<Rightarrow> 'g \<times> 'l list \<Rightarrow> ('g \<times> 'l list) option" where
  "run_sched tstep [] s = Some s"
| "run_sched tstep (i # is) (g, ls) =
     (if i < length ls
      then (case tstep g (ls ! i) of
              None \<Rightarrow> None
            | Some (g', l') \<Rightarrow> run_sched tstep is (g', ls[i := l']))
      else None)"

lemma run_sched_executes:
  "run_sched tstep sched s = Some s' \<Longrightarrow> executes tstep s s'"
proof (induction tstep sched s rule: run_sched.induct)
  case (1 tstep s)
  then show ?case by simp
next
  case (2 tstep i "is" g ls)
  from "2.prems" obtain g' l' where i: "i < length ls" and st: "tstep g (ls ! i) = Some (g', l')"
    and run: "run_sched tstep is (g', ls[i := l']) = Some s'"
    by (auto split: if_splits option.splits)
  have "interleave tstep (g, ls) (g', ls[i := l'])"
    using i st by (rule interleave.thread)
  moreover have "executes tstep (g', ls[i := l']) s'"
    using "2.IH" [OF i st refl run] .
  ultimately show ?case by (rule converse_rtranclp_into_rtranclp)
qed

text \<open>A thread on its own: exactly \<open>n\<close> steps without interference.\<close>

fun run_solo ::
  "('g \<Rightarrow> 'l \<Rightarrow> ('g \<times> 'l) option) \<Rightarrow> nat \<Rightarrow> 'g \<times> 'l \<Rightarrow> ('g \<times> 'l) option" where
  "run_solo tstep 0 s = Some s"
| "run_solo tstep (Suc n) (g, l) =
     (case tstep g l of None \<Rightarrow> None | Some s' \<Rightarrow> run_solo tstep n s')"

lemma run_solo_add:
  "run_solo tstep m s = Some s' \<Longrightarrow> run_solo tstep n s' = Some s'' \<Longrightarrow>
   run_solo tstep (m + n) s = Some s''"
  by (induction tstep m s rule: run_solo.induct) (auto split: option.splits)

lemma run_solo_Suc_step:
  "tstep g l = Some s' \<Longrightarrow> run_solo tstep (Suc n) (g, l) = run_solo tstep n s'"
  by simp

text \<open>A lone thread gets from one state to another in at most \<open>n\<close> steps.\<close>

definition run_within ::
  "('g \<Rightarrow> 'l \<Rightarrow> ('g \<times> 'l) option) \<Rightarrow> nat \<Rightarrow> 'g \<times> 'l \<Rightarrow> 'g \<times> 'l \<Rightarrow> bool" where
  "run_within tstep n s s' \<longleftrightarrow> (\<exists>k \<le> n. run_solo tstep k s = Some s')"

lemma run_within_refl [simp]: "run_within tstep n s s"
  unfolding run_within_def by (rule exI [of _ 0]) simp

lemma run_within_mono: "run_within tstep m s s' \<Longrightarrow> m \<le> n \<Longrightarrow> run_within tstep n s s'"
  unfolding run_within_def by (meson le_trans)

lemma run_within_trans:
  "run_within tstep m s s' \<Longrightarrow> run_within tstep n s' s'' \<Longrightarrow> run_within tstep (m + n) s s''"
  unfolding run_within_def by (blast intro: run_solo_add add_mono)

lemma run_within_step:
  assumes "tstep g l = Some s'" and "run_within tstep n s' s''"
  shows "run_within tstep (Suc n) (g, l) s''"
proof -
  obtain k where "k \<le> n" and "run_solo tstep k s' = Some s''"
    using assms(2) by (auto simp: run_within_def)
  with assms(1) have "run_solo tstep (Suc k) (g, l) = Some s''" by simp
  then show ?thesis using \<open>k \<le> n\<close> unfolding run_within_def by (intro exI [of _ "Suc k"]) simp
qed

text \<open>Evaluating a run, when the number of steps is a numeral.\<close>

lemma run_within_0: "run_within tstep 0 s s' \<longleftrightarrow> s = s'"
  by (auto simp: run_within_def)

lemma run_within_Suc:
  "run_within tstep (Suc n) (g, l) s' \<longleftrightarrow>
     (g, l) = s' \<or> (case tstep g l of None \<Rightarrow> False | Some s1 \<Rightarrow> run_within tstep n s1 s')"
proof
  assume "run_within tstep (Suc n) (g, l) s'"
  then obtain k where "k \<le> Suc n" "run_solo tstep k (g, l) = Some s'"
    by (auto simp: run_within_def)
  then show "(g, l) = s' \<or> (case tstep g l of None \<Rightarrow> False | Some s1 \<Rightarrow> run_within tstep n s1 s')"
    by (cases k) (auto simp: run_within_def split: option.splits)
qed (auto intro: run_within_step split: option.splits)

lemmas run_eval = run_within_0 run_within_Suc eval_nat_numeral

text \<open>A call: run until the thread cannot move; \<open>None\<close> when the fuel is too small for that.\<close>

fun run_to_end ::
  "('g \<Rightarrow> 'l \<Rightarrow> ('g \<times> 'l) option) \<Rightarrow> nat \<Rightarrow> 'g \<times> 'l \<Rightarrow> ('g \<times> 'l) option" where
  "run_to_end tstep 0 (g, l) = (case tstep g l of None \<Rightarrow> Some (g, l) | Some _ \<Rightarrow> None)"
| "run_to_end tstep (Suc n) (g, l) =
     (case tstep g l of None \<Rightarrow> Some (g, l) | Some s' \<Rightarrow> run_to_end tstep n s')"

lemma run_to_end_solo:
  "run_solo tstep n s = Some (g', l') \<Longrightarrow> tstep g' l' = None \<Longrightarrow> n \<le> m \<Longrightarrow>
   run_to_end tstep m s = Some (g', l')"
proof (induction n arbitrary: m s)
  case 0
  then show ?case by (cases m) auto
next
  case (Suc n)
  obtain g l where s: "s = (g, l)" by (cases s)
  from Suc.prems obtain s1 where "tstep g l = Some s1" and "run_solo tstep n s1 = Some (g', l')"
    by (auto simp: s split: option.splits)
  moreover from Suc.prems(3) obtain m' where "m = Suc m'" and "n \<le> m'"
    by (cases m) auto
  ultimately show ?case using Suc.IH Suc.prems(2) by (simp add: s)
qed

lemma run_within_to_end:
  "run_within tstep n s (g', l') \<Longrightarrow> tstep g' l' = None \<Longrightarrow> run_to_end tstep n s = Some (g', l')"
  unfolding run_within_def by (blast intro: run_to_end_solo)

lemma run_solo_sched:
  "run_solo tstep n (g, l) = Some (g', l') \<Longrightarrow> i < length ls \<Longrightarrow> ls ! i = l \<Longrightarrow>
   run_sched tstep (replicate n i) (g, ls) = Some (g', ls[i := l'])"
proof (induction n arbitrary: g l ls)
  case 0
  then show ?case by auto
next
  case (Suc n)
  from Suc.prems(1) obtain g1 l1 where st: "tstep g l = Some (g1, l1)"
    and rest: "run_solo tstep n (g1, l1) = Some (g', l')"
    by (auto split: option.splits)
  have "run_sched tstep (replicate n i) (g1, ls[i := l1]) = Some (g', ls[i := l1, i := l'])"
    using Suc.IH [OF rest, of "ls[i := l1]"] Suc.prems(2) by simp
  with st Suc.prems(2,3) show ?case by simp
qed

section \<open>Interface: protocols of owned resources\<close>

text \<open>
  Resources that the shared memory and the threads hold between them, one kind \<open>k\<close> per index,
  \<open>cap k\<close> units of it.  No step creates or destroys a unit.  \<open>gi\<close> is an invariant of the memory,
  \<open>ti\<close> relates it to what one thread knows.  A thread's own step keeps both, and the step of
  another thread does not disturb what a thread knows; both may use that the units involved are
  at most \<open>cap\<close>.
\<close>

locale token_protocol =
  fixes tstep :: "'g \<Rightarrow> 'l \<Rightarrow> ('g \<times> 'l) option"
    and gi :: "'g \<Rightarrow> bool"
    and ti :: "'g \<Rightarrow> 'l \<Rightarrow> bool"
    and gtok :: "'k \<Rightarrow> 'g \<Rightarrow> nat"
    and ltok :: "'k \<Rightarrow> 'l \<Rightarrow> nat"
    and cap :: "'k \<Rightarrow> nat"
  assumes own: "gi g \<Longrightarrow> ti g l \<Longrightarrow> (\<And>k. gtok k g + ltok k l \<le> cap k) \<Longrightarrow>
      tstep g l = Some (g', l') \<Longrightarrow>
      gi g' \<and> ti g' l' \<and> (\<forall>k. gtok k g' + ltok k l' = gtok k g + ltok k l)"
    and stable: "gi g \<Longrightarrow> ti g l \<Longrightarrow> ti g m \<Longrightarrow> (\<And>k. gtok k g + ltok k l + ltok k m \<le> cap k) \<Longrightarrow>
      tstep g l = Some (g', l') \<Longrightarrow> ti g' m"
begin

lemma interleave_protocol:
  assumes st: "interleave tstep (g, ls) (g', ls')"
    and gi: "gi g" and ti: "\<forall>l \<in> set ls. ti g l"
    and total: "\<And>k. gtok k g + sum_list (map (ltok k) ls) = cap k"
  shows "gi g' \<and> (\<forall>l \<in> set ls'. ti g' l) \<and> (\<forall>k. gtok k g' + sum_list (map (ltok k) ls') = cap k)"
proof -
  from st obtain i l' where i: "i < length ls" and st: "tstep g (ls ! i) = Some (g', l')"
    and ls': "ls' = ls[i := l']" by (auto elim: interleave_cases)
  have mine: "ti g (ls ! i)" using ti i by simp
  have le: "gtok k g + ltok k (ls ! i) \<le> cap k" for k
    using total [of k] sum_list_map_nth_le [OF i, of "ltok k"] by simp
  have step: "gi g'" "ti g' l'" "\<And>k. gtok k g' + ltok k l' = gtok k g + ltok k (ls ! i)"
    using own [OF gi mine le st] by auto
  have sums: "sum_list (map (ltok k) ls') + ltok k (ls ! i) = sum_list (map (ltok k) ls) + ltok k l'"
    for k unfolding ls' using i by (rule sum_list_map_update)
  have "gtok k g' + sum_list (map (ltok k) ls') = cap k" for k
    using step(3) [of k] total [of k] sums [of k] by linarith
  moreover have "ti g' (ls' ! j)" if j: "j < length ls'" for j
  proof (cases "j = i")
    case True
    then show ?thesis using step(2) i by (simp add: ls')
  next
    case False
    have len: "j < length ls" using j by (simp add: ls')
    have "gtok k g + ltok k (ls ! i) + ltok k (ls ! j) \<le> cap k" for k
      using total [of k] sum_list_map_two_le [OF i len, of "ltok k"] False by simp
    then have "ti g' (ls ! j)"
      using stable [OF gi mine _ _ st] ti len by simp
    then show ?thesis using False by (simp add: ls')
  qed
  ultimately show ?thesis using step(1) by (auto simp: in_set_conv_nth)
qed

lemma executes_protocol:
  assumes "executes tstep (g, ls) (g', ls')"
    and "gi g" and "\<forall>l \<in> set ls. ti g l"
    and "\<And>k. gtok k g + sum_list (map (ltok k) ls) = cap k"
  shows "gi g' \<and> (\<forall>l \<in> set ls'. ti g' l) \<and> (\<forall>k. gtok k g' + sum_list (map (ltok k) ls') = cap k)"
  using assms
proof (induction "(g', ls')" arbitrary: g' ls' rule: rtranclp_induct)
  case base
  then show ?case by simp
next
  case (step y)
  obtain g1 ls1 where y: "y = (g1, ls1)" by (cases y)
  have "gi g1 \<and> (\<forall>l \<in> set ls1. ti g1 l) \<and> (\<forall>k. gtok k g1 + sum_list (map (ltok k) ls1) = cap k)"
    using step.hyps(3) [OF y step.prems] .
  then show ?case
    using interleave_protocol [OF step.hyps(2) [unfolded y]] by blast
qed

text \<open>A resource with one unit is in one place.\<close>

lemma executes_one_holder:
  assumes ex: "executes tstep (g, ls) (g', ls')"
    and gi: "gi g" and ti: "\<forall>l \<in> set ls. ti g l"
    and total: "\<And>k. gtok k g + sum_list (map (ltok k) ls) = cap k" and one: "cap k \<le> 1"
    and i: "i < length ls'" and held: "ltok k (ls' ! i) > 0"
  shows "gtok k g' = 0 \<and> (\<forall>j < length ls'. j \<noteq> i \<longrightarrow> ltok k (ls' ! j) = 0)"
proof -
  have t: "gtok k g' + sum_list (map (ltok k) ls') \<le> 1"
    using executes_protocol [OF ex gi ti total] one by simp
  have "ltok k (ls' ! j) = 0" if "j < length ls'" "j \<noteq> i" for j
    using sum_list_map_two_le [OF i that(1), of "ltok k"] that(2) t held by simp
  moreover have "gtok k g' = 0"
    using sum_list_map_nth_le [OF i, of "ltok k"] t held by simp
  ultimately show ?thesis by blast
qed

end

text \<open>A thread that knows something of its own variables only.\<close>

locale token_systems =
  fixes tstep :: "'g \<Rightarrow> 'l \<Rightarrow> ('g \<times> 'l) option"
    and gi :: "'g \<Rightarrow> bool"
    and li :: "'l \<Rightarrow> bool"
    and gtok :: "'k \<Rightarrow> 'g \<Rightarrow> nat"
    and ltok :: "'k \<Rightarrow> 'l \<Rightarrow> nat"
    and cap :: "'k \<Rightarrow> nat"
  assumes keeps: "gi g \<Longrightarrow> li l \<Longrightarrow> (\<And>k. gtok k g + ltok k l \<le> cap k) \<Longrightarrow>
      tstep g l = Some (g', l') \<Longrightarrow>
      gi g' \<and> li l' \<and> (\<forall>k. gtok k g' + ltok k l' = gtok k g + ltok k l)"

sublocale token_systems \<subseteq> protocol: token_protocol tstep gi "\<lambda>_. li" gtok ltok cap
proof unfold_locales
  fix g l g' l'
  assume "gi g" "li l" "\<And>k. gtok k g + ltok k l \<le> cap k" "tstep g l = Some (g', l')"
  then show "gi g' \<and> li l' \<and> (\<forall>k. gtok k g' + ltok k l' = gtok k g + ltok k l)"
    by (rule keeps)
qed

context token_systems
begin

lemmas executes_all_tokens = protocol.executes_protocol

end

text \<open>One kind of token: no two threads hold the same unit; with \<open>cap = 1\<close> this is mutual
  exclusion.\<close>

locale token_system =
  fixes tstep :: "'g \<Rightarrow> 'l \<Rightarrow> ('g \<times> 'l) option"
    and gi :: "'g \<Rightarrow> bool"
    and li :: "'l \<Rightarrow> bool"
    and gtok :: "'g \<Rightarrow> nat"
    and ltok :: "'l \<Rightarrow> nat"
    and cap :: nat
  assumes keeps_gi: "gi g \<Longrightarrow> li l \<Longrightarrow> gtok g + ltok l \<le> cap \<Longrightarrow>
      tstep g l = Some (g', l') \<Longrightarrow> gi g'"
    and keeps_li: "gi g \<Longrightarrow> li l \<Longrightarrow> gtok g + ltok l \<le> cap \<Longrightarrow>
      tstep g l = Some (g', l') \<Longrightarrow> li l'"
    and conserves: "gi g \<Longrightarrow> li l \<Longrightarrow> gtok g + ltok l \<le> cap \<Longrightarrow>
      tstep g l = Some (g', l') \<Longrightarrow> gtok g' + ltok l' = gtok g + ltok l"

sublocale token_system \<subseteq> single: token_systems tstep gi li "\<lambda>_ :: unit. gtok" "\<lambda>_. ltok" "\<lambda>_. cap"
proof unfold_locales
  fix g l g' l'
  assume "gi g" "li l" "\<And>k :: unit. gtok g + ltok l \<le> cap" "tstep g l = Some (g', l')"
  then show "gi g' \<and> li l' \<and> (\<forall>k :: unit. gtok g' + ltok l' = gtok g + ltok l)"
    using keeps_gi [of g l g' l'] keeps_li [of g l g' l'] conserves [of g l g' l'] by simp
qed

context token_system
begin

lemma executes_tokens:
  assumes "executes tstep (g, ls) (g', ls')"
    and "gi g" and "\<forall>l \<in> set ls. li l"
    and "gtok g + sum_list (map ltok ls) = cap"
  shows "gi g' \<and> (\<forall>l \<in> set ls'. li l) \<and> gtok g' + sum_list (map ltok ls') = cap"
  using single.executes_all_tokens [OF assms] by blast

lemma executes_exclusive:
  assumes ex: "executes tstep (g, ls) (g', ls')"
    and gi: "gi g" and li: "\<forall>l \<in> set ls. li l"
    and total: "gtok g + sum_list (map ltok ls) = cap" and one: "cap = 1"
    and i: "i < length ls'" and j: "j < length ls'"
    and held: "ltok (ls' ! i) > 0" "ltok (ls' ! j) > 0"
  shows "i = j"
proof (rule ccontr)
  assume "i \<noteq> j"
  with i j have "ltok (ls' ! i) + ltok (ls' ! j) \<le> sum_list (map ltok ls')"
    by (rule sum_list_map_two_le)
  moreover have "sum_list (map ltok ls') \<le> 1"
    using executes_tokens [OF ex gi li total] one by simp
  ultimately show False using held by simp
qed

end

section \<open>Interface: protocols with auxiliary state\<close>

text \<open>
  A protocol of resources whose invariant speaks of auxiliary state: \<open>'a\<close> of the memory, \<open>'b\<close> of
  each thread.  Every step can be given a move of the auxiliary state of the memory and of the
  thread that makes it which keeps what all threads know.
\<close>

locale ghost_protocol =
  fixes tstep :: "'g \<Rightarrow> 'l \<Rightarrow> ('g \<times> 'l) option"
    and gi :: "'a \<Rightarrow> 'g \<Rightarrow> bool"
    and ti :: "'a \<Rightarrow> 'g \<Rightarrow> 'b \<times> 'l \<Rightarrow> bool"
    and gtok :: "'k \<Rightarrow> 'a \<Rightarrow> 'g \<Rightarrow> nat"
    and ltok :: "'k \<Rightarrow> 'b \<times> 'l \<Rightarrow> nat"
    and cap :: "'k \<Rightarrow> nat"
  assumes moves: "gi a g \<Longrightarrow> ti a g (b, l) \<Longrightarrow> (\<And>k. gtok k a g + ltok k (b, l) \<le> cap k) \<Longrightarrow>
      tstep g l = Some (g', l') \<Longrightarrow>
      \<exists>a' b'. gi a' g' \<and> ti a' g' (b', l') \<and>
        (\<forall>k. gtok k a' g' + ltok k (b', l') = gtok k a g + ltok k (b, l)) \<and>
        (\<forall>p. ti a g p \<longrightarrow> (\<forall>k. gtok k a g + ltok k (b, l) + ltok k p \<le> cap k) \<longrightarrow> ti a' g' p)"
begin

definition explained :: "'a \<Rightarrow> 'g \<Rightarrow> ('b \<times> 'l) list \<Rightarrow> bool" where
  "explained a g ps \<longleftrightarrow> gi a g \<and> (\<forall>p \<in> set ps. ti a g p) \<and>
     (\<forall>k. gtok k a g + sum_list (map (ltok k) ps) = cap k)"

lemma interleave_explained:
  assumes ex: "explained a g ps" and i: "i < length ps" and st: "tstep g (snd (ps ! i)) = Some (g', l')"
  shows "\<exists>a' b'. explained a' g' (ps[i := (b', l')])"
proof -
  obtain b l where p: "ps ! i = (b, l)" by (cases "ps ! i")
  have gi: "gi a g" and ti: "\<And>j. j < length ps \<Longrightarrow> ti a g (ps ! j)"
    and tok: "\<And>k. gtok k a g + sum_list (map (ltok k) ps) = cap k"
    using ex by (auto simp: explained_def)
  have le: "gtok k a g + ltok k (b, l) \<le> cap k" for k
    using tok [of k] sum_list_map_nth_le [OF i, of "ltok k"] p by simp
  obtain a' b' where step: "gi a' g'" "ti a' g' (b', l')"
    and same: "\<And>k. gtok k a' g' + ltok k (b', l') = gtok k a g + ltok k (b, l)"
    and others: "\<And>p. ti a g p \<Longrightarrow> (\<forall>k. gtok k a g + ltok k (b, l) + ltok k p \<le> cap k) \<Longrightarrow> ti a' g' p"
    using moves [OF gi _ le] ti [OF i] st p by (metis snd_conv)
  have "gtok k a' g' + sum_list (map (ltok k) (ps[i := (b', l')])) = cap k" for k
    using tok [of k] same [of k] sum_list_map_update [OF i, of "ltok k" "(b', l')"] p by simp
  moreover have "ti a' g' (ps[i := (b', l')] ! j)" if j: "j < length ps" for j
  proof (cases "j = i")
    case False
    have "gtok k a g + ltok k (b, l) + ltok k (ps ! j) \<le> cap k" for k
      using tok [of k] sum_list_map_two_le [OF i j, of "ltok k"] False p by simp
    then show ?thesis using others [OF ti [OF j]] False by simp
  qed (use step i in simp)
  ultimately have "explained a' g' (ps[i := (b', l')])"
    using step(1) by (simp add: explained_def all_set_conv_all_nth)
  then show ?thesis by blast
qed

lemma executes_explained:
  assumes "executes tstep (g, map snd ps) (g', ls')" and "explained a g ps"
  shows "\<exists>a' ps'. explained a' g' ps' \<and> ls' = map snd ps'"
  using assms
proof (induction "(g', ls')" arbitrary: g' ls' rule: rtranclp_induct)
  case base
  then show ?case by auto
next
  case (step y)
  obtain g1 ls1 where y: "y = (g1, ls1)" by (cases y)
  obtain a1 ps1 where ex: "explained a1 g1 ps1" and ls1: "ls1 = map snd ps1"
    using step.hyps(3) [OF y step.prems] by blast
  obtain i l' where i: "i < length ps1" and st: "tstep g1 (snd (ps1 ! i)) = Some (g', l')"
    and ls': "ls' = ls1[i := l']"
    using step.hyps(2) unfolding y ls1 by (auto elim!: interleave_cases)
  obtain a' b' where "explained a' g' (ps1[i := (b', l')])"
    using interleave_explained [OF ex i st] by blast
  moreover have "ls' = map snd (ps1[i := (b', l')])" by (simp add: ls' ls1 map_update)
  ultimately show ?case by blast
qed

end

section \<open>Labelled systems\<close>

text \<open>A system whose steps carry the choices of its environment: \<open>next a s\<close> is the state after
  action \<open>a\<close>, if that can happen in \<open>s\<close>.\<close>

definition acts :: "('a \<Rightarrow> 's \<Rightarrow> 's option) \<Rightarrow> 's \<Rightarrow> 's \<Rightarrow> bool" where
  "acts next s s' \<longleftrightarrow> (\<exists>a. next a s = Some s')"

abbreviation reaches :: "('a \<Rightarrow> 's \<Rightarrow> 's option) \<Rightarrow> 's \<Rightarrow> 's \<Rightarrow> bool" where
  "reaches next \<equiv> rtranclp (acts next)"

lemma reaches_step: "reaches nxt s t \<Longrightarrow> nxt a t = Some u \<Longrightarrow> reaches nxt s u"
  by (erule rtranclp.rtrancl_into_rtrancl) (auto simp only: acts_def)

fun run_acts :: "('a \<Rightarrow> 's \<Rightarrow> 's option) \<Rightarrow> 'a list \<Rightarrow> 's \<Rightarrow> 's option" where
  "run_acts next [] s = Some s"
| "run_acts next (a # as) s = (case next a s of None \<Rightarrow> None | Some s' \<Rightarrow> run_acts next as s')"

lemma run_acts_reaches: "run_acts next as s = Some s' \<Longrightarrow> reaches next s s'"
proof (induction as arbitrary: s)
  case (Cons a as)
  then obtain s1 where "next a s = Some s1" "run_acts next as s1 = Some s'"
    by (auto split: option.splits)
  then show ?case using Cons.IH
    by (blast intro: converse_rtranclp_into_rtranclp [of "acts next"] acts_def [THEN iffD2])
qed simp

locale labelled_invariant =
  fixes nxt :: "'a \<Rightarrow> 's \<Rightarrow> 's option"
    and inv :: "'s \<Rightarrow> bool"
  assumes keeps_inv: "inv s \<Longrightarrow> nxt a s = Some s' \<Longrightarrow> inv s'"
begin

lemma reachable: "reaches nxt s s' \<Longrightarrow> inv s \<Longrightarrow> inv s'"
  by (induction rule: rtranclp_induct) (auto simp: acts_def intro: keeps_inv)

end

section \<open>Signed counters\<close>

text \<open>A 32-bit counter read as signed, away from its ends.\<close>

lemma sint_increment:
  fixes x :: u32
  assumes "sint x + 1 < 2 ^ 31"
  shows "sint (x + 1) = sint x + 1"
proof -
  have "- (2 ^ 31) \<le> sint x" using sint_ge [of x] by simp
  then show ?thesis using assms
    by (simp add: sint_word_ariths signed_take_bit_int_eq_self)
qed

lemma of_nat_u32_eq: "j < 2 ^ 32 \<Longrightarrow> k < 2 ^ 32 \<Longrightarrow> (of_nat j :: u32) = of_nat k \<longleftrightarrow> j = k"
  by (simp add: word_of_nat_eq_iff take_bit_nat_eq_self)

lemma sint_decrement:
  fixes x :: u32
  assumes "- (2 ^ 31) < sint x"
  shows "sint (x - 1) = sint x - 1"
proof -
  have "sint x < 2 ^ 31" using sint_lt [of x] by simp
  then show ?thesis using assms
    by (simp add: sint_word_ariths signed_take_bit_int_eq_self)
qed

section \<open>Interface: simulation of threads\<close>

text \<open>
  Threads with the steps \<open>cstep\<close> implement threads with the steps \<open>astep\<close>: a step of a thread is
  a step of the abstract thread it stands for, or changes nothing there.  \<open>gi\<close> and \<open>ti\<close> are
  as in \<open>token_protocol\<close>.
\<close>

locale thread_simulation =
  fixes cstep :: "'g \<Rightarrow> 'l \<Rightarrow> ('g \<times> 'l) option"
    and astep :: "'a \<Rightarrow> 'b \<Rightarrow> ('a \<times> 'b) option"
    and absg :: "'g \<Rightarrow> 'a"
    and absl :: "'l \<Rightarrow> 'b"
    and gi :: "'g \<Rightarrow> bool"
    and ti :: "'g \<Rightarrow> 'l \<Rightarrow> bool"
  assumes keeps: "gi g \<Longrightarrow> ti g l \<Longrightarrow> cstep g l = Some (g', l') \<Longrightarrow> gi g' \<and> ti g' l'"
    and frame: "gi g \<Longrightarrow> ti g l \<Longrightarrow> ti g m \<Longrightarrow> cstep g l = Some (g', l') \<Longrightarrow> ti g' m"
    and simulates: "gi g \<Longrightarrow> ti g l \<Longrightarrow> cstep g l = Some (g', l') \<Longrightarrow>
      absg g' = absg g \<and> absl l' = absl l \<or> astep (absg g) (absl l) = Some (absg g', absl l')"
begin

lemma interleave_keeps:
  assumes "interleave cstep (g, ls) (g', ls')" and "gi g" and "\<forall>l \<in> set ls. ti g l"
  shows "gi g' \<and> (\<forall>l \<in> set ls'. ti g' l)"
proof -
  from assms(1) obtain i l' where i: "i < length ls" and st: "cstep g (ls ! i) = Some (g', l')"
    and ls': "ls' = ls[i := l']" by (auto elim: interleave_cases)
  have mine: "ti g (ls ! i)" using assms(3) i by simp
  have "ti g' (ls' ! j)" if "j < length ls'" for j
    using that i assms(3) keeps [OF assms(2) mine st] frame [OF assms(2) mine _ st, of "ls ! j"]
    by (auto simp: ls' nth_list_update)
  then show ?thesis using keeps [OF assms(2) mine st] by (auto simp: in_set_conv_nth)
qed

lemma executes_keeps:
  assumes "executes cstep (g, ls) (g', ls')" and "gi g" and "\<forall>l \<in> set ls. ti g l"
  shows "gi g' \<and> (\<forall>l \<in> set ls'. ti g' l)"
  using assms
proof (induction "(g', ls')" arbitrary: g' ls' rule: rtranclp_induct)
  case (step y)
  obtain g1 ls1 where y: "y = (g1, ls1)" by (cases y)
  show ?case using step.hyps(3) [OF y step.prems] interleave_keeps [OF step.hyps(2) [unfolded y]] by blast
qed blast

lemma executes_simulates:
  assumes "executes cstep (g, ls) (g', ls')" and "gi g" and "\<forall>l \<in> set ls. ti g l"
  shows "executes astep (absg g, map absl ls) (absg g', map absl ls')"
  using assms
proof (induction "(g', ls')" arbitrary: g' ls' rule: rtranclp_induct)
  case (step y)
  obtain g1 ls1 where y: "y = (g1, ls1)" by (cases y)
  have inv: "gi g1" "\<forall>l \<in> set ls1. ti g1 l"
    using executes_keeps [OF step.hyps(1) [unfolded y] step.prems] by blast+
  from step.hyps(2) [unfolded y] obtain i l' where i: "i < length ls1"
    and st: "cstep g1 (ls1 ! i) = Some (g', l')" and ls': "ls' = ls1[i := l']"
    by (auto elim: interleave_cases)
  have "absg g' = absg g1 \<and> absl l' = absl (ls1 ! i) \<or>
      astep (absg g1) (absl (ls1 ! i)) = Some (absg g', absl l')"
    using simulates [OF inv(1) _ st] inv(2) i by simp
  then have "executes astep (absg g1, map absl ls1) (absg g', map absl ls')"
  proof
    assume "absg g' = absg g1 \<and> absl l' = absl (ls1 ! i)"
    moreover have "map absl (ls1[i := l']) = map absl ls1"
      if "absl l' = absl (ls1 ! i)" by (metis that list_update_id map_update)
    ultimately show ?thesis by (simp add: ls')
  next
    assume "astep (absg g1) (absl (ls1 ! i)) = Some (absg g', absl l')"
    then have "interleave astep (absg g1, map absl ls1) (absg g', (map absl ls1)[i := absl l'])"
      using i by (intro interleave.thread) simp_all
    then show ?thesis by (simp add: ls' map_update r_into_rtranclp)
  qed
  then show ?case using step.hyps(3) [OF y step.prems] by (rule rtranclp_trans [rotated])
qed simp

end

end
