(* ===== verification/Atomic_Ops.thy ===== *)
theory Atomic_Ops
  imports Crunch_Prelude
begin

text \<open>
  The atomic operations: the GCC layer \<^verbatim>\<open>platform/linux/atomic_ops_x86.hpp\<close>, the MSVC layer
  \<^verbatim>\<open>platform/win32/atomic_ops_x86.hpp\<close> and the classes of \<^verbatim>\<open>atomic.hpp\<close> over them.

  An operation takes the contents of the memory cell and returns its result with the new
  contents.  The overloads for 8, 16, 32, 64 and 128 bits are one definition, polymorphic in
  the width of the word; where an overload is different code (the sequentially consistent
  stores) the definition tests the width.  The compiler builtins are the ones GCC and MSVC
  document: \<^verbatim>\<open>__sync_fetch_and_X\<close> returns the old value, \<^verbatim>\<open>_InterlockedIncrement\<close> the new one.
\<close>

section \<open>Orderings and fences\<close>

datatype memory_order =
    MEMORY_ORDER_RELAXED | MEMORY_ORDER_ACQUIRE | MEMORY_ORDER_RELEASE
  | MEMORY_ORDER_ACQ_REL | MEMORY_ORDER_SEQ_CST | MEMORY_ORDER_CONSUME

fun memory_order_value :: "memory_order \<Rightarrow> nat" where
  "memory_order_value MEMORY_ORDER_RELAXED = 0"
| "memory_order_value MEMORY_ORDER_ACQUIRE = 1"
| "memory_order_value MEMORY_ORDER_RELEASE = 2"
| "memory_order_value MEMORY_ORDER_ACQ_REL = 3"
| "memory_order_value MEMORY_ORDER_SEQ_CST = 7"
| "memory_order_value MEMORY_ORDER_CONSUME = 8"

text \<open>\<^verbatim>\<open>ordering & flag\<close>, as the code tests it.\<close>

definition order_has :: "memory_order \<Rightarrow> memory_order \<Rightarrow> bool" where
  "order_has mo flag \<longleftrightarrow> memory_order_value mo AND memory_order_value flag \<noteq> 0"

datatype arch = X86_32 | X86_64

text \<open>What one operation does to the instruction stream, in order.\<close>

datatype access = CompilerFence | MemoryFence | PlainAccess | LockedAccess

section \<open>The GCC layer\<close>

subsection \<open>Compiler builtins\<close>

definition sync_lock_test_and_set :: "'w::len word \<Rightarrow> 'w word \<Rightarrow> 'w word \<times> 'w word" where
  "sync_lock_test_and_set dst src = (dst, src)"

definition sync_val_compare_and_swap ::
  "'w::len word \<Rightarrow> 'w word \<Rightarrow> 'w word \<Rightarrow> 'w word \<times> 'w word" where
  "sync_val_compare_and_swap dst cmp src = (dst, if dst = cmp then src else dst)"

definition sync_fetch_and :: "('w::len word \<Rightarrow> 'w word) \<Rightarrow> 'w word \<Rightarrow> 'w word \<times> 'w word" where
  "sync_fetch_and f dst = (dst, f dst)"

subsection \<open>Loads and stores\<close>

definition Detail_AtomicLoad :: "'w::len word \<Rightarrow> 'w word \<times> access list" where
  "Detail_AtomicLoad src = (src, [PlainAccess])"

definition Detail_AtomicStore :: "'w::len word \<Rightarrow> 'w word \<Rightarrow> 'w word \<times> access list" where
  "Detail_AtomicStore dst src = (src, [PlainAccess])"

text \<open>32-bit stores, and 64-bit stores in 64-bit code, are an exchange; the others a store
  between two fences.\<close>

definition AtomicStoreSeqCst :: "arch \<Rightarrow> 'w::len word \<Rightarrow> 'w word \<Rightarrow> 'w word \<times> access list" where
  "AtomicStoreSeqCst arch dst src =
     (if LENGTH('w) = 32 \<or> LENGTH('w) = 64 \<and> arch = X86_64
      then (snd (sync_lock_test_and_set dst src), [LockedAccess])
      else (fst (Detail_AtomicStore dst src),
            [MemoryFence] @ snd (Detail_AtomicStore dst src) @ [MemoryFence]))"

definition AtomicLoad :: "'w::len word \<Rightarrow> memory_order \<Rightarrow> 'w word \<times> access list" where
  "AtomicLoad src mo =
     (let before = (if mo = MEMORY_ORDER_SEQ_CST then [CompilerFence] else []);
          (result, acc) = Detail_AtomicLoad src;
          after = (if order_has mo MEMORY_ORDER_ACQUIRE then [CompilerFence] else [])
      in (result, before @ acc @ after))"

definition AtomicStore ::
  "arch \<Rightarrow> 'w::len word \<Rightarrow> 'w word \<Rightarrow> memory_order \<Rightarrow> 'w word \<times> access list" where
  "AtomicStore arch dst src mo =
     (if mo = MEMORY_ORDER_SEQ_CST then AtomicStoreSeqCst arch dst src
      else let before = (if order_has mo MEMORY_ORDER_RELEASE then [CompilerFence] else []);
               (dst', acc) = Detail_AtomicStore dst src
           in (dst', before @ acc))"

subsection \<open>Read-modify-write\<close>

definition AtomicSwap :: "'w::len word \<Rightarrow> 'w word \<Rightarrow> 'w word \<times> 'w word" where
  "AtomicSwap dst src = sync_lock_test_and_set dst src"

text \<open>Returns whether it swapped, the new value of the reference \<^verbatim>\<open>cmp\<close>, and the new contents.\<close>

definition AtomicCompareAndSwap ::
  "'w::len word \<Rightarrow> 'w word \<Rightarrow> 'w word \<Rightarrow> bool \<times> 'w word \<times> 'w word" where
  "AtomicCompareAndSwap dst cmp src =
     (let cmp0 = cmp;
          (cmp', dst') = sync_val_compare_and_swap dst cmp src
      in (cmp' = cmp0, cmp', dst'))"

definition AtomicIncrement :: "'w::len word \<Rightarrow> 'w word \<times> 'w word" where
  "AtomicIncrement addend = sync_fetch_and (\<lambda>x. x + 1) addend"

definition AtomicDecrement :: "'w::len word \<Rightarrow> 'w word \<times> 'w word" where
  "AtomicDecrement addend = sync_fetch_and (\<lambda>x. x - 1) addend"

definition AtomicAdd :: "'w::len word \<Rightarrow> 'w word \<Rightarrow> 'w word \<times> 'w word" where
  "AtomicAdd addend value = sync_fetch_and (\<lambda>x. x + value) addend"

definition AtomicSub :: "'w::len word \<Rightarrow> 'w word \<Rightarrow> 'w word \<times> 'w word" where
  "AtomicSub addend value = sync_fetch_and (\<lambda>x. x - value) addend"

definition AtomicAnd :: "'w::len word \<Rightarrow> 'w word \<Rightarrow> 'w word \<times> 'w word" where
  "AtomicAnd value msk = sync_fetch_and (\<lambda>x. x AND msk) value"

definition AtomicOr :: "'w::len word \<Rightarrow> 'w word \<Rightarrow> 'w word \<times> 'w word" where
  "AtomicOr value msk = sync_fetch_and (\<lambda>x. x OR msk) value"

definition AtomicXor :: "'w::len word \<Rightarrow> 'w word \<Rightarrow> 'w word \<times> 'w word" where
  "AtomicXor value msk = sync_fetch_and (\<lambda>x. x XOR msk) value"

lemmas builtin_defs =
  sync_lock_test_and_set_def sync_val_compare_and_swap_def sync_fetch_and_def

lemmas linux_defs =
  AtomicSwap_def AtomicCompareAndSwap_def AtomicIncrement_def AtomicDecrement_def
  AtomicAdd_def AtomicSub_def AtomicAnd_def AtomicOr_def AtomicXor_def builtin_defs

lemma AtomicCompareAndSwap_same [step_simps]:
  "AtomicCompareAndSwap dst dst src = (True, dst, src)"
  by (simp add: linux_defs)

lemma AtomicCompareAndSwap_other [step_simps]:
  "dst \<noteq> cmp \<Longrightarrow> AtomicCompareAndSwap dst cmp src = (False, dst, dst)"
  by (simp add: linux_defs)

lemma AtomicCompareAndSwap_if:
  "AtomicCompareAndSwap dst cmp src = (if dst = cmp then (True, dst, src) else (False, dst, dst))"
  by (simp add: linux_defs)

section \<open>The MSVC layer\<close>

subsection \<open>Compiler intrinsics\<close>

definition InterlockedExchange :: "'w::len word \<Rightarrow> 'w word \<Rightarrow> 'w word \<times> 'w word" where
  "InterlockedExchange dst src = (dst, src)"

text \<open>The destination, the exchange value, the comparand: the intrinsic's argument order.\<close>

definition InterlockedCompareExchange ::
  "'w::len word \<Rightarrow> 'w word \<Rightarrow> 'w word \<Rightarrow> 'w word \<times> 'w word" where
  "InterlockedCompareExchange dst src cmp = (dst, if dst = cmp then src else dst)"

definition InterlockedIncrement :: "'w::len word \<Rightarrow> 'w word \<times> 'w word" where
  "InterlockedIncrement dst = (dst + 1, dst + 1)"

definition InterlockedDecrement :: "'w::len word \<Rightarrow> 'w word \<times> 'w word" where
  "InterlockedDecrement dst = (dst - 1, dst - 1)"

definition InterlockedExchangeAdd :: "'w::len word \<Rightarrow> 'w word \<Rightarrow> 'w word \<times> 'w word" where
  "InterlockedExchangeAdd dst value = (dst, dst + value)"

definition InterlockedBitwise ::
  "('w::len word \<Rightarrow> 'w word \<Rightarrow> 'w word) \<Rightarrow> 'w word \<Rightarrow> 'w word \<Rightarrow> 'w word \<times> 'w word" where
  "InterlockedBitwise f dst msk = (dst, f dst msk)"

subsection \<open>The 64-bit fallback of 32-bit code\<close>

text \<open>
  \<^verbatim>\<open>FallbackAtomicOp\<close> loops: read the cell, try to exchange it against the value the operation
  gives, take the current value as the next guess on failure.  One step is one access to the
  cell.
\<close>

datatype 'v fallback =
    FbStart
  | FbTry 'v \<comment> \<open>\<^verbatim>\<open>oldValue\<close>\<close>
  | FbDone 'v \<comment> \<open>the value returned\<close>

fun fallback_step ::
  "('w::len word \<Rightarrow> 'w word) \<Rightarrow> 'w word \<Rightarrow> 'w word fallback \<Rightarrow>
   ('w word \<times> 'w word fallback) option" where
  "fallback_step op value FbStart = Some (value, FbTry value)"
| "fallback_step op value (FbTry oldValue) =
     (let newValue = op oldValue;
          (currentValue, value') = InterlockedCompareExchange value newValue oldValue
      in Some (value', if currentValue = oldValue then FbDone oldValue else FbTry currentValue))"
| "fallback_step op value (FbDone r) = None"

text \<open>The loop run without interference.\<close>

definition FallbackAtomicOp :: "'w::len word \<Rightarrow> ('w word \<Rightarrow> 'w word) \<Rightarrow> 'w word \<times> 'w word" where
  "FallbackAtomicOp value op =
     (case run_solo (fallback_step op) 2 (value, FbStart) of
        Some (value', FbDone r) \<Rightarrow> (r, value')
      | _ \<Rightarrow> (value, value))"

lemma FallbackAtomicOp_eq: "FallbackAtomicOp value op = (value, op value)"
  by (simp add: FallbackAtomicOp_def numeral_2_eq_2 InterlockedCompareExchange_def)

subsection \<open>The operations\<close>

text \<open>64-bit operations of 32-bit code go through the fallback.\<close>

definition needs_fallback :: "arch \<Rightarrow> nat \<Rightarrow> bool" where
  "needs_fallback arch width \<longleftrightarrow> arch = X86_32 \<and> width = 64"

definition Win32_AtomicStoreSeqCst ::
  "arch \<Rightarrow> 'w::len word \<Rightarrow> 'w word \<Rightarrow> 'w word \<times> access list" where
  "Win32_AtomicStoreSeqCst arch dst src =
     (if LENGTH('w) = 32 \<or> LENGTH('w) = 64 \<and> arch = X86_64
      then (snd (InterlockedExchange dst src), [LockedAccess])
      else (src, [MemoryFence, PlainAccess, MemoryFence]))"

definition Win32_AtomicLoad :: "'w::len word \<Rightarrow> memory_order \<Rightarrow> 'w word \<times> access list" where
  "Win32_AtomicLoad src mo =
     (src, (if mo = MEMORY_ORDER_SEQ_CST then [CompilerFence] else [])
           @ [PlainAccess]
           @ (if order_has mo MEMORY_ORDER_ACQUIRE then [CompilerFence] else []))"

definition Win32_AtomicStore ::
  "arch \<Rightarrow> 'w::len word \<Rightarrow> 'w word \<Rightarrow> memory_order \<Rightarrow> 'w word \<times> access list" where
  "Win32_AtomicStore arch dst src mo =
     (if mo = MEMORY_ORDER_SEQ_CST then Win32_AtomicStoreSeqCst arch dst src
      else (src, (if order_has mo MEMORY_ORDER_RELEASE then [CompilerFence] else [])
                 @ [PlainAccess]))"

definition Win32_AtomicSwap :: "arch \<Rightarrow> 'w::len word \<Rightarrow> 'w word \<Rightarrow> 'w word \<times> 'w word" where
  "Win32_AtomicSwap arch dst src =
     (if needs_fallback arch LENGTH('w) then FallbackAtomicOp dst (\<lambda>_. src)
      else InterlockedExchange dst src)"

definition Win32_AtomicCompareAndSwap ::
  "'w::len word \<Rightarrow> 'w word \<Rightarrow> 'w word \<Rightarrow> bool \<times> 'w word \<times> 'w word" where
  "Win32_AtomicCompareAndSwap dst cmp src =
     (let cmp0 = cmp;
          (cmp', dst') = InterlockedCompareExchange dst src cmp
      in (cmp0 = cmp', cmp', dst'))"

definition Win32_AtomicIncrement :: "arch \<Rightarrow> 'w::len word \<Rightarrow> 'w word \<times> 'w word" where
  "Win32_AtomicIncrement arch addend =
     (if needs_fallback arch LENGTH('w) then FallbackAtomicOp addend (\<lambda>x. x + 1)
      else let (r, addend') = InterlockedIncrement addend in (r - 1, addend'))"

definition Win32_AtomicDecrement :: "arch \<Rightarrow> 'w::len word \<Rightarrow> 'w word \<times> 'w word" where
  "Win32_AtomicDecrement arch addend =
     (if needs_fallback arch LENGTH('w) then FallbackAtomicOp addend (\<lambda>x. x - 1)
      else let (r, addend') = InterlockedDecrement addend in (r + 1, addend'))"

definition Win32_AtomicAdd :: "arch \<Rightarrow> 'w::len word \<Rightarrow> 'w word \<Rightarrow> 'w word \<times> 'w word" where
  "Win32_AtomicAdd arch addend value =
     (if needs_fallback arch LENGTH('w) then FallbackAtomicOp addend (\<lambda>x. x + value)
      else InterlockedExchangeAdd addend value)"

definition Win32_AtomicSub :: "arch \<Rightarrow> 'w::len word \<Rightarrow> 'w word \<Rightarrow> 'w word \<times> 'w word" where
  "Win32_AtomicSub arch addend value =
     (if needs_fallback arch LENGTH('w) then FallbackAtomicOp addend (\<lambda>x. x - value)
      else InterlockedExchangeAdd addend (- value))"

definition Win32_AtomicAnd :: "arch \<Rightarrow> 'w::len word \<Rightarrow> 'w word \<Rightarrow> 'w word \<times> 'w word" where
  "Win32_AtomicAnd arch value msk =
     (if needs_fallback arch LENGTH('w) then FallbackAtomicOp value (\<lambda>x. x AND msk)
      else InterlockedBitwise (AND) value msk)"

definition Win32_AtomicOr :: "arch \<Rightarrow> 'w::len word \<Rightarrow> 'w word \<Rightarrow> 'w word \<times> 'w word" where
  "Win32_AtomicOr arch value msk =
     (if needs_fallback arch LENGTH('w) then FallbackAtomicOp value (\<lambda>x. x OR msk)
      else InterlockedBitwise (OR) value msk)"

definition Win32_AtomicXor :: "arch \<Rightarrow> 'w::len word \<Rightarrow> 'w word \<Rightarrow> 'w word \<times> 'w word" where
  "Win32_AtomicXor arch value msk =
     (if needs_fallback arch LENGTH('w) then FallbackAtomicOp value (\<lambda>x. x XOR msk)
      else InterlockedBitwise (XOR) value msk)"

lemmas win32_defs =
  Win32_AtomicSwap_def Win32_AtomicCompareAndSwap_def Win32_AtomicIncrement_def
  Win32_AtomicDecrement_def Win32_AtomicAdd_def Win32_AtomicSub_def Win32_AtomicAnd_def
  Win32_AtomicOr_def Win32_AtomicXor_def InterlockedExchange_def
  InterlockedCompareExchange_def InterlockedIncrement_def InterlockedDecrement_def
  InterlockedExchangeAdd_def InterlockedBitwise_def FallbackAtomicOp_eq

section \<open>The classes of atomic.hpp\<close>

text \<open>
  \<^verbatim>\<open>Atomic<T>\<close> holds one cell of the word type.  \<^verbatim>\<open>AtomicBase\<close> and \<^verbatim>\<open>AtomicIntegerBase\<close> convert
  between \<^verbatim>\<open>T\<close> and the word through a union; the specialisations for \<^verbatim>\<open>T\<close> = \<^verbatim>\<open>W\<close> pass the value
  on.  An operation of the object is a constructor, its result what the method returns.
\<close>

datatype 't atomic_call =
    Load | Store 't | Swap 't | CompareAndSwap 't 't
  | Increment | Decrement | Add 't | Sub 't | And 't | Or 't | Xor 't

datatype 't atomic_result = Unit | Value 't | Swapped bool 't

text \<open>The union: written as a \<^verbatim>\<open>T\<close>, read as a word, and back.\<close>

locale converter =
  fixes to_bits :: "'t \<Rightarrow> 'w::len word" and of_bits :: "'w word \<Rightarrow> 't"
  assumes of_to_bits: "of_bits (to_bits v) = v"
begin

lemma to_bits_inject: "to_bits v = to_bits v' \<longleftrightarrow> v = v'"
  by (metis of_to_bits)

end

text \<open>For which widths the GCC layer has the operation; a call without one does not
  compile.\<close>

fun has_overload :: "arch \<Rightarrow> 't atomic_call \<Rightarrow> nat \<Rightarrow> bool" where
  "has_overload arch Load n \<longleftrightarrow> n \<in> {8, 16, 32, 64} \<or> n = 128 \<and> arch = X86_64"
| "has_overload arch (Store _) n \<longleftrightarrow> n \<in> {8, 16, 32, 64} \<or> n = 128 \<and> arch = X86_64"
| "has_overload arch (Swap _) n \<longleftrightarrow> n = 32 \<or> n = 64 \<and> arch = X86_64"
| "has_overload arch (CompareAndSwap _ _) n \<longleftrightarrow>
     n \<in> {16, 32, 64} \<or> n = 128 \<and> arch = X86_64"
| "has_overload arch Increment n \<longleftrightarrow> n \<in> {16, 32} \<or> n = 64 \<and> arch = X86_64"
| "has_overload arch Decrement n \<longleftrightarrow> n \<in> {16, 32} \<or> n = 64 \<and> arch = X86_64"
| "has_overload arch (Add _) n \<longleftrightarrow> n = 32 \<or> n = 64 \<and> arch = X86_64"
| "has_overload arch (Sub _) n \<longleftrightarrow> n = 32 \<or> n = 64 \<and> arch = X86_64"
| "has_overload arch _ n \<longleftrightarrow> n \<in> {8, 16, 32} \<or> n = 64 \<and> arch = X86_64"

definition with_overload :: "arch \<Rightarrow> 't atomic_call \<Rightarrow> nat \<Rightarrow> 'r option \<Rightarrow> 'r option" where
  "with_overload arch c n r = (if has_overload arch c n then r else None)"

fun AtomicBase_call ::
  "arch \<Rightarrow> memory_order \<Rightarrow> ('t \<Rightarrow> 'w::len word) \<Rightarrow> ('w word \<Rightarrow> 't) \<Rightarrow> 't atomic_call \<Rightarrow> 'w word \<Rightarrow>
   ('t atomic_result \<times> 'w word) option" where
  "AtomicBase_call arch mo to_bits of_bits (Store value) bits =
     with_overload arch (Store value) LENGTH('w)
       (Some (Unit, fst (AtomicStore arch bits (to_bits value) mo)))"
| "AtomicBase_call arch mo to_bits of_bits Load bits =
     with_overload arch (Load :: 't atomic_call) LENGTH('w)
       (Some (Value (of_bits (fst (AtomicLoad bits mo))), bits))"
| "AtomicBase_call arch mo to_bits of_bits (Swap src) bits =
     with_overload arch (Swap src) LENGTH('w)
       (let (r, bits') = AtomicSwap bits (to_bits src)
        in Some (Value (of_bits r), bits'))"
| "AtomicBase_call arch mo to_bits of_bits (CompareAndSwap cmp src) bits =
     with_overload arch (CompareAndSwap cmp src) LENGTH('w)
       (let (result, cmp0, bits') = AtomicCompareAndSwap bits (to_bits cmp) (to_bits src)
        in Some (Swapped result (of_bits cmp0), bits'))"
| "AtomicBase_call arch mo to_bits of_bits _ bits = None"

fun AtomicIntegerBase_call ::
  "arch \<Rightarrow> memory_order \<Rightarrow> ('t \<Rightarrow> 'w::len word) \<Rightarrow> ('w word \<Rightarrow> 't) \<Rightarrow> 't atomic_call \<Rightarrow> 'w word \<Rightarrow>
   ('t atomic_result \<times> 'w word) option" where
  "AtomicIntegerBase_call arch mo to_bits of_bits Increment bits =
     with_overload arch (Increment :: 't atomic_call) LENGTH('w)
       (let (r, bits') = AtomicIncrement bits
        in Some (Value (of_bits r), bits'))"
| "AtomicIntegerBase_call arch mo to_bits of_bits Decrement bits =
     with_overload arch (Decrement :: 't atomic_call) LENGTH('w)
       (let (r, bits') = AtomicDecrement bits
        in Some (Value (of_bits r), bits'))"
| "AtomicIntegerBase_call arch mo to_bits of_bits (Add value) bits =
     with_overload arch (Add value) LENGTH('w)
       (let (r, bits') = AtomicAdd bits (to_bits value)
        in Some (Value (of_bits r), bits'))"
| "AtomicIntegerBase_call arch mo to_bits of_bits (Sub value) bits =
     with_overload arch (Sub value) LENGTH('w)
       (let (r, bits') = AtomicSub bits (to_bits value)
        in Some (Value (of_bits r), bits'))"
| "AtomicIntegerBase_call arch mo to_bits of_bits (And msk) bits =
     with_overload arch (And msk) LENGTH('w)
       (let (r, bits') = AtomicAnd bits (to_bits msk)
        in Some (Value (of_bits r), bits'))"
| "AtomicIntegerBase_call arch mo to_bits of_bits (Or msk) bits =
     with_overload arch (Or msk) LENGTH('w)
       (let (r, bits') = AtomicOr bits (to_bits msk)
        in Some (Value (of_bits r), bits'))"
| "AtomicIntegerBase_call arch mo to_bits of_bits (Xor msk) bits =
     with_overload arch (Xor msk) LENGTH('w)
       (let (r, bits') = AtomicXor bits (to_bits msk)
        in Some (Value (of_bits r), bits'))"
| "AtomicIntegerBase_call arch mo to_bits of_bits c bits = AtomicBase_call arch mo to_bits of_bits c bits"

text \<open>The specialisations \<^verbatim>\<open>AtomicBase<T, T>\<close> and \<^verbatim>\<open>AtomicIntegerBase<T, T>\<close>.\<close>

fun AtomicBase_same :: "arch \<Rightarrow> memory_order \<Rightarrow> 'w::len word atomic_call \<Rightarrow> 'w word \<Rightarrow>
   ('w word atomic_result \<times> 'w word) option" where
  "AtomicBase_same arch mo (Store value) bits =
     with_overload arch (Store value) LENGTH('w)
       (Some (Unit, fst (AtomicStore arch bits value mo)))"
| "AtomicBase_same arch mo Load bits =
     with_overload arch (Load :: 'w word atomic_call) LENGTH('w)
       (Some (Value (fst (AtomicLoad bits mo)), bits))"
| "AtomicBase_same arch mo (Swap src) bits =
     with_overload arch (Swap src) LENGTH('w)
       (let (r, bits') = AtomicSwap bits src
        in Some (Value r, bits'))"
| "AtomicBase_same arch mo (CompareAndSwap cmp src) bits =
     with_overload arch (CompareAndSwap cmp src) LENGTH('w)
       (let (result, cmp', bits') = AtomicCompareAndSwap bits cmp src
        in Some (Swapped result cmp', bits'))"
| "AtomicBase_same arch mo _ bits = None"

fun AtomicIntegerBase_same :: "arch \<Rightarrow> memory_order \<Rightarrow> 'w::len word atomic_call \<Rightarrow> 'w word \<Rightarrow>
   ('w word atomic_result \<times> 'w word) option" where
  "AtomicIntegerBase_same arch mo Increment bits =
     with_overload arch (Increment :: 'w word atomic_call) LENGTH('w)
       (let (r, bits') = AtomicIncrement bits
        in Some (Value r, bits'))"
| "AtomicIntegerBase_same arch mo Decrement bits =
     with_overload arch (Decrement :: 'w word atomic_call) LENGTH('w)
       (let (r, bits') = AtomicDecrement bits
        in Some (Value r, bits'))"
| "AtomicIntegerBase_same arch mo (Add value) bits =
     with_overload arch (Add value) LENGTH('w)
       (let (r, bits') = AtomicAdd bits value
        in Some (Value r, bits'))"
| "AtomicIntegerBase_same arch mo (Sub value) bits =
     with_overload arch (Sub value) LENGTH('w)
       (let (r, bits') = AtomicSub bits value
        in Some (Value r, bits'))"
| "AtomicIntegerBase_same arch mo (And msk) bits =
     with_overload arch (And msk) LENGTH('w)
       (let (r, bits') = AtomicAnd bits msk
        in Some (Value r, bits'))"
| "AtomicIntegerBase_same arch mo (Or msk) bits =
     with_overload arch (Or msk) LENGTH('w)
       (let (r, bits') = AtomicOr bits msk
        in Some (Value r, bits'))"
| "AtomicIntegerBase_same arch mo (Xor msk) bits =
     with_overload arch (Xor msk) LENGTH('w)
       (let (r, bits') = AtomicXor bits msk
        in Some (Value r, bits'))"
| "AtomicIntegerBase_same arch mo c bits = AtomicBase_same arch mo c bits"

text \<open>The constructor of \<^verbatim>\<open>Atomic<T>\<close> from a value, in memory that holds \<open>bits\<close>, and the free
  function, which returns a \<^verbatim>\<open>T\<close>: the answer of \<^verbatim>\<open>CompareAndSwap\<close>, a \<^verbatim>\<open>bool\<close>, converted; with the new
  value of \<^verbatim>\<open>cmp\<close> and of the cell.\<close>

definition Atomic_construct :: "arch \<Rightarrow> memory_order \<Rightarrow> 'w::len word \<Rightarrow> 'w word \<Rightarrow> 'w word option" where
  "Atomic_construct arch mo value bits = map_option snd (AtomicBase_same arch mo (Store value) bits)"

definition AtomicCompareAndSwap_of ::
  "arch \<Rightarrow> memory_order \<Rightarrow> 'w::len word \<Rightarrow> 'w word \<Rightarrow> 'w word \<Rightarrow> ('w word \<times> 'w word \<times> 'w word) option" where
  "AtomicCompareAndSwap_of arch mo dst cmp src =
     (case AtomicBase_same arch mo (CompareAndSwap cmp src) dst of
        Some (Swapped result cmp', dst') \<Rightarrow> Some (if result then 1 else 0, cmp', dst')
      | _ \<Rightarrow> None)"

text \<open>The operators of \<^verbatim>\<open>Atomic<T>\<close> for integers, as they are written: both decrement operators
  call \<^verbatim>\<open>Increment\<close>.\<close>

datatype 'v atomic_operator =
  PreIncrement | PostIncrement | PreDecrement | PostDecrement
  | PlusAssign 'v | MinusAssign 'v

fun Atomic_operator :: "'w::len word atomic_operator \<Rightarrow> 'w word \<Rightarrow> 'w word \<times> 'w word" where
  "Atomic_operator PreIncrement bits = (let (r, bits') = AtomicIncrement bits in (r + 1, bits'))"
| "Atomic_operator PostIncrement bits = AtomicIncrement bits"
| "Atomic_operator PreDecrement bits = (let (r, bits') = AtomicIncrement bits in (r - 1, bits'))"
| "Atomic_operator PostDecrement bits = AtomicIncrement bits"
| "Atomic_operator (PlusAssign value) bits =
     (let (r, bits') = AtomicAdd bits value in (r + value, bits'))"
| "Atomic_operator (MinusAssign value) bits =
     (let (r, bits') = AtomicSub bits value in (r - value, bits'))"

text \<open>What the operators are for: the result and the new value of the built-in type.\<close>

fun builtin_operator :: "'w::len word atomic_operator \<Rightarrow> 'w word \<Rightarrow> 'w word \<times> 'w word" where
  "builtin_operator PreIncrement x = (x + 1, x + 1)"
| "builtin_operator PostIncrement x = (x, x + 1)"
| "builtin_operator PreDecrement x = (x - 1, x - 1)"
| "builtin_operator PostDecrement x = (x, x - 1)"
| "builtin_operator (PlusAssign v) x = (x + v, x + v)"
| "builtin_operator (MinusAssign v) x = (x - v, x - v)"

interpretation word_converter: converter "\<lambda>v :: 'w::len word. v" "\<lambda>v. v"
  by unfold_locales simp

text \<open>\<^verbatim>\<open>Atomic<bool>\<close> keeps its value in an 8-bit word.\<close>

definition bool_to_bits :: "bool \<Rightarrow> u8" where
  "bool_to_bits b = (if b then 1 else 0)"

definition bool_of_bits :: "u8 \<Rightarrow> bool" where
  "bool_of_bits w \<longleftrightarrow> w \<noteq> 0"

interpretation bool_converter: converter bool_to_bits bool_of_bits
  by unfold_locales (simp add: bool_to_bits_def bool_of_bits_def)

section \<open>Properties\<close>

text \<open>Every MSVC operation, fallback included, has the result and the effect of its GCC
  counterpart.\<close>

lemma win32_linux_rmw:
  "Win32_AtomicSwap arch dst src = AtomicSwap dst src"
  "Win32_AtomicCompareAndSwap dst cmp src = AtomicCompareAndSwap dst cmp src"
  "Win32_AtomicIncrement arch dst = AtomicIncrement dst"
  "Win32_AtomicDecrement arch dst = AtomicDecrement dst"
  "Win32_AtomicAdd arch dst src = AtomicAdd dst src"
  "Win32_AtomicSub arch dst src = AtomicSub dst src"
  "Win32_AtomicAnd arch dst src = AtomicAnd dst src"
  "Win32_AtomicOr arch dst src = AtomicOr dst src"
  "Win32_AtomicXor arch dst src = AtomicXor dst src"
  by (simp_all add: win32_defs linux_defs eq_commute)

lemma win32_linux_load_store:
  "Win32_AtomicLoad dst mo = AtomicLoad dst mo"
  "Win32_AtomicStore arch dst src mo = AtomicStore arch dst src mo"
  by (simp_all add: Win32_AtomicLoad_def AtomicLoad_def Win32_AtomicStore_def AtomicStore_def
      Detail_AtomicLoad_def Detail_AtomicStore_def Win32_AtomicStoreSeqCst_def
      AtomicStoreSeqCst_def InterlockedExchange_def builtin_defs)

text \<open>One step of the fallback loop either leaves the cell alone or is the operation.\<close>

lemma fallback_step_effect:
  assumes "fallback_step op value l = Some (value', l')"
  shows "(value' = value \<and> (\<nexists>r. l' = FbDone r)) \<or> (value' = op value \<and> l' = FbDone value)"
  using assms by (cases l) (auto simp: InterlockedCompareExchange_def split: if_splits)

text \<open>How many threads have completed.\<close>

fun fb_done :: "'v fallback \<Rightarrow> nat" where
  "fb_done (FbDone r) = 1"
| "fb_done _ = 0"

lemma fallback_step_count:
  assumes "fallback_step (\<lambda>x. x + d) value l = Some (value', l')"
  shows "value' + of_nat (fb_done l) * d = value + of_nat (fb_done l') * d"
  using assms
  by (cases l) (auto simp: InterlockedCompareExchange_def split: if_splits)

lemma fallback_interleave_count:
  assumes "interleave (fallback_step (\<lambda>x. x + d)) (v, ls) (v', ls')"
  shows "v' + of_nat (sum_list (map fb_done ls)) * d = v + of_nat (sum_list (map fb_done ls')) * d"
proof -
  obtain i l' where i: "i < length ls"
    and st: "fallback_step (\<lambda>x. x + d) v (ls ! i) = Some (v', l')" and ls': "ls' = ls[i := l']"
    using assms by (auto elim: interleave_cases)
  have "sum_list (map fb_done ls') + fb_done (ls ! i) = sum_list (map fb_done ls) + fb_done l'"
    unfolding ls' using i by (rule sum_list_map_update)
  then have sums: "of_nat (sum_list (map fb_done ls'))
      = of_nat (sum_list (map fb_done ls)) + of_nat (fb_done l') - (of_nat (fb_done (ls ! i)) :: 'a word)"
    by (metis add_diff_cancel_right' of_nat_add)
  have "v' = v + of_nat (fb_done l') * d - of_nat (fb_done (ls ! i)) * d"
    using fallback_step_count [OF st] by (simp add: eq_diff_eq)
  then show ?thesis by (simp add: sums algebra_simps)
qed

lemma fallback_executes_count:
  assumes "executes (fallback_step (\<lambda>x. x + d)) (v, ls) (v', ls')"
  shows "v' + of_nat (sum_list (map fb_done ls)) * d = v + of_nat (sum_list (map fb_done ls')) * d"
  using assms
proof (induction "(v', ls')" arbitrary: v' ls' rule: rtranclp_induct)
  case base
  then show ?case by simp
next
  case (step y)
  obtain v1 ls1 where y: "y = (v1, ls1)" by (cases y)
  note IH = step.hyps(3) [OF y]
  note st = fallback_interleave_count [OF step.hyps(2) [unfolded y]]
  have "v' + of_nat (sum_list (map fb_done ls)) * d + of_nat (sum_list (map fb_done ls1)) * d
      = v1 + of_nat (sum_list (map fb_done ls')) * d + of_nat (sum_list (map fb_done ls)) * d"
    using st by (simp add: add.assoc add.commute add.left_commute)
  also have "\<dots> = v + of_nat (sum_list (map fb_done ls1)) * d + of_nat (sum_list (map fb_done ls')) * d"
    using IH by (simp add: add.assoc add.commute add.left_commute)
  finally show ?case by (simp add: add.assoc add.commute add.left_commute)
qed

text \<open>Claim C35.
  The two platform layers agree: every MSVC operation, with its adjustments of what the
  \<^verbatim>\<open>_Interlocked\<close> functions return and its fallback for 64-bit words in 32-bit code, returns the
  same value and leaves the same memory as the GCC operation of that name, for every width, and
  loads and stores have the same fences in the same places.\<close>

theorem platform_layers_agree:
  "Win32_AtomicSwap arch dst src = AtomicSwap dst src \<and>
   Win32_AtomicCompareAndSwap dst cmp src = AtomicCompareAndSwap dst cmp src \<and>
   Win32_AtomicIncrement arch dst = AtomicIncrement dst \<and>
   Win32_AtomicDecrement arch dst = AtomicDecrement dst \<and>
   Win32_AtomicAdd arch dst src = AtomicAdd dst src \<and>
   Win32_AtomicSub arch dst src = AtomicSub dst src \<and>
   Win32_AtomicAnd arch dst src = AtomicAnd dst src \<and>
   Win32_AtomicOr arch dst src = AtomicOr dst src \<and>
   Win32_AtomicXor arch dst src = AtomicXor dst src \<and>
   Win32_AtomicLoad dst mo = AtomicLoad dst mo \<and>
   Win32_AtomicStore arch dst src mo = AtomicStore arch dst src mo"
  by (simp only: win32_linux_rmw win32_linux_load_store simp_thms)

lemma fb_done_all: "\<forall>l \<in> set ls. \<exists>r. l = FbDone r \<Longrightarrow> sum_list (map fb_done ls) = length ls"
  by (induction ls) auto

lemma fb_done_none: "\<forall>l \<in> set ls. \<nexists>r. l = FbDone r \<Longrightarrow> sum_list (map fb_done ls) = 0"
proof (induction ls)
  case Nil
  then show ?case by simp
next
  case (Cons l ls)
  then have "fb_done l = 0" by (cases l) auto
  with Cons show ?case by simp
qed

text \<open>No update is lost in the fallback loop.  When \<open>n\<close> threads each run \<^verbatim>\<open>FallbackAtomicOp\<close> with an
  addition of \<open>d\<close> on one word, in any interleaving of their loads and compare-and-swaps, and all
  have returned, the word has grown by exactly \<open>n * d\<close> (modulo its width).\<close>

theorem fallback_no_lost_update:
  assumes "executes (fallback_step (\<lambda>x. x + d)) (v, ls) (v', ls')"
    and "\<forall>l \<in> set ls. \<nexists>r. l = FbDone r" and "\<forall>l \<in> set ls'. \<exists>r. l = FbDone r"
  shows "v' = v + of_nat (length ls') * d"
  using fallback_executes_count [OF assms(1)] fb_done_none [OF assms(2)] fb_done_all [OF assms(3)]
  by simp

text \<open>Two threads add 5 to 250 in 8 bits; the second loses the race once.\<close>

theorem fallback_no_lost_update_witness:
  "\<exists>ls'. run_sched (fallback_step (\<lambda>x. x + 5)) [0, 1, 0, 1, 1] (250 :: u8, [FbStart, FbStart])
      = Some (4, ls') \<and> (4 :: u8) = 250 + of_nat (length ls') * 5"
proof -
  have run: "run_sched (fallback_step (\<lambda>x. x + 5)) [0, 1, 0, 1, 1] (250 :: u8, [FbStart, FbStart])
      = Some (4, [FbDone 250, FbDone 255])"
    by (simp add: InterlockedCompareExchange_def)
  then show ?thesis
    using fallback_no_lost_update [OF run_sched_executes [OF run]] by simp
qed

text \<open>The decrement operators of \<^verbatim>\<open>Atomic<T>\<close>: on 32-bit integers every operator returns what the
  built-in operator returns and stores what it stores, except \<^verbatim>\<open>operator--\<close>, prefix and postfix,
  which add one to the object.\<close>

theorem atomic_operators_but_decrement:
  fixes x :: u32
  shows "(Atomic_operator op x = builtin_operator op x) =
      (op \<noteq> PreDecrement \<and> op \<noteq> PostDecrement) \<and>
    Atomic_operator PreDecrement x = (x - 1, x + 1) \<and>
    Atomic_operator PostDecrement x = (x, x + 1)"
proof -
  have "x + 1 \<noteq> x - 1"
  proof
    assume "x + 1 = x - 1"
    then have "(2 :: u32) = 0" by (simp add: algebra_simps)
    then show False by simp
  qed
  then show ?thesis
    by (cases op) (simp_all add: linux_defs)
qed

text \<open>The operations of an \<^verbatim>\<open>Atomic<T>\<close> act on values, for every type that goes into its word
  and comes back.\<close>

context converter
begin

lemma call_on_values:
  "AtomicBase_call arch mo to_bits of_bits Load (to_bits v) =
     with_overload arch (Load :: 't atomic_call) LENGTH('w) (Some (Value v, to_bits v))"
  "AtomicBase_call arch mo to_bits of_bits (Store x) (to_bits v) =
     with_overload arch (Store x) LENGTH('w) (Some (Unit, to_bits x))"
  "AtomicBase_call arch mo to_bits of_bits (CompareAndSwap c x) (to_bits v) =
     with_overload arch (CompareAndSwap c x) LENGTH('w)
       (Some (Swapped (v = c) v, to_bits (if v = c then x else v)))"
  "AtomicBase_call arch mo to_bits of_bits (Swap x) (to_bits v) =
     with_overload arch (Swap x) LENGTH('w) (Some (Value v, to_bits x))"
  by (simp_all add: AtomicLoad_def AtomicStore_def AtomicStoreSeqCst_def Detail_AtomicLoad_def
      Detail_AtomicStore_def AtomicCompareAndSwap_if linux_defs of_to_bits to_bits_inject Let_def)

end

text \<open>The two implementations of \<^verbatim>\<open>Atomic<T>\<close> agree: the general class, which converts every argument
  and result through the \<^verbatim>\<open>Converter\<close> union, gives on a type that is its own word what the
  specialisation \<^verbatim>\<open>AtomicIntegerBase<T, T>\<close> gives, operation by operation, including which
  operations exist at that width.  An \<^verbatim>\<open>Atomic<bool>\<close> loads the value last stored; there is no
  8-bit swap or compare-and-swap for it.\<close>

theorem atomic_specialisations_agree:
  "AtomicIntegerBase_call arch mo (\<lambda>v :: 'w::len word. v) (\<lambda>v. v) c bits =
     AtomicIntegerBase_same arch mo c bits \<and>
   AtomicIntegerBase_call arch mo bool_to_bits bool_of_bits (Store b) (bool_to_bits v) =
     Some (Unit, bool_to_bits b) \<and>
   AtomicIntegerBase_call arch mo bool_to_bits bool_of_bits Load (bool_to_bits b) =
     Some (Value b, bool_to_bits b) \<and>
   AtomicIntegerBase_call arch mo bool_to_bits bool_of_bits (Swap b) (bool_to_bits v) = None \<and>
   AtomicIntegerBase_call arch mo bool_to_bits bool_of_bits (CompareAndSwap b v) (bool_to_bits v) = None"
proof -
  have "AtomicIntegerBase_call arch mo (\<lambda>v :: 'w::len word. v) (\<lambda>v. v) c bits =
      AtomicIntegerBase_same arch mo c bits"
    by (cases c) (simp_all add: Let_def split: prod.splits)
  then show ?thesis
    by (simp only: AtomicIntegerBase_call.simps bool_converter.call_on_values)
      (simp add: with_overload_def)
qed

text \<open>A cell that was constructed from a value holds it, whatever its memory held.  The free function swaps as the
  method does, and returns 1 or 0 and not the value it found, which it leaves in \<^verbatim>\<open>cmp\<close>.\<close>

theorem atomic_construct_and_swap:
  fixes v bits :: "'w::len word"
  assumes "LENGTH('w) \<in> {16, 32, 64}"
  shows "Atomic_construct arch mo v bits = Some v \<and>
    AtomicCompareAndSwap_of arch mo v cmp src = Some (if cmp = v then (1, cmp, src) else (0, v, v))"
  using assms
  by (cases arch) (auto simp: Atomic_construct_def AtomicCompareAndSwap_of_def with_overload_def AtomicStore_def Let_def
    AtomicStoreSeqCst_def Detail_AtomicStore_def AtomicCompareAndSwap_def sync_val_compare_and_swap_def sync_lock_test_and_set_def)

theorem atomic_construct_and_swap_witness:
  "AtomicCompareAndSwap_of X86_64 MEMORY_ORDER_SEQ_CST (5 :: 32 word) 4 9 = Some (0, 5, 5)"
  using atomic_construct_and_swap [where arch = X86_64 and mo = MEMORY_ORDER_SEQ_CST and v = "5 :: 32 word" and cmp = 4 and src = 9]
  by simp

end
