(* ===== verification/Tagged_Pointer.thy ===== *)
theory Tagged_Pointer
  imports Crunch_Prelude
begin

text \<open>
  The packed 64-bit words of the library: a pointer, flag bits and a version counter that is
  bumped on every update of the word (against ABA).  \<^verbatim>\<open>Detail::WaiterList\<close>, the allocator of
  \<^verbatim>\<open>waiter.cpp\<close> and \<^verbatim>\<open>MPMCLifoList\<close> each pack one, in a 64-bit and a 32-bit layout.  The laws
  they rely on are proved once, for any layout in which the pointer and the flags lie below the
  bit where the counter starts.
\<close>

section \<open>Packing, for any layout\<close>

text \<open>\<^verbatim>\<open>GetPointer\<close> and \<^verbatim>\<open>SetPointer\<close> are the same code in each class, over its own \<^verbatim>\<open>PTR_MASK\<close>.
  \<open>fits\<close> is the assertion of \<^verbatim>\<open>SetPointer\<close>.\<close>

definition get_ptr :: "u64 \<Rightarrow> u64 \<Rightarrow> addr" where
  "get_ptr ptr_mask w = w AND ptr_mask"

definition set_ptr :: "u64 \<Rightarrow> u64 \<Rightarrow> addr \<Rightarrow> u64" where
  "set_ptr ptr_mask w p = (w AND NOT ptr_mask) OR p"

definition fits :: "u64 \<Rightarrow> addr \<Rightarrow> bool" where
  "fits ptr_mask p \<longleftrightarrow> p AND NOT ptr_mask = 0"

text \<open>The counter: everything from bit \<open>n\<close> up.\<close>

definition version :: "nat \<Rightarrow> u64 \<Rightarrow> nat" where
  "version n w = unat w div 2 ^ n"

lemma fits_bit: "fits m p \<longleftrightarrow> (\<forall>i < 64. bit p i \<longrightarrow> bit m i)"
  unfolding fits_def by (auto simp: bit_eq_iff bit_simps)

lemma fitsD: "fits m p \<Longrightarrow> p AND m = p"
  by (rule bit_word_eqI) (auto simp: fits_bit bit_simps)

lemma fits_0 [simp]: "fits m 0"
  by (simp add: fits_def)

locale tagged_word =
  fixes ptr_mask addend :: u64 and n :: nat
  assumes n_bound: "n < 64"
    and addend_bit: "addend = 2 ^ n"
    and ptr_low: "fits (mask n) ptr_mask"
begin

text \<open>A flag: below the counter, outside the pointer.\<close>

definition flag :: "u64 \<Rightarrow> bool" where
  "flag f \<longleftrightarrow> fits (mask n) f \<and> f AND ptr_mask = 0"

lemma unat_addend: "unat addend = 2 ^ n"
proof -
  have "addend = of_nat (2 ^ n)" by (simp add: addend_bit)
  moreover have "(2::nat) ^ n < 2 ^ 64"
    using n_bound by (intro power_strict_increasing) auto
  ultimately show ?thesis by (simp only: unat_of_nat) simp
qed

lemma low_bump:
  assumes "fits (mask n) f"
  shows "(w + addend) AND f = w AND f"
proof -
  have "unat (w + addend) = take_bit 64 (unat w + 2 ^ n)"
    by (simp add: unat_word_ariths unat_addend take_bit_eq_mod)
  then have "unat (take_bit n (w + addend)) = unat (take_bit n w)"
    using n_bound
    by (simp add: unsigned_take_bit_eq take_bit_take_bit min_absorb1)
       (simp add: take_bit_eq_mod)
  then have m: "(w + addend) AND mask n = w AND mask n"
    by (simp add: word_unat_eq_iff flip: take_bit_eq_mask)
  have split: "x AND f = (x AND mask n) AND f" for x
    using assms by (intro bit_word_eqI) (auto simp: fits_bit bit_simps)
  show ?thesis
    by (simp only: split [of "w + addend"] split [of w] m)
qed

lemma get_bump: "get_ptr ptr_mask (w + addend) = get_ptr ptr_mask w"
  unfolding get_ptr_def using ptr_low by (rule low_bump)

lemma flag_bump: "flag f \<Longrightarrow> (w + addend) AND f = w AND f"
  by (simp add: flag_def low_bump)

lemma fits_get: "fits ptr_mask (get_ptr ptr_mask w)"
  by (auto simp: fits_bit get_ptr_def bit_simps)

lemma get_set: "fits ptr_mask p \<Longrightarrow> get_ptr ptr_mask (set_ptr ptr_mask w p) = p"
  unfolding get_ptr_def set_ptr_def
  by (rule bit_word_eqI) (auto simp: fits_bit bit_simps)

lemma get_set_bump:
  "fits ptr_mask p \<Longrightarrow> get_ptr ptr_mask (set_ptr ptr_mask w p + addend) = p"
  by (simp add: get_bump get_set)

lemma flag_set: "flag f \<Longrightarrow> fits ptr_mask p \<Longrightarrow> set_ptr ptr_mask w p AND f = w AND f"
  unfolding set_ptr_def flag_def
  by (rule bit_word_eqI) (auto simp: fits_bit bit_simps bit_eq_iff)

lemma flag_set_bump:
  "flag f \<Longrightarrow> fits ptr_mask p \<Longrightarrow> (set_ptr ptr_mask w p + addend) AND f = w AND f"
  by (simp add: flag_bump flag_set)

lemma set_get: "set_ptr ptr_mask w (get_ptr ptr_mask w) = w"
  unfolding set_ptr_def get_ptr_def by (rule bit_word_eqI) (auto simp: bit_simps)

lemma get_or_flag: "flag f \<Longrightarrow> get_ptr ptr_mask (w OR f) = get_ptr ptr_mask w"
  unfolding get_ptr_def flag_def by (rule bit_word_eqI) (auto simp: bit_simps bit_eq_iff)

lemma get_clear_flag: "flag f \<Longrightarrow> get_ptr ptr_mask (w AND NOT f) = get_ptr ptr_mask w"
  unfolding get_ptr_def flag_def by (rule bit_word_eqI) (auto simp: bit_simps bit_eq_iff)

text \<open>The counter goes up by one, modulo the bits it has.\<close>

lemma version_bump: "version n (w + addend) = (version n w + 1) mod 2 ^ (64 - n)"
proof -
  have N: "(2::nat) ^ 64 = 2 ^ n * 2 ^ (64 - n)"
    using n_bound by (simp flip: power_add)
  have "unat (w + addend) = (unat w + 2 ^ n) mod 2 ^ 64"
    using n_bound by (simp add: unat_word_ariths unat_addend)
  then have "version n (w + addend) = (unat w + 2 ^ n) mod (2 ^ n * 2 ^ (64 - n)) div 2 ^ n"
    by (simp only: version_def N)
  also have "\<dots> = (unat w + 2 ^ n) div 2 ^ n mod 2 ^ (64 - n)"
    by (simp add: mod_mult2_eq)
  finally show ?thesis by (simp add: version_def div_add_self2)
qed

lemma version_set:
  assumes "fits ptr_mask p"
  shows "version n (set_ptr ptr_mask w p) = version n w"
proof -
  have m: "\<not> bit ptr_mask (n + k)" for k
    using ptr_low bit_imp_le_length [of ptr_mask "n + k"] by (auto simp: fits_bit bit_simps)
  then have "\<not> bit p (n + k)" for k
    using assms bit_imp_le_length [of p "n + k"] by (auto simp: fits_bit)
  with m have "drop_bit n (set_ptr ptr_mask w p) = drop_bit n w"
    unfolding set_ptr_def
    by (intro bit_word_eqI) (auto simp: bit_simps dest: bit_imp_le_length)
  then show ?thesis
    by (metis version_def unat_drop_bit_eq drop_bit_eq_div)
qed

text \<open>Setting and clearing bits below the counter leaves it alone.\<close>

lemma version_low:
  assumes "fits (mask n) f"
  shows "version n (w OR f) = version n w" and "version n (w AND NOT f) = version n w"
proof -
  have "\<not> bit f (n + k)" for k
    using assms bit_imp_le_length [of f "n + k"] by (auto simp: fits_bit bit_simps)
  moreover have "bit w j \<Longrightarrow> j < 64" for j using bit_imp_le_length [of w j] by simp
  ultimately have "drop_bit n (w OR f) = drop_bit n w" "drop_bit n (w AND NOT f) = drop_bit n w"
    by (auto intro!: bit_word_eqI simp: bit_simps)
  then show "version n (w OR f) = version n w" "version n (w AND NOT f) = version n w"
    by (metis version_def unat_drop_bit_eq drop_bit_eq_div)+
qed

lemma version_set_bump:
  "fits ptr_mask p \<Longrightarrow>
   version n (set_ptr ptr_mask w p + addend) = (version n w + 1) mod 2 ^ (64 - n)"
  by (simp add: version_bump version_set)

lemma bump_changes: "w + addend \<noteq> w"
  using n_bound by (simp add: addend_bit)

text \<open>An update of the word leaves a word that differs from every word with the old counter,
  whatever the pointers: the counter has at least two values.\<close>

lemma set_bump_changes:
  assumes "fits ptr_mask p" and "version n v = version n w"
  shows "set_ptr ptr_mask w p + addend \<noteq> v"
proof
  assume "set_ptr ptr_mask w p + addend = v"
  then have "(version n w + 1) mod 2 ^ (64 - n) = version n w"
    using version_set_bump [OF assms(1), of w] assms(2) by simp
  moreover have "(2::nat) ^ (64 - n) > 1" using n_bound by (intro one_less_power) auto
  ultimately show False by (metis One_nat_def Suc_eq_plus1 mod_Suc mod_mod_trivial n_not_Suc_n nat_neq_iff zero_less_one)
qed

end

section \<open>Detail::WaiterList, CRUNCH_PTR_SIZE 8\<close>

text \<open>48-bit addresses, 4-byte aligned: the two low bits of the pointer are the flags.\<close>

definition USER_FLAG_BIT :: u64 where "USER_FLAG_BIT = 1"
definition LOCK_BIT :: u64 where "LOCK_BIT = 2"
definition FLAG_MASK :: u64 where "FLAG_MASK = 3"
definition ABA_ADDEND :: u64 where "ABA_ADDEND = push_bit 48 1"
definition PTR_MASK :: u64 where "PTR_MASK = (ABA_ADDEND - 1) AND NOT FLAG_MASK"

lemmas layout_defs = USER_FLAG_BIT_def LOCK_BIT_def FLAG_MASK_def ABA_ADDEND_def PTR_MASK_def

definition GetPointer :: "u64 \<Rightarrow> addr" where
  "GetPointer ptrAndState = get_ptr PTR_MASK ptrAndState"

definition SetPointer :: "u64 \<Rightarrow> addr \<Rightarrow> u64" where
  "SetPointer ptrAndState ptr = set_ptr PTR_MASK ptrAndState ptr"

text \<open>The assertion in \<^verbatim>\<open>SetPointer\<close>.\<close>

definition aligned :: "addr \<Rightarrow> bool" where
  "aligned p \<longleftrightarrow> fits PTR_MASK p"

interpretation wl: tagged_word PTR_MASK ABA_ADDEND 48
  by unfold_locales (simp_all add: layout_defs fits_def mask_eq_exp_minus_1)

lemma flag_bits: "wl.flag USER_FLAG_BIT" "wl.flag LOCK_BIT"
  unfolding wl.flag_def by (simp_all add: layout_defs fits_def mask_eq_exp_minus_1)

section \<open>Detail::WaiterList, CRUNCH_PTR_SIZE 4\<close>

definition USER_FLAG_BIT_32 :: u64 where "USER_FLAG_BIT_32 = push_bit 32 1"
definition LOCK_BIT_32 :: u64 where "LOCK_BIT_32 = push_bit 32 2"
definition FLAG_MASK_32 :: u64 where "FLAG_MASK_32 = push_bit 32 3"
definition ABA_ADDEND_32 :: u64 where "ABA_ADDEND_32 = push_bit 32 4"
definition PTR_MASK_32 :: u64 where "PTR_MASK_32 = 0xffffffff"

lemmas layout_32_defs =
  USER_FLAG_BIT_32_def LOCK_BIT_32_def FLAG_MASK_32_def ABA_ADDEND_32_def PTR_MASK_32_def

interpretation wl32: tagged_word PTR_MASK_32 ABA_ADDEND_32 34
  by unfold_locales (simp_all add: layout_32_defs fits_def mask_eq_exp_minus_1)

lemma flag_bits_32: "wl32.flag USER_FLAG_BIT_32" "wl32.flag LOCK_BIT_32"
  unfolding wl32.flag_def by (simp_all add: layout_32_defs fits_def mask_eq_exp_minus_1)

section \<open>The allocator of waiter.cpp\<close>

definition ALLOC_ABA_ADDEND :: u64 where "ALLOC_ABA_ADDEND = push_bit 48 1"
definition ALLOC_PTR_MASK :: u64 where "ALLOC_PTR_MASK = ALLOC_ABA_ADDEND - 1"
definition ALLOC_ABA_ADDEND_32 :: u64 where "ALLOC_ABA_ADDEND_32 = push_bit 32 4"
definition ALLOC_PTR_MASK_32 :: u64 where "ALLOC_PTR_MASK_32 = 0xffffffff"

lemmas alloc_layout_defs =
  ALLOC_ABA_ADDEND_def ALLOC_PTR_MASK_def ALLOC_ABA_ADDEND_32_def ALLOC_PTR_MASK_32_def

interpretation al: tagged_word ALLOC_PTR_MASK ALLOC_ABA_ADDEND 48
  by unfold_locales (simp_all add: alloc_layout_defs fits_def mask_eq_exp_minus_1)

interpretation al32: tagged_word ALLOC_PTR_MASK_32 ALLOC_ABA_ADDEND_32 34
  by unfold_locales (simp_all add: alloc_layout_defs fits_def mask_eq_exp_minus_1)

section \<open>MPMCLifoList\<close>

definition MPMC_PTR_MASK :: u64 where "MPMC_PTR_MASK = 0x0000ffffffffffff"
definition MPMC_ABA_MASK :: u64 where "MPMC_ABA_MASK = 0xffff000000000000"
definition MPMC_ABA_ADDEND :: u64 where "MPMC_ABA_ADDEND = 0x0001000000000000"
definition MPMC_PTR_MASK_32 :: u64 where "MPMC_PTR_MASK_32 = 0x00000000ffffffff"
definition MPMC_ABA_MASK_32 :: u64 where "MPMC_ABA_MASK_32 = 0xffffffff00000000"
definition MPMC_ABA_ADDEND_32 :: u64 where "MPMC_ABA_ADDEND_32 = 0x0000000100000000"

lemmas mpmc_layout_defs =
  MPMC_PTR_MASK_def MPMC_ABA_MASK_def MPMC_ABA_ADDEND_def
  MPMC_PTR_MASK_32_def MPMC_ABA_MASK_32_def MPMC_ABA_ADDEND_32_def

interpretation mp: tagged_word MPMC_PTR_MASK MPMC_ABA_ADDEND 48
  by unfold_locales (simp_all add: mpmc_layout_defs fits_def mask_eq_exp_minus_1)

interpretation mp32: tagged_word MPMC_PTR_MASK_32 MPMC_ABA_ADDEND_32 32
  by unfold_locales (simp_all add: mpmc_layout_defs fits_def mask_eq_exp_minus_1)

text \<open>\<^verbatim>\<open>MPMCLifoList\<close> packs by addition, \<^verbatim>\<open>ptr + ABA_ADDEND + (oldRoot & ABA_MASK)\<close>; for a pointer
  in range that is the packing of the other classes.\<close>

lemma mpmc_pack:
  assumes "fits MPMC_PTR_MASK p"
  shows "p + MPMC_ABA_ADDEND + (w AND MPMC_ABA_MASK) = set_ptr MPMC_PTR_MASK w p + MPMC_ABA_ADDEND"
proof -
  have m: "MPMC_ABA_MASK = NOT MPMC_PTR_MASK"
    by (simp add: mpmc_layout_defs)
  have "p AND (w AND MPMC_ABA_MASK) = 0"
    using assms unfolding m by (intro bit_word_eqI) (auto simp: fits_bit bit_simps)
  then have "p + (w AND MPMC_ABA_MASK) = (w AND MPMC_ABA_MASK) OR p"
    using word_plus_and_or [of p "w AND MPMC_ABA_MASK"] by (simp add: or.commute)
  then show ?thesis
    by (simp add: set_ptr_def m add.commute add.left_commute)
qed

section \<open>The view of a waiter-list word\<close>

text \<open>The three things the code reads off the word: the pointer and the two flags.\<close>

definition user_set :: "u64 \<Rightarrow> bool" where
  "user_set w \<longleftrightarrow> w AND USER_FLAG_BIT \<noteq> 0"

definition lock_set :: "u64 \<Rightarrow> bool" where
  "lock_set w \<longleftrightarrow> w AND LOCK_BIT \<noteq> 0"

lemma aligned_0 [simp, word_packing]: "aligned 0"
  by (simp add: aligned_def)

lemma aligned_GetPointer [simp, word_packing]: "aligned (GetPointer w)"
  by (simp add: aligned_def GetPointer_def wl.fits_get)

lemma view_bump [word_packing]:
  "GetPointer (w + ABA_ADDEND) = GetPointer w"
  "user_set (w + ABA_ADDEND) = user_set w"
  "lock_set (w + ABA_ADDEND) = lock_set w"
  by (simp_all add: GetPointer_def user_set_def lock_set_def wl.get_bump wl.flag_bump flag_bits)

lemma view_SetPointer [word_packing]:
  "aligned p \<Longrightarrow> GetPointer (SetPointer w p) = p"
  "aligned p \<Longrightarrow> user_set (SetPointer w p) = user_set w"
  "aligned p \<Longrightarrow> lock_set (SetPointer w p) = lock_set w"
  by (simp_all add: GetPointer_def SetPointer_def aligned_def user_set_def lock_set_def
      wl.get_set wl.flag_set flag_bits)

lemma view_set_lock [word_packing]:
  "GetPointer (w OR LOCK_BIT) = GetPointer w"
  "user_set (w OR LOCK_BIT) = user_set w"
  "lock_set (w OR LOCK_BIT)"
  by (simp_all add: GetPointer_def wl.get_or_flag flag_bits user_set_def lock_set_def)
    (simp_all add: layout_defs bit.conj_disj_distrib2)

lemma view_clear_lock [word_packing]:
  "GetPointer (w AND NOT LOCK_BIT) = GetPointer w"
  "user_set (w AND NOT LOCK_BIT) = user_set w"
  "\<not> lock_set (w AND NOT LOCK_BIT)"
  by (simp_all add: GetPointer_def wl.get_clear_flag flag_bits user_set_def lock_set_def
      and.assoc) (simp add: layout_defs)

lemma view_set_user [word_packing]:
  "GetPointer (w OR USER_FLAG_BIT) = GetPointer w"
  "lock_set (w OR USER_FLAG_BIT) = lock_set w"
  "user_set (w OR USER_FLAG_BIT)"
  by (simp_all add: GetPointer_def wl.get_or_flag flag_bits user_set_def lock_set_def)
    (simp_all add: layout_defs bit.conj_disj_distrib2)

lemma view_clear_user [word_packing]:
  "GetPointer (w AND NOT USER_FLAG_BIT) = GetPointer w"
  "lock_set (w AND NOT USER_FLAG_BIT) = lock_set w"
  "\<not> user_set (w AND NOT USER_FLAG_BIT)"
  by (simp_all add: GetPointer_def wl.get_clear_flag flag_bits user_set_def lock_set_def
      and.assoc) (simp add: layout_defs)

lemma view_clear_ptr [word_packing]:
  "GetPointer (w AND NOT PTR_MASK) = 0"
  "lock_set (w AND NOT PTR_MASK) = lock_set w"
  "user_set (w AND NOT PTR_MASK) = user_set w"
  using view_SetPointer [of 0 w] by (simp_all add: SetPointer_def set_ptr_def)

lemma view_0 [simp]: "GetPointer 0 = 0" "\<not> user_set 0" "\<not> lock_set 0"
  by (simp_all add: GetPointer_def get_ptr_def user_set_def lock_set_def)

lemma view_USER_FLAG_BIT [simp]:
  "GetPointer USER_FLAG_BIT = 0" "user_set USER_FLAG_BIT" "\<not> lock_set USER_FLAG_BIT"
  by (simp_all add: GetPointer_def get_ptr_def user_set_def lock_set_def layout_defs)

lemma SetPointer_GetPointer [simp]: "SetPointer w (GetPointer w) = w"
  by (simp add: SetPointer_def GetPointer_def wl.set_get)

end
