(* ===== verification/Waiter_List.thy ===== *)
theory Waiter_List
  imports Atomic_Ops Tagged_Pointer
begin

text \<open>
  Waiters and the lists of them: \<^verbatim>\<open>waiter_utility.hpp\<close>, \<^verbatim>\<open>detail/waiter_list.hpp\<close> and
  \<^verbatim>\<open>waiter_list.cpp\<close>.  The memory is the packed head word, the \<^verbatim>\<open>next\<close> field of every waiter and
  the log of the \<^verbatim>\<open>Notify\<close> calls made.  \<^verbatim>\<open>next\<close> is a total function of the address: a waiter's
  memory is recycled and never unmapped (waiter.cpp), so a read of a stale node reads some value,
  and the code tests for \<^verbatim>\<open>nullptr\<close> before every read.
\<close>

section \<open>Lists on the heap\<close>

text \<open>\<open>wlist nx p ws\<close>: following \<open>nx\<close> from \<open>p\<close> to \<^verbatim>\<open>nullptr\<close> visits exactly \<open>ws\<close>.\<close>

primrec wlist :: "(addr \<Rightarrow> addr) \<Rightarrow> addr \<Rightarrow> addr list \<Rightarrow> bool" where
  "wlist nx p [] \<longleftrightarrow> p = 0"
| "wlist nx p (w # ws) \<longleftrightarrow> p = w \<and> w \<noteq> 0 \<and> wlist nx (nx w) ws"

lemma wlist_null [simp]: "wlist nx 0 ws \<longleftrightarrow> ws = []"
  by (cases ws) auto

lemma wlist_nonnull: "p \<noteq> 0 \<Longrightarrow> wlist nx p ws \<longleftrightarrow> (\<exists>us. ws = p # us \<and> wlist nx (nx p) us)"
  by (cases ws) auto

lemma wlist_unique: "wlist nx p ws \<Longrightarrow> wlist nx p us \<Longrightarrow> ws = us"
proof (induction ws arbitrary: p us)
  case Nil
  then show ?case by simp
next
  case (Cons w ws)
  then show ?case by (cases us) auto
qed

lemma wlist_nonzero: "wlist nx p ws \<Longrightarrow> 0 \<notin> set ws"
  by (induction ws arbitrary: p) auto

lemma wlist_append:
  "wlist nx p (us @ w # ws) \<Longrightarrow> w \<noteq> 0 \<and> wlist nx (nx w) ws \<and> wlist nx w (w # ws)"
  by (induction us arbitrary: p) auto

lemma wlist_distinct: "wlist nx p ws \<Longrightarrow> distinct ws"
proof (induction ws arbitrary: p)
  case Nil
  then show ?case by simp
next
  case (Cons w ws)
  have "w \<notin> set ws"
  proof
    assume "w \<in> set ws"
    then obtain us vs where ws: "ws = us @ w # vs" by (meson split_list)
    then have "wlist nx w (w # vs)"
      using Cons.prems wlist_append [of nx "nx w" us w vs] by simp
    with Cons.prems have "w # vs = w # ws" by (auto dest: wlist_unique)
    with ws show False by simp
  qed
  with Cons show ?case by auto
qed

lemma wlist_cong: "(\<And>a. a \<in> set ws \<Longrightarrow> nx a = nx' a) \<Longrightarrow> wlist nx p ws = wlist nx' p ws"
  by (induction ws arbitrary: p) auto

lemma wlist_Cons_upd:
  assumes "c \<notin> set ws"
  shows "wlist (nx(c := m)) p (c # ws) \<longleftrightarrow> p = c \<and> c \<noteq> 0 \<and> wlist nx m ws"
proof -
  have "wlist (nx(c := m)) m ws = wlist nx m ws" by (rule wlist_cong) (use assms in \<open>auto simp: fun_upd_apply\<close>)
  then show ?thesis by simp
qed

lemma wlist_upd [simp]: "a \<notin> set ws \<Longrightarrow> wlist (nx(a := b)) p ws = wlist nx p ws"
  by (rule wlist_cong) (auto simp: fun_upd_apply)

text \<open>Unlinking a node: its predecessor gets its successor.\<close>

lemma wlist_unlink:
  assumes "wlist nx p (us @ c # w # ws)"
  shows "wlist (nx(c := nx w)) p (us @ c # ws)"
  using assms
proof (induction us arbitrary: p)
  case Nil
  then have "distinct (c # w # ws)" by (metis append_Nil wlist_distinct)
  then have "c \<notin> set ws" by simp
  moreover have "p = c" "c \<noteq> 0" "nx c = w" "wlist nx (nx w) ws" using Nil by simp_all
  ultimately show ?case unfolding append_Nil by (intro wlist_Cons_upd [THEN iffD2]) blast+
next
  case (Cons u us)
  then have "distinct (u # us @ c # w # ws)" by (metis append_Cons wlist_distinct)
  then have "c \<noteq> u" by auto
  moreover have "p = u" "u \<noteq> 0" "wlist nx (nx u) (us @ c # w # ws)" using Cons.prems by simp_all
  moreover have "wlist (nx(c := nx w)) (nx u) (us @ c # ws)" by (rule Cons.IH) fact
  ultimately show ?case by (simp)
qed

section \<open>waiter_utility.hpp\<close>

text \<open>The loop of \<^verbatim>\<open>RemoveWaiterFromListNotAtHead\<close>; \<open>None\<close> when it never returns, as on a list
  that is a cycle.\<close>

partial_function (option) RemoveWaiterFromListNotAtHead ::
  "(addr \<Rightarrow> addr) \<Rightarrow> addr \<Rightarrow> addr \<Rightarrow> ((addr \<Rightarrow> addr) \<times> bool) option" where
  "RemoveWaiterFromListNotAtHead nx current waiter =
     (if nx current \<noteq> 0
      then (if nx current = waiter
            then Some (nx(current := nx waiter), True)
            else RemoveWaiterFromListNotAtHead nx (nx current) waiter)
      else Some (nx, False))"

definition RemoveWaiterFromList ::
  "(addr \<Rightarrow> addr) \<Rightarrow> addr \<Rightarrow> addr \<Rightarrow> ((addr \<Rightarrow> addr) \<times> addr) option" where
  "RemoveWaiterFromList nx head waiter =
     (if head = waiter then Some (nx, nx head)
      else (case RemoveWaiterFromListNotAtHead nx head waiter of
              None \<Rightarrow> None
            | Some (nx', _) \<Rightarrow> Some (nx', head)))"

text \<open>\<^verbatim>\<open>NotifyAllWaiters\<close> over an arbitrary state: \<open>next_of\<close> reads a \<^verbatim>\<open>next\<close> field from it,
  \<open>notify\<close> is the effect of a callback on it.  The next pointer is read before the call.\<close>

partial_function (option) NotifyAllWaiters ::
  "('s \<Rightarrow> addr \<Rightarrow> addr) \<Rightarrow> (addr \<Rightarrow> 's \<Rightarrow> 's) \<Rightarrow> addr \<Rightarrow> 's \<Rightarrow> 's option" where
  "NotifyAllWaiters next_of notify current s =
     (if current \<noteq> 0
      then let nextw = next_of s current; s' = notify current s
           in NotifyAllWaiters next_of notify nextw s'
      else Some s)"

lemma remove_not_at_head_found:
  assumes "wlist nx c (c # us @ w # ws)"
  shows "\<exists>p. p \<in> set (c # us) \<and>
    RemoveWaiterFromListNotAtHead nx c w = Some (nx(p := nx w), True) \<and>
    wlist (nx(p := nx w)) c (c # us @ ws)"
  using assms
proof (induction us arbitrary: c)
  case Nil
  then have "RemoveWaiterFromListNotAtHead nx c w = Some (nx(c := nx w), True)"
    by (subst RemoveWaiterFromListNotAtHead.simps) auto
  then show ?case using wlist_unlink [of nx c "[]" c w ws] Nil
    by (intro exI [of _ c] conjI) (simp_all only: append_Nil append_Cons list.set_intros)
next
  case (Cons u us)
  have d: "distinct (c # u # us @ w # ws)" using Cons.prems by (metis append_Cons wlist_distinct)
  have c: "nx c = u" "u \<noteq> 0" and u: "wlist nx u (u # us @ w # ws)" using Cons.prems by auto
  obtain p where p: "p \<in> set (u # us)"
    and r: "RemoveWaiterFromListNotAtHead nx u w = Some (nx(p := nx w), True)"
    and l: "wlist (nx(p := nx w)) u (u # us @ ws)"
    using Cons.IH [OF u] by blast
  have "RemoveWaiterFromListNotAtHead nx c w = Some (nx(p := nx w), True)"
    using c d r by (subst RemoveWaiterFromListNotAtHead.simps) auto
  moreover have "c \<noteq> p" using d p by auto
  then have "wlist (nx(p := nx w)) c (c # (u # us) @ ws)"
    using l c Cons.prems by (simp)
  ultimately show ?case using p by (metis list.set_intros(2))
qed

lemma remove_not_at_head_absent:
  assumes "wlist nx c (c # us)" and "w \<notin> set us" and "w \<noteq> 0"
  shows "RemoveWaiterFromListNotAtHead nx c w = Some (nx, False)"
  using assms
proof (induction us arbitrary: c)
  case Nil
  then show ?case by (subst RemoveWaiterFromListNotAtHead.simps) auto
next
  case (Cons u us)
  then show ?case by (subst RemoveWaiterFromListNotAtHead.simps) auto
qed

lemma RemoveWaiterFromList_removes:
  assumes l: "wlist nx head ws" and h: "head \<noteq> 0" and w: "w \<noteq> 0"
  shows "\<exists>nx' head'. RemoveWaiterFromList nx head w = Some (nx', head') \<and>
    wlist nx' head' (remove1 w ws)"
proof -
  obtain us where ws: "ws = head # us" and us: "wlist nx (nx head) us"
    using l h by (auto simp: wlist_nonnull)
  show ?thesis
  proof (cases "head = w")
    case True
    then show ?thesis using ws us by (simp add: RemoveWaiterFromList_def)
  next
    case other: False
    show ?thesis
    proof (cases "w \<in> set us")
      case True
      then obtain as bs where us': "us = as @ w # bs" and "w \<notin> set as"
        by (meson split_list_first)
      then have rem: "remove1 w ws = head # as @ bs"
        using other by (simp add: ws remove1_append)
      obtain p where "RemoveWaiterFromListNotAtHead nx head w = Some (nx(p := nx w), True)"
        and "wlist (nx(p := nx w)) head (head # as @ bs)"
        using remove_not_at_head_found [of nx head as w bs] l ws us' by auto
      then show ?thesis using other by (auto simp: RemoveWaiterFromList_def rem)
    next
      case False
      then have "RemoveWaiterFromListNotAtHead nx head w = Some (nx, False)"
        using remove_not_at_head_absent [of nx head us w] l ws w by simp
      then show ?thesis using other False l ws
        by (simp add: RemoveWaiterFromList_def remove1_idem)
    qed
  qed
qed

text \<open>Every waiter of the list is notified once, in list order, whatever the callbacks do to the
  waiters already notified.\<close>

lemma NotifyAllWaiters_all:
  assumes frame: "\<And>s w a. a \<noteq> w \<Longrightarrow> next_of (notify w s) a = next_of s a"
    and l: "wlist (next_of s) p ws"
  shows "NotifyAllWaiters next_of notify p s = Some (fold notify ws s)"
  using l
proof (induction ws arbitrary: p s)
  case Nil
  then show ?case by (subst NotifyAllWaiters.simps) simp
next
  case (Cons w ws)
  then have p: "p = w" "w \<noteq> 0" and tl: "wlist (next_of s) (next_of s w) ws"
    and w: "w \<notin> set ws" using wlist_distinct [OF Cons.prems] by auto
  have "wlist (next_of (notify w s)) (next_of s w) ws = wlist (next_of s) (next_of s w) ws"
    using w by (intro wlist_cong frame) auto
  then show ?case using Cons.IH p tl
    by (subst NotifyAllWaiters.simps) (simp add: Let_def)
qed

section \<open>The shared memory of a waitable\<close>

record wl_mem =
  mWaiters :: u64 \<comment> \<open>\<^verbatim>\<open>Detail::WaiterList\<close>, the packed head\<close>
  wnext :: "addr \<Rightarrow> addr" \<comment> \<open>\<^verbatim>\<open>Waiter::next\<close>\<close>
  notified :: "addr list" \<comment> \<open>the waiters \<^verbatim>\<open>Notify\<close> was called on, latest first\<close>

text \<open>The waiters in the list, in order.\<close>

definition holds_list :: "'z wl_mem_scheme \<Rightarrow> addr list \<Rightarrow> bool" where
  "holds_list g ws \<longleftrightarrow> wlist (wnext g) (GetPointer (mWaiters g)) ws"

definition all_aligned :: "(addr \<Rightarrow> addr) \<Rightarrow> bool" where
  "all_aligned nx \<longleftrightarrow> (\<forall>a. aligned (nx a))"

lemma all_aligned_upd [simp]: "all_aligned nx \<Longrightarrow> aligned m \<Longrightarrow> all_aligned (nx(a := m))"
  by (simp add: all_aligned_def fun_upd_apply)

lemma all_alignedD [simp]: "all_aligned nx \<Longrightarrow> aligned (nx a)"
  by (simp add: all_aligned_def)

text \<open>\<^verbatim>\<open>WaiterList::Unlock\<close>: one atomic \<^verbatim>\<open>And\<close>.\<close>

definition WaiterList_Unlock :: "'z wl_mem_scheme \<Rightarrow> 'z wl_mem_scheme" where
  "WaiterList_Unlock g = g\<lparr>mWaiters := snd (AtomicAnd (mWaiters g) (NOT LOCK_BIT))\<rparr>"

lemma WaiterList_Unlock_simps [step_simps]:
  "mWaiters (WaiterList_Unlock g) = mWaiters g AND NOT LOCK_BIT"
  "wnext (WaiterList_Unlock g) = wnext g"
  "notified (WaiterList_Unlock g) = notified g"
  by (simp_all add: WaiterList_Unlock_def AtomicAnd_def sync_fetch_and_def)

text \<open>The compare-and-swap on the head: success, the value read, the new memory.\<close>

definition cas_head :: "'z wl_mem_scheme \<Rightarrow> u64 \<Rightarrow> u64 \<Rightarrow> bool \<times> u64 \<times> 'z wl_mem_scheme" where
  "cas_head g cmp src =
     (let (swapped, cmp', w) = AtomicCompareAndSwap (mWaiters g) cmp src
      in (swapped, cmp', g\<lparr>mWaiters := w\<rparr>))"

lemma cas_head_if:
  "cas_head g cmp src =
     (if mWaiters g = cmp then (True, cmp, g\<lparr>mWaiters := src\<rparr>) else (False, mWaiters g, g))"
  by (simp add: cas_head_def AtomicCompareAndSwap_if)

section \<open>WaiterList::RemoveWaiter\<close>

text \<open>
  One constructor per point between two accesses to shared memory.  \<open>RwTest head\<close> is the top of
  the loop with a value of \<^verbatim>\<open>head\<close>; \<open>RwScan current\<close>, \<open>RwRead\<close> and \<open>RwWrite\<close> are
  \<^verbatim>\<open>RemoveWaiterFromListNotAtHead\<close>, run with the lock bit held.
\<close>

datatype remove_pc =
    RwLoad \<comment> \<open>\<^verbatim>\<open>head = Load()\<close>\<close>
  | RwTest u64
  | RwPop u64 addr \<comment> \<open>\<^verbatim>\<open>headPtr == waiter\<close>, its \<^verbatim>\<open>next\<close> read\<close>
  | RwScan addr \<comment> \<open>about to read \<^verbatim>\<open>current->next\<close>\<close>
  | RwRead addr \<comment> \<open>found; about to read \<^verbatim>\<open>waiter->next\<close>\<close>
  | RwWrite addr addr \<comment> \<open>about to write it to \<^verbatim>\<open>current->next\<close>\<close>
  | RwUnlock bool \<comment> \<open>about to clear the lock bit\<close>
  | RwDone bool

fun remove_step ::
  "addr \<Rightarrow> 'z wl_mem_scheme \<Rightarrow> remove_pc \<Rightarrow> ('z wl_mem_scheme \<times> remove_pc) option" where
  "remove_step waiter g RwLoad = Some (g, RwTest (mWaiters g))"
| "remove_step waiter g (RwTest head) =
     (if GetPointer head = 0 then Some (g, RwDone False)
      else if lock_set head then Some (g, RwTest (mWaiters g))
      else if GetPointer head = waiter then Some (g, RwPop head (wnext g (GetPointer head)))
      else (case cas_head g head ((head OR LOCK_BIT) + ABA_ADDEND) of
              (True, _, g') \<Rightarrow> Some (g', RwScan (GetPointer head))
            | (False, head', g') \<Rightarrow> Some (g', RwTest head')))"
| "remove_step waiter g (RwPop head nxt) =
     (case cas_head g head (SetPointer head nxt + ABA_ADDEND) of
        (True, _, g') \<Rightarrow> Some (g', RwDone True)
      | (False, head', g') \<Rightarrow> Some (g', RwTest head'))"
| "remove_step waiter g (RwScan current) =
     (if wnext g current \<noteq> 0
      then if wnext g current = waiter then Some (g, RwRead current)
           else Some (g, RwScan (wnext g current))
      else Some (g, RwUnlock False))"
| "remove_step waiter g (RwRead current) = Some (g, RwWrite current (wnext g waiter))"
| "remove_step waiter g (RwWrite current nxt) =
     Some (g\<lparr>wnext := (wnext g)(current := nxt)\<rparr>, RwUnlock True)"
| "remove_step waiter g (RwUnlock removed) = Some (WaiterList_Unlock g, RwDone removed)"
| "remove_step waiter g (RwDone r) = None"

text \<open>The list lock: the thread that set the bit holds it until it clears it.\<close>

fun rw_holds_lock :: "remove_pc \<Rightarrow> nat" where
  "rw_holds_lock (RwScan _) = 1"
| "rw_holds_lock (RwRead _) = 1"
| "rw_holds_lock (RwWrite _ _) = 1"
| "rw_holds_lock (RwUnlock _) = 1"
| "rw_holds_lock _ = 0"

definition lock_free :: "u64 \<Rightarrow> nat" where
  "lock_free w = (if lock_set w then 0 else 1)"

text \<open>What a thread inside \<^verbatim>\<open>RemoveWaiter\<close> knows of its own variables.\<close>

fun rw_ok :: "addr \<Rightarrow> remove_pc \<Rightarrow> bool" where
  "rw_ok waiter (RwPop head nxt) \<longleftrightarrow>
     aligned nxt \<and> \<not> lock_set head \<and> GetPointer head = waiter \<and> waiter \<noteq> 0"
| "rw_ok waiter (RwWrite current nxt) \<longleftrightarrow> aligned nxt"
| "rw_ok waiter _ \<longleftrightarrow> True"

lemma remove_step_ok:
  assumes "remove_step waiter g pc = Some (g', pc')" and "rw_ok waiter pc"
    and "all_aligned (wnext g)"
  shows "rw_ok waiter pc' \<and> all_aligned (wnext g')"
  using assms
  by (cases pc) (auto simp: cas_head_if step_simps split: if_splits)

lemma remove_step_lock:
  assumes "remove_step waiter g pc = Some (g', pc')" and "rw_ok waiter pc"
    and "lock_free (mWaiters g) + rw_holds_lock pc \<le> 1"
  shows "lock_free (mWaiters g') + rw_holds_lock pc' = lock_free (mWaiters g) + rw_holds_lock pc"
  using assms
  by (cases pc)
     (auto simp: cas_head_if step_simps lock_free_def word_packing split: if_splits)

text \<open>\<^verbatim>\<open>RemoveWaiter\<close> leaves the user flag alone, and notifies nobody.\<close>

lemma remove_step_user:
  assumes "remove_step waiter g pc = Some (g', pc')" and "rw_ok waiter pc"
  shows "user_set (mWaiters g') = user_set (mWaiters g) \<and> notified g' = notified g"
  using assms
  by (cases pc) (auto simp: cas_head_if step_simps word_packing split: if_splits)

section \<open>RemoveWaiter on its own\<close>

text \<open>A list with nobody inside an operation.\<close>

definition quiet :: "'z wl_mem_scheme \<Rightarrow> addr list \<Rightarrow> bool" where
  "quiet g ws \<longleftrightarrow> holds_list g ws \<and> all_aligned (wnext g) \<and> \<not> lock_set (mWaiters g)"

lemma scan_found:
  assumes "wlist (wnext g) c (c # us @ w # ws)" and "w \<notin> set us"
  shows "\<exists>p \<in> set (c # us).
    run_within (remove_step w) (length us + 3) (g, RwScan c)
      (g\<lparr>wnext := (wnext g)(p := wnext g w)\<rparr>, RwUnlock True) \<and>
    wlist ((wnext g)(p := wnext g w)) c (c # us @ ws)"
  using assms
proof (induction us arbitrary: c)
  case Nil
  have "wlist ((wnext g)(c := wnext g w)) c (c # ws)"
    using wlist_unlink [of "wnext g" c "[]" c w ws] Nil by (simp only: append_Nil append_Cons)
  moreover have "run_within (remove_step w) 3 (g, RwScan c)
      (g\<lparr>wnext := (wnext g)(c := wnext g w)\<rparr>, RwUnlock True)"
    using Nil by (auto simp: eval_nat_numeral intro!: run_within_step)
  ultimately show ?case by (intro bexI [of _ c]) simp_all
next
  case (Cons u us)
  have d: "distinct (c # u # us @ w # ws)" using Cons.prems(1) by (metis append_Cons wlist_distinct)
  have c: "c \<noteq> 0" "wnext g c = u" "u \<noteq> 0" and u: "wlist (wnext g) u (u # us @ w # ws)"
    using Cons.prems(1) by auto
  obtain p where p: "p \<in> set (u # us)"
    and r: "run_within (remove_step w) (length us + 3) (g, RwScan u)
      (g\<lparr>wnext := (wnext g)(p := wnext g w)\<rparr>, RwUnlock True)"
    and l: "wlist ((wnext g)(p := wnext g w)) u (u # us @ ws)"
    using Cons.IH [OF u] Cons.prems(2) by (meson list.set_intros(2))
  have st: "remove_step w g (RwScan c) = Some (g, RwScan u)"
    using c Cons.prems(2) by auto
  have "c \<noteq> p" using d p by auto
  then have "wlist ((wnext g)(p := wnext g w)) c (c # (u # us) @ ws)"
    using l c by (simp)
  then show ?case using run_within_step [OF st r] p by (intro bexI [of _ p]) simp_all
qed

lemma scan_absent:
  assumes "wlist (wnext g) c (c # us)" and "w \<notin> set us"
  shows "run_within (remove_step w) (length us + 1) (g, RwScan c) (g, RwUnlock False)"
  using assms
proof (induction us arbitrary: c)
  case Nil
  then show ?case by (auto intro!: run_within_step)
next
  case (Cons u us)
  then have "run_within (remove_step w) (length us + 1) (g, RwScan u) (g, RwUnlock False)"
    by simp
  moreover have "remove_step w g (RwScan c) = Some (g, RwScan u)" using Cons.prems by auto
  ultimately show ?case by (simp add: run_within_step)
qed

text \<open>The call: what it returns, what becomes of the list, and that it touches nothing else.\<close>

definition removed :: "'z wl_mem_scheme \<Rightarrow> 'z wl_mem_scheme \<Rightarrow> addr list \<Rightarrow> addr \<Rightarrow> bool" where
  "removed g g' ws w \<longleftrightarrow> quiet g' (remove1 w ws) \<and>
     user_set (mWaiters g') = user_set (mWaiters g) \<and> notified g' = notified g \<and>
     (\<forall>a. a \<notin> set ws \<longrightarrow> wnext g' a = wnext g a) \<and> wl_mem.more g' = wl_mem.more g"

lemma remove_slow:
  assumes q: "quiet g (h # us)" and w: "h \<noteq> w"
  shows "\<exists>g'. run_within (remove_step w) (length us + 5) (g, RwTest (mWaiters g))
      (g', RwDone (w \<in> set us)) \<and> removed g g' (h # us) w"
proof -
  define g1 where "g1 = g\<lparr>mWaiters := (mWaiters g OR LOCK_BIT) + ABA_ADDEND\<rparr>"
  have h: "GetPointer (mWaiters g) = h" "h \<noteq> 0" and l: "wlist (wnext g) h (h # us)"
    and al: "all_aligned (wnext g)" and nl: "\<not> lock_set (mWaiters g)"
    using q by (auto simp: quiet_def holds_list_def)
  have st: "remove_step w g (RwTest (mWaiters g)) = Some (g1, RwScan h)"
    using h nl w by (simp add: cas_head_if g1_def)
  have nx: "wnext g1 = wnext g" by (simp add: g1_def)
  have fin: "run_within (remove_step w) 1 (g2, RwUnlock b) (WaiterList_Unlock g2, RwDone b)"
    for g2 :: "'z wl_mem_scheme" and b by (auto intro!: run_within_step)
  have view: "GetPointer (mWaiters g1 AND NOT LOCK_BIT) = h"
    "user_set (mWaiters g1 AND NOT LOCK_BIT) = user_set (mWaiters g)"
    "\<not> lock_set (mWaiters g1 AND NOT LOCK_BIT)"
    using h by (simp_all add: g1_def word_packing)
  show ?thesis
  proof (cases "w \<in> set us")
    case True
    then obtain as bs where us: "us = as @ w # bs" and as: "w \<notin> set as"
      by (meson split_list_first)
    obtain p where p: "p \<in> set (h # as)"
      and r: "run_within (remove_step w) (length as + 3) (g1, RwScan h)
        (g1\<lparr>wnext := (wnext g)(p := wnext g w)\<rparr>, RwUnlock True)"
      and l': "wlist ((wnext g)(p := wnext g w)) h (h # as @ bs)"
      using scan_found [of g1 h as w bs] l as us unfolding nx by blast
    define g2 where "g2 = g1\<lparr>wnext := (wnext g)(p := wnext g w)\<rparr>"
    have "run_within (remove_step w) (Suc (length as + 3 + 1)) (g, RwTest (mWaiters g))
        (WaiterList_Unlock g2, RwDone True)"
      using run_within_step [OF st run_within_trans [OF r fin]] by (simp add: g2_def)
    then have "run_within (remove_step w) (length us + 5) (g, RwTest (mWaiters g))
        (WaiterList_Unlock g2, RwDone True)"
      by (rule run_within_mono) (simp add: us)
    moreover have "remove1 w (h # us) = h # as @ bs"
      using w as by (simp add: us remove1_append)
    moreover have nx2: "wnext (WaiterList_Unlock g2) = (wnext g)(p := wnext g w)"
      by (simp add: step_simps g2_def)
    moreover have m2: "mWaiters (WaiterList_Unlock g2) = mWaiters g1 AND NOT LOCK_BIT"
      "notified (WaiterList_Unlock g2) = notified g"
      "wl_mem.more (WaiterList_Unlock g2) = wl_mem.more g"
      by (simp_all add: g2_def g1_def WaiterList_Unlock_def AtomicAnd_def sync_fetch_and_def)
    have "a \<notin> set (h # us) \<Longrightarrow> ((wnext g)(p := wnext g w)) a = wnext g a" for a
      using p us by (auto simp: fun_upd_apply)
    then have "removed g (WaiterList_Unlock g2) (h # us) w"
      using l' al by (simp add: removed_def quiet_def holds_list_def nx2 m2 view
          \<open>remove1 w (h # us) = h # as @ bs\<close> del: remove1.simps wlist.simps)
    ultimately show ?thesis using True by auto
  next
    case False
    have "run_within (remove_step w) (Suc (length us + 1 + 1)) (g, RwTest (mWaiters g))
        (WaiterList_Unlock g1, RwDone False)"
      using run_within_step [OF st run_within_trans [OF scan_absent fin]] l False by (simp add: nx)
    then have "run_within (remove_step w) (length us + 5) (g, RwTest (mWaiters g))
        (WaiterList_Unlock g1, RwDone False)"
      by (rule run_within_mono) simp
    moreover have "remove1 w (h # us) = h # us" using w False by (simp add: remove1_idem)
    moreover have m1: "mWaiters (WaiterList_Unlock g1) = mWaiters g1 AND NOT LOCK_BIT"
      "wnext (WaiterList_Unlock g1) = wnext g" "notified (WaiterList_Unlock g1) = notified g"
      "wl_mem.more (WaiterList_Unlock g1) = wl_mem.more g"
      by (simp_all add: g1_def WaiterList_Unlock_def AtomicAnd_def sync_fetch_and_def)
    have "removed g (WaiterList_Unlock g1) (h # us) w"
      using l al by (simp add: removed_def quiet_def holds_list_def m1 view
          \<open>remove1 w (h # us) = h # us\<close> del: remove1.simps wlist.simps)
    ultimately show ?thesis using False by auto
  qed
qed

lemma RemoveWaiter_call:
  assumes q: "quiet g ws" and w: "w \<noteq> 0"
  shows "\<exists>g'. run_to_end (remove_step w) (length ws + 6) (g, RwLoad) = Some (g', RwDone (w \<in> set ws))
    \<and> removed g g' ws w"
proof -
  have "\<exists>g'. run_within (remove_step w) (length ws + 5) (g, RwTest (mWaiters g))
      (g', RwDone (w \<in> set ws)) \<and> removed g g' ws w"
  proof (cases ws)
    case Nil
    then have "GetPointer (mWaiters g) = 0" using q by (simp add: quiet_def holds_list_def)
    then have "run_within (remove_step w) (Suc 4) (g, RwTest (mWaiters g)) (g, RwDone False)"
      by (intro run_within_step [OF _ run_within_refl]) simp
    then show ?thesis using q by (intro exI [of _ g]) (simp add: removed_def Nil)
  next
    case (Cons h us)
    show ?thesis
    proof (cases "h = w")
      case True
      define g' where "g' = g\<lparr>mWaiters := SetPointer (mWaiters g) (wnext g w) + ABA_ADDEND\<rparr>"
      have h: "GetPointer (mWaiters g) = w" and l: "wlist (wnext g) (wnext g w) us"
        and al: "all_aligned (wnext g)" and nl: "\<not> lock_set (mWaiters g)"
        using q by (auto simp: quiet_def holds_list_def Cons True)
      have "run_within (remove_step w) 2 (g, RwTest (mWaiters g)) (g', RwDone True)"
        using h w nl by (auto simp: eval_nat_numeral cas_head_if g'_def intro!: run_within_step)
      then have "run_within (remove_step w) (length ws + 5) (g, RwTest (mWaiters g)) (g', RwDone True)"
        by (rule run_within_mono) simp
      moreover have "removed g g' ws w" using h l al nl
        by (simp add: removed_def quiet_def holds_list_def Cons True g'_def word_packing)
      ultimately show ?thesis by (auto simp: Cons True)
    next
      case False
      then obtain g' where r: "run_within (remove_step w) (length us + 5) (g, RwTest (mWaiters g))
          (g', RwDone (w \<in> set us))" and "removed g g' (h # us) w"
        using remove_slow [of g h us w] q Cons by blast
      moreover have "run_within (remove_step w) (length ws + 5) (g, RwTest (mWaiters g))
          (g', RwDone (w \<in> set us))"
        by (rule run_within_mono [OF r]) (simp add: Cons)
      ultimately show ?thesis using False by (auto simp: Cons)
    qed
  qed
  then obtain g' where r: "run_within (remove_step w) (length ws + 5) (g, RwTest (mWaiters g))
      (g', RwDone (w \<in> set ws))" and "removed g g' ws w" by blast
  have "run_within (remove_step w) (Suc (length ws + 5)) (g, RwLoad) (g', RwDone (w \<in> set ws))"
    by (rule run_within_step [OF _ r]) simp
  then have "run_to_end (remove_step w) (Suc (length ws + 5)) (g, RwLoad)
      = Some (g', RwDone (w \<in> set ws))"
    by (rule run_within_to_end) simp
  with \<open>removed g g' ws w\<close> show ?thesis by (intro exI [of _ g']) (simp add: add.commute)
qed

section \<open>Pushing and popping at rest\<close>

text \<open>The address of a waiter.\<close>

definition waiter_addr :: "addr \<Rightarrow> bool" where
  "waiter_addr w \<longleftrightarrow> aligned w \<and> w \<noteq> 0"

lemma quiet_push:
  assumes "quiet g ws" and "waiter_addr w" and "w \<notin> set ws"
  shows "quiet (g\<lparr>wnext := (wnext g)(w := GetPointer (mWaiters g)),
    mWaiters := SetPointer (mWaiters g) w + ABA_ADDEND\<rparr>) (w # ws)"
  using assms by (simp add: quiet_def holds_list_def waiter_addr_def word_packing)

lemma quiet_pop:
  assumes "quiet g (w # ws)"
  shows "quiet (g\<lparr>mWaiters := SetPointer (mWaiters g) (wnext g w) + ABA_ADDEND\<rparr>) ws"
    and "GetPointer (mWaiters g) = w" and "w \<noteq> 0"
  using assms by (auto simp: quiet_def holds_list_def word_packing)

lemma quiet_head: "quiet g [] \<Longrightarrow> GetPointer (mWaiters g) = 0"
  by (simp add: quiet_def holds_list_def)

text \<open>Evaluating packed words on concrete values.\<close>

lemmas view_eval =
  user_set_def lock_set_def GetPointer_def SetPointer_def get_ptr_def set_ptr_def aligned_def
  fits_def layout_defs

section \<open>Interface: IWaitable\<close>

text \<open>A call of a machine returns, within some number of steps and without interference.\<close>

definition returns ::
  "('g \<Rightarrow> 'l \<Rightarrow> ('g \<times> 'l) option) \<Rightarrow> 'g \<Rightarrow> 'l \<Rightarrow> 'g \<Rightarrow> 'l \<Rightarrow> bool" where
  "returns tstep g entry g' exit \<longleftrightarrow> (\<exists>n. run_to_end tstep n (g, entry) = Some (g', exit))"

lemma run_within_returns:
  "run_within tstep n (g, entry) (g', exit) \<Longrightarrow> tstep g' exit = None \<Longrightarrow>
   returns tstep g entry g' exit"
  unfolding returns_def by (blast intro: run_within_to_end)

text \<open>
  What the waiting functions rely on.  \<open>waiting s ws\<close>: the object is at rest and \<open>ws\<close> are the
  waiters it will notify.  \<open>adds w s r s'\<close> and \<open>removes w s r s'\<close>: the call returns \<open>r\<close> and
  leaves \<open>s'\<close>.
\<close>

locale iwaitable =
  fixes adds removes :: "addr \<Rightarrow> 's \<Rightarrow> bool \<Rightarrow> 's \<Rightarrow> bool"
    and waiting :: "'s \<Rightarrow> addr list \<Rightarrow> bool"
  assumes add_returns: "waiting s ws \<Longrightarrow> waiter_addr w \<Longrightarrow> w \<notin> set ws \<Longrightarrow>
      \<exists>r s'. adds w s r s' \<and> waiting s' (if r then w # ws else ws)"
    and remove_returns: "waiting s ws \<Longrightarrow> waiter_addr w \<Longrightarrow>
      \<exists>s'. removes w s (w \<in> set ws) s' \<and> waiting s' (remove1 w ws)"
begin

text \<open>Adding a waiter and taking it back leaves the others as they were; a second \<^verbatim>\<open>RemoveWaiter\<close>
  then finds nothing.\<close>

lemma add_remove:
  assumes "waiting s ws" and "waiter_addr w" and "w \<notin> set ws"
  shows "\<exists>r s1 s2. adds w s r s1 \<and> removes w s1 r s2 \<and> waiting s2 ws"
proof -
  obtain r s1 where a: "adds w s r s1" and w1: "waiting s1 (if r then w # ws else ws)"
    using add_returns [OF assms] by blast
  obtain s2 where "removes w s1 (w \<in> set (if r then w # ws else ws)) s2"
    and "waiting s2 (remove1 w (if r then w # ws else ws))"
    using remove_returns [OF w1 assms(2)] by blast
  moreover have "(w \<in> set (if r then w # ws else ws)) = r"
    and "remove1 w (if r then w # ws else ws) = ws"
    using assms(3) by (auto simp: remove1_idem)
  ultimately show ?thesis using a by metis
qed

end

end
