(* ===== verification/Mutex.thy ===== *)
theory Mutex
  imports Waiter_List
begin

text \<open>
  \<^verbatim>\<open>Mutex\<close> (mutex.hpp, mutex.cpp).  The head word is \<open>MUTEX_FREE_BIT\<close> when the mutex is free;
  otherwise it is the packed list of waiters, and ownership is handed to the waiter an \<^verbatim>\<open>Unlock\<close>
  pops.  Each operation is a machine with one constructor per point between two accesses to
  shared memory; a thread runs a script of operations.
\<close>

section \<open>Shared memory\<close>

record mutex_mem = wl_mem +
  granted :: "addr list" \<comment> \<open>waiters notified whose owner has not yet woken up\<close>
  mSpinCount :: u32

definition MUTEX_FREE_BIT :: u64 where
  "MUTEX_FREE_BIT = USER_FLAG_BIT"

definition Mutex_init :: "u32 \<Rightarrow> (addr \<Rightarrow> addr) \<Rightarrow> mutex_mem" where
  "Mutex_init spinCount nx =
     \<lparr>mWaiters = MUTEX_FREE_BIT, wnext = nx, notified = [], granted = [], mSpinCount = spinCount\<rparr>"

definition Mutex_IsLocked :: "mutex_mem \<Rightarrow> bool" where
  "Mutex_IsLocked g \<longleftrightarrow> mWaiters g \<noteq> MUTEX_FREE_BIT"

definition Mutex_IsOrderDependent :: bool where
  "Mutex_IsOrderDependent = True"

text \<open>The callback a waiter of the library carries posts the semaphore its thread sleeps on.\<close>

definition Mutex_Notify :: "addr \<Rightarrow> mutex_mem \<Rightarrow> mutex_mem" where
  "Mutex_Notify w g = g\<lparr>notified := w # notified g, granted := w # granted g\<rparr>"

section \<open>Operations\<close>

datatype add_pc =
    AddEntry
  | AddTest u64 \<comment> \<open>top of the loop, with \<^verbatim>\<open>head\<close>\<close>
  | AddPush u64 \<comment> \<open>\<^verbatim>\<open>waiter->next\<close> written\<close>
  | AddDone bool
  | AddAssert \<comment> \<open>a \<^verbatim>\<open>CRUNCH_ASSERT\<close> failed\<close>

fun Mutex_AddWaiter_step :: "addr \<Rightarrow> mutex_mem \<Rightarrow> add_pc \<Rightarrow> (mutex_mem \<times> add_pc) option" where
  "Mutex_AddWaiter_step waiter g AddEntry =
     (case cas_head g MUTEX_FREE_BIT 0 of
        (True, _, g') \<Rightarrow> Some (g', AddDone False)
      | (False, head, g') \<Rightarrow> Some (g', AddTest head))"
| "Mutex_AddWaiter_step waiter g (AddTest head) =
     (if user_set head
      then if head \<noteq> MUTEX_FREE_BIT then Some (g, AddAssert)
           else (case cas_head g head 0 of
                   (True, _, g') \<Rightarrow> Some (g', AddDone False)
                 | (False, head', g') \<Rightarrow> Some (g', AddTest head'))
      else Some (g\<lparr>wnext := (wnext g)(waiter := GetPointer head)\<rparr>, AddPush head))"
| "Mutex_AddWaiter_step waiter g (AddPush head) =
     (if \<not> aligned waiter then Some (g, AddAssert)
      else (case cas_head g head (SetPointer head waiter + ABA_ADDEND) of
              (True, _, g') \<Rightarrow> Some (g', AddDone True)
            | (False, head', g') \<Rightarrow> Some (g', AddTest head')))"
| "Mutex_AddWaiter_step waiter g (AddDone r) = None"
| "Mutex_AddWaiter_step waiter g AddAssert = None"

datatype lock_pc =
    LockEntry
  | LockSpin u32 \<comment> \<open>\<^verbatim>\<open>while (spinLeft--)\<close>\<close>
  | LockSpinCas u32 \<comment> \<open>a free word was loaded\<close>
  | LockWait \<comment> \<open>about to call \<^verbatim>\<open>WaitFor\<close>\<close>
  | LockDone

fun Mutex_Lock_step :: "mutex_mem \<Rightarrow> lock_pc \<Rightarrow> (mutex_mem \<times> lock_pc) option" where
  "Mutex_Lock_step g LockEntry =
     (case cas_head g MUTEX_FREE_BIT 0 of
        (True, _, g') \<Rightarrow> Some (g', LockDone)
      | (False, _, g') \<Rightarrow> Some (g', LockSpin (mSpinCount g)))"
| "Mutex_Lock_step g (LockSpin spinLeft) =
     (if spinLeft \<noteq> 0
      then if mWaiters g = MUTEX_FREE_BIT then Some (g, LockSpinCas (spinLeft - 1))
           else Some (g, LockSpin (spinLeft - 1))
      else Some (g, LockWait))"
| "Mutex_Lock_step g (LockSpinCas spinLeft) =
     (case cas_head g MUTEX_FREE_BIT 0 of
        (True, _, g') \<Rightarrow> Some (g', LockDone)
      | (False, _, g') \<Rightarrow> Some (g', LockSpin spinLeft))"
| "Mutex_Lock_step g LockWait = None"
| "Mutex_Lock_step g LockDone = None"

datatype unlock_pc =
    UnlockEntry
  | UnlockTest u64 \<comment> \<open>top of the loop, with \<^verbatim>\<open>head\<close>\<close>
  | UnlockPop u64 addr \<comment> \<open>\<^verbatim>\<open>headPtr->next\<close> read\<close>
  | UnlockNotify addr \<comment> \<open>popped; about to notify\<close>
  | UnlockDone
  | UnlockAssert

fun Mutex_Unlock_step :: "mutex_mem \<Rightarrow> unlock_pc \<Rightarrow> (mutex_mem \<times> unlock_pc) option" where
  "Mutex_Unlock_step g UnlockEntry =
     (case cas_head g 0 MUTEX_FREE_BIT of
        (True, _, g') \<Rightarrow> Some (g', UnlockDone)
      | (False, head, g') \<Rightarrow> Some (g', UnlockTest head))"
| "Mutex_Unlock_step g (UnlockTest head) =
     (if user_set head then Some (g, UnlockAssert)
      else if GetPointer head = 0
      then if lock_set head then Some (g, UnlockAssert)
           else (case cas_head g head MUTEX_FREE_BIT of
                   (True, _, g') \<Rightarrow> Some (g', UnlockDone)
                 | (False, head', g') \<Rightarrow> Some (g', UnlockTest head'))
      else if lock_set head then Some (g, UnlockTest (mWaiters g))
      else Some (g, UnlockPop head (wnext g (GetPointer head))))"
| "Mutex_Unlock_step g (UnlockPop head nxt) =
     (if \<not> aligned nxt then Some (g, UnlockAssert)
      else (case cas_head g head (SetPointer head nxt + ABA_ADDEND) of
              (True, _, g') \<Rightarrow> Some (g', UnlockNotify (GetPointer head))
            | (False, head', g') \<Rightarrow> Some (g', UnlockTest head')))"
| "Mutex_Unlock_step g (UnlockNotify headPtr) = Some (Mutex_Notify headPtr g, UnlockDone)"
| "Mutex_Unlock_step g UnlockDone = None"
| "Mutex_Unlock_step g UnlockAssert = None"

section \<open>Threads\<close>

text \<open>
  \<^verbatim>\<open>Lock\<close> carries the address of the waiter that \<^verbatim>\<open>WaitFor\<close> will allocate if it has to wait.
  \<open>DoAwait w\<close> is a thread sleeping until its waiter \<open>w\<close> is notified.  The contract of the
  callers is the guard of \<open>DoUnlock\<close>: a thread unlocks a mutex it owns.
\<close>

datatype mutex_op = DoLock addr | DoUnlock | DoAdd addr | DoAwait addr | DoRemove addr

datatype mutex_pc =
    MIdle
  | MLock addr lock_pc
  | MAdd addr bool add_pc \<comment> \<open>\<open>True\<close>: called by \<^verbatim>\<open>WaitFor\<close>\<close>
  | MAwait addr
  | MUnlock unlock_pc
  | MRemove addr remove_pc

record mutex_thread =
  mpc :: mutex_pc
  script :: "mutex_op list"
  owns :: bool
  result :: bool \<comment> \<open>of the last operation that returned one\<close>

fun begin_op :: "mutex_thread \<Rightarrow> mutex_op \<Rightarrow> mutex_op list \<Rightarrow> mutex_thread option" where
  "begin_op t (DoLock w) ops = Some (t\<lparr>mpc := MLock w LockEntry, script := ops\<rparr>)"
| "begin_op t DoUnlock ops =
     (if owns t then Some (t\<lparr>mpc := MUnlock UnlockEntry, script := ops, owns := False\<rparr>) else None)"
| "begin_op t (DoAdd w) ops = Some (t\<lparr>mpc := MAdd w False AddEntry, script := ops\<rparr>)"
| "begin_op t (DoAwait w) ops = Some (t\<lparr>mpc := MAwait w, script := ops\<rparr>)"
| "begin_op t (DoRemove w) ops = Some (t\<lparr>mpc := MRemove w RwLoad, script := ops\<rparr>)"

definition mutex_step :: "mutex_mem \<Rightarrow> mutex_thread \<Rightarrow> (mutex_mem \<times> mutex_thread) option" where
  "mutex_step g t = (case mpc t of
     MIdle \<Rightarrow>
       (case script t of
          [] \<Rightarrow> None
        | op # ops \<Rightarrow> map_option (\<lambda>t'. (g, t')) (begin_op t op ops))
   | MLock w LockDone \<Rightarrow> Some (g, t\<lparr>mpc := MIdle, owns := True\<rparr>)
   | MLock w LockWait \<Rightarrow> Some (g, t\<lparr>mpc := MAdd w True AddEntry\<rparr>)
   | MLock w pc \<Rightarrow> map_option (\<lambda>(g', pc'). (g', t\<lparr>mpc := MLock w pc'\<rparr>)) (Mutex_Lock_step g pc)
   | MAdd w waits (AddDone added) \<Rightarrow>
       Some (g, if \<not> added then t\<lparr>mpc := MIdle, owns := True, result := False\<rparr>
                else t\<lparr>mpc := if waits then MAwait w else MIdle, result := True\<rparr>)
   | MAdd w waits pc \<Rightarrow>
       map_option (\<lambda>(g', pc'). (g', t\<lparr>mpc := MAdd w waits pc'\<rparr>)) (Mutex_AddWaiter_step w g pc)
   | MAwait w \<Rightarrow>
       (if w \<in> set (granted g)
        then Some (g\<lparr>granted := remove1 w (granted g)\<rparr>, t\<lparr>mpc := MIdle, owns := True\<rparr>)
        else None)
   | MUnlock UnlockDone \<Rightarrow> Some (g, t\<lparr>mpc := MIdle\<rparr>)
   | MUnlock pc \<Rightarrow> map_option (\<lambda>(g', pc'). (g', t\<lparr>mpc := MUnlock pc'\<rparr>)) (Mutex_Unlock_step g pc)
   | MRemove w (RwDone r) \<Rightarrow> Some (g, t\<lparr>mpc := MIdle, result := r\<rparr>)
   | MRemove w pc \<Rightarrow>
       map_option (\<lambda>(g', pc'). (g', t\<lparr>mpc := MRemove w pc'\<rparr>)) (remove_step w g pc))"

definition mutex_thread_init :: "mutex_op list \<Rightarrow> mutex_thread" where
  "mutex_thread_init ops = \<lparr>mpc = MIdle, script = ops, owns = False, result = False\<rparr>"

section \<open>Invariants\<close>

text \<open>A free mutex has no waiters and no other bits; a locked list is not empty.\<close>

definition mutex_gi :: "mutex_mem \<Rightarrow> bool" where
  "mutex_gi g \<longleftrightarrow>
     (user_set (mWaiters g) \<longrightarrow> mWaiters g = MUTEX_FREE_BIT) \<and>
     (lock_set (mWaiters g) \<longrightarrow> GetPointer (mWaiters g) \<noteq> 0) \<and>
     all_aligned (wnext g)"

text \<open>The addresses of a script are addresses of waiters.\<close>

fun op_ok :: "mutex_op \<Rightarrow> bool" where
  "op_ok (DoLock w) \<longleftrightarrow> waiter_addr w"
| "op_ok DoUnlock \<longleftrightarrow> True"
| "op_ok (DoAdd w) \<longleftrightarrow> waiter_addr w"
| "op_ok (DoAwait w) \<longleftrightarrow> True"
| "op_ok (DoRemove w) \<longleftrightarrow> waiter_addr w"

fun add_ok :: "add_pc \<Rightarrow> bool" where
  "add_ok (AddTest head) \<longleftrightarrow> (user_set head \<longrightarrow> head = MUTEX_FREE_BIT)"
| "add_ok (AddPush head) \<longleftrightarrow> \<not> user_set head"
| "add_ok AddAssert \<longleftrightarrow> False"
| "add_ok _ \<longleftrightarrow> True"

fun unlock_ok :: "unlock_pc \<Rightarrow> bool" where
  "unlock_ok (UnlockTest head) \<longleftrightarrow>
     \<not> user_set head \<and> (lock_set head \<longrightarrow> GetPointer head \<noteq> 0)"
| "unlock_ok (UnlockPop head nxt) \<longleftrightarrow> \<not> user_set head \<and> \<not> lock_set head \<and> aligned nxt"
| "unlock_ok UnlockAssert \<longleftrightarrow> False"
| "unlock_ok _ \<longleftrightarrow> True"

fun pc_ok :: "mutex_pc \<Rightarrow> bool" where
  "pc_ok (MLock w pc) \<longleftrightarrow> waiter_addr w"
| "pc_ok (MAdd w _ pc) \<longleftrightarrow> waiter_addr w \<and> add_ok pc"
| "pc_ok (MUnlock pc) \<longleftrightarrow> unlock_ok pc"
| "pc_ok (MRemove w pc) \<longleftrightarrow> waiter_addr w \<and> rw_ok w pc"
| "pc_ok _ \<longleftrightarrow> True"

definition mutex_li :: "mutex_thread \<Rightarrow> bool" where
  "mutex_li t \<longleftrightarrow> pc_ok (mpc t) \<and> list_all op_ok (script t)"

text \<open>Ownership.  The memory holds it when the mutex is free or a waiter was notified; a thread
  holds it from the moment an operation acquires it until \<^verbatim>\<open>Unlock\<close> has given it away.\<close>

definition mutex_gtok :: "mutex_mem \<Rightarrow> nat" where
  "mutex_gtok g = of_bool (user_set (mWaiters g)) + length (granted g)"

fun pc_tok :: "mutex_pc \<Rightarrow> nat" where
  "pc_tok (MLock _ LockDone) = 1"
| "pc_tok (MAdd _ _ (AddDone False)) = 1"
| "pc_tok (MUnlock UnlockDone) = 0"
| "pc_tok (MUnlock UnlockAssert) = 0"
| "pc_tok (MUnlock _) = 1"
| "pc_tok _ = 0"

definition mutex_ltok :: "mutex_thread \<Rightarrow> nat" where
  "mutex_ltok t = of_bool (owns t) + pc_tok (mpc t)"

text \<open>The list lock.\<close>

definition mutex_list_gtok :: "mutex_mem \<Rightarrow> nat" where
  "mutex_list_gtok g = lock_free (mWaiters g)"

fun mutex_list_ltok :: "mutex_thread \<Rightarrow> nat" where
  "mutex_list_ltok t = (case mpc t of MRemove _ pc \<Rightarrow> rw_holds_lock pc | _ \<Rightarrow> 0)"

section \<open>One step\<close>

lemma MUTEX_FREE_BIT_view [simp]:
  "GetPointer MUTEX_FREE_BIT = 0" "user_set MUTEX_FREE_BIT" "\<not> lock_set MUTEX_FREE_BIT"
  by (simp_all add: MUTEX_FREE_BIT_def)

lemma MUTEX_FREE_BIT_nonzero [simp]: "MUTEX_FREE_BIT \<noteq> 0" "0 \<noteq> MUTEX_FREE_BIT"
  by (metis MUTEX_FREE_BIT_view(2) view_0(2))+

lemma free_and_unlock [simp]: "MUTEX_FREE_BIT AND NOT LOCK_BIT = MUTEX_FREE_BIT"
  by (simp add: MUTEX_FREE_BIT_def layout_defs)

lemmas mutex_inv_defs =
  mutex_gi_def mutex_li_def mutex_gtok_def mutex_ltok_def waiter_addr_def Mutex_Notify_def
  mutex_list_gtok_def lock_free_def

lemma add_step_inv:
  assumes "Mutex_AddWaiter_step w g pc = Some (g', pc')"
    and "mutex_gi g" and "add_ok pc" and "waiter_addr w"
  shows "mutex_gi g' \<and> add_ok pc' \<and> lock_free (mWaiters g') = lock_free (mWaiters g) \<and>
    mutex_gtok g' + pc_tok (MAdd w b pc') = mutex_gtok g + pc_tok (MAdd w b pc)"
  using assms
  by (cases pc) (auto simp: mutex_inv_defs cas_head_if word_packing split: if_splits)

lemma lock_step_inv:
  assumes "Mutex_Lock_step g pc = Some (g', pc')" and "mutex_gi g"
  shows "mutex_gi g' \<and> lock_free (mWaiters g') = lock_free (mWaiters g) \<and>
    mutex_gtok g' + pc_tok (MLock w pc') = mutex_gtok g + pc_tok (MLock w pc)"
  using assms
  by (cases pc) (auto simp: mutex_inv_defs cas_head_if split: if_splits)

lemma unlock_step_inv:
  assumes "Mutex_Unlock_step g pc = Some (g', pc')"
    and "mutex_gi g" and "unlock_ok pc" and "mutex_gtok g + pc_tok (MUnlock pc) \<le> 1"
  shows "mutex_gi g' \<and> unlock_ok pc' \<and> lock_free (mWaiters g') = lock_free (mWaiters g) \<and>
    mutex_gtok g' + pc_tok (MUnlock pc') = mutex_gtok g + pc_tok (MUnlock pc)"
  using assms
  by (cases pc) (auto simp: mutex_inv_defs cas_head_if word_packing split: if_splits)

lemma remove_step_mutex_inv:
  assumes st: "remove_step w g pc = Some (g', pc')"
    and gi: "mutex_gi g" and ok: "rw_ok w pc"
  shows "mutex_gi g' \<and> rw_ok w pc' \<and> mutex_gtok g' = mutex_gtok g"
proof -
  have "granted g' = granted g"
    using st by (cases pc) (auto simp: cas_head_if WaiterList_Unlock_def split: if_splits)
  moreover have "mutex_gi g'"
    using st gi ok
    by (cases pc) (auto simp: mutex_gi_def cas_head_if step_simps word_packing split: if_splits)
  ultimately show ?thesis
    using remove_step_ok [OF st ok] remove_step_user [OF st ok] gi
    by (simp add: mutex_gtok_def mutex_gi_def)
qed

lemma mutex_step_inv:
  assumes st: "mutex_step g t = Some (g', t')"
    and gi: "mutex_gi g" and li: "mutex_li t" and le: "mutex_gtok g + mutex_ltok t \<le> 1"
  shows "mutex_gi g' \<and> mutex_li t' \<and> mutex_gtok g' + mutex_ltok t' = mutex_gtok g + mutex_ltok t"
proof (cases "mpc t")
  case MIdle
  then obtain op ops where "script t = op # ops" and "begin_op t op ops = Some t'" and "g' = g"
    using st by (auto simp: mutex_step_def split: list.splits)
  then show ?thesis using MIdle gi li
    by (cases op) (auto simp: mutex_li_def mutex_ltok_def split: if_splits)
next
  case (MLock w pc)
  then show ?thesis
    using st gi li le lock_step_inv [of g pc _ _ w]
    by (cases pc) (auto simp: mutex_step_def mutex_li_def mutex_ltok_def)
next
  case (MAdd w b pc)
  then show ?thesis
    using st gi li le add_step_inv [of w g pc _ _ b]
    by (cases pc) (auto simp: mutex_step_def mutex_li_def mutex_ltok_def split: if_splits)
next
  case (MAwait w)
  then have "w \<in> set (granted g)" and g': "g' = g\<lparr>granted := remove1 w (granted g)\<rparr>"
    and t': "t' = t\<lparr>mpc := MIdle, owns := True\<rparr>"
    using st by (auto simp: mutex_step_def split: if_splits)
  then have "length (granted g) = Suc (length (remove1 w (granted g)))"
    by (simp add: length_remove1) (metis Suc_pred length_pos_if_in_set)
  then show ?thesis using gi li le MAwait
    by (auto simp: g' t' mutex_gi_def mutex_gtok_def mutex_li_def mutex_ltok_def)
next
  case (MUnlock pc)
  then show ?thesis
    using st gi li le unlock_step_inv [of g pc]
    by (cases pc) (auto simp: mutex_step_def mutex_li_def mutex_ltok_def)
next
  case (MRemove w pc)
  then show ?thesis
    using st gi li remove_step_mutex_inv [of w g pc]
    by (cases pc) (auto simp: mutex_step_def mutex_li_def mutex_ltok_def)
qed

text \<open>The list lock does not depend on who owns the mutex: this invariant lets any thread unlock.\<close>

fun unlock_list_ok :: "unlock_pc \<Rightarrow> bool" where
  "unlock_list_ok (UnlockPop head nxt) \<longleftrightarrow> \<not> user_set head \<and> \<not> lock_set head \<and> aligned nxt"
| "unlock_list_ok _ \<longleftrightarrow> True"

definition mutex_list_li :: "mutex_thread \<Rightarrow> bool" where
  "mutex_list_li t \<longleftrightarrow> list_all op_ok (script t) \<and>
     (case mpc t of MUnlock pc \<Rightarrow> unlock_list_ok pc | pc \<Rightarrow> pc_ok pc)"

lemma unlock_step_list:
  assumes "Mutex_Unlock_step g pc = Some (g', pc')" and "mutex_gi g" and "unlock_list_ok pc"
  shows "mutex_gi g' \<and> unlock_list_ok pc' \<and> lock_free (mWaiters g') = lock_free (mWaiters g)"
  using assms
  by (cases pc) (auto simp: mutex_inv_defs cas_head_if word_packing split: if_splits)

lemma mutex_step_list_lock:
  assumes st: "mutex_step g t = Some (g', t')"
    and gi: "mutex_gi g" and li: "mutex_list_li t"
    and le: "mutex_list_gtok g + mutex_list_ltok t \<le> 1"
  shows "mutex_gi g' \<and> mutex_list_li t' \<and>
    mutex_list_gtok g' + mutex_list_ltok t' = mutex_list_gtok g + mutex_list_ltok t"
proof (cases "mpc t")
  case MIdle
  then obtain op ops where "script t = op # ops" and "begin_op t op ops = Some t'" and "g' = g"
    using st by (auto simp: mutex_step_def split: list.splits)
  then show ?thesis using MIdle gi li
    by (cases op) (auto simp: mutex_list_li_def split: if_splits)
next
  case (MLock w pc)
  then show ?thesis
    using st gi li lock_step_inv [of g pc _ _ w]
    by (cases pc) (auto simp: mutex_step_def mutex_list_gtok_def mutex_list_li_def)
next
  case (MAdd w b pc)
  then show ?thesis
    using st gi li add_step_inv [of w g pc _ _ b]
    by (cases pc)
      (auto simp: mutex_step_def mutex_list_gtok_def mutex_list_li_def split: if_splits)
next
  case (MAwait w)
  then show ?thesis using st gi li
    by (auto simp: mutex_step_def mutex_gi_def mutex_list_gtok_def mutex_list_li_def split: if_splits)
next
  case (MUnlock pc)
  then show ?thesis
    using st gi li unlock_step_list [of g pc]
    by (cases pc) (auto simp: mutex_step_def mutex_list_gtok_def mutex_list_li_def)
next
  case (MRemove w pc)
  then show ?thesis
    using st gi li le remove_step_lock [of w g pc] remove_step_mutex_inv [of w g pc]
    by (cases pc) (auto simp: mutex_step_def mutex_list_gtok_def mutex_list_li_def)
qed

interpretation mx: token_system mutex_step mutex_gi mutex_li mutex_gtok mutex_ltok 1
  by unfold_locales (blast dest: mutex_step_inv)+

interpretation mxl: token_system mutex_step mutex_gi mutex_list_li mutex_list_gtok mutex_list_ltok 1
  by unfold_locales (blast dest: mutex_step_list_lock)+

section \<open>Reachable states\<close>

definition mutex_start :: "mutex_mem \<Rightarrow> mutex_thread list \<Rightarrow> bool" where
  "mutex_start g ts \<longleftrightarrow> (\<exists>spinCount nx scripts.
     g = Mutex_init spinCount nx \<and> all_aligned nx \<and>
     ts = map mutex_thread_init scripts \<and> list_all (list_all op_ok) scripts)"

text \<open>The thread is in the section the mutex protects: it has acquired it and not yet begun to
  release it.\<close>

definition in_critical_section :: "mutex_thread \<Rightarrow> bool" where
  "in_critical_section t \<longleftrightarrow> owns t"

lemma mutex_start_inv:
  assumes "mutex_start g ts"
  shows "mutex_gi g \<and> (\<forall>t \<in> set ts. mutex_li t) \<and>
    mutex_gtok g + sum_list (map mutex_ltok ts) = 1"
proof -
  obtain spinCount nx scripts where g: "g = Mutex_init spinCount nx" "all_aligned nx"
    and ts: "ts = map mutex_thread_init scripts" "list_all (list_all op_ok) scripts"
    using assms by (auto simp: mutex_start_def)
  have "sum_list (map mutex_ltok ts) = 0"
    by (simp add: ts mutex_thread_init_def mutex_ltok_def)
  then show ?thesis using g ts
    by (auto simp: Mutex_init_def mutex_gi_def mutex_gtok_def mutex_li_def mutex_thread_init_def
        list_all_iff)
qed

lemma mutex_start_list_inv:
  assumes "mutex_start g ts"
  shows "mutex_gi g \<and> (\<forall>t \<in> set ts. mutex_list_li t) \<and>
    mutex_list_gtok g + sum_list (map mutex_list_ltok ts) = 1"
proof -
  obtain spinCount nx scripts where g: "g = Mutex_init spinCount nx" "all_aligned nx"
    and ts: "ts = map mutex_thread_init scripts" "list_all (list_all op_ok) scripts"
    using assms by (auto simp: mutex_start_def)
  have "sum_list (map mutex_list_ltok ts) = 0"
    by (simp add: ts mutex_thread_init_def)
  then show ?thesis using g ts
    by (auto simp: Mutex_init_def mutex_gi_def mutex_list_gtok_def lock_free_def
        mutex_list_li_def mutex_thread_init_def list_all_iff)
qed

lemma mutex_reachable:
  assumes "mutex_start g ts" and "executes mutex_step (g, ts) (g', ts')"
  shows "mutex_gi g'" and "t \<in> set ts' \<Longrightarrow> mutex_li t"
    and "mutex_gtok g' + sum_list (map mutex_ltok ts') = 1"
  using mx.executes_tokens [OF assms(2)] mutex_start_inv [OF assms(1)] by blast+

section \<open>Calls on a mutex at rest\<close>

text \<open>What a mutex is: free, or locked with a queue of waiters, the latest first.\<close>

datatype mutex_spec = Free | Locked "addr list"

fun spec_AddWaiter :: "addr \<Rightarrow> mutex_spec \<Rightarrow> bool \<times> mutex_spec" where
  "spec_AddWaiter w Free = (False, Locked [])"
| "spec_AddWaiter w (Locked ws) = (True, Locked (w # ws))"

fun spec_Unlock :: "mutex_spec \<Rightarrow> addr list \<times> mutex_spec" where
  "spec_Unlock Free = ([], Free)"
| "spec_Unlock (Locked []) = ([], Free)"
| "spec_Unlock (Locked (w # ws)) = ([w], Locked ws)"

fun spec_RemoveWaiter :: "addr \<Rightarrow> mutex_spec \<Rightarrow> bool \<times> mutex_spec" where
  "spec_RemoveWaiter w Free = (False, Free)"
| "spec_RemoveWaiter w (Locked ws) = (w \<in> set ws, Locked (remove1 w ws))"

fun spec_waiters :: "mutex_spec \<Rightarrow> addr list" where
  "spec_waiters Free = []"
| "spec_waiters (Locked ws) = ws"

fun mutex_abs :: "mutex_mem \<Rightarrow> mutex_spec \<Rightarrow> bool" where
  "mutex_abs g Free \<longleftrightarrow> mWaiters g = MUTEX_FREE_BIT \<and> all_aligned (wnext g)"
| "mutex_abs g (Locked ws) \<longleftrightarrow> quiet g ws \<and> \<not> user_set (mWaiters g)"

lemma mutex_abs_quiet: "mutex_abs g s \<Longrightarrow> quiet g (spec_waiters s)"
  by (cases s) (auto simp: quiet_def holds_list_def)

lemma user_set_word: "user_set w \<Longrightarrow> v \<noteq> w \<or> user_set v"
  by auto

lemma AddWaiter_call:
  assumes abs: "mutex_abs g s" and w: "waiter_addr w" "w \<notin> set (spec_waiters s)"
  shows "\<exists>g'. run_within (Mutex_AddWaiter_step w) 3 (g, AddEntry)
      (g', AddDone (fst (spec_AddWaiter w s))) \<and>
    mutex_abs g' (snd (spec_AddWaiter w s)) \<and> notified g' = notified g"
proof (cases s)
  case Free
  then have "run_within (Mutex_AddWaiter_step w) 3 (g, AddEntry)
      (g\<lparr>mWaiters := 0\<rparr>, AddDone False)"
    using abs by (simp add: run_eval cas_head_if)
  then show ?thesis using abs Free
    by (intro exI [of _ "g\<lparr>mWaiters := 0\<rparr>"]) (simp add: quiet_def holds_list_def)
next
  case (Locked ws)
  define g1 where "g1 = g\<lparr>wnext := (wnext g)(w := GetPointer (mWaiters g))\<rparr>"
  define g2 where "g2 = g1\<lparr>mWaiters := SetPointer (mWaiters g) w + ABA_ADDEND\<rparr>"
  have q: "quiet g ws" and nu: "\<not> user_set (mWaiters g)" using abs Locked by auto
  have nf: "mWaiters g \<noteq> MUTEX_FREE_BIT" using nu by auto
  have "run_within (Mutex_AddWaiter_step w) 3 (g, AddEntry) (g2, AddDone True)"
    using nf nu w by (simp add: run_eval cas_head_if g1_def g2_def waiter_addr_def)
  moreover have "quiet g2 (w # ws)"
    using quiet_push [OF q w(1)] w(2) Locked by (simp add: g1_def g2_def)
  moreover have "\<not> user_set (mWaiters g2)"
    using nu w by (simp add: g2_def word_packing waiter_addr_def)
  ultimately show ?thesis using Locked by (intro exI [of _ g2]) (simp add: g2_def g1_def)
qed

lemma Unlock_call:
  assumes abs: "mutex_abs g s" and s: "s \<noteq> Free"
  shows "\<exists>g'. run_within Mutex_Unlock_step 4 (g, UnlockEntry) (g', UnlockDone) \<and>
    mutex_abs g' (snd (spec_Unlock s)) \<and> notified g' = fst (spec_Unlock s) @ notified g"
proof -
  obtain ws where sw: "s = Locked ws" and q: "quiet g ws" and nu: "\<not> user_set (mWaiters g)"
    using abs s by (cases s) auto
  show ?thesis
  proof (cases ws)
    case Nil
    have p: "GetPointer (mWaiters g) = 0" and nl: "\<not> lock_set (mWaiters g)"
      using q Nil by (auto simp: quiet_head quiet_def)
    have "run_within Mutex_Unlock_step 4 (g, UnlockEntry) (g\<lparr>mWaiters := MUTEX_FREE_BIT\<rparr>, UnlockDone)"
      using p nl nu by (simp add: run_eval cas_head_if)
    then show ?thesis using q by (auto simp: sw Nil quiet_def)
  next
    case (Cons w us)
    define g1 where "g1 = g\<lparr>mWaiters := SetPointer (mWaiters g) (wnext g w) + ABA_ADDEND\<rparr>"
    have p: "GetPointer (mWaiters g) = w" "w \<noteq> 0" and q1: "quiet g1 us"
      and nl: "\<not> lock_set (mWaiters g)" and al: "all_aligned (wnext g)"
      using quiet_pop [of g w us] q Cons by (auto simp: g1_def quiet_def)
    have nz: "mWaiters g \<noteq> 0" using p by auto
    have "run_within Mutex_Unlock_step 4 (g, UnlockEntry) (Mutex_Notify w g1, UnlockDone)"
      using p nl nu nz al by (simp add: run_eval cas_head_if g1_def)
    moreover have "quiet (Mutex_Notify w g1) us"
      using q1 by (simp add: Mutex_Notify_def quiet_def holds_list_def)
    moreover have "\<not> user_set (mWaiters (Mutex_Notify w g1))"
      using nu al by (simp add: Mutex_Notify_def g1_def word_packing)
    ultimately show ?thesis by (auto simp: sw Cons Mutex_Notify_def g1_def)
  qed
qed

lemma mutex_RemoveWaiter_call:
  assumes abs: "mutex_abs g s" and w: "w \<noteq> 0"
  shows "\<exists>g'. run_to_end (remove_step w) (length (spec_waiters s) + 6) (g, RwLoad)
      = Some (g', RwDone (fst (spec_RemoveWaiter w s))) \<and>
    mutex_abs g' (snd (spec_RemoveWaiter w s)) \<and> notified g' = notified g"
proof (cases s)
  case Free
  then have "run_within (remove_step w) 6 (g, RwLoad) (g, RwDone False)"
    using abs by (simp add: run_eval)
  then have "run_to_end (remove_step w) 6 (g, RwLoad) = Some (g, RwDone False)"
    by (rule run_within_to_end) simp
  then show ?thesis using abs Free by simp
next
  case (Locked ws)
  then obtain g' where "run_to_end (remove_step w) (length ws + 6) (g, RwLoad)
      = Some (g', RwDone (w \<in> set ws))" and "removed g g' ws w"
    using RemoveWaiter_call [of g ws w] abs w by auto
  then show ?thesis using abs Locked by (auto simp: removed_def)
qed

text \<open>\<^verbatim>\<open>Lock\<close> spins \<^verbatim>\<open>mSpinCount\<close> times on a mutex that stays locked and then waits.\<close>

lemma LockSpin_call:
  assumes "mWaiters g \<noteq> MUTEX_FREE_BIT"
  shows "run_within Mutex_Lock_step (unat n + 1) (g, LockSpin n) (g, LockWait)"
proof (induction "unat n" arbitrary: n)
  case 0
  then show ?case by (auto simp: unat_eq_zero intro!: run_within_step)
next
  case (Suc k)
  then have n: "n \<noteq> 0" by auto
  then have k: "unat (n - 1) = k" using unat_minus_one [OF n] Suc.hyps(2) by simp
  have "run_within Mutex_Lock_step (k + 1) (g, LockSpin (n - 1)) (g, LockWait)"
    using Suc.hyps(1) [of "n - 1"] k by simp
  moreover have "Mutex_Lock_step g (LockSpin n) = Some (g, LockSpin (n - 1))"
    using n assms by simp
  ultimately show ?case using Suc.hyps(2) by (metis Suc_eq_plus1 run_within_step)
qed

lemma Lock_call:
  assumes abs: "mutex_abs g s"
  shows "\<exists>g'. run_to_end Mutex_Lock_step (unat (mSpinCount g) + 2) (g, LockEntry)
        = Some (g', if s = Free then LockDone else LockWait) \<and>
      mutex_abs g' (if s = Free then Locked [] else s) \<and> notified g' = notified g"
proof (cases s)
  case Free
  then have "Mutex_Lock_step g LockEntry = Some (g\<lparr>mWaiters := 0\<rparr>, LockDone)"
    using abs by (simp add: cas_head_if)
  then have "run_to_end Mutex_Lock_step (unat (mSpinCount g) + 2) (g, LockEntry)
      = Some (g\<lparr>mWaiters := 0\<rparr>, LockDone)"
    by (simp add: run_to_end.simps)
  then show ?thesis using abs Free by (simp add: quiet_def holds_list_def)
next
  case (Locked ws)
  have nf: "mWaiters g \<noteq> MUTEX_FREE_BIT" using abs Locked by auto
  then have "Mutex_Lock_step g LockEntry = Some (g, LockSpin (mSpinCount g))"
    by (simp add: cas_head_if)
  from run_within_step [where tstep = Mutex_Lock_step, OF this LockSpin_call [OF nf]]
  have "run_to_end Mutex_Lock_step (unat (mSpinCount g) + 2) (g, LockEntry) = Some (g, LockWait)"
    by (intro run_within_to_end) simp_all
  then show ?thesis using abs Locked by auto
qed

section \<open>The mutex is an IWaitable\<close>

definition Mutex_adds :: "addr \<Rightarrow> mutex_mem \<Rightarrow> bool \<Rightarrow> mutex_mem \<Rightarrow> bool" where
  "Mutex_adds w g r g' \<longleftrightarrow> returns (Mutex_AddWaiter_step w) g AddEntry g' (AddDone r)"

definition Mutex_removes :: "addr \<Rightarrow> mutex_mem \<Rightarrow> bool \<Rightarrow> mutex_mem \<Rightarrow> bool" where
  "Mutex_removes w g r g' \<longleftrightarrow> returns (remove_step w) g RwLoad g' (RwDone r)"

definition Mutex_waiting :: "mutex_mem \<Rightarrow> addr list \<Rightarrow> bool" where
  "Mutex_waiting g ws \<longleftrightarrow> (\<exists>s. mutex_abs g s \<and> spec_waiters s = ws)"

interpretation mutex_waitable: iwaitable Mutex_adds Mutex_removes Mutex_waiting
proof unfold_locales
  fix g ws w
  assume "Mutex_waiting g ws" and w: "waiter_addr w" "w \<notin> set ws"
  then obtain s where abs: "mutex_abs g s" and ws: "spec_waiters s = ws"
    by (auto simp: Mutex_waiting_def)
  obtain g' where r: "run_within (Mutex_AddWaiter_step w) 3 (g, AddEntry)
      (g', AddDone (fst (spec_AddWaiter w s)))" and abs': "mutex_abs g' (snd (spec_AddWaiter w s))"
    using AddWaiter_call [OF abs w(1)] w(2) ws by blast
  have "Mutex_adds w g (fst (spec_AddWaiter w s)) g'"
    unfolding Mutex_adds_def by (rule run_within_returns [OF r]) simp
  moreover have "Mutex_waiting g' (if fst (spec_AddWaiter w s) then w # ws else ws)"
    unfolding Mutex_waiting_def using abs' ws
    by (intro exI [of _ "snd (spec_AddWaiter w s)"]) (cases s; simp)
  ultimately show "\<exists>r g'. Mutex_adds w g r g' \<and> Mutex_waiting g' (if r then w # ws else ws)"
    by blast
next
  fix g ws w
  assume "Mutex_waiting g ws" and w: "waiter_addr w"
  then obtain s where abs: "mutex_abs g s" and ws: "spec_waiters s = ws"
    by (auto simp: Mutex_waiting_def)
  obtain g' where r: "run_to_end (remove_step w) (length (spec_waiters s) + 6) (g, RwLoad)
      = Some (g', RwDone (fst (spec_RemoveWaiter w s)))"
    and abs': "mutex_abs g' (snd (spec_RemoveWaiter w s))"
    using mutex_RemoveWaiter_call [OF abs] w by (auto simp: waiter_addr_def)
  have "fst (spec_RemoveWaiter w s) = (w \<in> set ws)" and
    sw: "spec_waiters (snd (spec_RemoveWaiter w s)) = remove1 w ws" using ws by (cases s; auto)+
  then have "Mutex_removes w g (w \<in> set ws) g'"
    using r unfolding Mutex_removes_def returns_def by auto
  moreover have "Mutex_waiting g' (remove1 w ws)"
    unfolding Mutex_waiting_def using abs' sw by blast
  ultimately show "\<exists>g'. Mutex_removes w g (w \<in> set ws) g' \<and> Mutex_waiting g' (remove1 w ws)"
    by blast
qed

section \<open>Properties\<close>

text \<open>A run for the witnesses: thread 0 locks, thread 1 queues up behind it (waiter 8), thread 0
  unlocks and hands over, thread 1 wakes up.\<close>

definition mutex_demo :: "mutex_mem \<times> mutex_thread list" where
  "mutex_demo = (Mutex_init 0 (\<lambda>_. 0), map mutex_thread_init [[DoLock 4, DoUnlock], [DoLock 8]])"

definition mutex_demo_sched :: "nat list" where
  "mutex_demo_sched = [0, 0, 0] @ [1, 1, 1, 1, 1, 1, 1, 1] @ [0, 0, 0, 0, 0, 0] @ [1]"

lemma mutex_demo_start: "mutex_start (fst mutex_demo) (snd mutex_demo)"
  unfolding mutex_start_def mutex_demo_def
  by (intro exI [of _ 0] exI [of _ "\<lambda>_. 0"] exI [of _ "[[DoLock 4, DoUnlock], [DoLock 8]]"])
    (simp add: all_aligned_def waiter_addr_def aligned_def fits_def layout_defs)

lemma mutex_demo_run:
  "\<exists>g' ts'. run_sched mutex_step mutex_demo_sched mutex_demo = Some (g', ts') \<and>
     length ts' = 2 \<and> in_critical_section (ts' ! 1) \<and> notified g' = [8]"
  by (simp add: mutex_demo_def mutex_demo_sched_def Mutex_init_def mutex_thread_init_def
      mutex_step_def cas_head_if view_eval MUTEX_FREE_BIT_def Mutex_Notify_def in_critical_section_def)

text \<open>Claim C1.
  Mutual exclusion.  However many threads run whatever scripts of \<^verbatim>\<open>Lock\<close>, \<^verbatim>\<open>Unlock\<close>, \<^verbatim>\<open>AddWaiter\<close>
  and \<^verbatim>\<open>RemoveWaiter\<close>, in any interleaving of their atomic accesses and for any wrap-around of
  the version counter: while a thread owns the mutex no other thread owns it, the mutex reads as
  locked, and no ownership is on its way to a waiter.\<close>

theorem mutex_mutual_exclusion:
  assumes "mutex_start g ts" and "executes mutex_step (g, ts) (g', ts')"
    and "i < length ts'" and "j < length ts'" and "i \<noteq> j"
    and "in_critical_section (ts' ! i)"
  shows "\<not> in_critical_section (ts' ! j) \<and> Mutex_IsLocked g' \<and> granted g' = []"
proof -
  have total: "mutex_gtok g' + sum_list (map mutex_ltok ts') = 1"
    by (rule mutex_reachable(3) [OF assms(1,2)])
  have i: "mutex_ltok (ts' ! i) \<ge> 1"
    using assms(6) by (simp add: in_critical_section_def mutex_ltok_def)
  have "mutex_ltok (ts' ! i) + mutex_ltok (ts' ! j) \<le> 1"
    using sum_list_map_two_le [OF assms(3-5), of mutex_ltok] total by simp
  then have "\<not> in_critical_section (ts' ! j)"
    using i by (auto simp: in_critical_section_def mutex_ltok_def split: if_splits)
  moreover have "mutex_gtok g' = 0"
    using sum_list_map_nth_le [OF assms(3), of mutex_ltok] total i by simp
  ultimately show ?thesis by (auto simp: mutex_gtok_def Mutex_IsLocked_def)
qed

theorem mutex_mutual_exclusion_witness:
  "\<exists>g' ts'. executes mutex_step mutex_demo (g', ts') \<and> in_critical_section (ts' ! 1) \<and>
     \<not> in_critical_section (ts' ! 0) \<and> Mutex_IsLocked g'"
proof -
  obtain g' ts' where run: "run_sched mutex_step mutex_demo_sched mutex_demo = Some (g', ts')"
    and len: "length ts' = 2" and cs: "in_critical_section (ts' ! 1)"
    using mutex_demo_run by blast
  have ex: "executes mutex_step (fst mutex_demo, snd mutex_demo) (g', ts')"
    using run_sched_executes [OF run] by simp
  show ?thesis
    using mutex_mutual_exclusion [OF mutex_demo_start ex, of 1 0] len cs ex by auto
qed

text \<open>No lost waiter at release, and no broken assertion.  In every reachable state a mutex that reads
  as free has an empty waiter list and nobody owning it, and no thread has failed a
  \<^verbatim>\<open>CRUNCH_ASSERT\<close> of \<^verbatim>\<open>AddWaiter\<close> or \<^verbatim>\<open>Unlock\<close> (head word exactly the free bit, list lock only on
  a non-empty list, pointers that fit the word, unlock of a locked mutex only).\<close>

theorem mutex_free_has_no_waiters:
  assumes "mutex_start g ts" and "executes mutex_step (g, ts) (g', ts')"
  shows "(\<not> Mutex_IsLocked g' \<longrightarrow>
      holds_list g' [] \<and> (\<forall>t \<in> set ts'. \<not> in_critical_section t) \<and> granted g' = []) \<and>
    (\<forall>t \<in> set ts'. (\<forall>w b. mpc t \<noteq> MAdd w b AddAssert) \<and> mpc t \<noteq> MUnlock UnlockAssert)"
proof (intro conjI impI)
  assume "\<not> Mutex_IsLocked g'"
  then have f: "mWaiters g' = MUTEX_FREE_BIT" by (simp add: Mutex_IsLocked_def)
  then show "holds_list g' []" by (simp add: holds_list_def)
  have total: "mutex_gtok g' + sum_list (map mutex_ltok ts') = 1"
    by (rule mutex_reachable(3) [OF assms])
  then have "mutex_gtok g' = 1" and s: "sum_list (map mutex_ltok ts') = 0"
    using f by (auto simp: mutex_gtok_def)
  then show "granted g' = []" using f by (simp add: mutex_gtok_def)
  show "\<forall>t \<in> set ts'. \<not> in_critical_section t"
    using s by (auto simp: in_critical_section_def mutex_ltok_def)
next
  show "\<forall>t \<in> set ts'. (\<forall>w b. mpc t \<noteq> MAdd w b AddAssert) \<and> mpc t \<noteq> MUnlock UnlockAssert"
  proof (intro ballI)
    fix t assume "t \<in> set ts'"
    then have "pc_ok (mpc t)" using mutex_reachable(2) [OF assms] by (simp add: mutex_li_def)
    then show "(\<forall>w b. mpc t \<noteq> MAdd w b AddAssert) \<and> mpc t \<noteq> MUnlock UnlockAssert" by auto
  qed
qed

theorem mutex_free_has_no_waiters_witness:
  "holds_list (fst mutex_demo) [] \<and> \<not> in_critical_section (snd mutex_demo ! 1) \<and>
     granted (fst mutex_demo) = []"
proof -
  have "\<not> Mutex_IsLocked (fst mutex_demo)"
    by (simp add: mutex_demo_def Mutex_init_def Mutex_IsLocked_def)
  moreover have "snd mutex_demo ! 1 \<in> set (snd mutex_demo)"
    by (simp add: mutex_demo_def)
  ultimately show ?thesis
    using mutex_free_has_no_waiters [OF mutex_demo_start rtranclp.rtrancl_refl] by blast
qed

text \<open>The lock bit of the waiter list is a lock: of all threads inside \<^verbatim>\<open>WaiterList::RemoveWaiter\<close> on
  a mutex, at most one is between setting the bit and clearing it, and then the bit is set.  This
  needs no contract on who unlocks the mutex.\<close>

theorem mutex_list_lock_exclusive:
  assumes "mutex_start g ts" and "executes mutex_step (g, ts) (g', ts')"
    and "i < length ts'" and "j < length ts'" and "i \<noteq> j"
    and "mutex_list_ltok (ts' ! i) > 0"
  shows "mutex_list_ltok (ts' ! j) = 0 \<and> lock_set (mWaiters g')"
proof -
  have start: "mutex_gi g" "\<forall>t \<in> set ts. mutex_list_li t"
    "mutex_list_gtok g + sum_list (map mutex_list_ltok ts) = 1"
    using mutex_start_list_inv [OF assms(1)] by auto
  have total: "mutex_list_gtok g' + sum_list (map mutex_list_ltok ts') = 1"
    using mxl.executes_tokens [OF assms(2) start] by blast
  then have "mutex_list_gtok g' = 0"
    using sum_list_map_nth_le [OF assms(3), of mutex_list_ltok] assms(6) by linarith
  moreover have "mutex_list_ltok (ts' ! j) = 0"
    using mxl.executes_exclusive [OF assms(2) start refl assms(3,4,6)] assms(5) by blast
  ultimately show ?thesis by (simp add: mutex_list_gtok_def lock_free_def split: if_splits)
qed

text \<open>The run of the witness: thread 0 holds the mutex, thread 1 adds the waiters 8 and 16 and
  removes 8, which is not at the head, up to the scan of the list.\<close>

definition mutex_scan_demo :: "mutex_mem \<times> mutex_thread list" where
  "mutex_scan_demo =
     (Mutex_init 0 (\<lambda>_. 0),
      map mutex_thread_init [[DoLock 4], [DoAdd 8, DoAdd 16, DoRemove 8], []])"

lemma mutex_scan_demo_run:
  "\<exists>g' ts'. run_sched mutex_step ([0, 0, 0] @ [1, 1, 1, 1, 1, 1, 1, 1, 1, 1, 1, 1, 1]) mutex_scan_demo = Some (g', ts') \<and>
     length ts' = 3 \<and> mutex_list_ltok (ts' ! 1) > 0"
  by (simp add: mutex_scan_demo_def Mutex_init_def mutex_thread_init_def
      mutex_step_def cas_head_if view_eval MUTEX_FREE_BIT_def)

theorem mutex_list_lock_exclusive_witness:
  "\<exists>g' ts'. executes mutex_step mutex_scan_demo (g', ts') \<and> mutex_list_ltok (ts' ! 1) > 0 \<and>
     mutex_list_ltok (ts' ! 0) = 0 \<and> lock_set (mWaiters g')"
proof -
  obtain g' ts' where run: "run_sched mutex_step ([0, 0, 0] @ [1, 1, 1, 1, 1, 1, 1, 1, 1, 1, 1, 1, 1]) mutex_scan_demo
      = Some (g', ts')"
    and len: "length ts' = 3" and l: "mutex_list_ltok (ts' ! 1) > 0"
    using mutex_scan_demo_run by blast
  have ex: "executes mutex_step (fst mutex_scan_demo, snd mutex_scan_demo) (g', ts')"
    using run_sched_executes [OF run] by simp
  have st: "mutex_start (fst mutex_scan_demo) (snd mutex_scan_demo)"
    unfolding mutex_start_def mutex_scan_demo_def
    by (intro exI [of _ 0] exI [of _ "\<lambda>_. 0"] exI [of _ "[[DoLock 4], [DoAdd 8, DoAdd 16, DoRemove 8], []]"])
      (simp add: all_aligned_def waiter_addr_def aligned_def fits_def layout_defs)
  show ?thesis
    using mutex_list_lock_exclusive [OF st ex, of 1 0] len l ex by auto
qed

text \<open>Claim C20.
  The calls of \<^verbatim>\<open>Mutex\<close>, made on a mutex that nobody else is inside of, do what the abstract
  mutex (free, or locked with a stack of waiters) does: each returns within the stated number of
  accesses, with the abstract result, leaves the abstract successor state, and notifies exactly the
  waiter that gets the ownership.  \<^verbatim>\<open>Lock\<close> on a locked mutex comes to \<^verbatim>\<open>WaitFor\<close> after \<^verbatim>\<open>mSpinCount\<close>
  attempts.\<close>

theorem mutex_calls_implement_spec:
  assumes "mutex_abs g s" and "waiter_addr w" and "w \<notin> set (spec_waiters s)"
    and v: "v \<noteq> 0"
  shows "(\<exists>g'. run_to_end (Mutex_AddWaiter_step w) 3 (g, AddEntry)
        = Some (g', AddDone (fst (spec_AddWaiter w s))) \<and>
      mutex_abs g' (snd (spec_AddWaiter w s)) \<and> notified g' = notified g) \<and>
    (s \<noteq> Free \<longrightarrow> (\<exists>g'. run_to_end Mutex_Unlock_step 4 (g, UnlockEntry) = Some (g', UnlockDone) \<and>
      mutex_abs g' (snd (spec_Unlock s)) \<and> notified g' = fst (spec_Unlock s) @ notified g)) \<and>
    (\<exists>g'. run_to_end (remove_step v) (length (spec_waiters s) + 6) (g, RwLoad)
        = Some (g', RwDone (fst (spec_RemoveWaiter v s))) \<and>
      mutex_abs g' (snd (spec_RemoveWaiter v s)) \<and> notified g' = notified g) \<and>
    (\<exists>g'. run_to_end Mutex_Lock_step (unat (mSpinCount g) + 2) (g, LockEntry)
        = Some (g', if s = Free then LockDone else LockWait) \<and>
      mutex_abs g' (if s = Free then Locked [] else s) \<and> notified g' = notified g)"
proof (intro conjI impI)
  show "\<exists>g'. run_to_end (Mutex_AddWaiter_step w) 3 (g, AddEntry)
        = Some (g', AddDone (fst (spec_AddWaiter w s))) \<and>
      mutex_abs g' (snd (spec_AddWaiter w s)) \<and> notified g' = notified g"
    using AddWaiter_call [OF assms(1-3)] run_within_to_end Mutex_AddWaiter_step.simps(4) by metis
  show "\<exists>g'. run_to_end Mutex_Unlock_step 4 (g, UnlockEntry) = Some (g', UnlockDone) \<and>
      mutex_abs g' (snd (spec_Unlock s)) \<and> notified g' = fst (spec_Unlock s) @ notified g"
    if "s \<noteq> Free"
    using Unlock_call [OF assms(1) that] run_within_to_end Mutex_Unlock_step.simps(5) by metis
  show "\<exists>g'. run_to_end (remove_step v) (length (spec_waiters s) + 6) (g, RwLoad)
        = Some (g', RwDone (fst (spec_RemoveWaiter v s))) \<and>
      mutex_abs g' (snd (spec_RemoveWaiter v s)) \<and> notified g' = notified g"
    by (rule mutex_RemoveWaiter_call [OF assms(1) v])
  show "\<exists>g'. run_to_end Mutex_Lock_step (unat (mSpinCount g) + 2) (g, LockEntry)
        = Some (g', if s = Free then LockDone else LockWait) \<and>
      mutex_abs g' (if s = Free then Locked [] else s) \<and> notified g' = notified g"
    by (rule Lock_call [OF assms(1)])
qed

text \<open>A locked mutex with one waiter, 8; 16 is added.\<close>

theorem mutex_calls_implement_spec_witness:
  "\<exists>g g'. mutex_abs g (Locked [8]) \<and>
     run_to_end (Mutex_AddWaiter_step 16) 3 (g, AddEntry) = Some (g', AddDone True) \<and>
     mutex_abs g' (Locked [16, 8])"
proof -
  define g where "g = (Mutex_init 0 (\<lambda>_. 0))\<lparr>mWaiters := 8\<rparr>"
  have abs: "mutex_abs g (Locked [8])"
    by (simp add: g_def Mutex_init_def quiet_def holds_list_def all_aligned_def view_eval)
  have "waiter_addr 16" "(16 :: addr) \<notin> set (spec_waiters (Locked [8]))"
    by (simp_all add: waiter_addr_def view_eval)
  from mutex_calls_implement_spec [OF abs this, of 8] abs show ?thesis by auto
qed

end
