(* ===== verification/Event.thy ===== *)
theory Event
  imports Waiter_List
begin

text \<open>
  \<^verbatim>\<open>Event\<close> (event.hpp, event.cpp): a flag in the head word of its waiter list.  \<^verbatim>\<open>Set\<close> takes the
  whole list out under the list lock and notifies it; \<^verbatim>\<open>AddWaiter\<close> refuses once the flag is set.
\<close>

section \<open>Operations\<close>

type_synonym event_mem = wl_mem

definition EVENT_SET_BIT :: u64 where
  "EVENT_SET_BIT = USER_FLAG_BIT"

definition Event_init :: "bool \<Rightarrow> (addr \<Rightarrow> addr) \<Rightarrow> event_mem" where
  "Event_init initialState nx =
     \<lparr>mWaiters = if initialState then EVENT_SET_BIT else 0, wnext = nx, notified = []\<rparr>"

definition Event_IsSet :: "event_mem \<Rightarrow> bool" where
  "Event_IsSet g \<longleftrightarrow> fst (AtomicLoad (mWaiters g) MEMORY_ORDER_RELAXED) AND EVENT_SET_BIT \<noteq> 0"

definition Event_Reset :: "event_mem \<Rightarrow> event_mem" where
  "Event_Reset g = g\<lparr>mWaiters := snd (AtomicAnd (mWaiters g) (NOT EVENT_SET_BIT))\<rparr>"

definition Event_IsOrderDependent :: bool where
  "Event_IsOrderDependent = False"

datatype event_add_pc =
    EvAddEntry
  | EvAddTest u64
  | EvAddPush u64 \<comment> \<open>\<^verbatim>\<open>waiter->next\<close> written\<close>
  | EvAddDone bool
  | EvAddAssert

fun Event_AddWaiter_step ::
  "addr \<Rightarrow> event_mem \<Rightarrow> event_add_pc \<Rightarrow> (event_mem \<times> event_add_pc) option" where
  "Event_AddWaiter_step waiter g EvAddEntry = Some (g, EvAddTest (mWaiters g))"
| "Event_AddWaiter_step waiter g (EvAddTest head) =
     (if user_set head then Some (g, EvAddDone False)
      else Some (g\<lparr>wnext := (wnext g)(waiter := GetPointer head)\<rparr>, EvAddPush head))"
| "Event_AddWaiter_step waiter g (EvAddPush head) =
     (if \<not> aligned waiter then Some (g, EvAddAssert)
      else (case cas_head g head (SetPointer head waiter + ABA_ADDEND) of
              (True, _, g') \<Rightarrow> Some (g', EvAddDone True)
            | (False, head', g') \<Rightarrow> Some (g', EvAddTest head')))"
| "Event_AddWaiter_step waiter g (EvAddDone r) = None"
| "Event_AddWaiter_step waiter g EvAddAssert = None"

text \<open>The words \<^verbatim>\<open>Set\<close> writes.\<close>

definition Event_set_word :: "u64 \<Rightarrow> u64" where
  "Event_set_word head = (head OR EVENT_SET_BIT) + ABA_ADDEND"

definition Event_locked_word :: "u64 \<Rightarrow> u64" where
  "Event_locked_word head =
     (((head AND NOT PTR_MASK) OR LOCK_BIT) OR EVENT_SET_BIT) + ABA_ADDEND"

datatype event_set_pc =
    SetEntry
  | SetTest u64
  | SetNotify addr \<comment> \<open>\<^verbatim>\<open>NotifyAllWaiters\<close>, at \<^verbatim>\<open>current\<close>\<close>
  | SetCall addr addr \<comment> \<open>\<^verbatim>\<open>next\<close> read, about to notify\<close>
  | SetUnlock
  | SetDone

text \<open>When the list is locked the loop goes round with the \<^verbatim>\<open>head\<close> it has: the code has no load
  on that path.\<close>

fun Event_Set_step :: "event_mem \<Rightarrow> event_set_pc \<Rightarrow> (event_mem \<times> event_set_pc) option" where
  "Event_Set_step g SetEntry = Some (g, SetTest (mWaiters g))"
| "Event_Set_step g (SetTest head) =
     (if user_set head then Some (g, SetDone)
      else if \<not> lock_set head
      then if GetPointer head = 0
           then (case cas_head g head (Event_set_word head) of
                   (True, _, g') \<Rightarrow> Some (g', SetDone)
                 | (False, head', g') \<Rightarrow> Some (g', SetTest head'))
           else (case cas_head g head (Event_locked_word head) of
                   (True, _, g') \<Rightarrow> Some (g', SetNotify (GetPointer head))
                 | (False, head', g') \<Rightarrow> Some (g', SetTest head'))
      else Some (g, SetTest head))"
| "Event_Set_step g (SetNotify current) =
     (if current \<noteq> 0 then Some (g, SetCall current (wnext g current)) else Some (g, SetUnlock))"
| "Event_Set_step g (SetCall current nxt) =
     Some (g\<lparr>notified := current # notified g\<rparr>, SetNotify nxt)"
| "Event_Set_step g SetUnlock = Some (WaiterList_Unlock g, SetDone)"
| "Event_Set_step g SetDone = None"

section \<open>Threads\<close>

datatype event_op = EvAdd addr | EvRemove addr | EvSet | EvReset

datatype event_pc =
  EvIdle | EvAdding addr event_add_pc | EvRemoving addr remove_pc | EvSetting event_set_pc

record event_thread =
  epc :: event_pc
  escript :: "event_op list"
  eresult :: bool

fun event_begin ::
  "event_mem \<Rightarrow> event_thread \<Rightarrow> event_op \<Rightarrow> event_op list \<Rightarrow> event_mem \<times> event_thread" where
  "event_begin g t (EvAdd w) ops = (g, t\<lparr>epc := EvAdding w EvAddEntry, escript := ops\<rparr>)"
| "event_begin g t (EvRemove w) ops = (g, t\<lparr>epc := EvRemoving w RwLoad, escript := ops\<rparr>)"
| "event_begin g t EvSet ops = (g, t\<lparr>epc := EvSetting SetEntry, escript := ops\<rparr>)"
| "event_begin g t EvReset ops = (Event_Reset g, t\<lparr>escript := ops\<rparr>)"

definition event_step :: "event_mem \<Rightarrow> event_thread \<Rightarrow> (event_mem \<times> event_thread) option" where
  "event_step g t = (case epc t of
     EvIdle \<Rightarrow> (case escript t of [] \<Rightarrow> None | op # ops \<Rightarrow> Some (event_begin g t op ops))
   | EvAdding w (EvAddDone r) \<Rightarrow> Some (g, t\<lparr>epc := EvIdle, eresult := r\<rparr>)
   | EvAdding w pc \<Rightarrow>
       map_option (\<lambda>(g', pc'). (g', t\<lparr>epc := EvAdding w pc'\<rparr>)) (Event_AddWaiter_step w g pc)
   | EvRemoving w (RwDone r) \<Rightarrow> Some (g, t\<lparr>epc := EvIdle, eresult := r\<rparr>)
   | EvRemoving w pc \<Rightarrow>
       map_option (\<lambda>(g', pc'). (g', t\<lparr>epc := EvRemoving w pc'\<rparr>)) (remove_step w g pc)
   | EvSetting SetDone \<Rightarrow> Some (g, t\<lparr>epc := EvIdle\<rparr>)
   | EvSetting pc \<Rightarrow>
       map_option (\<lambda>(g', pc'). (g', t\<lparr>epc := EvSetting pc'\<rparr>)) (Event_Set_step g pc))"

definition event_thread_init :: "event_op list \<Rightarrow> event_thread" where
  "event_thread_init ops = \<lparr>epc = EvIdle, escript = ops, eresult = False\<rparr>"

section \<open>Invariants\<close>

lemma EVENT_SET_BIT_view [simp]:
  "GetPointer EVENT_SET_BIT = 0" "user_set EVENT_SET_BIT" "\<not> lock_set EVENT_SET_BIT"
  by (simp_all add: EVENT_SET_BIT_def)

lemma Event_IsSet_eq: "Event_IsSet g \<longleftrightarrow> user_set (mWaiters g)"
  by (simp add: Event_IsSet_def AtomicLoad_def Detail_AtomicLoad_def user_set_def EVENT_SET_BIT_def
      Let_def)

lemma Event_Reset_simps [step_simps]:
  "mWaiters (Event_Reset g) = mWaiters g AND NOT USER_FLAG_BIT"
  "wnext (Event_Reset g) = wnext g" "notified (Event_Reset g) = notified g"
  by (simp_all add: Event_Reset_def AtomicAnd_def sync_fetch_and_def EVENT_SET_BIT_def)

lemma Event_words_view [word_packing]:
  "GetPointer (Event_set_word w) = GetPointer w" "user_set (Event_set_word w)"
  "lock_set (Event_set_word w) = lock_set w"
  "GetPointer (Event_locked_word w) = 0" "user_set (Event_locked_word w)"
  "lock_set (Event_locked_word w)"
  by (simp_all add: Event_set_word_def Event_locked_word_def EVENT_SET_BIT_def word_packing)

text \<open>A set event has no waiters.\<close>

definition event_gi :: "event_mem \<Rightarrow> bool" where
  "event_gi g \<longleftrightarrow> (user_set (mWaiters g) \<longrightarrow> GetPointer (mWaiters g) = 0) \<and> all_aligned (wnext g)"

fun event_op_ok :: "event_op \<Rightarrow> bool" where
  "event_op_ok (EvAdd w) \<longleftrightarrow> waiter_addr w"
| "event_op_ok (EvRemove w) \<longleftrightarrow> waiter_addr w"
| "event_op_ok _ \<longleftrightarrow> True"

fun event_add_ok :: "event_add_pc \<Rightarrow> bool" where
  "event_add_ok (EvAddPush head) \<longleftrightarrow> \<not> user_set head"
| "event_add_ok EvAddAssert \<longleftrightarrow> False"
| "event_add_ok _ \<longleftrightarrow> True"

fun event_pc_ok :: "event_pc \<Rightarrow> bool" where
  "event_pc_ok (EvAdding w pc) \<longleftrightarrow> waiter_addr w \<and> event_add_ok pc"
| "event_pc_ok (EvRemoving w pc) \<longleftrightarrow> waiter_addr w \<and> rw_ok w pc"
| "event_pc_ok _ \<longleftrightarrow> True"

definition event_li :: "event_thread \<Rightarrow> bool" where
  "event_li t \<longleftrightarrow> event_pc_ok (epc t) \<and> list_all event_op_ok (escript t)"

definition event_gtok :: "event_mem \<Rightarrow> nat" where
  "event_gtok g = lock_free (mWaiters g)"

fun set_holds_lock :: "event_set_pc \<Rightarrow> nat" where
  "set_holds_lock (SetNotify _) = 1"
| "set_holds_lock (SetCall _ _) = 1"
| "set_holds_lock SetUnlock = 1"
| "set_holds_lock _ = 0"

fun event_pc_tok :: "event_pc \<Rightarrow> nat" where
  "event_pc_tok (EvRemoving _ pc) = rw_holds_lock pc"
| "event_pc_tok (EvSetting pc) = set_holds_lock pc"
| "event_pc_tok _ = 0"

definition event_ltok :: "event_thread \<Rightarrow> nat" where
  "event_ltok t = event_pc_tok (epc t)"

lemmas event_inv_defs = event_gi_def event_gtok_def lock_free_def waiter_addr_def

lemma event_add_step_inv:
  assumes "Event_AddWaiter_step w g pc = Some (g', pc')"
    and "event_gi g" and "event_add_ok pc" and "waiter_addr w"
  shows "event_gi g' \<and> event_add_ok pc' \<and> event_gtok g' = event_gtok g"
  using assms
  by (cases pc) (auto simp: event_inv_defs cas_head_if word_packing split: if_splits)

lemma event_set_step_inv:
  assumes "Event_Set_step g pc = Some (g', pc')"
    and "event_gi g" and "event_gtok g + set_holds_lock pc \<le> 1"
  shows "event_gi g' \<and> event_gtok g' + set_holds_lock pc' = event_gtok g + set_holds_lock pc"
  using assms
  by (cases pc) (auto simp: event_inv_defs cas_head_if word_packing step_simps split: if_splits)

lemma event_remove_step_inv:
  assumes st: "remove_step w g pc = Some (g', pc')"
    and gi: "event_gi g" and ok: "rw_ok w pc" and le: "event_gtok g + rw_holds_lock pc \<le> 1"
  shows "event_gi g' \<and> rw_ok w pc' \<and>
    event_gtok g' + rw_holds_lock pc' = event_gtok g + rw_holds_lock pc"
proof -
  have "event_gi g'"
    using st gi ok
    by (cases pc) (auto simp: event_gi_def cas_head_if step_simps word_packing split: if_splits)
  then show ?thesis
    using remove_step_ok [OF st ok] remove_step_lock [OF st ok] gi le
    by (simp add: event_gtok_def event_gi_def)
qed

lemma event_step_inv:
  assumes st: "event_step g t = Some (g', t')"
    and gi: "event_gi g" and li: "event_li t" and le: "event_gtok g + event_ltok t \<le> 1"
  shows "event_gi g' \<and> event_li t' \<and> event_gtok g' + event_ltok t' = event_gtok g + event_ltok t"
proof (cases "epc t")
  case EvIdle
  then obtain op ops where s: "escript t = op # ops" and b: "(g', t') = event_begin g t op ops"
    using st by (auto simp: event_step_def split: list.splits)
  show ?thesis using b s EvIdle gi li
    by (cases op) (auto simp: event_li_def event_ltok_def event_inv_defs step_simps word_packing)
next
  case (EvAdding w pc)
  then show ?thesis
    using st gi li event_add_step_inv [of w g pc]
    by (cases pc) (auto simp: event_step_def event_li_def event_ltok_def)
next
  case (EvRemoving w pc)
  then show ?thesis
    using st gi li le event_remove_step_inv [of w g pc]
    by (cases pc) (auto simp: event_step_def event_li_def event_ltok_def)
next
  case (EvSetting pc)
  then show ?thesis
    using st gi li le event_set_step_inv [of g pc]
    by (cases pc) (auto simp: event_step_def event_li_def event_ltok_def)
qed

interpretation ev: token_system event_step event_gi event_li event_gtok event_ltok 1
  by unfold_locales (blast dest: event_step_inv)+

definition event_start :: "event_mem \<Rightarrow> event_thread list \<Rightarrow> bool" where
  "event_start g ts \<longleftrightarrow> (\<exists>initialState nx scripts.
     g = Event_init initialState nx \<and> all_aligned nx \<and>
     ts = map event_thread_init scripts \<and> list_all (list_all event_op_ok) scripts)"

lemma event_start_inv:
  assumes "event_start g ts"
  shows "event_gi g \<and> (\<forall>t \<in> set ts. event_li t) \<and>
    event_gtok g + sum_list (map event_ltok ts) = 1"
proof -
  obtain b nx scripts where g: "g = Event_init b nx" "all_aligned nx"
    and ts: "ts = map event_thread_init scripts" "list_all (list_all event_op_ok) scripts"
    using assms by (auto simp: event_start_def)
  have "sum_list (map event_ltok ts) = 0"
    by (simp add: ts event_thread_init_def event_ltok_def)
  then show ?thesis using g ts
    by (auto simp: Event_init_def event_inv_defs event_li_def event_thread_init_def list_all_iff)
qed

lemma event_reachable:
  assumes "event_start g ts" and "executes event_step (g, ts) (g', ts')"
  shows "event_gi g'" and "t \<in> set ts' \<Longrightarrow> event_li t"
    and "event_gtok g' + sum_list (map event_ltok ts') = 1"
  using ev.executes_tokens [OF assms(2)] event_start_inv [OF assms(1)] by blast+

section \<open>Calls on an event at rest\<close>

text \<open>What an event is: set, or not set with a stack of waiters.\<close>

datatype event_spec = Signalled | Unsignalled "addr list"

fun espec_waiters :: "event_spec \<Rightarrow> addr list" where
  "espec_waiters Signalled = []"
| "espec_waiters (Unsignalled ws) = ws"

fun espec_AddWaiter :: "addr \<Rightarrow> event_spec \<Rightarrow> bool \<times> event_spec" where
  "espec_AddWaiter w Signalled = (False, Signalled)"
| "espec_AddWaiter w (Unsignalled ws) = (True, Unsignalled (w # ws))"

fun espec_Reset :: "event_spec \<Rightarrow> event_spec" where
  "espec_Reset Signalled = Unsignalled []"
| "espec_Reset (Unsignalled ws) = Unsignalled ws"

fun espec_RemoveWaiter :: "addr \<Rightarrow> event_spec \<Rightarrow> bool \<times> event_spec" where
  "espec_RemoveWaiter w Signalled = (False, Signalled)"
| "espec_RemoveWaiter w (Unsignalled ws) = (w \<in> set ws, Unsignalled (remove1 w ws))"

fun event_abs :: "event_mem \<Rightarrow> event_spec \<Rightarrow> bool" where
  "event_abs g Signalled \<longleftrightarrow> quiet g [] \<and> user_set (mWaiters g)"
| "event_abs g (Unsignalled ws) \<longleftrightarrow> quiet g ws \<and> \<not> user_set (mWaiters g)"

lemma event_abs_waiters: "event_abs g s \<Longrightarrow> quiet g (espec_waiters s)"
  by (cases s) auto

lemma Event_AddWaiter_call:
  assumes abs: "event_abs g s" and w: "waiter_addr w" "w \<notin> set (espec_waiters s)"
  shows "\<exists>g'. run_to_end (Event_AddWaiter_step w) 3 (g, EvAddEntry)
        = Some (g', EvAddDone (fst (espec_AddWaiter w s))) \<and>
      event_abs g' (snd (espec_AddWaiter w s)) \<and> notified g' = notified g"
proof (cases s)
  case Signalled
  then show ?thesis using abs by (simp add: eval_nat_numeral)
next
  case (Unsignalled ws)
  define g2 where "g2 = g\<lparr>wnext := (wnext g)(w := GetPointer (mWaiters g)),
    mWaiters := SetPointer (mWaiters g) w + ABA_ADDEND\<rparr>"
  have q: "quiet g ws" and nu: "\<not> user_set (mWaiters g)" using abs Unsignalled by auto
  have "run_to_end (Event_AddWaiter_step w) 3 (g, EvAddEntry) = Some (g2, EvAddDone True)"
    using nu w by (simp add: eval_nat_numeral cas_head_if g2_def waiter_addr_def)
  moreover have "quiet g2 (w # ws)" using quiet_push [OF q] w by (simp add: g2_def Unsignalled)
  moreover have "\<not> user_set (mWaiters g2)" using nu w by (simp add: g2_def word_packing waiter_addr_def)
  ultimately show ?thesis by (simp add: Unsignalled g2_def)
qed

text \<open>\<^verbatim>\<open>NotifyAllWaiters\<close> inside \<^verbatim>\<open>Set\<close>: the list in order, then the unlock.\<close>

lemma Set_notifies:
  assumes "wlist (wnext g) p ws"
  shows "run_within Event_Set_step (2 * length ws + 1) (g, SetNotify p)
    (g\<lparr>notified := rev ws @ notified g\<rparr>, SetUnlock)"
  using assms
proof (induction ws arbitrary: p g)
  case Nil
  then show ?case by (auto intro!: run_within_step)
next
  case (Cons w ws)
  define g1 where "g1 = g\<lparr>notified := w # notified g\<rparr>"
  have p: "p = w" "w \<noteq> 0" and tl: "wlist (wnext g1) (wnext g w) ws"
    using Cons.prems by (auto simp: g1_def)
  have "run_within Event_Set_step (2 * length ws + 1) (g1, SetNotify (wnext g w))
      (g\<lparr>notified := rev (w # ws) @ notified g\<rparr>, SetUnlock)"
    using Cons.IH [OF tl] by (simp add: g1_def)
  then have "run_within Event_Set_step (Suc (Suc (2 * length ws + 1))) (g, SetNotify p)
      (g\<lparr>notified := rev (w # ws) @ notified g\<rparr>, SetUnlock)"
    using p by (simp add: run_within_Suc g1_def)
  then show ?case by simp
qed

lemma Event_Set_call:
  assumes abs: "event_abs g s"
  shows "\<exists>g'. run_to_end Event_Set_step (2 * length (espec_waiters s) + 4) (g, SetEntry)
        = Some (g', SetDone) \<and>
      event_abs g' Signalled \<and> notified g' = rev (espec_waiters s) @ notified g"
proof (cases s)
  case Signalled
  then show ?thesis using abs by (simp add: eval_nat_numeral)
next
  case (Unsignalled ws)
  have q: "quiet g ws" and nu: "\<not> user_set (mWaiters g)" using abs Unsignalled by auto
  then have nl: "\<not> lock_set (mWaiters g)" and al: "all_aligned (wnext g)"
    and l: "wlist (wnext g) (GetPointer (mWaiters g)) ws"
    by (auto simp: quiet_def holds_list_def)
  show ?thesis
  proof (cases ws)
    case Nil
    have p: "GetPointer (mWaiters g) = 0" using q Nil by (simp add: quiet_head)
    define g1 where "g1 = g\<lparr>mWaiters := Event_set_word (mWaiters g)\<rparr>"
    have "run_to_end Event_Set_step 4 (g, SetEntry) = Some (g1, SetDone)"
      using p nl nu by (simp add: eval_nat_numeral cas_head_if g1_def)
    moreover have "event_abs g1 Signalled"
      using p nl al by (simp add: g1_def quiet_def holds_list_def word_packing)
    ultimately show ?thesis by (simp add: Unsignalled Nil g1_def)
  next
    case (Cons w us)
    have p: "GetPointer (mWaiters g) \<noteq> 0" using l Cons by auto
    define g1 where "g1 = g\<lparr>mWaiters := Event_locked_word (mWaiters g)\<rparr>"
    define g2 where "g2 = g1\<lparr>notified := rev ws @ notified g1\<rparr>"
    define g3 where "g3 = WaiterList_Unlock g2"
    have a: "run_within Event_Set_step 2 (g, SetEntry) (g1, SetNotify (GetPointer (mWaiters g)))"
      using p nl nu by (simp add: run_eval cas_head_if g1_def)
    have b: "run_within Event_Set_step (2 * length ws + 1)
        (g1, SetNotify (GetPointer (mWaiters g))) (g2, SetUnlock)"
      unfolding g2_def by (rule Set_notifies) (use l in \<open>simp add: g1_def\<close>)
    have c: "run_within Event_Set_step 1 (g2, SetUnlock) (g3, SetDone)"
      by (simp add: run_eval g3_def)
    have "run_within Event_Set_step (2 * length ws + 4) (g, SetEntry) (g3, SetDone)"
      using run_within_trans [OF run_within_trans [OF a b] c] by (rule run_within_mono) simp
    then have "run_to_end Event_Set_step (2 * length ws + 4) (g, SetEntry) = Some (g3, SetDone)"
      by (rule run_within_to_end) simp
    moreover have "event_abs g3 Signalled"
      using al by (simp add: g3_def g2_def g1_def step_simps quiet_def holds_list_def word_packing)
    ultimately show ?thesis by (simp add: Unsignalled g3_def g2_def g1_def step_simps)
  qed
qed

lemma event_RemoveWaiter_call:
  assumes abs: "event_abs g s" and w: "w \<noteq> 0"
  shows "\<exists>g'. run_to_end (remove_step w) (length (espec_waiters s) + 6) (g, RwLoad)
        = Some (g', RwDone (fst (espec_RemoveWaiter w s))) \<and>
      event_abs g' (snd (espec_RemoveWaiter w s)) \<and> notified g' = notified g"
proof -
  obtain g' where "run_to_end (remove_step w) (length (espec_waiters s) + 6) (g, RwLoad)
      = Some (g', RwDone (w \<in> set (espec_waiters s)))" and "removed g g' (espec_waiters s) w"
    using RemoveWaiter_call [OF event_abs_waiters [OF abs] w] by blast
  then show ?thesis using abs by (cases s) (auto simp: removed_def)
qed

lemma Event_Reset_call:
  assumes "event_abs g s"
  shows "event_abs (Event_Reset g) (espec_Reset s) \<and> notified (Event_Reset g) = notified g"
  using assms by (cases s) (auto simp: quiet_def holds_list_def step_simps word_packing)

section \<open>The event is an IWaitable\<close>

definition Event_adds :: "addr \<Rightarrow> event_mem \<Rightarrow> bool \<Rightarrow> event_mem \<Rightarrow> bool" where
  "Event_adds w g r g' \<longleftrightarrow> returns (Event_AddWaiter_step w) g EvAddEntry g' (EvAddDone r)"

definition Event_removes :: "addr \<Rightarrow> event_mem \<Rightarrow> bool \<Rightarrow> event_mem \<Rightarrow> bool" where
  "Event_removes w g r g' \<longleftrightarrow> returns (remove_step w) g RwLoad g' (RwDone r)"

definition Event_waiting :: "event_mem \<Rightarrow> addr list \<Rightarrow> bool" where
  "Event_waiting g ws \<longleftrightarrow> (\<exists>s. event_abs g s \<and> espec_waiters s = ws)"

interpretation event_waitable: iwaitable Event_adds Event_removes Event_waiting
proof unfold_locales
  fix g ws w
  assume "Event_waiting g ws" and w: "waiter_addr w" "w \<notin> set ws"
  then obtain s where abs: "event_abs g s" and ws: "espec_waiters s = ws"
    by (auto simp: Event_waiting_def)
  obtain g' where r: "run_to_end (Event_AddWaiter_step w) 3 (g, EvAddEntry)
      = Some (g', EvAddDone (fst (espec_AddWaiter w s)))"
    and abs': "event_abs g' (snd (espec_AddWaiter w s))"
    using Event_AddWaiter_call [OF abs w(1)] w(2) ws by blast
  have "Event_adds w g (fst (espec_AddWaiter w s)) g'"
    unfolding Event_adds_def returns_def using r by blast
  moreover have "Event_waiting g' (if fst (espec_AddWaiter w s) then w # ws else ws)"
    unfolding Event_waiting_def using abs' ws
    by (intro exI [of _ "snd (espec_AddWaiter w s)"]) (cases s; simp)
  ultimately show "\<exists>r g'. Event_adds w g r g' \<and> Event_waiting g' (if r then w # ws else ws)"
    by blast
next
  fix g ws w
  assume "Event_waiting g ws" and w: "waiter_addr w"
  then obtain s where abs: "event_abs g s" and ws: "espec_waiters s = ws"
    by (auto simp: Event_waiting_def)
  obtain g' where r: "run_to_end (remove_step w) (length (espec_waiters s) + 6) (g, RwLoad)
      = Some (g', RwDone (fst (espec_RemoveWaiter w s)))"
    and abs': "event_abs g' (snd (espec_RemoveWaiter w s))"
    using event_RemoveWaiter_call [OF abs] w by (auto simp: waiter_addr_def)
  have "fst (espec_RemoveWaiter w s) = (w \<in> set ws)" and
    "espec_waiters (snd (espec_RemoveWaiter w s)) = remove1 w ws" using ws by (cases s; auto)+
  then have "Event_removes w g (w \<in> set ws) g'"
    using r unfolding Event_removes_def returns_def by auto
  moreover have "Event_waiting g' (remove1 w ws)"
    unfolding Event_waiting_def
    using abs' \<open>espec_waiters (snd (espec_RemoveWaiter w s)) = remove1 w ws\<close> by blast
  ultimately show "\<exists>g'. Event_removes w g (w \<in> set ws) g' \<and> Event_waiting g' (remove1 w ws)"
    by blast
qed

section \<open>Properties\<close>

definition event_demo :: "event_mem \<times> event_thread list" where
  "event_demo = (Event_init False (\<lambda>_. 0),
     map event_thread_init [[EvAdd 8, EvAdd 16, EvRemove 8], [EvSet]])"

lemma event_demo_start: "event_start (fst event_demo) (snd event_demo)"
  unfolding event_start_def event_demo_def
  by (intro exI [of _ False] exI [of _ "\<lambda>_. 0"]
      exI [of _ "[[EvAdd 8, EvAdd 16, EvRemove 8], [EvSet]]"])
    (simp add: all_aligned_def waiter_addr_def view_eval)

text \<open>Thread 0 adds the waiters 8 and 16, thread 1 sets the event.\<close>

lemma event_demo_set_run:
  "\<exists>g' ts'. run_sched event_step [0,0,0,0,0, 0,0,0,0,0, 1,1,1,1,1,1,1,1,1] event_demo = Some (g', ts')
     \<and> Event_IsSet g' \<and> notified g' = [8, 16] \<and> length ts' = 2"
  by (simp add: event_demo_def Event_init_def event_thread_init_def event_step_def cas_head_if
      view_eval Event_IsSet_eq Event_locked_word_def EVENT_SET_BIT_def step_simps)

text \<open>A set event has no waiters.  In every state that any interleaving of threads reaches, with any
  scripts of \<^verbatim>\<open>AddWaiter\<close>, \<^verbatim>\<open>RemoveWaiter\<close>, \<^verbatim>\<open>Set\<close> and \<^verbatim>\<open>Reset\<close>: if the event reads as set, its
  waiter list is empty; nobody is left to wait for a signal that was already given.  No thread
  fails the assertion of \<^verbatim>\<open>SetPointer\<close>.\<close>

theorem event_set_has_no_waiters:
  assumes "event_start g ts" and "executes event_step (g, ts) (g', ts')"
  shows "(Event_IsSet g' \<longrightarrow> holds_list g' []) \<and>
    (\<forall>t \<in> set ts'. \<forall>w. epc t \<noteq> EvAdding w EvAddAssert)"
proof (intro conjI impI ballI allI)
  assume "Event_IsSet g'"
  then show "holds_list g' []"
    using event_reachable(1) [OF assms] by (simp add: event_gi_def Event_IsSet_eq holds_list_def)
next
  fix t w assume "t \<in> set ts'"
  then have "event_pc_ok (epc t)" using event_reachable(2) [OF assms] by (simp add: event_li_def)
  then show "epc t \<noteq> EvAdding w EvAddAssert" by auto
qed

theorem event_set_has_no_waiters_witness:
  "\<exists>g' ts'. executes event_step event_demo (g', ts') \<and> notified g' = [8, 16] \<and>
     Event_IsSet g' \<and> holds_list g' []"
proof -
  obtain g' ts' where
    run: "run_sched event_step [0,0,0,0,0, 0,0,0,0,0, 1,1,1,1,1,1,1,1,1] event_demo = Some (g', ts')"
    and set: "Event_IsSet g'" "notified g' = [8, 16]"
    using event_demo_set_run by blast
  have ex: "executes event_step (fst event_demo, snd event_demo) (g', ts')"
    using run_sched_executes [OF run] by simp
  show ?thesis using event_set_has_no_waiters [OF event_demo_start ex] ex set by auto
qed

text \<open>\<^verbatim>\<open>Set\<close> and \<^verbatim>\<open>RemoveWaiter\<close> exclude each other on the waiter list: of all threads at most one is
  between setting the lock bit (\<^verbatim>\<open>Set\<close> while it notifies, \<^verbatim>\<open>RemoveWaiter\<close> while it scans) and
  clearing it, and during that time the bit is set.\<close>

theorem event_list_lock_exclusive:
  assumes "event_start g ts" and "executes event_step (g, ts) (g', ts')"
    and "i < length ts'" and "j < length ts'" and "i \<noteq> j"
    and "event_pc_tok (epc (ts' ! i)) > 0"
  shows "event_pc_tok (epc (ts' ! j)) = 0 \<and> lock_set (mWaiters g')"
proof -
  have total: "event_gtok g' + sum_list (map event_ltok ts') = 1"
    by (rule event_reachable(3) [OF assms(1,2)])
  have "event_ltok (ts' ! i) + event_ltok (ts' ! j) \<le> sum_list (map event_ltok ts')"
    by (rule sum_list_map_two_le [OF assms(3-5)])
  then have "event_gtok g' = 0" "event_ltok (ts' ! j) = 0"
    using total assms(6) by (simp_all add: event_ltok_def)
  then show ?thesis by (simp add: event_ltok_def event_gtok_def lock_free_def split: if_splits)
qed

text \<open>Thread 0 is scanning the list for 8 when thread 1 starts \<^verbatim>\<open>Set\<close>.\<close>

lemma event_demo_scan_run:
  "\<exists>g' ts'. run_sched event_step [0,0,0,0,0, 0,0,0,0,0, 0,0,0, 1,1] event_demo = Some (g', ts')
     \<and> epc (ts' ! 0) = EvRemoving 8 (RwScan 16) \<and>
     (\<exists>head. epc (ts' ! 1) = EvSetting (SetTest head) \<and> lock_set head \<and> \<not> user_set head) \<and>
     length ts' = 2"
  by (simp add: event_demo_def Event_init_def event_thread_init_def event_step_def cas_head_if
      view_eval)

theorem event_list_lock_exclusive_witness:
  "\<exists>g' ts'. executes event_step event_demo (g', ts') \<and> epc (ts' ! 0) = EvRemoving 8 (RwScan 16) \<and>
     event_pc_tok (epc (ts' ! 1)) = 0 \<and> lock_set (mWaiters g')"
proof -
  obtain g' ts' where
    run: "run_sched event_step [0,0,0,0,0, 0,0,0,0,0, 0,0,0, 1,1] event_demo = Some (g', ts')"
    and pc: "epc (ts' ! 0) = EvRemoving 8 (RwScan 16)" and len: "length ts' = 2"
    using event_demo_scan_run by blast
  have ex: "executes event_step (fst event_demo, snd event_demo) (g', ts')"
    using run_sched_executes [OF run] by simp
  show ?thesis
    using event_list_lock_exclusive [OF event_demo_start ex, of 0 1] ex pc len by auto
qed

text \<open>Claim C21.
  The calls of \<^verbatim>\<open>Event\<close>, made on an event that nobody else is inside of, do what the abstract
  event does: \<^verbatim>\<open>AddWaiter\<close> refuses exactly when the event is set, \<^verbatim>\<open>Set\<close> notifies every waiter
  once, in list order, and leaves the event set and its list empty, \<^verbatim>\<open>Reset\<close> clears the flag
  alone, \<^verbatim>\<open>RemoveWaiter\<close> takes out the waiter if it is there.  The number of accesses is bounded
  by the length of the list.\<close>

theorem event_calls_implement_spec:
  assumes "event_abs g s" and "waiter_addr w" and "w \<notin> set (espec_waiters s)" and "v \<noteq> 0"
  shows "(\<exists>g'. run_to_end (Event_AddWaiter_step w) 3 (g, EvAddEntry)
        = Some (g', EvAddDone (fst (espec_AddWaiter w s))) \<and>
      event_abs g' (snd (espec_AddWaiter w s)) \<and> notified g' = notified g) \<and>
    (\<exists>g'. run_to_end Event_Set_step (2 * length (espec_waiters s) + 4) (g, SetEntry)
        = Some (g', SetDone) \<and>
      event_abs g' Signalled \<and> notified g' = rev (espec_waiters s) @ notified g) \<and>
    (event_abs (Event_Reset g) (espec_Reset s) \<and> notified (Event_Reset g) = notified g) \<and>
    (\<exists>g'. run_to_end (remove_step v) (length (espec_waiters s) + 6) (g, RwLoad)
        = Some (g', RwDone (fst (espec_RemoveWaiter v s))) \<and>
      event_abs g' (snd (espec_RemoveWaiter v s)) \<and> notified g' = notified g)"
  using Event_AddWaiter_call [OF assms(1-3)] Event_Set_call [OF assms(1)]
    Event_Reset_call [OF assms(1)] event_RemoveWaiter_call [OF assms(1,4)] by blast

theorem event_calls_implement_spec_witness:
  "\<exists>g g'. event_abs g (Unsignalled [8]) \<and>
     run_to_end Event_Set_step 6 (g, SetEntry) = Some (g', SetDone) \<and> notified g' = [8]"
proof -
  define g where "g = (Event_init False (\<lambda>_. 0))\<lparr>mWaiters := 8\<rparr>"
  have abs: "event_abs g (Unsignalled [8])"
    by (simp add: g_def Event_init_def quiet_def holds_list_def all_aligned_def view_eval)
  have w: "waiter_addr 16" "(16 :: addr) \<notin> set (espec_waiters (Unsignalled [8]))"
    by (simp_all add: waiter_addr_def view_eval)
  have "notified g = []" by (simp add: g_def Event_init_def)
  with event_calls_implement_spec [OF abs w, of 8] abs show ?thesis by auto
qed

section \<open>Set does not wait for the list lock\<close>

text \<open>A thread in \<^verbatim>\<open>Set\<close> that has seen the list locked.\<close>

definition set_stuck :: "u64 \<Rightarrow> event_thread \<Rightarrow> bool" where
  "set_stuck head t \<longleftrightarrow> epc t = EvSetting (SetTest head) \<and> lock_set head \<and> \<not> user_set head"

lemma set_stuck_step:
  "set_stuck head t \<Longrightarrow> event_step g t = Some (g', t') \<Longrightarrow> set_stuck head t'"
  by (auto simp: set_stuck_def event_step_def)

text \<open>A thread that enters the loop of \<^verbatim>\<open>Set\<close> with a head word whose lock bit is set never leaves it,
  whatever the other threads do: the loop has no load on that path, so the release of the lock
  (which the comment "Wait for list to be unlocked" speaks of) is never seen.\<close>

theorem event_set_never_returns:
  assumes "i < length ts" and "epc (ts ! i) = EvSetting (SetTest head)"
    and "lock_set head" and "\<not> user_set head"
    and "executes event_step (g, ts) (g', ts')"
  shows "epc (ts' ! i) = EvSetting (SetTest head)"
proof -
  have "i < length ts' \<and> set_stuck head (ts' ! i)"
    by (rule executes_thread_invariant [OF set_stuck_step assms(5,1)])
      (use assms(2-4) in \<open>simp_all add: set_stuck_def\<close>)
  then show ?thesis by (simp add: set_stuck_def)
qed

text \<open>It is reachable: a \<^verbatim>\<open>Set\<close> that starts during a \<^verbatim>\<open>RemoveWaiter\<close>.  The remover finishes and
  unlocks, and \<^verbatim>\<open>Set\<close> still turns.\<close>

theorem event_set_never_returns_witness:
  "\<exists>g ts g' ts' head. executes event_step event_demo (g, ts) \<and>
     executes event_step (g, ts) (g', ts') \<and> \<not> lock_set (mWaiters g') \<and>
     epc (ts' ! 0) = EvIdle \<and> escript (ts' ! 0) = [] \<and> epc (ts' ! 1) = EvSetting (SetTest head)"
proof -
  obtain g ts head where
    run: "run_sched event_step [0,0,0,0,0, 0,0,0,0,0, 0,0,0, 1,1] event_demo = Some (g, ts)"
    and head: "epc (ts ! 1) = EvSetting (SetTest head)" "lock_set head" "\<not> user_set head"
    and len: "length ts = 2"
    using event_demo_scan_run by blast
  obtain g' ts' where run': "run_sched event_step [0,0,0,0,0,1,1] (g, ts) = Some (g', ts')"
    and fin: "\<not> lock_set (mWaiters g')" "epc (ts' ! 0) = EvIdle" "escript (ts' ! 0) = []"
    using run by (auto simp: event_demo_def Event_init_def event_thread_init_def event_step_def
        cas_head_if view_eval step_simps)
  have "epc (ts' ! 1) = EvSetting (SetTest head)"
    using event_set_never_returns [of 1 ts head g g' ts'] len head run_sched_executes [OF run'] by simp
  then show ?thesis
    using run_sched_executes [OF run] run_sched_executes [OF run'] fin by blast
qed

end
