(* ===== verification/Semaphore.thy ===== *)
theory Semaphore
  imports Waiter_List
begin

text \<open>
  \<^verbatim>\<open>Semaphore\<close> (semaphore.hpp, semaphore.cpp): a signed count and a waiter list, two separate
  atomic words.  \<^verbatim>\<open>Increment\<close> and \<^verbatim>\<open>Decrement\<close> return the old count.  Each operation is a machine
  with one constructor per point between two accesses to shared memory.
\<close>

section \<open>Shared memory\<close>

text \<open>The fields after \<open>mCount\<close> are a record of the history: successful \<^verbatim>\<open>AddWaiter\<close> calls that did
  not have to wait, the calls that have changed the count, and the \<^verbatim>\<open>Post\<close> calls that found nobody
  to wake.\<close>

record sem_mem = wl_mem +
  mCount :: u32
  acquired :: nat
  added :: nat
  posted :: nat
  unclaimed :: nat

definition Semaphore_init :: "u32 \<Rightarrow> (addr \<Rightarrow> addr) \<Rightarrow> sem_mem" where
  "Semaphore_init initialCount nx =
     \<lparr>mWaiters = 0, wnext = nx, notified = [], mCount = initialCount, acquired = 0, added = 0,
      posted = 0, unclaimed = 0\<rparr>"

definition Semaphore_IsOrderDependent :: bool where
  "Semaphore_IsOrderDependent = True"

section \<open>Operations\<close>

datatype sem_post_pc =
    PostEntry
  | PostLoad \<comment> \<open>the old count was negative\<close>
  | PostTest u64 \<comment> \<open>top of the loop, with \<^verbatim>\<open>head\<close>\<close>
  | PostPop u64 addr \<comment> \<open>\<^verbatim>\<open>headPtr->next\<close> read\<close>
  | PostNotify addr
  | PostDone
  | PostAssert

text \<open>When the list is locked the loop goes round with the \<^verbatim>\<open>head\<close> it has: the code has no load on
  that path.\<close>

fun Semaphore_Post_step :: "sem_mem \<Rightarrow> sem_post_pc \<Rightarrow> (sem_mem \<times> sem_post_pc) option" where
  "Semaphore_Post_step g PostEntry =
     (let (old, count') = AtomicIncrement (mCount g);
          g' = g\<lparr>mCount := count', posted := posted g + 1\<rparr>
      in Some (g', if sint old < 0 then PostLoad else PostDone))"
| "Semaphore_Post_step g PostLoad = Some (g, PostTest (mWaiters g))"
| "Semaphore_Post_step g (PostTest head) =
     (if GetPointer head = 0 then Some (g\<lparr>unclaimed := unclaimed g + 1\<rparr>, PostDone)
      else if \<not> lock_set head then Some (g, PostPop head (wnext g (GetPointer head)))
      else Some (g, PostTest head))"
| "Semaphore_Post_step g (PostPop head nxt) =
     (if \<not> aligned nxt then Some (g, PostAssert)
      else (case cas_head g head (SetPointer head nxt + ABA_ADDEND) of
              (True, _, g') \<Rightarrow> Some (g', PostNotify (GetPointer head))
            | (False, head', g') \<Rightarrow> Some (g', PostTest head')))"
| "Semaphore_Post_step g (PostNotify headPtr) =
     Some (g\<lparr>notified := headPtr # notified g\<rparr>, PostDone)"
| "Semaphore_Post_step g PostDone = None"
| "Semaphore_Post_step g PostAssert = None"

datatype sem_add_pc =
    SemAddEntry
  | SemAddLoad \<comment> \<open>the old count was not positive\<close>
  | SemAddTest u64
  | SemAddPush u64 \<comment> \<open>\<^verbatim>\<open>waiter->next\<close> written\<close>
  | SemAddDone bool
  | SemAddAssert

fun Semaphore_AddWaiter_step ::
  "addr \<Rightarrow> sem_mem \<Rightarrow> sem_add_pc \<Rightarrow> (sem_mem \<times> sem_add_pc) option" where
  "Semaphore_AddWaiter_step waiter g SemAddEntry =
     (let (old, count') = AtomicDecrement (mCount g);
          g' = g\<lparr>mCount := count', added := added g + 1\<rparr>
      in if sint old > 0 then Some (g'\<lparr>acquired := acquired g + 1\<rparr>, SemAddDone False)
         else Some (g', SemAddLoad))"
| "Semaphore_AddWaiter_step waiter g SemAddLoad = Some (g, SemAddTest (mWaiters g))"
| "Semaphore_AddWaiter_step waiter g (SemAddTest head) =
     Some (g\<lparr>wnext := (wnext g)(waiter := GetPointer head)\<rparr>, SemAddPush head)"
| "Semaphore_AddWaiter_step waiter g (SemAddPush head) =
     (if \<not> aligned waiter then Some (g, SemAddAssert)
      else (case cas_head g head (SetPointer head waiter + ABA_ADDEND) of
              (True, _, g') \<Rightarrow> Some (g', SemAddDone True)
            | (False, head', g') \<Rightarrow> Some (g', SemAddTest head')))"
| "Semaphore_AddWaiter_step waiter g (SemAddDone r) = None"
| "Semaphore_AddWaiter_step waiter g SemAddAssert = None"

section \<open>Threads\<close>

datatype sem_op = SemPost | SemAdd addr | SemRemove addr

datatype sem_pc =
  SemIdle | SemPosting sem_post_pc | SemAdding addr sem_add_pc | SemRemoving addr remove_pc

record sem_thread =
  spc :: sem_pc
  sscript :: "sem_op list"
  sresult :: bool

fun sem_begin :: "sem_thread \<Rightarrow> sem_op \<Rightarrow> sem_op list \<Rightarrow> sem_thread" where
  "sem_begin t SemPost ops = t\<lparr>spc := SemPosting PostEntry, sscript := ops\<rparr>"
| "sem_begin t (SemAdd w) ops = t\<lparr>spc := SemAdding w SemAddEntry, sscript := ops\<rparr>"
| "sem_begin t (SemRemove w) ops = t\<lparr>spc := SemRemoving w RwLoad, sscript := ops\<rparr>"

definition sem_step :: "sem_mem \<Rightarrow> sem_thread \<Rightarrow> (sem_mem \<times> sem_thread) option" where
  "sem_step g t = (case spc t of
     SemIdle \<Rightarrow> (case sscript t of [] \<Rightarrow> None | op # ops \<Rightarrow> Some (g, sem_begin t op ops))
   | SemPosting PostDone \<Rightarrow> Some (g, t\<lparr>spc := SemIdle\<rparr>)
   | SemPosting pc \<Rightarrow>
       map_option (\<lambda>(g', pc'). (g', t\<lparr>spc := SemPosting pc'\<rparr>)) (Semaphore_Post_step g pc)
   | SemAdding w (SemAddDone r) \<Rightarrow> Some (g, t\<lparr>spc := SemIdle, sresult := r\<rparr>)
   | SemAdding w pc \<Rightarrow>
       map_option (\<lambda>(g', pc'). (g', t\<lparr>spc := SemAdding w pc'\<rparr>)) (Semaphore_AddWaiter_step w g pc)
   | SemRemoving w (RwDone r) \<Rightarrow> Some (g, t\<lparr>spc := SemIdle, sresult := r\<rparr>)
   | SemRemoving w pc \<Rightarrow>
       map_option (\<lambda>(g', pc'). (g', t\<lparr>spc := SemRemoving w pc'\<rparr>)) (remove_step w g pc))"

definition sem_thread_init :: "sem_op list \<Rightarrow> sem_thread" where
  "sem_thread_init ops = \<lparr>spc = SemIdle, sscript = ops, sresult = False\<rparr>"

section \<open>Invariants\<close>

text \<open>The count is the initial count, plus the posts, less the calls of \<^verbatim>\<open>AddWaiter\<close>.\<close>

definition sem_gi :: "nat \<Rightarrow> sem_mem \<Rightarrow> bool" where
  "sem_gi initial g \<longleftrightarrow>
     sint (mCount g) = int initial + int (posted g) - int (added g) \<and> all_aligned (wnext g)"

fun sem_op_ok :: "sem_op \<Rightarrow> bool" where
  "sem_op_ok SemPost \<longleftrightarrow> True"
| "sem_op_ok (SemAdd w) \<longleftrightarrow> waiter_addr w"
| "sem_op_ok (SemRemove w) \<longleftrightarrow> waiter_addr w"

fun sem_pc_ok :: "sem_pc \<Rightarrow> bool" where
  "sem_pc_ok (SemPosting (PostPop head nxt)) \<longleftrightarrow> aligned nxt \<and> \<not> lock_set head"
| "sem_pc_ok (SemPosting PostAssert) \<longleftrightarrow> False"
| "sem_pc_ok (SemAdding w pc) \<longleftrightarrow> waiter_addr w \<and> pc \<noteq> SemAddAssert"
| "sem_pc_ok (SemRemoving w pc) \<longleftrightarrow> waiter_addr w \<and> rw_ok w pc"
| "sem_pc_ok _ \<longleftrightarrow> True"

definition sem_li :: "sem_thread \<Rightarrow> bool" where
  "sem_li t \<longleftrightarrow> sem_pc_ok (spc t) \<and> list_all sem_op_ok (sscript t)"

text \<open>
  Four kinds of token.  \<open>Calls\<close>: the changes of the count, made and still to be made; their
  number keeps the count from overflowing.  \<open>Posts\<close>: those of \<^verbatim>\<open>Post\<close>.  \<open>Units\<close>: what the semaphore has to give, in the count
  while it is positive, given to a caller or a waiter, on its way in a \<^verbatim>\<open>Post\<close>, or unclaimed.
  \<open>ListLock\<close>: the lock bit of the list.
\<close>

datatype sem_token = Calls | Posts | Units | ListLock

fun sem_gtok :: "sem_token \<Rightarrow> sem_mem \<Rightarrow> nat" where
  "sem_gtok Calls g = added g + posted g"
| "sem_gtok Posts g = posted g"
| "sem_gtok Units g =
     nat (sint (mCount g)) + acquired g + length (notified g) + unclaimed g"
| "sem_gtok ListLock g = lock_free (mWaiters g)"

fun sem_op_tok :: "sem_token \<Rightarrow> sem_op \<Rightarrow> nat" where
  "sem_op_tok Calls (SemRemove _) = 0"
| "sem_op_tok Calls _ = 1"
| "sem_op_tok Posts SemPost = 1"
| "sem_op_tok Units SemPost = 1"
| "sem_op_tok _ _ = 0"

fun sem_pc_tok :: "sem_token \<Rightarrow> sem_pc \<Rightarrow> nat" where
  "sem_pc_tok Calls (SemPosting PostEntry) = 1"
| "sem_pc_tok Calls (SemAdding _ SemAddEntry) = 1"
| "sem_pc_tok Calls _ = 0"
| "sem_pc_tok Posts (SemPosting PostEntry) = 1"
| "sem_pc_tok Posts _ = 0"
| "sem_pc_tok Units (SemPosting pc) = (if pc \<in> {PostDone, PostAssert} then 0 else 1)"
| "sem_pc_tok Units _ = 0"
| "sem_pc_tok ListLock (SemRemoving _ pc) = rw_holds_lock pc"
| "sem_pc_tok ListLock _ = 0"

definition sem_ltok :: "sem_token \<Rightarrow> sem_thread \<Rightarrow> nat" where
  "sem_ltok k t = sem_pc_tok k (spc t) + sum_list (map (sem_op_tok k) (sscript t))"

text \<open>The totals, for \<open>c\<close> calls, \<open>p\<close> of them posts, and \<open>u\<close> units.\<close>

fun sem_cap :: "nat \<Rightarrow> nat \<Rightarrow> nat \<Rightarrow> sem_token \<Rightarrow> nat" where
  "sem_cap c p u Calls = c"
| "sem_cap c p u Posts = p"
| "sem_cap c p u Units = u"
| "sem_cap c p u ListLock = 1"

lemma all_sem_token: "(\<forall>k. P k) \<longleftrightarrow> P Calls \<and> P Posts \<and> P Units \<and> P ListLock"
  by (metis sem_token.exhaust)

lemma sem_count_step:
  assumes "sem_gi initial g" and "initial + added g + posted g + 1 < 2 ^ 31"
  shows "sint (mCount g + 1) = sint (mCount g) + 1" and "sint (mCount g - 1) = sint (mCount g) - 1"
proof -
  have "sint (mCount g) + 1 < 2 ^ 31" "- (2 ^ 31) < sint (mCount g)"
    using assms by (simp_all add: sem_gi_def)
  then show "sint (mCount g + 1) = sint (mCount g) + 1" "sint (mCount g - 1) = sint (mCount g) - 1"
    by (simp_all only: sint_increment sint_decrement)
qed

text \<open>One step of each machine.\<close>

lemma sem_post_step_inv:
  assumes st: "Semaphore_Post_step g pc = Some (g', pc')"
    and gi: "sem_gi initial g" and ok: "sem_pc_ok (SemPosting pc)"
    and le: "initial + sem_gtok Calls g + sem_pc_tok Calls (SemPosting pc) < 2 ^ 31"
  shows "sem_gi initial g' \<and> sem_pc_ok (SemPosting pc') \<and>
    (\<forall>k. sem_gtok k g' + sem_pc_tok k (SemPosting pc') = sem_gtok k g + sem_pc_tok k (SemPosting pc))"
proof (cases pc)
  case PostEntry
  have "sint (mCount g + 1) = sint (mCount g) + 1"
    using sem_count_step(1) [OF gi] le PostEntry by simp
  then show ?thesis using st gi PostEntry
    by (auto simp: all_sem_token sem_gi_def linux_defs Let_def split: if_splits)
next
  case (PostPop head nxt)
  then show ?thesis using st gi ok
    by (auto simp: all_sem_token sem_gi_def cas_head_if word_packing lock_free_def split: if_splits)
qed (use st gi ok in \<open>auto simp: all_sem_token sem_gi_def split: if_splits\<close>)

lemma sem_add_step_inv:
  assumes st: "Semaphore_AddWaiter_step w g pc = Some (g', pc')"
    and gi: "sem_gi initial g" and ok: "sem_pc_ok (SemAdding w pc)"
    and le: "initial + sem_gtok Calls g + sem_pc_tok Calls (SemAdding w pc) < 2 ^ 31"
  shows "sem_gi initial g' \<and> sem_pc_ok (SemAdding w pc') \<and>
    (\<forall>k. sem_gtok k g' + sem_pc_tok k (SemAdding w pc') = sem_gtok k g + sem_pc_tok k (SemAdding w pc))"
proof (cases pc)
  case SemAddEntry
  have "sint (mCount g - 1) = sint (mCount g) - 1"
    using sem_count_step(2) [OF gi] le SemAddEntry by simp
  then show ?thesis using st gi ok SemAddEntry
    by (auto simp: all_sem_token sem_gi_def linux_defs Let_def split: if_splits)
next
  case (SemAddPush head)
  then show ?thesis using st gi ok
    by (auto simp: all_sem_token sem_gi_def cas_head_if word_packing lock_free_def waiter_addr_def
        split: if_splits)
qed (use st gi ok in \<open>auto simp: all_sem_token sem_gi_def\<close>)

lemma sem_remove_step_inv:
  assumes st: "remove_step w g pc = Some (g', pc')"
    and gi: "sem_gi initial g" and ok: "sem_pc_ok (SemRemoving w pc)"
    and le: "sem_gtok ListLock g + sem_pc_tok ListLock (SemRemoving w pc) \<le> 1"
  shows "sem_gi initial g' \<and> sem_pc_ok (SemRemoving w pc') \<and>
    (\<forall>k. sem_gtok k g' + sem_pc_tok k (SemRemoving w pc') = sem_gtok k g + sem_pc_tok k (SemRemoving w pc))"
proof -
  have same: "sem_mem.more g' = sem_mem.more g \<and> mCount g' = mCount g \<and> acquired g' = acquired g \<and>
      added g' = added g \<and> posted g' = posted g \<and> unclaimed g' = unclaimed g"
    using st by (cases pc) (auto simp: cas_head_if WaiterList_Unlock_def split: if_splits)
  have al: "all_aligned (wnext g)" using gi by (simp add: sem_gi_def)
  show ?thesis
    using same gi ok remove_step_ok [OF st _ al] remove_step_lock [OF st] remove_step_user [OF st] le
    by (auto simp: all_sem_token sem_gi_def)
qed

lemma sem_step_inv:
  assumes st: "sem_step g t = Some (g', t')"
    and gi: "sem_gi initial g" and li: "sem_li t"
    and le: "\<And>k. sem_gtok k g + sem_ltok k t \<le> sem_cap c p u k"
    and c: "initial + c < 2 ^ 31"
  shows "sem_gi initial g' \<and> sem_li t' \<and>
    (\<forall>k. sem_gtok k g' + sem_ltok k t' = sem_gtok k g + sem_ltok k t)"
proof -
  have calls: "initial + sem_gtok Calls g + sem_pc_tok Calls (spc t) < 2 ^ 31"
    using le [of Calls] c by (simp add: sem_ltok_def)
  have lock: "sem_gtok ListLock g + sem_pc_tok ListLock (spc t) \<le> 1"
    using le [of ListLock] by (simp add: sem_ltok_def)
  show ?thesis
  proof (cases "spc t")
    case SemIdle
    then obtain op ops where s: "sscript t = op # ops" and "g' = g" "t' = sem_begin t op ops"
      using st by (auto simp: sem_step_def split: list.splits)
    then show ?thesis using SemIdle gi li
      by (cases op) (auto simp: all_sem_token sem_li_def sem_ltok_def)
  next
    case (SemPosting pc)
    show ?thesis
    proof (cases "pc = PostDone")
      case True
      then show ?thesis using SemPosting st gi li
        by (auto simp: sem_step_def sem_li_def sem_ltok_def all_sem_token)
    next
      case False
      then obtain pc' where s: "Semaphore_Post_step g pc = Some (g', pc')"
        and t': "t' = t\<lparr>spc := SemPosting pc'\<rparr>"
        using st SemPosting by (cases pc) (auto simp: sem_step_def)
      show ?thesis using sem_post_step_inv [OF s gi] li calls
        by (simp add: SemPosting t' sem_li_def sem_ltok_def)
    qed
  next
    case (SemAdding w pc)
    show ?thesis
    proof (cases "\<exists>r. pc = SemAddDone r")
      case True
      then show ?thesis using SemAdding st gi li
        by (auto simp: sem_step_def sem_li_def sem_ltok_def all_sem_token)
    next
      case False
      then obtain pc' where s: "Semaphore_AddWaiter_step w g pc = Some (g', pc')"
        and t': "t' = t\<lparr>spc := SemAdding w pc'\<rparr>"
        using st SemAdding by (cases pc) (auto simp: sem_step_def)
      show ?thesis using sem_add_step_inv [OF s gi] li calls
        by (simp add: SemAdding t' sem_li_def sem_ltok_def)
    qed
  next
    case (SemRemoving w pc)
    show ?thesis
    proof (cases "\<exists>r. pc = RwDone r")
      case True
      then show ?thesis using SemRemoving st gi li
        by (auto simp: sem_step_def sem_li_def sem_ltok_def all_sem_token)
    next
      case False
      then obtain pc' where s: "remove_step w g pc = Some (g', pc')"
        and t': "t' = t\<lparr>spc := SemRemoving w pc'\<rparr>"
        using st SemRemoving by (cases pc) (auto simp: sem_step_def)
      show ?thesis using sem_remove_step_inv [OF s gi] li lock
        by (simp add: SemRemoving t' sem_li_def sem_ltok_def)
    qed
  qed
qed

text \<open>The tokens of a run whose calls, \<open>c\<close> of them, cannot overflow the count.  The invariant of
  the memory carries that bound.\<close>

definition sem_run_inv :: "nat \<Rightarrow> nat \<Rightarrow> sem_mem \<Rightarrow> bool" where
  "sem_run_inv initial c g \<longleftrightarrow> sem_gi initial g \<and> initial + c < 2 ^ 31"

interpretation sm: token_systems sem_step "sem_run_inv initial c" sem_li sem_gtok sem_ltok
  "sem_cap c p u" for initial c p u
  by unfold_locales (use sem_step_inv in \<open>unfold sem_run_inv_def, blast\<close>)

section \<open>Reachable states\<close>

definition script_calls :: "sem_op list list \<Rightarrow> nat" where
  "script_calls scripts = sum_list (map (\<lambda>ops. sum_list (map (sem_op_tok Calls) ops)) scripts)"

text \<open>Threads with any scripts, of so few calls that the 32-bit count cannot overflow.\<close>

definition sem_start :: "nat \<Rightarrow> sem_mem \<Rightarrow> sem_thread list \<Rightarrow> bool" where
  "sem_start initial g ts \<longleftrightarrow> (\<exists>nx scripts.
     g = Semaphore_init (of_nat initial) nx \<and> all_aligned nx \<and>
     ts = map sem_thread_init scripts \<and> list_all (list_all sem_op_ok) scripts \<and>
     initial + script_calls scripts < 2 ^ 31)"

lemma sint_of_nat_small:
  assumes "n < 2 ^ 31"
  shows "sint (of_nat n :: u32) = int n"
  using assms by (simp add: signed_of_nat signed_take_bit_int_eq_self)

lemma sem_posts_are_units: "sem_op_tok Posts = sem_op_tok Units"
proof
  fix op
  show "sem_op_tok Posts op = sem_op_tok Units op" by (cases op) simp_all
qed

lemma sem_reachable:
  assumes start: "sem_start initial g ts" and ex: "executes sem_step (g, ts) (g', ts')"
  shows "sem_gi initial g'" and "t \<in> set ts' \<Longrightarrow> sem_li t"
    and "sem_gtok Posts g' + sum_list (map (sem_ltok Posts) ts') + initial =
      sem_gtok Units g' + sum_list (map (sem_ltok Units) ts')"
    and "sem_gtok ListLock g' + sum_list (map (sem_ltok ListLock) ts') = 1"
proof -
  obtain nx scripts where g: "g = Semaphore_init (of_nat initial) nx" "all_aligned nx"
    and ts: "ts = map sem_thread_init scripts" "list_all (list_all sem_op_ok) scripts"
    and small: "initial + script_calls scripts < 2 ^ 31"
    using start by (auto simp: sem_start_def)
  define total where "total = (\<lambda>k. sum_list (map (\<lambda>ops. sum_list (map (sem_op_tok k) ops)) scripts))"
  have ltok: "sum_list (map (sem_ltok k) ts) = total k" for k
    by (cases k) (simp_all add: ts total_def comp_def sem_thread_init_def sem_ltok_def)
  have same: "total Posts = total Units" by (simp add: total_def sem_posts_are_units)
  have "total ListLock = 0" by (simp add: total_def)
  have s: "sint (mCount g) = int initial"
    using small by (simp add: g Semaphore_init_def sint_of_nat_small)
  have inv: "sem_run_inv initial (total Calls) g"
    using s small g by (simp add: sem_run_inv_def sem_gi_def Semaphore_init_def total_def script_calls_def)
  have li: "\<forall>t \<in> set ts. sem_li t"
    using ts by (auto simp: sem_li_def sem_thread_init_def list_all_iff)
  have cap: "sem_gtok k g + sum_list (map (sem_ltok k) ts)
      = sem_cap (total Calls) (total Posts) (initial + total Posts) k" for k
    using s same \<open>total ListLock = 0\<close> unfolding ltok
    by (cases k) (auto simp: g Semaphore_init_def lock_free_def)
  note all = sm.executes_all_tokens [OF ex inv li cap]
  show "sem_gi initial g'" using all by (simp add: sem_run_inv_def)
  show "t \<in> set ts' \<Longrightarrow> sem_li t" using all by blast
  have tok: "sem_gtok k g' + sum_list (map (sem_ltok k) ts')
      = sem_cap (total Calls) (total Posts) (initial + total Posts) k" for k
    using all by blast
  show "sem_gtok Posts g' + sum_list (map (sem_ltok Posts) ts') + initial =
      sem_gtok Units g' + sum_list (map (sem_ltok Units) ts')"
    using tok [of Posts] tok [of Units] by simp
  show "sem_gtok ListLock g' + sum_list (map (sem_ltok ListLock) ts') = 1"
    using tok [of ListLock] by simp
qed

lemma sem_posts_units: "sem_ltok Posts t \<le> sem_ltok Units t"
proof -
  have "sem_pc_tok Posts (spc t) \<le> sem_pc_tok Units (spc t)"
  proof (cases "spc t")
    case (SemPosting pc)
    then show ?thesis by (cases pc) simp_all
  qed simp_all
  then show ?thesis by (simp add: sem_ltok_def sem_posts_are_units)
qed

section \<open>Calls on a semaphore at rest\<close>

text \<open>A count and a stack of waiters.\<close>

type_synonym sem_spec = "int \<times> addr list"

fun sspec_AddWaiter :: "addr \<Rightarrow> sem_spec \<Rightarrow> bool \<times> sem_spec" where
  "sspec_AddWaiter w (c, ws) = (if c > 0 then (False, (c - 1, ws)) else (True, (c - 1, w # ws)))"

fun sspec_Post :: "sem_spec \<Rightarrow> addr list \<times> sem_spec" where
  "sspec_Post (c, ws) = (if c < 0 then (take 1 ws, (c + 1, drop 1 ws)) else ([], (c + 1, ws)))"

fun sspec_RemoveWaiter :: "addr \<Rightarrow> sem_spec \<Rightarrow> bool \<times> sem_spec" where
  "sspec_RemoveWaiter w (c, ws) = (w \<in> set ws, (c, remove1 w ws))"

fun sem_abs :: "sem_mem \<Rightarrow> sem_spec \<Rightarrow> bool" where
  "sem_abs g (c, ws) \<longleftrightarrow> sint (mCount g) = c \<and> quiet g ws"

lemma Semaphore_AddWaiter_call:
  assumes q: "quiet g ws" and w: "waiter_addr w" "w \<notin> set ws"
  shows "\<exists>g'. run_to_end (Semaphore_AddWaiter_step w) 4 (g, SemAddEntry)
        = Some (g', SemAddDone (\<not> sint (mCount g) > 0)) \<and>
      mCount g' = mCount g - 1 \<and> notified g' = notified g \<and>
      quiet g' (if sint (mCount g) > 0 then ws else w # ws)"
proof (cases "sint (mCount g) > 0")
  case True
  then show ?thesis using q
    by (simp add: eval_nat_numeral linux_defs Let_def quiet_def holds_list_def)
next
  case False
  define g1 where "g1 = g\<lparr>mCount := mCount g - 1, added := added g + 1\<rparr>"
  define g2 where "g2 = g1\<lparr>wnext := (wnext g1)(w := GetPointer (mWaiters g1)),
    mWaiters := SetPointer (mWaiters g1) w + ABA_ADDEND\<rparr>"
  have "quiet g1 ws" using q by (simp add: g1_def quiet_def holds_list_def)
  from quiet_push [OF this w] have q2: "quiet g2 (w # ws)" by (simp add: g2_def)
  have "run_to_end (Semaphore_AddWaiter_step w) 4 (g, SemAddEntry) = Some (g2, SemAddDone True)"
    using False w
    by (simp add: eval_nat_numeral linux_defs Let_def cas_head_if g2_def g1_def waiter_addr_def)
  then show ?thesis using False q2 by (intro exI [of _ g2]) (simp add: g2_def g1_def)
qed

lemma Semaphore_Post_call:
  assumes q: "quiet g ws"
  shows "\<exists>g'. run_to_end Semaphore_Post_step 5 (g, PostEntry) = Some (g', PostDone) \<and>
      mCount g' = mCount g + 1 \<and>
      notified g' = (if sint (mCount g) < 0 then take 1 ws else []) @ notified g \<and>
      quiet g' (if sint (mCount g) < 0 then drop 1 ws else ws)"
proof (cases "sint (mCount g) < 0")
  case False
  then show ?thesis using q
    by (simp add: eval_nat_numeral linux_defs Let_def quiet_def holds_list_def)
next
  case True
  define g1 where "g1 = g\<lparr>mCount := mCount g + 1, posted := posted g + 1\<rparr>"
  have q1: "quiet g1 ws" using q by (simp add: g1_def quiet_def holds_list_def)
  have nl: "\<not> lock_set (mWaiters g)" and al: "all_aligned (wnext g)" using q by (auto simp: quiet_def)
  show ?thesis
  proof (cases ws)
    case Nil
    then have "GetPointer (mWaiters g) = 0" using q by (simp add: quiet_head)
    then show ?thesis using True q1 Nil
      by (simp add: eval_nat_numeral linux_defs Let_def g1_def quiet_def holds_list_def)
  next
    case (Cons w us)
    define g2 where "g2 = g1\<lparr>mWaiters := SetPointer (mWaiters g1) (wnext g1 w) + ABA_ADDEND\<rparr>"
    define g3 where "g3 = g2\<lparr>notified := w # notified g2\<rparr>"
    have p: "quiet g2 us" "GetPointer (mWaiters g) = w" "w \<noteq> 0"
      using quiet_pop [of g1 w us] q1 Cons by (auto simp: g2_def g1_def)
    have "run_to_end Semaphore_Post_step 5 (g, PostEntry) = Some (g3, PostDone)"
      using True p nl al
      by (simp add: eval_nat_numeral linux_defs Let_def cas_head_if g3_def g2_def g1_def)
    moreover have "quiet g3 us" using p(1) by (simp add: g3_def quiet_def holds_list_def)
    ultimately show ?thesis using True Cons
      by (intro exI [of _ g3]) (simp add: g3_def g2_def g1_def)
  qed
qed

lemma sem_removed_count:
  assumes "removed g g' ws w"
  shows "mCount g' = mCount g" and "quiet g' (remove1 w ws)" and "notified g' = notified g"
  using assms by (cases g; cases g'; simp add: removed_def)+

section \<open>The semaphore is an IWaitable\<close>

definition Semaphore_adds :: "addr \<Rightarrow> sem_mem \<Rightarrow> bool \<Rightarrow> sem_mem \<Rightarrow> bool" where
  "Semaphore_adds w g r g' \<longleftrightarrow>
     returns (Semaphore_AddWaiter_step w) g SemAddEntry g' (SemAddDone r)"

definition Semaphore_removes :: "addr \<Rightarrow> sem_mem \<Rightarrow> bool \<Rightarrow> sem_mem \<Rightarrow> bool" where
  "Semaphore_removes w g r g' \<longleftrightarrow> returns (remove_step w) g RwLoad g' (RwDone r)"

interpretation semaphore_waitable: iwaitable Semaphore_adds Semaphore_removes
  "quiet :: sem_mem \<Rightarrow> addr list \<Rightarrow> bool"
proof unfold_locales
  fix g :: sem_mem and ws w
  assume q: "quiet g ws" and w: "waiter_addr w" "w \<notin> set ws"
  obtain g' where "run_to_end (Semaphore_AddWaiter_step w) 4 (g, SemAddEntry)
      = Some (g', SemAddDone (\<not> sint (mCount g) > 0))"
    and "quiet g' (if sint (mCount g) > 0 then ws else w # ws)"
    using Semaphore_AddWaiter_call [OF q w] by blast
  then show "\<exists>r g'. Semaphore_adds w g r g' \<and> quiet g' (if r then w # ws else ws)"
    unfolding Semaphore_adds_def returns_def
    by (intro exI [of _ "\<not> sint (mCount g) > 0"] exI [of _ g']) auto
next
  fix g :: sem_mem and ws w
  assume q: "quiet g ws" and w: "waiter_addr w"
  then obtain g' where "run_to_end (remove_step w) (length ws + 6) (g, RwLoad)
      = Some (g', RwDone (w \<in> set ws))" and "removed g g' ws w"
    using RemoveWaiter_call [OF q] by (auto simp: waiter_addr_def)
  then show "\<exists>g'. Semaphore_removes w g (w \<in> set ws) g' \<and> quiet g' (remove1 w ws)"
    unfolding Semaphore_removes_def returns_def removed_def by blast
qed

section \<open>Properties\<close>

text \<open>Runs for the witnesses: a semaphore of 1; one thread takes it and then waits (8, 16), the
  other posts.\<close>

definition sem_demo :: "sem_mem \<times> sem_thread list" where
  "sem_demo = (Semaphore_init (of_nat 1) (\<lambda>_. 0),
     map sem_thread_init [[SemAdd 8, SemAdd 16], [SemPost]])"

lemma sem_demo_start: "sem_start 1 (fst sem_demo) (snd sem_demo)"
  unfolding sem_start_def sem_demo_def
  by (intro exI [of _ "\<lambda>_. 0"] exI [of _ "[[SemAdd 8, SemAdd 16], [SemPost]]"])
    (simp add: all_aligned_def waiter_addr_def script_calls_def view_eval)

lemma sem_demo_run:
  "\<exists>g' ts'. run_sched sem_step ([0,0,0] @ [0,0,0,0,0,0] @ [1,1,1,1,1,1,1]) sem_demo = Some (g', ts')
     \<and> acquired g' = 1 \<and> notified g' = [16] \<and> posted g' = 1 \<and> spc (ts' ! 0) = SemIdle"
  by (simp add: sem_demo_def Semaphore_init_def sem_thread_init_def sem_step_def cas_head_if
      view_eval linux_defs Let_def)

text \<open>Claim C3.
  A semaphore never gives more than it has.  In every interleaving of any scripts, of so few calls
  that the 32-bit count cannot overflow, the count is the initial count plus the \<^verbatim>\<open>Post\<close> calls less
  the \<^verbatim>\<open>AddWaiter\<close> calls, and the callers let through at once, the waiters notified, the posts that
  found nobody and the positive part of the count together are at most the initial count plus the
  posts; when no thread is inside a call they are exactly that.\<close>

theorem semaphore_never_overgrants:
  assumes "sem_start initial g ts" and "executes sem_step (g, ts) (g', ts')"
  shows "sint (mCount g') = int initial + int (posted g') - int (added g') \<and>
    acquired g' + length (notified g') + unclaimed g' + nat (sint (mCount g')) \<le> initial + posted g' \<and>
    ((\<forall>t \<in> set ts'. spc t = SemIdle) \<longrightarrow>
      acquired g' + length (notified g') + unclaimed g' + nat (sint (mCount g')) = initial + posted g')"
proof (intro conjI impI)
  show "sint (mCount g') = int initial + int (posted g') - int (added g')"
    using sem_reachable(1) [OF assms] by (simp add: sem_gi_def)
  have total: "posted g' + sum_list (map (sem_ltok Posts) ts') + initial =
      acquired g' + length (notified g') + unclaimed g' + nat (sint (mCount g'))
      + sum_list (map (sem_ltok Units) ts')"
    using sem_reachable(3) [OF assms] by simp
  moreover have "sum_list (map (sem_ltok Posts) ts') \<le> sum_list (map (sem_ltok Units) ts')"
    by (rule sum_list_mono) (rule sem_posts_units)
  ultimately show "acquired g' + length (notified g') + unclaimed g' + nat (sint (mCount g'))
      \<le> initial + posted g'" by linarith
  assume "\<forall>t \<in> set ts'. spc t = SemIdle"
  then have "sum_list (map (sem_ltok Posts) ts') = sum_list (map (sem_ltok Units) ts')"
    by (intro arg_cong [where f = sum_list] map_cong) (simp_all add: sem_ltok_def sem_posts_are_units)
  then show "acquired g' + length (notified g') + unclaimed g' + nat (sint (mCount g'))
      = initial + posted g'" using total by simp
qed

theorem semaphore_never_overgrants_witness:
  "\<exists>g' ts'. executes sem_step sem_demo (g', ts') \<and> acquired g' = 1 \<and> notified g' = [16] \<and>
     unclaimed g' + nat (sint (mCount g')) = 0"
proof -
  obtain g' ts' where
    run: "run_sched sem_step ([0,0,0] @ [0,0,0,0,0,0] @ [1,1,1,1,1,1,1]) sem_demo = Some (g', ts')"
    and r: "acquired g' = 1" "notified g' = [16]" "posted g' = 1"
    using sem_demo_run by blast
  have ex: "executes sem_step (fst sem_demo, snd sem_demo) (g', ts')"
    using run_sched_executes [OF run] by simp
  show ?thesis using semaphore_never_overgrants [OF sem_demo_start ex] r ex by auto
qed

text \<open>The lock bit of the semaphore's waiter list is a lock: at most one thread is inside the scan of
  \<^verbatim>\<open>RemoveWaiter\<close>, the bit is set meanwhile, and no thread fails the assertion of
  \<^verbatim>\<open>SetPointer\<close>.\<close>

theorem semaphore_list_lock_exclusive:
  assumes "sem_start initial g ts" and "executes sem_step (g, ts) (g', ts')"
    and "i < length ts'" and "j < length ts'" and "i \<noteq> j"
    and "spc (ts' ! i) = SemRemoving w pc" and "rw_holds_lock pc > 0"
  shows "lock_set (mWaiters g') \<and> sem_pc_tok ListLock (spc (ts' ! j)) = 0 \<and>
    spc (ts' ! j) \<noteq> SemPosting PostAssert"
proof -
  have one: "sem_ltok ListLock (ts' ! i) \<ge> 1" using assms(6,7) by (simp add: sem_ltok_def)
  have "sem_ltok ListLock (ts' ! i) + sem_ltok ListLock (ts' ! j)
      \<le> sum_list (map (sem_ltok ListLock) ts')"
    by (rule sum_list_map_two_le [OF assms(3-5)])
  then have "sem_gtok ListLock g' = 0 \<and> sem_ltok ListLock (ts' ! j) = 0"
    using sem_reachable(4) [OF assms(1,2)] one by linarith
  moreover have "sem_li (ts' ! j)"
    using sem_reachable(2) [OF assms(1,2)] assms(4) by simp
  ultimately show ?thesis
    by (auto simp: sem_ltok_def lock_free_def sem_li_def split: if_splits)
qed

definition sem_scan_demo :: "sem_mem \<times> sem_thread list" where
  "sem_scan_demo = (Semaphore_init (of_nat 0) (\<lambda>_. 0),
     map sem_thread_init [[SemAdd 8, SemAdd 16, SemRemove 8], [SemPost]])"

lemma sem_scan_demo_start: "sem_start 0 (fst sem_scan_demo) (snd sem_scan_demo)"
  unfolding sem_start_def sem_scan_demo_def
  by (intro exI [of _ "\<lambda>_. 0"] exI [of _ "[[SemAdd 8, SemAdd 16, SemRemove 8], [SemPost]]"])
    (simp add: all_aligned_def waiter_addr_def script_calls_def view_eval)

text \<open>Thread 0 is scanning for 8 when thread 1 posts.\<close>

lemma sem_scan_demo_run:
  "\<exists>g' ts'. run_sched sem_step ([0,0,0,0,0,0] @ [0,0,0,0,0,0] @ [0,0,0] @ [1,1,1])
       sem_scan_demo = Some (g', ts') \<and>
     spc (ts' ! 0) = SemRemoving 8 (RwScan 16) \<and> sscript (ts' ! 0) = [] \<and>
     (\<exists>head. spc (ts' ! 1) = SemPosting (PostTest head) \<and> lock_set head \<and> GetPointer head = 16) \<and>
     length ts' = 2"
  by (simp add: sem_scan_demo_def Semaphore_init_def sem_thread_init_def sem_step_def cas_head_if
      view_eval linux_defs Let_def)

theorem semaphore_list_lock_exclusive_witness:
  "\<exists>g' ts'. executes sem_step sem_scan_demo (g', ts') \<and> spc (ts' ! 0) = SemRemoving 8 (RwScan 16) \<and>
     lock_set (mWaiters g') \<and> sem_pc_tok ListLock (spc (ts' ! 1)) = 0"
proof -
  obtain g' ts' where
    run: "run_sched sem_step ([0,0,0,0,0,0] @ [0,0,0,0,0,0] @ [0,0,0] @ [1,1,1]) sem_scan_demo
      = Some (g', ts')"
    and pc: "spc (ts' ! 0) = SemRemoving 8 (RwScan 16)" and len: "length ts' = 2"
    using sem_scan_demo_run by blast
  have ex: "executes sem_step (fst sem_scan_demo, snd sem_scan_demo) (g', ts')"
    using run_sched_executes [OF run] by simp
  show ?thesis
    using semaphore_list_lock_exclusive [OF sem_scan_demo_start ex, of 0 1] ex pc len by auto
qed

text \<open>Claim C22.
  The calls of \<^verbatim>\<open>Semaphore\<close>, made on a semaphore that nobody else is inside of, do what the
  abstract semaphore (a count and a stack of waiters) does, as long as the count is away from the
  ends of 32 bits: \<^verbatim>\<open>AddWaiter\<close> lets the caller through exactly when the count is positive,
  \<^verbatim>\<open>Post\<close> wakes exactly one waiter when the count is negative and there is one.\<close>

theorem semaphore_calls_implement_spec:
  assumes "sem_abs g s" and "- (2 ^ 31) < fst s" and "fst s + 1 < 2 ^ 31"
    and "waiter_addr w" and "w \<notin> set (snd s)" and "v \<noteq> 0"
  shows "(\<exists>g'. run_to_end (Semaphore_AddWaiter_step w) 4 (g, SemAddEntry)
        = Some (g', SemAddDone (fst (sspec_AddWaiter w s))) \<and>
      sem_abs g' (snd (sspec_AddWaiter w s)) \<and> notified g' = notified g) \<and>
    (\<exists>g'. run_to_end Semaphore_Post_step 5 (g, PostEntry) = Some (g', PostDone) \<and>
      sem_abs g' (snd (sspec_Post s)) \<and> notified g' = fst (sspec_Post s) @ notified g) \<and>
    (\<exists>g'. run_to_end (remove_step v) (length (snd s) + 6) (g, RwLoad)
        = Some (g', RwDone (fst (sspec_RemoveWaiter v s))) \<and>
      sem_abs g' (snd (sspec_RemoveWaiter v s)) \<and> notified g' = notified g)"
proof -
  obtain c ws where s: "s = (c, ws)" by (cases s)
  have q: "quiet g ws" and c: "sint (mCount g) = c" using assms(1) by (auto simp: s)
  have inc: "sint (mCount g + 1) = c + 1" "sint (mCount g - 1) = c - 1"
    using sint_increment [of "mCount g"] sint_decrement [of "mCount g"] c assms(2,3)
    by (simp_all add: s)
  show ?thesis
    using Semaphore_AddWaiter_call [OF q, of w] Semaphore_Post_call [OF q]
      RemoveWaiter_call [OF q assms(6)] assms(4,5) inc c
    by (auto simp: s sem_removed_count split: if_splits)
qed

theorem semaphore_calls_implement_spec_witness:
  "\<exists>g g'. sem_abs g (-1, [8]) \<and>
     run_to_end Semaphore_Post_step 5 (g, PostEntry) = Some (g', PostDone) \<and> sem_abs g' (0, []) \<and>
     notified g' = [8]"
proof -
  define g where "g = (Semaphore_init (- 1) (\<lambda>_. 0))\<lparr>mWaiters := 8\<rparr>"
  have abs: "sem_abs g (-1, [8])"
    by (simp add: g_def Semaphore_init_def quiet_def holds_list_def all_aligned_def view_eval)
  have w: "waiter_addr 16" "(16 :: addr) \<notin> set (snd (-1 :: int, [8]))"
    by (simp_all add: waiter_addr_def view_eval)
  have "notified g = []" by (simp add: g_def Semaphore_init_def)
  with semaphore_calls_implement_spec [OF abs _ _ w, of 8] abs show ?thesis by auto
qed

section \<open>What the semaphore loses\<close>

text \<open>A post can be lost.  Some run of one \<^verbatim>\<open>AddWaiter\<close> and one \<^verbatim>\<open>Post\<close> on a semaphore of 0 ends with
  both calls returned and the waiter in the list and never notified, although the count is back at
  0: \<^verbatim>\<open>Post\<close> ran between the decrement and the insertion, saw a waiter owed and found the list
  empty.\<close>

theorem semaphore_lost_wakeup:
  "\<exists>g ts. executes sem_step
       (Semaphore_init 0 (\<lambda>_. 0), [sem_thread_init [SemAdd 8], sem_thread_init [SemPost]]) (g, ts) \<and>
     map (sem_step g) ts = [None, None] \<and> holds_list g [8] \<and> notified g = [] \<and>
     acquired g = 0 \<and> sint (mCount g) = 0"
proof -
  obtain g ts where
    run: "run_sched sem_step ([0,0] @ [1,1,1,1,1] @ [0,0,0,0])
       (Semaphore_init 0 (\<lambda>_. 0), [sem_thread_init [SemAdd 8], sem_thread_init [SemPost]])
      = Some (g, ts)"
    and fin: "map (sem_step g) ts = [None, None]" "holds_list g [8]" "notified g = []"
      "acquired g = 0" "sint (mCount g) = 0"
    by (simp add: Semaphore_init_def sem_thread_init_def sem_step_def cas_head_if
        view_eval linux_defs Let_def holds_list_def)
  show ?thesis
    by (intro exI [of _ g] exI [of _ ts] conjI) (use run_sched_executes [OF run] fin in simp_all)
qed

text \<open>\<^verbatim>\<open>RemoveWaiter\<close> does not give back what \<^verbatim>\<open>AddWaiter\<close> took from the count.  On a semaphore of 0 a
  waiter is added and removed again; the next \<^verbatim>\<open>Post\<close> goes to nobody and the next \<^verbatim>\<open>AddWaiter\<close>
  waits, with a count below 0.\<close>

theorem semaphore_removed_waiter_takes_a_post:
  "\<exists>g ts. executes sem_step
       (Semaphore_init 0 (\<lambda>_. 0),
        [sem_thread_init [SemAdd 8, SemRemove 8, SemPost, SemAdd 16]]) (g, ts) \<and>
     map (sem_step g) ts = [None] \<and> holds_list g [16] \<and> notified g = [] \<and> posted g = 1 \<and>
     acquired g = 0 \<and> sint (mCount g) = - 1"
proof -
  obtain g ts where
    run: "run_sched sem_step
       ([0,0,0,0,0,0] @ [0,0,0,0,0] @ [0,0,0,0,0] @ [0,0,0,0,0,0])
       (Semaphore_init 0 (\<lambda>_. 0),
        [sem_thread_init [SemAdd 8, SemRemove 8, SemPost, SemAdd 16]]) = Some (g, ts)"
    and fin: "map (sem_step g) ts = [None]" "holds_list g [16]" "notified g = []" "posted g = 1"
      "acquired g = 0" "sint (mCount g) = - 1"
    by (simp add: Semaphore_init_def sem_thread_init_def sem_step_def cas_head_if
        view_eval linux_defs Let_def holds_list_def)
  show ?thesis
    by (intro exI [of _ g] exI [of _ ts] conjI) (use run_sched_executes [OF run] fin in simp_all)
qed

text \<open>A thread in \<^verbatim>\<open>Post\<close> that has seen the list locked.\<close>

definition post_stuck :: "u64 \<Rightarrow> sem_thread \<Rightarrow> bool" where
  "post_stuck head t \<longleftrightarrow> spc t = SemPosting (PostTest head) \<and> lock_set head \<and> GetPointer head \<noteq> 0"

lemma post_stuck_step:
  "post_stuck head t \<Longrightarrow> sem_step g t = Some (g', t') \<Longrightarrow> post_stuck head t'"
  by (auto simp: post_stuck_def sem_step_def)

text \<open>A \<^verbatim>\<open>Post\<close> that enters its loop with a head word whose lock bit is set never returns, whatever the
  other threads do: the loop has no load on that path.\<close>

theorem semaphore_post_never_returns:
  assumes "i < length ts" and "spc (ts ! i) = SemPosting (PostTest head)"
    and "lock_set head" and "GetPointer head \<noteq> 0"
    and "executes sem_step (g, ts) (g', ts')"
  shows "spc (ts' ! i) = SemPosting (PostTest head)"
proof -
  have "i < length ts' \<and> post_stuck head (ts' ! i)"
    by (rule executes_thread_invariant [OF post_stuck_step assms(5,1)])
      (use assms(2-4) in \<open>simp_all add: post_stuck_def\<close>)
  then show ?thesis by (simp add: post_stuck_def)
qed

text \<open>It is reachable; the remover finishes, and \<^verbatim>\<open>Post\<close> still turns.\<close>

theorem semaphore_post_never_returns_witness:
  "\<exists>g ts g' ts' head. executes sem_step sem_scan_demo (g, ts) \<and>
     executes sem_step (g, ts) (g', ts') \<and> \<not> lock_set (mWaiters g') \<and>
     spc (ts' ! 0) = SemIdle \<and> sscript (ts' ! 0) = [] \<and> spc (ts' ! 1) = SemPosting (PostTest head)"
proof -
  obtain g ts head where
    run: "run_sched sem_step ([0,0,0,0,0,0] @ [0,0,0,0,0,0] @ [0,0,0] @ [1,1,1]) sem_scan_demo
      = Some (g, ts)"
    and head: "spc (ts ! 1) = SemPosting (PostTest head)" "lock_set head" "GetPointer head = 16"
    and len: "length ts = 2"
    using sem_scan_demo_run by blast
  obtain g' ts' where run': "run_sched sem_step [0,0,0,0,0,1,1] (g, ts) = Some (g', ts')"
    and fin: "\<not> lock_set (mWaiters g')" "spc (ts' ! 0) = SemIdle" "sscript (ts' ! 0) = []"
    using run by (auto simp: sem_scan_demo_def Semaphore_init_def sem_thread_init_def sem_step_def
        cas_head_if view_eval step_simps linux_defs Let_def)
  have "spc (ts' ! 1) = SemPosting (PostTest head)"
    using semaphore_post_never_returns [of 1 ts head g g' ts'] len head run_sched_executes [OF run']
    by simp
  then show ?thesis
    using run_sched_executes [OF run] run_sched_executes [OF run'] fin by blast
qed

end
