(* ===== verification/Lifo_List.thy ===== *)
theory Lifo_List
  imports Atomic_Ops Tagged_Pointer Waiter_List
begin

text \<open>
  \<^verbatim>\<open>MPMCLifoList\<close> (mpmc_lifo_list.hpp): a list of nodes that any number of threads push to and pop
  from by compare-and-swap on one packed word, the root.  A node is its address; \<^verbatim>\<open>SetNext\<close> and
  \<^verbatim>\<open>GetNext\<close> write and read its link.  The version in the root makes a compare-and-swap fail when
  the root has changed and changed back; it has 16 bits, so the theorems are about runs of fewer
  than \<open>2 ^ 16\<close> operations.
\<close>

section \<open>Memory and history\<close>

text \<open>\<open>history\<close> records, latest first, what the list has done, each operation at the access where it
  takes effect: the compare-and-swap that succeeds, and the read of an empty root.\<close>

datatype lifo_event = Pushed addr | Popped addr | FoundEmpty

record lifo_mem =
  mRoot :: u64
  lnext :: "addr \<Rightarrow> addr"
  history :: "lifo_event list"

definition MPMCLifoList_init :: "(addr \<Rightarrow> addr) \<Rightarrow> lifo_mem" where
  "MPMCLifoList_init nx = \<lparr>mRoot = 0, lnext = nx, history = []\<rparr>"

text \<open>What a stack makes of a history; \<open>None\<close> if it is not the history of a stack.\<close>

fun replay :: "lifo_event list \<Rightarrow> addr list option" where
  "replay [] = Some []"
| "replay (Pushed a # es) = map_option ((#) a) (replay es)"
| "replay (Popped a # es) =
     (case replay es of Some (x # xs) \<Rightarrow> if x = a then Some xs else None | _ \<Rightarrow> None)"
| "replay (FoundEmpty # es) = (case replay es of Some [] \<Rightarrow> Some [] | _ \<Rightarrow> None)"

text \<open>A read of the root, recorded when it is empty.\<close>

definition read_root :: "lifo_mem \<Rightarrow> lifo_mem" where
  "read_root g =
     (if mRoot g AND MPMC_PTR_MASK = 0 then g\<lparr>history := FoundEmpty # history g\<rparr> else g)"

section \<open>Operations\<close>

datatype lifo_push_pc =
    PushLoad
  | PushLink u64 \<comment> \<open>top of the loop, with \<^verbatim>\<open>oldRoot\<close>\<close>
  | PushCas u64 \<comment> \<open>\<^verbatim>\<open>SetNext\<close> done\<close>
  | PushDone

fun Lifo_Push_step :: "addr \<Rightarrow> lifo_mem \<Rightarrow> lifo_push_pc \<Rightarrow> (lifo_mem \<times> lifo_push_pc) option" where
  "Lifo_Push_step node g PushLoad = Some (g, PushLink (mRoot g))"
| "Lifo_Push_step node g (PushLink oldRoot) =
     Some (g\<lparr>lnext := (lnext g)(node := oldRoot AND MPMC_PTR_MASK)\<rparr>, PushCas oldRoot)"
| "Lifo_Push_step node g (PushCas oldRoot) =
     (let newRoot = (node + MPMC_ABA_ADDEND) + (oldRoot AND MPMC_ABA_MASK);
          (swapped, oldRoot', root') = AtomicCompareAndSwap (mRoot g) oldRoot newRoot;
          g' = g\<lparr>mRoot := root'\<rparr>
      in Some (if swapped then (g'\<lparr>history := Pushed node # history g\<rparr>, PushDone)
               else (g', PushLink oldRoot')))"
| "Lifo_Push_step node g PushDone = None"

datatype lifo_pop_pc =
    PopLoad
  | PopTest u64 \<comment> \<open>top of the loop, with \<^verbatim>\<open>oldRoot\<close>\<close>
  | PopCas u64 addr \<comment> \<open>\<^verbatim>\<open>GetNext(*oldRootPtr)\<close> read\<close>
  | PopDone addr \<comment> \<open>the pointer returned\<close>

fun Lifo_Pop_step :: "lifo_mem \<Rightarrow> lifo_pop_pc \<Rightarrow> (lifo_mem \<times> lifo_pop_pc) option" where
  "Lifo_Pop_step g PopLoad = Some (read_root g, PopTest (mRoot g))"
| "Lifo_Pop_step g (PopTest oldRoot) =
     (let oldRootPtr = oldRoot AND MPMC_PTR_MASK
      in if oldRootPtr = 0 then Some (g, PopDone 0)
         else Some (g, PopCas oldRoot (lnext g oldRootPtr)))"
| "Lifo_Pop_step g (PopCas oldRoot nxt) =
     (let newRoot = nxt + (oldRoot AND MPMC_ABA_MASK) + MPMC_ABA_ADDEND;
          oldRootPtr = oldRoot AND MPMC_PTR_MASK;
          (swapped, oldRoot', root') = AtomicCompareAndSwap (mRoot g) oldRoot newRoot;
          g' = g\<lparr>mRoot := root'\<rparr>
      in Some (if swapped then (g'\<lparr>history := Popped oldRootPtr # history g\<rparr>, PopDone oldRootPtr)
               else (read_root g', PopTest oldRoot')))"
| "Lifo_Pop_step g (PopDone r) = None"

section \<open>Threads\<close>

text \<open>A thread has nodes at hand; it pushes one of those, and a popped node joins them.\<close>

datatype lifo_op = LPush addr | LPop

datatype lifo_pc = LIdle | LPushing addr lifo_push_pc | LPopping lifo_pop_pc

record lifo_thread =
  lpc :: lifo_pc
  lscript :: "lifo_op list"
  held :: "addr list"
  misses :: nat \<comment> \<open>pops that returned \<^verbatim>\<open>nullptr\<close>\<close>

definition lifo_step :: "lifo_mem \<Rightarrow> lifo_thread \<Rightarrow> (lifo_mem \<times> lifo_thread) option" where
  "lifo_step g t = (case lpc t of
     LIdle \<Rightarrow>
       (case lscript t of
          [] \<Rightarrow> None
        | LPush node # ops \<Rightarrow>
            if node \<in> set (held t)
            then Some (g, t\<lparr>lpc := LPushing node PushLoad, lscript := ops, held := remove1 node (held t)\<rparr>)
            else None
        | LPop # ops \<Rightarrow> Some (g, t\<lparr>lpc := LPopping PopLoad, lscript := ops\<rparr>))
   | LPushing node PushDone \<Rightarrow> Some (g, t\<lparr>lpc := LIdle\<rparr>)
   | LPushing node pc \<Rightarrow>
       map_option (\<lambda>(g', pc'). (g', t\<lparr>lpc := LPushing node pc'\<rparr>)) (Lifo_Push_step node g pc)
   | LPopping (PopDone r) \<Rightarrow>
       Some (g, if r = 0 then t\<lparr>lpc := LIdle, misses := misses t + 1\<rparr>
                else t\<lparr>lpc := LIdle, held := r # held t\<rparr>)
   | LPopping pc \<Rightarrow>
       map_option (\<lambda>(g', pc'). (g', t\<lparr>lpc := LPopping pc'\<rparr>)) (Lifo_Pop_step g pc))"

definition lifo_thread_init :: "lifo_op list \<times> addr list \<Rightarrow> lifo_thread" where
  "lifo_thread_init p = \<lparr>lpc = LIdle, lscript = fst p, held = snd p, misses = 0\<rparr>"

section \<open>Invariants\<close>

abbreviation root_ptr :: "u64 \<Rightarrow> addr" where
  "root_ptr w \<equiv> w AND MPMC_PTR_MASK"

definition stack_of :: "lifo_mem \<Rightarrow> addr list" where
  "stack_of g = (case replay (history g) of Some xs \<Rightarrow> xs | None \<Rightarrow> [])"

fun changes :: "lifo_event \<Rightarrow> nat" where
  "changes FoundEmpty = 0"
| "changes _ = 1"

definition updates :: "lifo_mem \<Rightarrow> nat" where
  "updates g = sum_list (map changes (history g))"

definition node_addr :: "addr \<Rightarrow> bool" where
  "node_addr a \<longleftrightarrow> fits MPMC_PTR_MASK a \<and> a \<noteq> 0"

text \<open>The history is that of a stack, the list in memory is that stack, and the version counts the
  updates.\<close>

definition lifo_gi :: "lifo_mem \<Rightarrow> bool" where
  "lifo_gi g \<longleftrightarrow>
     replay (history g) = Some (stack_of g) \<and>
     wlist (lnext g) (root_ptr (mRoot g)) (stack_of g) \<and>
     list_all node_addr (stack_of g) \<and>
     version 48 (mRoot g) = updates g"

text \<open>A copy of the root that is of the current version is the root.\<close>

definition snapshot :: "lifo_mem \<Rightarrow> u64 \<Rightarrow> bool" where
  "snapshot g w \<longleftrightarrow> version 48 w \<le> updates g \<and> (version 48 w = updates g \<longrightarrow> w = mRoot g)"

fun lifo_pc_ok :: "lifo_mem \<Rightarrow> lifo_pc \<Rightarrow> bool" where
  "lifo_pc_ok g LIdle \<longleftrightarrow> True"
| "lifo_pc_ok g (LPushing node (PushCas oldRoot)) \<longleftrightarrow>
     node_addr node \<and> lnext g node = root_ptr oldRoot"
| "lifo_pc_ok g (LPushing node _) \<longleftrightarrow> node_addr node"
| "lifo_pc_ok g (LPopping (PopTest oldRoot)) \<longleftrightarrow> snapshot g oldRoot"
| "lifo_pc_ok g (LPopping (PopCas oldRoot nxt)) \<longleftrightarrow>
     snapshot g oldRoot \<and> root_ptr oldRoot \<noteq> 0 \<and>
     (oldRoot = mRoot g \<longrightarrow> nxt = lnext g (root_ptr oldRoot))"
| "lifo_pc_ok g (LPopping (PopDone r)) \<longleftrightarrow> r \<noteq> 0 \<longrightarrow> node_addr r"
| "lifo_pc_ok g (LPopping PopLoad) \<longleftrightarrow> True"

definition lifo_ti :: "lifo_mem \<Rightarrow> lifo_thread \<Rightarrow> bool" where
  "lifo_ti g t \<longleftrightarrow> lifo_pc_ok g (lpc t) \<and> list_all node_addr (held t)"

text \<open>Tokens: each node is in the list or with one thread; each operation makes at most one
  update.\<close>

datatype lifo_token = Node addr | Updates

fun lifo_gtok :: "lifo_token \<Rightarrow> lifo_mem \<Rightarrow> nat" where
  "lifo_gtok (Node a) g = count_list (stack_of g) a"
| "lifo_gtok Updates g = updates g"

fun lifo_pc_tok :: "lifo_token \<Rightarrow> lifo_pc \<Rightarrow> nat" where
  "lifo_pc_tok (Node a) (LPushing node pc) = of_bool (a = node \<and> pc \<noteq> PushDone)"
| "lifo_pc_tok (Node a) (LPopping (PopDone r)) = of_bool (a = r \<and> r \<noteq> 0)"
| "lifo_pc_tok (Node a) _ = 0"
| "lifo_pc_tok Updates (LPushing node pc) = of_bool (pc \<noteq> PushDone)"
| "lifo_pc_tok Updates (LPopping (PopDone r)) = of_bool (r = 0)"
| "lifo_pc_tok Updates (LPopping _) = 1"
| "lifo_pc_tok Updates LIdle = 0"

fun lifo_ltok :: "lifo_token \<Rightarrow> lifo_thread \<Rightarrow> nat" where
  "lifo_ltok (Node a) t = lifo_pc_tok (Node a) (lpc t) + count_list (held t) a"
| "lifo_ltok Updates t = lifo_pc_tok Updates (lpc t) + length (lscript t) + misses t"

text \<open>\<open>n\<close> operations on the nodes \<open>nodes\<close>.\<close>

fun lifo_cap :: "addr set \<Rightarrow> nat \<Rightarrow> lifo_token \<Rightarrow> nat" where
  "lifo_cap nodes n (Node a) = of_bool (a \<in> nodes)"
| "lifo_cap nodes n Updates = n"

lemma all_lifo_token: "(\<forall>k. P k) \<longleftrightarrow> (\<forall>a. P (Node a)) \<and> P Updates"
  by (metis lifo_token.exhaust)

section \<open>Words\<close>

lemma root_word:
  assumes "fits MPMC_PTR_MASK p"
  shows "root_ptr ((p + MPMC_ABA_ADDEND) + (w AND MPMC_ABA_MASK)) = p"
    and "version 48 ((p + MPMC_ABA_ADDEND) + (w AND MPMC_ABA_MASK)) = (version 48 w + 1) mod 2 ^ 16"
    and "root_ptr (p + (w AND MPMC_ABA_MASK) + MPMC_ABA_ADDEND) = p"
    and "version 48 (p + (w AND MPMC_ABA_MASK) + MPMC_ABA_ADDEND) = (version 48 w + 1) mod 2 ^ 16"
proof -
  have e: "p + (w AND MPMC_ABA_MASK) + MPMC_ABA_ADDEND = (p + MPMC_ABA_ADDEND) + (w AND MPMC_ABA_MASK)"
    by (simp add: algebra_simps)
  show 1: "root_ptr ((p + MPMC_ABA_ADDEND) + (w AND MPMC_ABA_MASK)) = p"
    using mp.get_set_bump [OF assms, of w] by (simp add: mpmc_pack [OF assms] get_ptr_def)
  show 2: "version 48 ((p + MPMC_ABA_ADDEND) + (w AND MPMC_ABA_MASK)) = (version 48 w + 1) mod 2 ^ 16"
    using mp.version_set_bump [OF assms, of w] by (simp add: mpmc_pack [OF assms])
  show "root_ptr (p + (w AND MPMC_ABA_MASK) + MPMC_ABA_ADDEND) = p"
    and "version 48 (p + (w AND MPMC_ABA_MASK) + MPMC_ABA_ADDEND) = (version 48 w + 1) mod 2 ^ 16"
    unfolding e by (rule 1, rule 2)
qed

lemma fits_root [simp]: "fits MPMC_PTR_MASK (root_ptr w)"
  using mp.fits_get [of w] by (simp add: get_ptr_def)

section \<open>One step\<close>

lemma count_list_set: "count_list xs a = 0 \<longleftrightarrow> a \<notin> set xs"
  by (simp add: count_list_0_iff)

lemma lifo_gi_read_root:
  assumes "lifo_gi g"
  shows "lifo_gi (read_root g)" and "stack_of (read_root g) = stack_of g"
    and "updates (read_root g) = updates g" and "mRoot (read_root g) = mRoot g"
    and "lnext (read_root g) = lnext g"
  using assms by (auto simp: lifo_gi_def read_root_def stack_of_def updates_def)

lemma replay_stack: "lifo_gi g \<Longrightarrow> replay (history g) = Some (stack_of g)"
  by (simp add: lifo_gi_def)

text \<open>The push that takes effect.\<close>

lemma lifo_gi_push:
  assumes gi: "lifo_gi g" and node: "node_addr node" and nxt: "lnext g node = root_ptr (mRoot g)"
    and bound: "updates g + 1 < 2 ^ 16"
    and g': "g' = g\<lparr>mRoot := (node + MPMC_ABA_ADDEND) + (mRoot g AND MPMC_ABA_MASK),
      history := Pushed node # history g\<rparr>"
  shows "lifo_gi g' \<and> stack_of g' = node # stack_of g \<and> updates g' = updates g + 1"
proof -
  have f: "fits MPMC_PTR_MASK node" using node by (simp add: node_addr_def)
  obtain xs where xs: "replay (history g) = Some xs" using replay_stack [OF gi] by blast
  have s: "stack_of g' = node # stack_of g" by (simp add: g' stack_of_def xs)
  have u: "updates g' = updates g + 1" by (simp add: g' updates_def)
  have "version 48 (mRoot g') = updates g'"
    using gi bound by (simp add: g' root_word [OF f] lifo_gi_def updates_def)
  then have "lifo_gi g'"
    using gi node nxt s by (simp add: lifo_gi_def g' root_word [OF f] node_addr_def)
  then show ?thesis using s u by simp
qed

text \<open>The pop that takes effect.\<close>

lemma lifo_gi_pop:
  assumes gi: "lifo_gi g" and p: "root_ptr (mRoot g) \<noteq> 0"
    and bound: "updates g + 1 < 2 ^ 16"
    and g': "g' = g\<lparr>mRoot := lnext g (root_ptr (mRoot g)) + (mRoot g AND MPMC_ABA_MASK)
        + MPMC_ABA_ADDEND, history := Popped (root_ptr (mRoot g)) # history g\<rparr>"
  shows "lifo_gi g' \<and> stack_of g = root_ptr (mRoot g) # stack_of g' \<and> updates g' = updates g + 1"
proof -
  define p where "p = root_ptr (mRoot g)"
  obtain xs where xs: "stack_of g = p # xs" and l: "wlist (lnext g) (lnext g p) xs"
    using gi p by (auto simp: lifo_gi_def wlist_nonnull p_def)
  have ok: "list_all node_addr xs" using gi xs by (simp add: lifo_gi_def)
  have f: "fits MPMC_PTR_MASK (lnext g p)"
    using l ok by (cases xs) (auto simp: node_addr_def)
  have s: "stack_of g' = xs"
    using replay_stack [OF gi] xs by (simp add: g' stack_of_def p_def)
  have r: "replay (history g') = Some xs"
    using replay_stack [OF gi] xs by (simp add: g' p_def)
  have u: "updates g' = updates g + 1" by (simp add: g' updates_def)
  have "version 48 (mRoot g') = updates g'"
    using gi bound f by (simp add: g' root_word lifo_gi_def updates_def p_def)
  then have "lifo_gi g'"
    using gi l ok s r f by (simp add: lifo_gi_def g' root_word p_def)
  then show ?thesis using s u xs by (simp add: p_def)
qed

text \<open>What a thread does to the memory others rely on.\<close>

definition owned :: "lifo_thread \<Rightarrow> addr \<Rightarrow> bool" where
  "owned t a \<longleftrightarrow> lifo_ltok (Node a) t > 0"

lemma lifo_push_step_inv:
  assumes st: "Lifo_Push_step node g pc = Some (g', pc')"
    and gi: "lifo_gi g" and ok: "lifo_pc_ok g (LPushing node pc)"
    and out: "pc \<noteq> PushDone \<Longrightarrow> node \<notin> set (stack_of g)"
    and bound: "updates g + lifo_pc_tok Updates (LPushing node pc) < 2 ^ 16"
  shows "lifo_gi g' \<and> lifo_pc_ok g' (LPushing node pc') \<and>
    (\<forall>k. lifo_gtok k g' + lifo_pc_tok k (LPushing node pc')
      = lifo_gtok k g + lifo_pc_tok k (LPushing node pc))"
proof (cases pc)
  case PushLoad
  then show ?thesis using st gi ok by (auto simp: all_lifo_token)
next
  case (PushLink oldRoot)
  then have g': "g' = g\<lparr>lnext := (lnext g)(node := root_ptr oldRoot)\<rparr>" "pc' = PushCas oldRoot"
    using st by auto
  have "stack_of g' = stack_of g" "updates g' = updates g"
    by (simp_all add: g' stack_of_def updates_def)
  then show ?thesis using gi ok out PushLink
    by (simp add: all_lifo_token lifo_gi_def g')
next
  case (PushCas oldRoot)
  show ?thesis
  proof (cases "mRoot g = oldRoot")
    case False
    then show ?thesis using st gi ok PushCas
      by (auto simp: all_lifo_token AtomicCompareAndSwap_if Let_def)
  next
    case True
    have n: "node_addr node" "lnext g node = root_ptr (mRoot g)" using ok PushCas True by auto
    have b: "updates g + 1 < 2 ^ 16" using bound PushCas by simp
    have g': "g' = g\<lparr>mRoot := (node + MPMC_ABA_ADDEND) + (mRoot g AND MPMC_ABA_MASK),
      history := Pushed node # history g\<rparr>" and pc': "pc' = PushDone"
      using st PushCas True by (auto simp: AtomicCompareAndSwap_if Let_def)
    show ?thesis using lifo_gi_push [OF gi n b g'] PushCas n
      by (auto simp: all_lifo_token pc')
  qed
next
  case PushDone
  then show ?thesis using st by simp
qed

lemma snapshot_root: "lifo_gi g \<Longrightarrow> snapshot g (mRoot g)"
  by (simp add: snapshot_def lifo_gi_def)

lemma lifo_pop_step_inv:
  assumes st: "Lifo_Pop_step g pc = Some (g', pc')"
    and gi: "lifo_gi g" and ok: "lifo_pc_ok g (LPopping pc)"
    and bound: "updates g + lifo_pc_tok Updates (LPopping pc) < 2 ^ 16"
  shows "lifo_gi g' \<and> lifo_pc_ok g' (LPopping pc') \<and>
    (\<forall>k. lifo_gtok k g' + lifo_pc_tok k (LPopping pc') = lifo_gtok k g + lifo_pc_tok k (LPopping pc))"
proof (cases pc)
  case PopLoad
  then show ?thesis
    using st lifo_gi_read_root [OF gi] snapshot_root [OF lifo_gi_read_root(1) [OF gi]]
    by (auto simp: all_lifo_token)
next
  case (PopTest oldRoot)
  then show ?thesis using st gi ok by (auto simp: all_lifo_token Let_def split: if_splits)
next
  case (PopCas oldRoot nxt)
  show ?thesis
  proof (cases "mRoot g = oldRoot")
    case False
    then have "g' = read_root g" "pc' = PopTest (mRoot g)"
      using st PopCas by (auto simp: AtomicCompareAndSwap_if Let_def)
    then show ?thesis
      using lifo_gi_read_root [OF gi] snapshot_root [OF lifo_gi_read_root(1) [OF gi]] PopCas
      by (auto simp: all_lifo_token)
  next
    case True
    have p: "root_ptr (mRoot g) \<noteq> 0" and nxt: "nxt = lnext g (root_ptr (mRoot g))"
      using ok PopCas True by auto
    have b: "updates g + 1 < 2 ^ 16" using bound PopCas by simp
    have g': "g' = g\<lparr>mRoot := lnext g (root_ptr (mRoot g)) + (mRoot g AND MPMC_ABA_MASK)
        + MPMC_ABA_ADDEND, history := Popped (root_ptr (mRoot g)) # history g\<rparr>"
      and pc': "pc' = PopDone (root_ptr (mRoot g))"
      using st PopCas True nxt by (auto simp: AtomicCompareAndSwap_if Let_def)
    have "node_addr (root_ptr (mRoot g))" using p by (simp add: node_addr_def)
    then show ?thesis using lifo_gi_pop [OF gi p b g'] PopCas p
      by (auto simp: all_lifo_token pc')
  qed
next
  case (PopDone r)
  then show ?thesis using st by simp
qed

text \<open>The run's bound goes with the invariant of the memory.\<close>

definition lifo_run_inv :: "nat \<Rightarrow> lifo_mem \<Rightarrow> bool" where
  "lifo_run_inv n g \<longleftrightarrow> lifo_gi g \<and> n < 2 ^ 16"

lemma count_list_remove1:
  "x \<in> set xs \<Longrightarrow> count_list (remove1 x xs) a + of_bool (a = x) = count_list xs a"
  by (induction xs) auto

lemma lifo_own:
  assumes inv: "lifo_run_inv n g" and ti: "lifo_ti g t"
    and le: "\<And>k. lifo_gtok k g + lifo_ltok k t \<le> lifo_cap nodes n k"
    and st: "lifo_step g t = Some (g', t')"
  shows "lifo_run_inv n g' \<and> lifo_ti g' t' \<and>
    (\<forall>k. lifo_gtok k g' + lifo_ltok k t' = lifo_gtok k g + lifo_ltok k t)"
proof -
  have gi: "lifo_gi g" and n: "n < 2 ^ 16" using inv by (auto simp: lifo_run_inv_def)
  have bound: "updates g + lifo_pc_tok Updates (lpc t) < 2 ^ 16" using le [of Updates] n by simp
  have held: "list_all node_addr (held t)" and pc: "lifo_pc_ok g (lpc t)"
    using ti by (auto simp: lifo_ti_def)
  show ?thesis
  proof (cases "lpc t")
    case LIdle
    then obtain op ops where s: "lscript t = op # ops"
      using st by (auto simp: lifo_step_def split: list.splits)
    show ?thesis
    proof (cases op)
      case (LPush node)
      have h: "node \<in> set (held t)" and g': "g' = g"
        and t': "t' = t\<lparr>lpc := LPushing node PushLoad, lscript := ops, held := remove1 node (held t)\<rparr>"
        using st LIdle s LPush by (auto simp: lifo_step_def split: if_splits)
      have "node_addr node" "list_all node_addr (remove1 node (held t))"
        using h held by (auto simp: list_all_iff dest: notin_set_remove1)
      then show ?thesis using LIdle s inv count_list_remove1 [OF h]
        by (simp add: all_lifo_token lifo_ti_def g' t' add.commute)
    next
      case LPop
      then show ?thesis using st LIdle s inv held
        by (auto simp: lifo_step_def all_lifo_token lifo_ti_def)
    qed
  next
    case (LPushing node p)
    have out: "p \<noteq> PushDone \<Longrightarrow> node \<notin> set (stack_of g)"
      using le [of "Node node"] LPushing
      by (cases "node \<in> nodes") (auto simp: count_list_set [symmetric])
    show ?thesis
    proof (cases "p = PushDone")
      case True
      then show ?thesis using st LPushing inv held
        by (auto simp: lifo_step_def lifo_ti_def all_lifo_token)
    next
      case False
      then obtain p' where s: "Lifo_Push_step node g p = Some (g', p')"
        and t': "t' = t\<lparr>lpc := LPushing node p'\<rparr>"
        using st LPushing by (cases p) (auto simp: lifo_step_def)
      show ?thesis
        using lifo_push_step_inv [OF s gi _ out] pc bound held n LPushing
        by (simp add: t' lifo_run_inv_def lifo_ti_def all_lifo_token)
    qed
  next
    case (LPopping p)
    show ?thesis
    proof (cases "\<exists>r. p = PopDone r")
      case True
      then show ?thesis using st LPopping inv held pc
        by (auto simp: lifo_step_def lifo_ti_def all_lifo_token)
    next
      case False
      then obtain p' where s: "Lifo_Pop_step g p = Some (g', p')"
        and t': "t' = t\<lparr>lpc := LPopping p'\<rparr>"
        using st LPopping by (cases p) (auto simp: lifo_step_def)
      show ?thesis
        using lifo_pop_step_inv [OF s gi] pc bound held n LPopping
        by (simp add: t' lifo_run_inv_def lifo_ti_def all_lifo_token)
    qed
  qed
qed

text \<open>A step either leaves the root alone and writes the link of a node of its own at most, or
  updates the root and no link.\<close>

lemma lifo_effect:
  assumes st: "lifo_step g t = Some (g', t')" and gi: "lifo_gi g"
  shows "(mRoot g' = mRoot g \<and> updates g' = updates g \<and>
      (\<forall>a. lifo_ltok (Node a) t = 0 \<longrightarrow> lnext g' a = lnext g a)) \<or>
    (updates g' = updates g + 1 \<and> lnext g' = lnext g)"
proof (cases "lpc t")
  case LIdle
  then show ?thesis using st
    by (auto simp: lifo_step_def split: list.splits lifo_op.splits if_splits)
next
  case (LPushing node p)
  then show ?thesis using st
    by (cases p) (auto simp: lifo_step_def updates_def AtomicCompareAndSwap_if Let_def fun_upd_apply
        split: if_splits)
next
  case (LPopping p)
  then show ?thesis using st lifo_gi_read_root [OF gi]
    by (cases p) (auto simp: lifo_step_def updates_def AtomicCompareAndSwap_if Let_def
        split: if_splits)
qed

lemma lifo_stable:
  assumes inv: "lifo_run_inv n g" and ti: "lifo_ti g t" and tm: "lifo_ti g m"
    and le: "\<And>k. lifo_gtok k g + lifo_ltok k t + lifo_ltok k m \<le> lifo_cap nodes n k"
    and st: "lifo_step g t = Some (g', t')"
  shows "lifo_ti g' m"
proof -
  have gi: "lifo_gi g" using inv by (simp add: lifo_run_inv_def)
  have le1: "lifo_gtok (Node a) g + lifo_ltok (Node a) t + lifo_ltok (Node a) m \<le> 1" for a
    using le [of "Node a"] by (cases "a \<in> nodes") auto
  have gi': "lifo_gi g'"
  proof -
    have "lifo_gtok k g + lifo_ltok k t \<le> lifo_cap nodes n k" for k using le [of k] by simp
    from lifo_own [OF inv ti this st] show ?thesis by (simp add: lifo_run_inv_def)
  qed
  have eff: "(mRoot g' = mRoot g \<and> updates g' = updates g \<and>
      (\<forall>a. lifo_ltok (Node a) t = 0 \<longrightarrow> lnext g' a = lnext g a)) \<or>
    (updates g' = updates g + 1 \<and> lnext g' = lnext g)"
    by (rule lifo_effect [OF st gi])
  have snap: "snapshot g w \<Longrightarrow> snapshot g' w" for w
    using eff by (auto simp: snapshot_def)
  have mine: "lnext g' a = lnext g a" if "lifo_ltok (Node a) m > 0" for a
    using eff le1 [of a] that by auto
  have pc: "lifo_pc_ok g (lpc m)" using tm by (simp add: lifo_ti_def)
  have "lifo_pc_ok g' (lpc m)"
  proof (cases "lpc m")
    case (LPushing node p)
    then show ?thesis using pc mine [of node] by (cases p) auto
  next
    case (LPopping p)
    show ?thesis
    proof (cases p)
      case (PopCas w nxt)
      have s: "snapshot g w" and nz: "root_ptr w \<noteq> 0"
        and nx: "w = mRoot g \<longrightarrow> nxt = lnext g (root_ptr w)"
        using pc LPopping PopCas by auto
      have "nxt = lnext g' (root_ptr w)" if w: "w = mRoot g'"
      proof -
        have same: "updates g' = updates g" "mRoot g' = mRoot g"
          using eff s w gi' by (auto simp: snapshot_def lifo_gi_def)
        have "root_ptr w \<in> set (stack_of g)"
          using gi nz w same by (auto simp: lifo_gi_def wlist_nonnull)
        then have "lifo_gtok (Node (root_ptr w)) g > 0"
          using count_list_set [of "stack_of g" "root_ptr w"] by simp
        then have "lifo_ltok (Node (root_ptr w)) t = 0"
          using le1 [of "root_ptr w"] by linarith
        then show ?thesis using eff same nx w by auto
      qed
      then show ?thesis using LPopping PopCas snap [OF s] nz by simp
    qed (use pc LPopping snap in auto)
  qed simp
  then show ?thesis using tm by (simp add: lifo_ti_def)
qed

interpretation ll: token_protocol lifo_step "lifo_run_inv n" lifo_ti lifo_gtok lifo_ltok
  "lifo_cap nodes n" for nodes n
  by unfold_locales (rule lifo_own, assumption+, rule lifo_stable, assumption+)

section \<open>Reachable states\<close>

text \<open>An empty list and threads with distinct nodes at hand and scripts of fewer than \<open>2 ^ 16\<close>
  operations in all.\<close>

definition lifo_start :: "lifo_mem \<Rightarrow> lifo_thread list \<Rightarrow> bool" where
  "lifo_start g ts \<longleftrightarrow> (\<exists>nx ps.
     g = MPMCLifoList_init nx \<and> ts = map lifo_thread_init ps \<and>
     distinct (concat (map snd ps)) \<and> list_all (list_all node_addr) (map snd ps) \<and>
     sum_list (map (length \<circ> fst) ps) < 2 ^ 16)"

definition nodes_of :: "lifo_thread list \<Rightarrow> addr set" where
  "nodes_of ts = set (concat (map held ts))"

lemma count_concat: "count_list (concat xss) a = sum_list (map (\<lambda>xs. count_list xs a) xss)"
  by (induction xss) auto

lemma count_distinct: "distinct xs \<Longrightarrow> count_list xs a = of_bool (a \<in> set xs)"
  by (induction xs) auto

lemma lifo_reachable:
  assumes start: "lifo_start g ts" and ex: "executes lifo_step (g, ts) (g', ts')"
  shows "lifo_gi g'" and "t \<in> set ts' \<Longrightarrow> lifo_ti g' t"
    and "lifo_gtok (Node a) g' + sum_list (map (lifo_ltok (Node a)) ts') = of_bool (a \<in> nodes_of ts)"
proof -
  obtain nx ps where g: "g = MPMCLifoList_init nx" and ts: "ts = map lifo_thread_init ps"
    and d: "distinct (concat (map snd ps))" and ok: "list_all (list_all node_addr) (map snd ps)"
    and small: "sum_list (map (length \<circ> fst) ps) < 2 ^ 16"
    using start by (auto simp: lifo_start_def)
  define n where "n = sum_list (map (length \<circ> fst) ps)"
  have nodes: "nodes_of ts = set (concat (map snd ps))"
    by (simp add: nodes_of_def ts comp_def lifo_thread_init_def)
  have inv: "lifo_run_inv n g"
    using small by (simp add: lifo_run_inv_def n_def lifo_gi_def g MPMCLifoList_init_def stack_of_def
        updates_def version_def)
  have ti: "\<forall>t \<in> set ts. lifo_ti g t"
    using ok by (auto simp: ts lifo_ti_def lifo_thread_init_def list_all_iff)
  have cap: "lifo_gtok k g + sum_list (map (lifo_ltok k) ts) = lifo_cap (nodes_of ts) n k" for k
  proof (cases k)
    case (Node b)
    have "sum_list (map (lifo_ltok (Node b)) ts) = count_list (concat (map snd ps)) b"
      by (simp add: ts comp_def lifo_thread_init_def count_concat)
    then show ?thesis using count_distinct [OF d, of b]
      by (simp add: Node nodes g MPMCLifoList_init_def stack_of_def)
  next
    case Updates
    then show ?thesis
      by (simp add: ts comp_def lifo_thread_init_def n_def g MPMCLifoList_init_def updates_def)
  qed
  note all = ll.executes_protocol [OF ex inv ti cap]
  show "lifo_gi g'" using all by (simp add: lifo_run_inv_def)
  show "t \<in> set ts' \<Longrightarrow> lifo_ti g' t" using all by blast
  have "lifo_gtok (Node a) g' + sum_list (map (lifo_ltok (Node a)) ts')
      = lifo_cap (nodes_of ts) n (Node a)"
    using all by blast
  then show "lifo_gtok (Node a) g' + sum_list (map (lifo_ltok (Node a)) ts') = of_bool (a \<in> nodes_of ts)"
    by simp
qed

section \<open>Properties\<close>

text \<open>Claim C5.
  The list is a linearizable stack.  Whatever threads push and pop, in any interleaving of their
  loads, link writes and compare-and-swaps, with fewer than \<open>2 ^ 16\<close> operations: taken in the order
  of the accesses at which they take effect, the pushes, the pops with the node each returned, and
  the pops that found the list empty are the history of a stack, and following the links from the
  root visits exactly the nodes that are then in that stack, in order.\<close>

theorem lifo_list_linearizable:
  assumes "lifo_start g ts" and "executes lifo_step (g, ts) (g', ts')"
  shows "\<exists>xs. replay (history g') = Some xs \<and> wlist (lnext g') (root_ptr (mRoot g')) xs \<and> distinct xs"
  using lifo_reachable(1) [OF assms] wlist_distinct by (auto simp: lifo_gi_def)

text \<open>Two threads race: thread 1 reads the root, thread 0 pops both nodes and pushes the first one
  back; the root holds the pointer thread 1 read, with another version, and its
  compare-and-swap fails.\<close>

definition lifo_demo :: "lifo_mem \<times> lifo_thread list" where
  "lifo_demo = (MPMCLifoList_init (\<lambda>_. 0),
     map lifo_thread_init [([LPush 16, LPush 8, LPop, LPop, LPush 8], [8, 16]), ([LPop], [])])"

definition lifo_demo_sched :: "nat list" where
  "lifo_demo_sched = [0,0,0,0,0, 0,0,0,0,0] @ [1,1,1] @ [0,0,0,0,0, 0,0,0,0,0, 0,0,0,0,0]
     @ [1,1,1,1]"

lemma lifo_demo_start: "lifo_start (fst lifo_demo) (snd lifo_demo)"
  unfolding lifo_start_def lifo_demo_def
  by (intro exI [of _ "\<lambda>_. 0"]
      exI [of _ "[([LPush 16, LPush 8, LPop, LPop, LPush 8], [8, 16]), ([LPop], [])]"])
    (simp add: node_addr_def fits_def mpmc_layout_defs)

lemma lifo_demo_run:
  "\<exists>g' ts'. run_sched lifo_step lifo_demo_sched lifo_demo = Some (g', ts') \<and> length ts' = 2 \<and>
     history g' = [Popped 8, Pushed 8, Popped 16, Popped 8, Pushed 8, Pushed 16] \<and>
     held (ts' ! 0) = [16] \<and> held (ts' ! 1) = [8] \<and> lpc (ts' ! 1) = LIdle"
  by (simp add: lifo_demo_def lifo_demo_sched_def MPMCLifoList_init_def lifo_thread_init_def
      lifo_step_def AtomicCompareAndSwap_if read_root_def mpmc_layout_defs Let_def)

theorem lifo_list_linearizable_witness:
  "\<exists>g' ts' xs. executes lifo_step lifo_demo (g', ts') \<and>
     history g' = [Popped 8, Pushed 8, Popped 16, Popped 8, Pushed 8, Pushed 16] \<and>
     replay (history g') = Some xs \<and> wlist (lnext g') (root_ptr (mRoot g')) xs"
proof -
  obtain g' ts' where run: "run_sched lifo_step lifo_demo_sched lifo_demo = Some (g', ts')"
    and h: "history g' = [Popped 8, Pushed 8, Popped 16, Popped 8, Pushed 8, Pushed 16]"
    using lifo_demo_run by blast
  have ex: "executes lifo_step (fst lifo_demo, snd lifo_demo) (g', ts')"
    using run_sched_executes [OF run] by simp
  show ?thesis using lifo_list_linearizable [OF lifo_demo_start ex] ex h by auto
qed

text \<open>No node is lost or handed out twice: in every reachable state every node is in exactly one place,
  once: in the list, or with one thread (at hand, being pushed, or just popped).\<close>

theorem lifo_nodes_conserved:
  assumes "lifo_start g ts" and "executes lifo_step (g, ts) (g', ts')" and "a \<in> nodes_of ts"
  shows "(a \<in> set (stack_of g') \<and> (\<forall>t \<in> set ts'. \<not> owned t a)) \<or>
    (a \<notin> set (stack_of g') \<and> (\<exists>i < length ts'. owned (ts' ! i) a \<and>
      (\<forall>j < length ts'. owned (ts' ! j) a \<longrightarrow> j = i)))"
proof -
  have total: "count_list (stack_of g') a + sum_list (map (lifo_ltok (Node a)) ts') = 1"
    using lifo_reachable(3) [OF assms(1,2), of a] assms(3) by simp
  show ?thesis
  proof (cases "a \<in> set (stack_of g')")
    case True
    then have "count_list (stack_of g') a > 0" using count_list_set [of "stack_of g'" a] by simp
    then have "sum_list (map (lifo_ltok (Node a)) ts') = 0" using total by linarith
    then have "\<forall>t \<in> set ts'. lifo_ltok (Node a) t = 0" by simp
    then show ?thesis using True by (simp add: owned_def)
  next
    case False
    then have s: "sum_list (map (lifo_ltok (Node a)) ts') = 1"
      using total by (simp add: count_list_set [symmetric])
    have "\<not> (\<forall>t \<in> set ts'. lifo_ltok (Node a) t = 0)"
    proof
      assume "\<forall>t \<in> set ts'. lifo_ltok (Node a) t = 0"
      then have "sum_list (map (lifo_ltok (Node a)) ts') = 0"
        by (simp add: sum_list_eq_0_iff del: lifo_ltok.simps)
      with s show False by simp
    qed
    then obtain t where "t \<in> set ts'" "lifo_ltok (Node a) t \<noteq> 0" by blast
    then obtain i where i: "i < length ts'" "owned (ts' ! i) a"
      by (auto simp: in_set_conv_nth owned_def)
    have "j = i" if j: "j < length ts'" "owned (ts' ! j) a" for j
    proof (rule ccontr)
      assume "j \<noteq> i"
      then have "lifo_ltok (Node a) (ts' ! i) + lifo_ltok (Node a) (ts' ! j) \<le> 1"
        using sum_list_map_two_le [OF i(1) j(1), of "lifo_ltok (Node a)"] s by simp
      then show False using i(2) j(2) by (simp add: owned_def del: lifo_ltok.simps)
    qed
    then show ?thesis using False i by blast
  qed
qed

theorem lifo_nodes_conserved_witness:
  "\<exists>g' ts'. executes lifo_step lifo_demo (g', ts') \<and> owned (ts' ! 1) 8 \<and> \<not> owned (ts' ! 0) 8 \<and>
     8 \<notin> set (stack_of g')"
proof -
  obtain g' ts' where run: "run_sched lifo_step lifo_demo_sched lifo_demo = Some (g', ts')"
    and h: "held (ts' ! 1) = [8]" and len: "length ts' = 2"
    using lifo_demo_run by blast
  have ex: "executes lifo_step (fst lifo_demo, snd lifo_demo) (g', ts')"
    using run_sched_executes [OF run] by simp
  have o1: "owned (ts' ! 1) 8" using h by (simp add: owned_def)
  have "8 \<in> nodes_of (snd lifo_demo)"
    by (simp add: nodes_of_def lifo_demo_def lifo_thread_init_def)
  from lifo_nodes_conserved [OF lifo_demo_start ex this]
  have "8 \<notin> set (stack_of g') \<and> \<not> owned (ts' ! 0) 8"
  proof
    assume "8 \<in> set (stack_of g') \<and> (\<forall>t \<in> set ts'. \<not> owned t 8)"
    then show ?thesis using o1 len by simp
  next
    assume "8 \<notin> set (stack_of g') \<and> (\<exists>i < length ts'. owned (ts' ! i) 8 \<and>
      (\<forall>j < length ts'. owned (ts' ! j) 8 \<longrightarrow> j = i))"
    then obtain i where "8 \<notin> set (stack_of g')" and
      i: "\<And>j. j < length ts' \<Longrightarrow> owned (ts' ! j) 8 \<Longrightarrow> j = i" by blast
    moreover have "\<not> owned (ts' ! 0) 8" using i [of 0] i [of 1] o1 len by auto
    ultimately show ?thesis by simp
  qed
  then show ?thesis using ex o1 by auto
qed

text \<open>A list at rest.\<close>

definition lifo_at_rest :: "lifo_mem \<Rightarrow> addr list \<Rightarrow> bool" where
  "lifo_at_rest g xs \<longleftrightarrow> wlist (lnext g) (root_ptr (mRoot g)) xs \<and> list_all node_addr xs"

text \<open>\<^verbatim>\<open>Push\<close> and \<^verbatim>\<open>Pop\<close> without interference return within three accesses and are push and pop of the
  stack in memory, for any version, wrapping around included; \<^verbatim>\<open>Pop\<close> of an empty list returns
  \<^verbatim>\<open>nullptr\<close>.\<close>

theorem lifo_calls_implement_stack:
  assumes "lifo_at_rest g xs" and "node_addr node" and "node \<notin> set xs"
  shows "(\<exists>g'. run_to_end (Lifo_Push_step node) 3 (g, PushLoad) = Some (g', PushDone) \<and>
      lifo_at_rest g' (node # xs)) \<and>
    (\<exists>g'. run_to_end Lifo_Pop_step 3 (g, PopLoad) =
        Some (g', PopDone (case xs of [] \<Rightarrow> 0 | x # _ \<Rightarrow> x)) \<and> lifo_at_rest g' (drop 1 xs))"
proof
  have f: "fits MPMC_PTR_MASK node" using assms(2) by (simp add: node_addr_def)
  show "\<exists>g'. run_to_end (Lifo_Push_step node) 3 (g, PushLoad) = Some (g', PushDone) \<and>
      lifo_at_rest g' (node # xs)"
    using assms by (simp add: eval_nat_numeral AtomicCompareAndSwap_if Let_def lifo_at_rest_def
        root_word [OF f] node_addr_def)
  show "\<exists>g'. run_to_end Lifo_Pop_step 3 (g, PopLoad) =
        Some (g', PopDone (case xs of [] \<Rightarrow> 0 | x # _ \<Rightarrow> x)) \<and> lifo_at_rest g' (drop 1 xs)"
  proof (cases xs)
    case Nil
    then show ?thesis using assms(1)
      by (simp add: eval_nat_numeral lifo_at_rest_def read_root_def)
  next
    case (Cons x ys)
    have x: "root_ptr (mRoot g) = x" "x \<noteq> 0" and l: "wlist (lnext g) (lnext g x) ys"
      and ok: "list_all node_addr ys" using assms(1) Cons by (auto simp: lifo_at_rest_def)
    have fx: "fits MPMC_PTR_MASK (lnext g x)" using l ok by (cases ys) (auto simp: node_addr_def)
    show ?thesis using x l ok
      by (simp add: eval_nat_numeral AtomicCompareAndSwap_if Let_def lifo_at_rest_def read_root_def
          root_word [OF fx] Cons)
  qed
qed

theorem lifo_calls_implement_stack_witness:
  "\<exists>g g'. lifo_at_rest g [8] \<and>
     run_to_end (Lifo_Push_step 16) 3 (g, PushLoad) = Some (g', PushDone) \<and> lifo_at_rest g' [16, 8]"
proof -
  define g where "g = (MPMCLifoList_init (\<lambda>_. 0))\<lparr>mRoot := 0xffff000000000008\<rparr>"
  have r: "lifo_at_rest g [8]"
    by (simp add: g_def lifo_at_rest_def MPMCLifoList_init_def node_addr_def fits_def mpmc_layout_defs)
  have "node_addr 16" "(16 :: addr) \<notin> set [8]"
    by (simp_all add: node_addr_def fits_def mpmc_layout_defs)
  from lifo_calls_implement_stack [OF r this] r show ?thesis by blast
qed

end
