(* ===== verification/System_Sync.thy ===== *)
theory System_Sync
  imports Atomic_Ops
begin

text \<open>
  The blocking primitives over the operating system: \<^verbatim>\<open>Detail::SystemSemaphore\<close> on Linux (a POSIX
  semaphore) and on Windows and Darwin (a count in front of a kernel semaphore), \<^verbatim>\<open>SpinWait\<close>,
  \<^verbatim>\<open>Detail::SystemEvent\<close> over a mutex and a condition variable, and \<^verbatim>\<open>ThreadSleep\<close>.  A kernel
  semaphore is its value; a wait on one that is 0 is a thread that cannot move.
\<close>

section \<open>SystemSemaphore on Linux\<close>

definition Linux_Sem_init :: "u32 \<Rightarrow> nat" where
  "Linux_Sem_init initialCount = unat initialCount"

definition Linux_Sem_Post :: "nat \<Rightarrow> nat" where
  "Linux_Sem_Post sem = sem + 1"

text \<open>\<open>None\<close>: blocked.\<close>

definition Linux_Sem_Wait :: "nat \<Rightarrow> nat option" where
  "Linux_Sem_Wait sem = (if sem = 0 then None else Some (sem - 1))"

definition Linux_Sem_TryWait :: "nat \<Rightarrow> nat \<times> bool" where
  "Linux_Sem_TryWait sem = (if sem = 0 then (sem, False) else (sem - 1, True))"

text \<open>\<^verbatim>\<open>SpinWait\<close>: \<^verbatim>\<open>spinCount\<close> attempts, then \<^verbatim>\<open>Wait\<close>.\<close>

datatype linux_spin = LSpin u32 | LSpinDone

fun Linux_SpinWait_step :: "nat \<Rightarrow> linux_spin \<Rightarrow> (nat \<times> linux_spin) option" where
  "Linux_SpinWait_step sem (LSpin spinCount) =
     (if spinCount \<noteq> 0
      then (case Linux_Sem_TryWait sem of
              (sem', True) \<Rightarrow> Some (sem', LSpinDone)
            | (sem', False) \<Rightarrow> Some (sem', LSpin (spinCount - 1)))
      else map_option (\<lambda>sem'. (sem', LSpinDone)) (Linux_Sem_Wait sem))"
| "Linux_SpinWait_step sem LSpinDone = None"

section \<open>SystemSemaphore on Windows and Darwin\<close>

text \<open>The two files are the same code over \<^verbatim>\<open>ReleaseSemaphore\<close> and \<^verbatim>\<open>semaphore_signal\<close>.  \<open>sysPosted\<close> is
  the number of posts made so far.\<close>

record sys_sem =
  sysCount :: u32
  kernel :: nat
  sysPosted :: nat

definition SystemSemaphore_init :: "u32 \<Rightarrow> sys_sem" where
  "SystemSemaphore_init initialCount =
     \<lparr>sysCount = initialCount, kernel = unat initialCount, sysPosted = 0\<rparr>"

datatype sys_pc =
    SysIdle
  | SysPostEntry
  | SysPostSignal \<comment> \<open>the old count was negative\<close>
  | SysWaitEntry
  | SysWaitKernel \<comment> \<open>the old count was not positive\<close>
  | SysSpin u32 \<comment> \<open>\<^verbatim>\<open>while (spinCount--)\<close>\<close>
  | SysTry u32 \<comment> \<open>in \<^verbatim>\<open>TryWait\<close>, about to load\<close>
  | SysTest u32 u32 \<comment> \<open>in \<^verbatim>\<open>TryWait\<close>, with \<^verbatim>\<open>count\<close>\<close>

datatype sys_op = SysPost | SysWait | SysSpinWait u32

record sys_thread =
  syspc :: sys_pc
  sysscript :: "sys_op list"
  passed :: nat \<comment> \<open>waits that have returned\<close>

fun sys_begin :: "sys_op \<Rightarrow> sys_pc" where
  "sys_begin SysPost = SysPostEntry"
| "sys_begin SysWait = SysWaitEntry"
| "sys_begin (SysSpinWait n) = SysSpin n"

text \<open>\<open>pass\<close>: a wait returns.\<close>

definition pass :: "sys_thread \<Rightarrow> sys_thread" where
  "pass t = t\<lparr>syspc := SysIdle, passed := passed t + 1\<rparr>"

definition sys_step :: "sys_sem \<Rightarrow> sys_thread \<Rightarrow> (sys_sem \<times> sys_thread) option" where
  "sys_step g t = (case syspc t of
     SysIdle \<Rightarrow>
       (case sysscript t of
          [] \<Rightarrow> None
        | op # ops \<Rightarrow> Some (g, t\<lparr>syspc := sys_begin op, sysscript := ops\<rparr>))
   | SysPostEntry \<Rightarrow>
       (let (old, count') = AtomicIncrement (sysCount g)
        in Some (g\<lparr>sysCount := count', sysPosted := sysPosted g + 1\<rparr>,
                 t\<lparr>syspc := if sint old < 0 then SysPostSignal else SysIdle\<rparr>))
   | SysPostSignal \<Rightarrow> Some (g\<lparr>kernel := kernel g + 1\<rparr>, t\<lparr>syspc := SysIdle\<rparr>)
   | SysWaitEntry \<Rightarrow>
       (let (old, count') = AtomicDecrement (sysCount g); g' = g\<lparr>sysCount := count'\<rparr>
        in Some (g', if sint old \<le> 0 then t\<lparr>syspc := SysWaitKernel\<rparr> else pass t))
   | SysWaitKernel \<Rightarrow> (if kernel g = 0 then None else Some (g\<lparr>kernel := kernel g - 1\<rparr>, pass t))
   | SysSpin n \<Rightarrow> Some (g, t\<lparr>syspc := if n \<noteq> 0 then SysTry (n - 1) else SysWaitEntry\<rparr>)
   | SysTry n \<Rightarrow> Some (g, t\<lparr>syspc := SysTest n (sysCount g)\<rparr>)
   | SysTest n c \<Rightarrow>
       (if sint c \<le> 0 then Some (g, t\<lparr>syspc := SysSpin n\<rparr>)
        else (let (swapped, c', count') = AtomicCompareAndSwap (sysCount g) c (c - 1);
                  g' = g\<lparr>sysCount := count'\<rparr>
              in Some (g', if swapped then pass t else t\<lparr>syspc := SysTest n c'\<rparr>))))"

definition sys_thread_init :: "sys_op list \<Rightarrow> sys_thread" where
  "sys_thread_init ops = \<lparr>syspc = SysIdle, sysscript = ops, passed = 0\<rparr>"

section \<open>SystemEvent over a mutex and a condition variable\<close>

text \<open>
  The Linux and Darwin implementation.  \<open>holder\<close>: the mutex is held.  A thread in
  \<^verbatim>\<open>pthread_cond_wait\<close> sleeps until a broadcast, or wakes up by itself (POSIX allows that: \<open>spurious\<close>
  is its allowance), and then takes the mutex again.  Broadcasts are counted; a sleeper remembers
  the number it went to sleep at.
\<close>

record sysev_mem =
  mState :: bool
  locked :: bool
  broadcasts :: nat

datatype sysev_pc =
    SeIdle
  | SeSetEntry | SeSetLock | SeSetTest | SeSetBroadcast | SeSetUnlock
  | SeWaitEntry | SeWaitLock | SeWaitTest | SeWaitSleep nat | SeWaitUnlock | SeWaitReturned

datatype sysev_op = SeSet | SeReset | SeWait

record sysev_thread =
  sepc :: sysev_pc
  sescript :: "sysev_op list"
  spurious :: nat

fun SystemEvent_step :: "sysev_mem \<Rightarrow> sysev_pc \<Rightarrow> (sysev_mem \<times> sysev_pc) option" where
  "SystemEvent_step g SeSetEntry = Some (g, if mState g then SeIdle else SeSetLock)"
| "SystemEvent_step g SeSetLock = (if locked g then None else Some (g\<lparr>locked := True\<rparr>, SeSetTest))"
| "SystemEvent_step g SeSetTest =
     (if mState g then Some (g, SeSetUnlock) else Some (g\<lparr>mState := True\<rparr>, SeSetBroadcast))"
| "SystemEvent_step g SeSetBroadcast = Some (g\<lparr>broadcasts := broadcasts g + 1\<rparr>, SeSetUnlock)"
| "SystemEvent_step g SeSetUnlock = Some (g\<lparr>locked := False\<rparr>, SeIdle)"
| "SystemEvent_step g SeWaitEntry = Some (g, if mState g then SeWaitReturned else SeWaitLock)"
| "SystemEvent_step g SeWaitLock = (if locked g then None else Some (g\<lparr>locked := True\<rparr>, SeWaitTest))"
| "SystemEvent_step g SeWaitTest =
     (if mState g then Some (g, SeWaitUnlock)
      else Some (g\<lparr>locked := False\<rparr>, SeWaitSleep (broadcasts g)))"
| "SystemEvent_step g (SeWaitSleep b) = (if broadcasts g > b then Some (g, SeWaitLock) else None)"
| "SystemEvent_step g SeWaitUnlock = Some (g\<lparr>locked := False\<rparr>, SeWaitReturned)"
| "SystemEvent_step g SeWaitReturned = Some (g, SeIdle)"
| "SystemEvent_step g SeIdle = None"

definition sysev_step :: "sysev_mem \<Rightarrow> sysev_thread \<Rightarrow> (sysev_mem \<times> sysev_thread) option" where
  "sysev_step g t = (case sepc t of
     SeIdle \<Rightarrow>
       (case sescript t of
          [] \<Rightarrow> None
        | SeSet # ops \<Rightarrow> Some (g, t\<lparr>sepc := SeSetEntry, sescript := ops\<rparr>)
        | SeWait # ops \<Rightarrow> Some (g, t\<lparr>sepc := SeWaitEntry, sescript := ops\<rparr>)
        | SeReset # ops \<Rightarrow> Some (g\<lparr>mState := False\<rparr>, t\<lparr>sescript := ops\<rparr>))
   | SeWaitSleep b \<Rightarrow>
       (if broadcasts g > b then Some (g, t\<lparr>sepc := SeWaitLock\<rparr>)
        else if spurious t > 0 then Some (g, t\<lparr>sepc := SeWaitLock, spurious := spurious t - 1\<rparr>)
        else None)
   | pc \<Rightarrow> map_option (\<lambda>(g', pc'). (g', t\<lparr>sepc := pc'\<rparr>)) (SystemEvent_step g pc))"

section \<open>ThreadSleep\<close>

text \<open>The seconds and nanoseconds handed to \<^verbatim>\<open>nanosleep\<close>, for a duration of \<open>ns\<close> nanoseconds; \<open>None\<close>
  when it returns without sleeping.  On Windows: the milliseconds handed to \<^verbatim>\<open>Sleep\<close>, a 32-bit
  count.\<close>

definition ThreadSleep_linux :: "64 word \<Rightarrow> (nat \<times> nat) option" where
  "ThreadSleep_linux ns =
     (if sint ns < 0 then None
      else let totalNs = unat ns; seconds = totalNs div 1000000000
           in Some (seconds, totalNs - seconds * 1000000000))"

definition ThreadSleep_win32 :: "64 word \<Rightarrow> u32 option" where
  "ThreadSleep_win32 ms = (if sint ms < 0 then None else Some (ucast ms))"

section \<open>Invariants of the semaphore over a kernel semaphore\<close>

text \<open>
  \<open>SysUnits\<close>: what the semaphore has to give: the positive part of the count, the value of the
  kernel semaphore, the posts to come or on their way to it, and the waits passed.  \<open>SysDebt\<close>: what
  it owes: the negative part of the count, the kernel semaphore and the posts on their way; a
  waiting thread that is not blocked counts for what it may still claim.  \<open>SysPosts\<close>, \<open>SysWaits\<close>:
  the calls.
\<close>

datatype sys_token = SysUnits | SysDebt | SysPosts | SysWaits

fun sys_gtok :: "sys_token \<Rightarrow> sys_sem \<Rightarrow> nat" where
  "sys_gtok SysUnits g = nat (sint (sysCount g)) + kernel g"
| "sys_gtok SysDebt g = nat (- sint (sysCount g)) + kernel g"
| "sys_gtok SysPosts g = sysPosted g"
| "sys_gtok SysWaits g = 0"

fun sys_op_tok :: "sys_token \<Rightarrow> sys_op \<Rightarrow> nat" where
  "sys_op_tok SysUnits SysPost = 1"
| "sys_op_tok SysPosts SysPost = 1"
| "sys_op_tok SysUnits _ = 0"
| "sys_op_tok SysPosts _ = 0"
| "sys_op_tok SysDebt SysPost = 0"
| "sys_op_tok SysWaits SysPost = 0"
| "sys_op_tok _ _ = 1"

fun sys_pc_tok :: "sys_token \<Rightarrow> sys_pc \<Rightarrow> nat" where
  "sys_pc_tok k SysIdle = 0"
| "sys_pc_tok k SysPostEntry = of_bool (k = SysUnits \<or> k = SysPosts)"
| "sys_pc_tok k SysPostSignal = of_bool (k = SysUnits \<or> k = SysDebt)"
| "sys_pc_tok k SysWaitKernel = of_bool (k = SysWaits)"
| "sys_pc_tok k _ = of_bool (k = SysDebt \<or> k = SysWaits)"

definition sys_ltok :: "sys_token \<Rightarrow> sys_thread \<Rightarrow> nat" where
  "sys_ltok k t = sys_pc_tok k (syspc t) + sum_list (map (sys_op_tok k) (sysscript t))
     + (if k = SysPosts then 0 else passed t)"

fun sys_cap :: "nat \<Rightarrow> nat \<Rightarrow> nat \<Rightarrow> sys_token \<Rightarrow> nat" where
  "sys_cap initial p w SysUnits = 2 * initial + p"
| "sys_cap initial p w SysDebt = initial + w"
| "sys_cap initial p w SysPosts = p"
| "sys_cap initial p w SysWaits = w"

lemma all_sys_token: "(\<forall>k. P k) \<longleftrightarrow> P SysUnits \<and> P SysDebt \<and> P SysPosts \<and> P SysWaits"
  by (metis sys_token.exhaust)

lemma sys_step_tokens:
  assumes st: "sys_step g t = Some (g', t')"
    and le: "\<And>k. sys_gtok k g + sys_ltok k t \<le> sys_cap initial p w k"
    and small: "2 * initial + p < 2 ^ 31 \<and> initial + w < 2 ^ 31"
  shows "\<forall>k. sys_gtok k g' + sys_ltok k t' = sys_gtok k g + sys_ltok k t"
proof -
  have u: "nat (sint (sysCount g)) + sys_pc_tok SysUnits (syspc t) < 2 ^ 31"
    using le [of SysUnits] small by (simp add: sys_ltok_def)
  have d: "nat (- sint (sysCount g)) + sys_pc_tok SysDebt (syspc t) < 2 ^ 31"
    using le [of SysDebt] small by (simp add: sys_ltok_def)
  have dec: "0 < sint (sysCount g) \<Longrightarrow> sint (sysCount g - 1) = sint (sysCount g) - 1"
    by (rule sint_decrement) simp
  show ?thesis
  proof (cases "syspc t")
    case SysIdle
    then obtain op ops where s: "sysscript t = op # ops" "g' = g"
      "t' = t\<lparr>syspc := sys_begin op, sysscript := ops\<rparr>"
      using st by (auto simp: sys_step_def split: list.splits)
    then show ?thesis using SysIdle by (cases op) (simp_all add: all_sys_token sys_ltok_def)
  next
    case SysPostEntry
    have "sint (sysCount g + 1) = sint (sysCount g) + 1"
      by (rule sint_increment) (use u SysPostEntry in simp)
    then show ?thesis using st SysPostEntry
      by (auto simp: sys_step_def linux_defs Let_def all_sys_token sys_ltok_def)
  next
    case SysWaitEntry
    have "sint (sysCount g - 1) = sint (sysCount g) - 1"
      by (rule sint_decrement) (use d SysWaitEntry in simp)
    then show ?thesis using st SysWaitEntry
      by (auto simp: sys_step_def linux_defs Let_def all_sys_token sys_ltok_def pass_def split: if_splits)
  next
    case (SysTest n c)
    then show ?thesis using st dec
      by (auto simp: sys_step_def AtomicCompareAndSwap_if Let_def all_sys_token sys_ltok_def pass_def
          split: if_splits)
  qed (use st in \<open>auto simp: sys_step_def all_sys_token sys_ltok_def pass_def split: if_splits\<close>)
qed

definition sys_bounded :: "nat \<Rightarrow> nat \<Rightarrow> nat \<Rightarrow> sys_sem \<Rightarrow> bool" where
  "sys_bounded initial p w g \<longleftrightarrow> 2 * initial + p < 2 ^ 31 \<and> initial + w < 2 ^ 31"

interpretation sy: token_systems sys_step "sys_bounded initial p w" "\<lambda>_. True" sys_gtok sys_ltok
  "sys_cap initial p w" for initial p w
  by unfold_locales (use sys_step_tokens in \<open>unfold sys_bounded_def, blast\<close>)

definition sys_calls :: "sys_token \<Rightarrow> sys_op list list \<Rightarrow> nat" where
  "sys_calls k scripts = sum_list (map (\<lambda>ops. sum_list (map (sys_op_tok k) ops)) scripts)"

definition sys_start :: "nat \<Rightarrow> sys_sem \<Rightarrow> sys_thread list \<Rightarrow> bool" where
  "sys_start initial g ts \<longleftrightarrow> (\<exists>scripts.
     g = SystemSemaphore_init (of_nat initial) \<and> ts = map sys_thread_init scripts \<and>
     2 * initial + sys_calls SysPosts scripts < 2 ^ 31 \<and>
     initial + sys_calls SysWaits scripts < 2 ^ 31)"

lemma sys_op_tok_same:
  "sys_op_tok SysUnits = sys_op_tok SysPosts" "sys_op_tok SysDebt = sys_op_tok SysWaits"
  by (rule ext, case_tac x; simp)+

lemma sys_reachable:
  assumes start: "sys_start initial g ts" and ex: "executes sys_step (g, ts) (g', ts')"
  shows "\<exists>p w. \<forall>k. sys_gtok k g' + sum_list (map (sys_ltok k) ts') = sys_cap initial p w k"
proof -
  obtain scripts where g: "g = SystemSemaphore_init (of_nat initial)"
    and ts: "ts = map sys_thread_init scripts"
    and small: "2 * initial + sys_calls SysPosts scripts < 2 ^ 31"
      "initial + sys_calls SysWaits scripts < 2 ^ 31"
    using start by (auto simp: sys_start_def)
  have lt: "sum_list (map (sys_ltok k) ts) = sys_calls k scripts" for k
    by (cases k) (simp_all add: ts sys_calls_def comp_def sys_ltok_def sys_thread_init_def)
  have same: "sys_calls SysUnits scripts = sys_calls SysPosts scripts"
    "sys_calls SysDebt scripts = sys_calls SysWaits scripts"
    by (simp_all add: sys_calls_def sys_op_tok_same)
  have s: "sint (of_nat initial :: u32) = int initial" "unat (of_nat initial :: u32) = initial"
    using small by (simp_all add: signed_of_nat signed_take_bit_int_eq_self unat_of_nat)
  have "sys_gtok k g + sum_list (map (sys_ltok k) ts)
      = sys_cap initial (sys_calls SysPosts scripts) (sys_calls SysWaits scripts) k" for k
    unfolding lt by (cases k) (simp_all add: g SystemSemaphore_init_def s same)
  from sy.executes_all_tokens [OF ex _ _ this] small show ?thesis
    unfolding sys_bounded_def by blast
qed

section \<open>Properties of the semaphore\<close>

text \<open>The semaphore of Windows and Darwin, for any interleaving of \<^verbatim>\<open>Post\<close>, \<^verbatim>\<open>Wait\<close> and \<^verbatim>\<open>SpinWait\<close> calls
  too few to overflow its count: the waits that have returned, with what is left in the count and
  in the kernel semaphore, are at most the posts plus twice the initial count.  Created with 0, as
  everywhere in the library, it never lets more waits pass than there were posts.\<close>

theorem system_semaphore_bound:
  assumes "sys_start initial g ts" and "executes sys_step (g, ts) (g', ts')"
  shows "sum_list (map passed ts') + nat (sint (sysCount g')) + kernel g'
    \<le> sysPosted g' + 2 * initial"
proof -
  obtain p w where tok: "\<And>k. sys_gtok k g' + sum_list (map (sys_ltok k) ts') = sys_cap initial p w k"
    using sys_reachable [OF assms] by blast
  have "sys_ltok SysPosts t + passed t \<le> sys_ltok SysUnits t" for t
    by (cases "syspc t") (simp_all add: sys_ltok_def sys_op_tok_same)
  then have "sum_list (map (sys_ltok SysPosts) ts') + sum_list (map passed ts')
      \<le> sum_list (map (sys_ltok SysUnits) ts')"
    by (simp flip: sum_list_addf add: sum_list_mono)
  then show ?thesis using tok [of SysUnits] tok [of SysPosts] by simp
qed

definition sys_demo :: "sys_sem \<times> sys_thread list" where
  "sys_demo = (SystemSemaphore_init (of_nat 0), map sys_thread_init [[SysSpinWait 1], [SysPost]])"

lemma sys_demo_start: "sys_start 0 (fst sys_demo) (snd sys_demo)"
  unfolding sys_start_def sys_demo_def
  by (intro exI [of _ "[[SysSpinWait 1], [SysPost]]"]) (simp add: sys_calls_def)

lemma sys_demo_run:
  "\<exists>g' ts'. run_sched sys_step ([0,0,0,0,0,0] @ [1,1,1] @ [0]) sys_demo = Some (g', ts') \<and>
     sum_list (map passed ts') = 1 \<and> sysPosted g' = 1"
  by (simp add: sys_demo_def SystemSemaphore_init_def sys_thread_init_def sys_step_def linux_defs
      Let_def pass_def)

theorem system_semaphore_bound_witness:
  "\<exists>g' ts'. executes sys_step sys_demo (g', ts') \<and> sum_list (map passed ts') = 1 \<and>
     sysPosted g' = 1 \<and> kernel g' = 0"
proof -
  obtain g' ts' where run: "run_sched sys_step ([0,0,0,0,0,0] @ [1,1,1] @ [0]) sys_demo = Some (g', ts')"
    and r: "sum_list (map passed ts') = 1" "sysPosted g' = 1"
    using sys_demo_run by blast
  have ex: "executes sys_step (fst sys_demo, snd sys_demo) (g', ts')"
    using run_sched_executes [OF run] by simp
  show ?thesis using system_semaphore_bound [OF sys_demo_start ex] r ex by auto
qed

lemma sys_stuck:
  "sys_step g t = None \<Longrightarrow>
     (syspc t = SysIdle \<and> sysscript t = []) \<or> (syspc t = SysWaitKernel \<and> kernel g = 0)"
  by (cases "syspc t")
    (auto simp: sys_step_def linux_defs Let_def split: list.splits if_splits)

text \<open>Claim C31.
  No post is lost: when no thread can move and one of them is blocked in \<^verbatim>\<open>Wait\<close>, every post (and
  the initial count, twice) has let a wait pass.\<close>

theorem system_semaphore_no_lost_post:
  assumes "sys_start initial g ts" and "executes sys_step (g, ts) (g', ts')"
    and stuck: "\<forall>t \<in> set ts'. sys_step g' t = None"
    and blocked: "t \<in> set ts'" "syspc t = SysWaitKernel"
  shows "sum_list (map passed ts') = sysPosted g' + 2 * initial"
proof -
  obtain p w where tok: "\<And>k. sys_gtok k g' + sum_list (map (sys_ltok k) ts') = sys_cap initial p w k"
    using sys_reachable [OF assms(1,2)] by blast
  have pc: "(syspc t = SysIdle \<and> sysscript t = []) \<or> (syspc t = SysWaitKernel \<and> kernel g' = 0)"
    if "t \<in> set ts'" for t
    by (rule sys_stuck) (use stuck that in blast)
  have k0: "kernel g' = 0" using pc [OF blocked(1)] blocked(2) by simp
  have pc2: "syspc t = SysIdle \<or> syspc t = SysWaitKernel" if "t \<in> set ts'" for t
    using pc [OF that] by blast
  define f where "f = (\<lambda>t. sum_list (map (sys_op_tok SysPosts) (sysscript t)))"
  define h where "h = (\<lambda>t. sum_list (map (sys_op_tok SysWaits) (sysscript t)))"
  have units: "map (sys_ltok SysUnits) ts' = map (\<lambda>t. passed t + sys_ltok SysPosts t) ts'"
    by (intro map_cong) (auto simp: sys_ltok_def sys_op_tok_same dest!: pc2)
  have waits: "map (sys_ltok SysWaits) ts'
      = map (\<lambda>t. sys_ltok SysDebt t + of_bool (syspc t = SysWaitKernel)) ts'"
    by (intro map_cong) (auto simp: sys_ltok_def sys_op_tok_same dest!: pc2)
  have "(1 :: nat) \<le> sum_list (map (\<lambda>t. of_bool (syspc t = SysWaitKernel)) ts')"
    using blocked by (metis (mono_tags, lifting) in_set_conv_nth of_bool_eq(2) sum_list_map_nth_le)
  then have "sum_list (map (sys_ltok SysDebt) ts') < sum_list (map (sys_ltok SysWaits) ts')"
    unfolding waits sum_list_addf by simp
  then have "nat (- sint (sysCount g')) > 0"
    using tok [of SysDebt] tok [of SysWaits] k0 by simp
  then have "nat (sint (sysCount g')) = 0" by simp
  then show ?thesis
    using tok [of SysUnits] tok [of SysPosts] k0 unfolding units sum_list_addf by simp
qed

definition sys_block_demo :: "sys_sem \<times> sys_thread list" where
  "sys_block_demo =
     (SystemSemaphore_init (of_nat 0), map sys_thread_init [[SysWait], [SysWait], [SysPost]])"

lemma sys_block_demo_start: "sys_start 0 (fst sys_block_demo) (snd sys_block_demo)"
  unfolding sys_start_def sys_block_demo_def
  by (intro exI [of _ "[[SysWait], [SysWait], [SysPost]]"]) (simp add: sys_calls_def)

theorem system_semaphore_no_lost_post_witness:
  "\<exists>g' ts'. executes sys_step sys_block_demo (g', ts') \<and> map syspc ts' = [SysIdle, SysWaitKernel, SysIdle] \<and>
     map (sys_step g') ts' = [None, None, None] \<and> sum_list (map passed ts') = 1"
proof -
  obtain g' ts' where run: "run_sched sys_step ([0,0,1,1] @ [2,2,2] @ [0]) sys_block_demo = Some (g', ts')"
    and r: "map syspc ts' = [SysIdle, SysWaitKernel, SysIdle]"
      "map (sys_step g') ts' = [None, None, None]" "sysPosted g' = 1"
    by (simp add: sys_block_demo_def SystemSemaphore_init_def sys_thread_init_def sys_step_def
        linux_defs Let_def pass_def)
  have ex: "executes sys_step (fst sys_block_demo, snd sys_block_demo) (g', ts')"
    using run_sched_executes [OF run] by simp
  obtain a b c where abc: "ts' = [a, b, c]" using r(1) by (auto simp: map_eq_Cons_conv)
  have "sum_list (map passed ts') = sysPosted g' + 2 * 0"
    by (rule system_semaphore_no_lost_post [OF sys_block_demo_start ex, of b])
      (use r abc in auto)
  then have "sum_list (map passed ts') = 1" using r(3) by simp
  then show ?thesis
    by (intro exI [of _ g'] exI [of _ ts'] conjI) (use r ex in simp_all)
qed

text \<open>The initial count is given out twice: a semaphore of 1 lets two waits pass and nobody has posted.
  The count and the kernel semaphore both start at \<^verbatim>\<open>initialCount\<close>.\<close>

theorem system_semaphore_counts_twice:
  "\<exists>g ts. executes sys_step
       (SystemSemaphore_init 1, [sys_thread_init [SysWait], sys_thread_init [SysWait]]) (g, ts) \<and>
     map passed ts = [1, 1] \<and> sysPosted g = 0"
proof -
  obtain g ts where run: "run_sched sys_step [0,0,1,1,1]
       (SystemSemaphore_init 1, [sys_thread_init [SysWait], sys_thread_init [SysWait]]) = Some (g, ts)"
    and r: "map passed ts = [1, 1]" "sysPosted g = 0"
    by (simp add: SystemSemaphore_init_def sys_thread_init_def sys_step_def linux_defs Let_def pass_def)
  show ?thesis
    by (intro exI [of _ g] exI [of _ ts] conjI) (use run_sched_executes [OF run] r in simp_all)
qed

section \<open>Invariants of the system event\<close>

text \<open>The mutex is free or held by one thread.  Auxiliary state: whether a \<^verbatim>\<open>Set\<close> is pending, between its
  write of \<^verbatim>\<open>mState\<close> and its broadcast; that thread has the mutex.  A thread that sleeps since the last
  broadcast does so while the event is not set or a \<^verbatim>\<open>Set\<close> is pending.\<close>

datatype sysev_token = EvMutex | EvPending

fun sysev_gtok :: "sysev_token \<Rightarrow> bool \<Rightarrow> sysev_mem \<Rightarrow> nat" where
  "sysev_gtok EvMutex pending g = of_bool (locked g \<longrightarrow> pending)"
| "sysev_gtok EvPending pending g = of_bool (\<not> pending)"

fun sysev_pc_tok :: "sysev_token \<Rightarrow> sysev_pc \<Rightarrow> nat" where
  "sysev_pc_tok EvMutex SeSetTest = 1"
| "sysev_pc_tok EvMutex SeSetUnlock = 1"
| "sysev_pc_tok EvMutex SeWaitTest = 1"
| "sysev_pc_tok EvMutex SeWaitUnlock = 1"
| "sysev_pc_tok EvMutex _ = 0"
| "sysev_pc_tok EvPending SeSetBroadcast = 1"
| "sysev_pc_tok EvPending _ = 0"

definition sysev_ltok :: "sysev_token \<Rightarrow> unit \<times> sysev_thread \<Rightarrow> nat" where
  "sysev_ltok k p = sysev_pc_tok k (sepc (snd p))"

definition sysev_gi :: "bool \<Rightarrow> sysev_mem \<Rightarrow> bool" where
  "sysev_gi pending g \<longleftrightarrow> (pending \<longrightarrow> locked g)"

definition sysev_ti :: "bool \<Rightarrow> sysev_mem \<Rightarrow> unit \<times> sysev_thread \<Rightarrow> bool" where
  "sysev_ti pending g p \<longleftrightarrow> (\<forall>b. sepc (snd p) = SeWaitSleep b \<longrightarrow>
     b \<le> broadcasts g \<and> (b = broadcasts g \<and> mState g \<longrightarrow> pending))"

text \<open>What a step of a call does to the pending \<^verbatim>\<open>Set\<close>.\<close>

fun sysev_pending :: "sysev_mem \<Rightarrow> sysev_pc \<Rightarrow> bool \<Rightarrow> bool" where
  "sysev_pending g SeSetTest pending = (\<not> mState g)"
| "sysev_pending g SeSetBroadcast pending = False"
| "sysev_pending g _ pending = pending"

lemma all_sysev_token: "(\<forall>k. P k) \<longleftrightarrow> P EvMutex \<and> P EvPending"
  by (metis sysev_token.exhaust)

lemma SystemEvent_step_tokens:
  assumes "SystemEvent_step g pc = Some (g', pc')" and "sysev_gi a g"
    and "\<And>k. sysev_gtok k a g + sysev_pc_tok k pc \<le> 1"
  defines "a' \<equiv> sysev_pending g pc a"
  shows "sysev_gi a' g' \<and> (\<forall>k. sysev_gtok k a' g' + sysev_pc_tok k pc' = sysev_gtok k a g + sysev_pc_tok k pc)"
  using assms(1,2) assms(3) [of EvMutex] assms(3) [of EvPending] unfolding a'_def
  by (cases pc) (auto simp: all_sysev_token sysev_gi_def split: if_splits)

lemma SystemEvent_step_sleepers:
  assumes "SystemEvent_step g pc = Some (g', pc')" and "sysev_gi a g"
    and "\<And>k. sysev_gtok k a g + sysev_pc_tok k pc \<le> 1"
  shows "pc' = SeWaitSleep b \<Longrightarrow> pc = SeWaitTest \<and> \<not> mState g \<and> b = broadcasts g \<and> g' = g\<lparr>locked := False\<rparr>"
    and "sysev_ti a g p \<Longrightarrow> sysev_ti (sysev_pending g pc a) g' p"
  using assms(1,2) assms(3) [of EvMutex] assms(3) [of EvPending]
  by (cases pc; auto simp: sysev_ti_def sysev_gi_def split: if_splits; fastforce)+

lemma sysev_moves:
  assumes gi: "sysev_gi a g" and ti: "sysev_ti a g (u, t)"
    and le: "\<And>k. sysev_gtok k a g + sysev_ltok k (u, t) \<le> 1"
    and st: "sysev_step g t = Some (g', t')"
  shows "\<exists>a'. sysev_gi a' g' \<and> sysev_ti a' g' (u, t') \<and>
      (\<forall>k. sysev_gtok k a' g' + sysev_ltok k (u, t') = sysev_gtok k a g + sysev_ltok k (u, t)) \<and>
      (\<forall>p. sysev_ti a g p \<longrightarrow> sysev_ti a' g' p)"
proof (cases "sepc t = SeIdle \<or> (\<exists>b. sepc t = SeWaitSleep b)")
  case True
  then have "sysev_gi a g' \<and> sysev_ti a g' (u, t') \<and>
      (\<forall>k. sysev_gtok k a g' + sysev_ltok k (u, t') = sysev_gtok k a g + sysev_ltok k (u, t)) \<and>
      (\<forall>p. sysev_ti a g p \<longrightarrow> sysev_ti a g' p)"
    using st gi by (elim disjE exE)
      (auto simp: sysev_step_def sysev_gi_def sysev_ti_def sysev_ltok_def all_sysev_token
        split: list.splits sysev_op.splits if_splits)
  then show ?thesis by blast
next
  case False
  then obtain pc' where s: "SystemEvent_step g (sepc t) = Some (g', pc')" and t': "t' = t\<lparr>sepc := pc'\<rparr>"
    using st by (cases "sepc t") (auto simp: sysev_step_def)
  have le': "sysev_gtok k a g + sysev_pc_tok k (sepc t) \<le> 1" for k
    using le [of k] by (simp add: sysev_ltok_def)
  note tokens = SystemEvent_step_tokens [OF s gi le'] and sleepers = SystemEvent_step_sleepers [OF s gi le']
  have "sysev_ti (sysev_pending g (sepc t) a) g' (u, t')"
    using sleepers(1) by (auto simp: sysev_ti_def t')
  then show ?thesis using tokens sleepers(2)
    by (intro exI [of _ "sysev_pending g (sepc t) a"]) (simp add: sysev_ltok_def t')
qed

interpretation se: ghost_protocol sysev_step sysev_gi sysev_ti sysev_gtok sysev_ltok "\<lambda>_. 1"
proof unfold_locales
  fix a g and u :: unit and t g' t'
  assume "sysev_gi a g" "sysev_ti a g (u, t)" "\<And>k. sysev_gtok k a g + sysev_ltok k (u, t) \<le> 1"
    "sysev_step g t = Some (g', t')"
  from sysev_moves [OF this] obtain a' where a': "sysev_gi a' g'" "sysev_ti a' g' (u, t')"
    "\<forall>k. sysev_gtok k a' g' + sysev_ltok k (u, t') = sysev_gtok k a g + sysev_ltok k (u, t)"
    "\<forall>p. sysev_ti a g p \<longrightarrow> sysev_ti a' g' p" by blast
  show "\<exists>a' u'. sysev_gi a' g' \<and> sysev_ti a' g' (u', t') \<and>
      (\<forall>k. sysev_gtok k a' g' + sysev_ltok k (u', t') = sysev_gtok k a g + sysev_ltok k (u, t)) \<and>
      (\<forall>p. sysev_ti a g p \<longrightarrow> (\<forall>k. sysev_gtok k a g + sysev_ltok k (u, t) + sysev_ltok k p \<le> 1) \<longrightarrow>
           sysev_ti a' g' p)"
    by (intro exI [of _ a'] exI [of _ u]) (use a' in blast)
qed

definition SystemEvent_init :: "bool \<Rightarrow> sysev_mem" where
  "SystemEvent_init initialState = \<lparr>mState = initialState, locked = False, broadcasts = 0\<rparr>"

definition sysev_thread_init :: "sysev_op list \<times> nat \<Rightarrow> sysev_thread" where
  "sysev_thread_init p = \<lparr>sepc = SeIdle, sescript = fst p, spurious = snd p\<rparr>"

lemma sysev_reachable:
  assumes "executes sysev_step (SystemEvent_init b, map sysev_thread_init ps) (g, ts)"
  shows "\<exists>a. sysev_gi a g \<and> (\<forall>t \<in> set ts. sysev_ti a g ((), t)) \<and>
      (\<forall>k. sysev_gtok k a g + sum_list (map (\<lambda>t. sysev_pc_tok k (sepc t)) ts) = 1)"
proof -
  define qs where "qs = map (\<lambda>p. ((), sysev_thread_init p)) ps"
  have z: "sysev_ltok k ((), sysev_thread_init p) = 0" for k p
    by (cases k) (simp_all add: sysev_thread_init_def sysev_ltok_def)
  have "sysev_gtok k False (SystemEvent_init b) + sum_list (map (sysev_ltok k) qs) = 1" for k
    by (cases k) (simp_all add: SystemEvent_init_def qs_def comp_def z)
  then have start: "se.explained False (SystemEvent_init b) qs"
    unfolding se.explained_def by (auto simp: sysev_gi_def sysev_ti_def sysev_thread_init_def qs_def)
  have "executes sysev_step (SystemEvent_init b, map snd qs) (g, ts)" using assms by (simp add: qs_def comp_def)
  from se.executes_explained [OF this start] obtain a ps' where ex: "se.explained a g ps'" and ts: "ts = map snd ps'"
    by blast
  have "sysev_ltok k = (\<lambda>p. sysev_pc_tok k (sepc (snd p)))" for k by (rule ext) (simp add: sysev_ltok_def)
  then show ?thesis using ex [unfolded se.explained_def]
    by (intro exI [of _ a]) (auto simp: ts comp_def sysev_ti_def)
qed

text \<open>Nobody is between the write of \<^verbatim>\<open>mState\<close> and the broadcast.\<close>

lemma sysev_not_pending:
  assumes "sysev_gtok EvPending a g + sum_list (map (\<lambda>t. sysev_pc_tok EvPending (sepc t)) ts) = 1"
    and "\<forall>u \<in> set ts. sepc u \<noteq> SeSetBroadcast"
  shows "\<not> a"
proof -
  have "sysev_pc_tok EvPending (sepc u) = 0" if "u \<in> set ts" for u
    using assms(2) that by (cases "sepc u") auto
  then have "sum_list (map (\<lambda>t. sysev_pc_tok EvPending (sepc t)) ts) = 0" by (simp add: sum_list_eq_0_iff)
  then have "sysev_gtok EvPending a g = 1" using assms(1) by linarith
  then show ?thesis by (cases a) simp_all
qed

lemma sysev_stuck:
  "sysev_step g t = None \<Longrightarrow> (sepc t = SeIdle \<and> sescript t = []) \<or>
     (sepc t \<in> {SeSetLock, SeWaitLock} \<and> locked g) \<or> (\<exists>b. sepc t = SeWaitSleep b \<and> broadcasts g \<le> b)"
  by (cases "sepc t") (auto simp: sysev_step_def split: list.splits sysev_op.splits if_splits)

text \<open>Claim C32.
  A wait on a system event that is set returns.  Threads run any scripts of \<^verbatim>\<open>Set\<close>, \<^verbatim>\<open>Reset\<close> and
  \<^verbatim>\<open>Wait\<close> on an event that starts set or unset, with any spurious wake-ups.  In every reachable state a
  thread that sleeps on the event can wake up if the event is set and no \<^verbatim>\<open>Set\<close> is still to broadcast;
  and when no thread can move, each has finished its script, or sleeps and the event is not set: nobody
  is blocked at the mutex, and if the event is set everybody has returned.\<close>

theorem system_event_no_hang:
  assumes "executes sysev_step (SystemEvent_init b, map sysev_thread_init ps) (g', ts')"
  shows "(\<forall>t \<in> set ts'. (\<exists>n. sepc t = SeWaitSleep n) \<and> mState g' \<and> (\<forall>u \<in> set ts'. sepc u \<noteq> SeSetBroadcast)
        \<longrightarrow> sysev_step g' t \<noteq> None) \<and>
    ((\<forall>t \<in> set ts'. sysev_step g' t = None) \<longrightarrow>
      (\<forall>t \<in> set ts'. sepc t = SeIdle \<and> sescript t = [] \<or> (\<exists>n. sepc t = SeWaitSleep n) \<and> \<not> mState g'))"
proof -
  obtain a where gi: "sysev_gi a g'" and ti: "\<And>t. t \<in> set ts' \<Longrightarrow> sysev_ti a g' ((), t)"
    and tok: "\<And>k. sysev_gtok k a g' + sum_list (map (\<lambda>t. sysev_pc_tok k (sepc t)) ts') = 1"
    using sysev_reachable [OF assms] by blast
  have wakes: "sysev_step g' t \<noteq> None"
    if "t \<in> set ts'" "sepc t = SeWaitSleep n" "mState g'" "\<forall>u \<in> set ts'. sepc u \<noteq> SeSetBroadcast" for t n
    using ti [OF that(1)] that(2,3) sysev_not_pending [OF tok that(4)]
    by (auto simp: sysev_ti_def sysev_step_def)
  have ends: "sepc t = SeIdle \<and> sescript t = [] \<or> (\<exists>n. sepc t = SeWaitSleep n) \<and> \<not> mState g'"
    if stuck: "\<forall>t \<in> set ts'. sysev_step g' t = None" and t: "t \<in> set ts'" for t
  proof -
    note pc = sysev_stuck [OF bspec [OF stuck]]
    have quiet: "\<forall>u \<in> set ts'. sepc u \<noteq> SeSetBroadcast" using pc by fastforce
    have "sysev_pc_tok EvMutex (sepc u) = 0" if "u \<in> set ts'" for u using pc [OF that] by auto
    then have "sum_list (map (\<lambda>t. sysev_pc_tok EvMutex (sepc t)) ts') = 0" by (simp add: sum_list_eq_0_iff)
    then have "sysev_gtok EvMutex a g' = 1" using tok [of EvMutex] by linarith
    then have "\<not> locked g'" using sysev_not_pending [OF tok quiet] by (auto split: if_splits)
    then show ?thesis using pc [OF t] wakes [OF t _ _ quiet] stuck t by blast
  qed
  show ?thesis using wakes ends by blast
qed

text \<open>A wait is woken by a \<^verbatim>\<open>Set\<close> that is undone at once, sleeps again, and returns after the next one.\<close>

theorem system_event_no_hang_witness:
  "\<exists>g' ts'. executes sysev_step
       (SystemEvent_init False, map sysev_thread_init [([SeWait], 0), ([SeSet, SeReset, SeSet], 0)]) (g', ts') \<and>
     mState g' \<and> sepc (ts' ! 0) = SeIdle \<and> sescript (ts' ! 0) = []"
proof -
  let ?ps = "[([SeWait], 0), ([SeSet, SeReset, SeSet], 0)] :: (sysev_op list \<times> nat) list"
  obtain g' ts' where run: "run_sched sysev_step
      ([0,0,0,0] @ [1,1,1,1,1,1] @ [1] @ [0,0,0] @ [1,1,1,1,1,1] @ [0,0,0,0,0])
      (SystemEvent_init False, map sysev_thread_init ?ps) = Some (g', ts')"
    and r: "mState g'" "map (sysev_step g') ts' = [None, None]"
    by (simp add: SystemEvent_init_def sysev_thread_init_def sysev_step_def)
  obtain a b where ab: "ts' = [a, b]" using r(2) by (auto simp: map_eq_Cons_conv)
  have "sepc a = SeIdle \<and> sescript a = []"
    using system_event_no_hang [OF run_sched_executes [OF run]] r ab by auto
  then show ?thesis
    by (intro exI [of _ g'] exI [of _ ts'] conjI) (use run_sched_executes [OF run] r(1) ab in simp_all)
qed

section \<open>ThreadSleep\<close>

text \<open>\<^verbatim>\<open>ThreadSleep\<close> on Linux does not sleep for a negative duration, and for any other splits the
  nanoseconds without loss into seconds and a rest that \<^verbatim>\<open>nanosleep\<close> accepts.\<close>

theorem thread_sleep_splits:
  "(ThreadSleep_linux ns = None) = (sint ns < 0) \<and>
   (case ThreadSleep_linux ns of
      None \<Rightarrow> True
    | Some (s, n) \<Rightarrow> int s * 1000000000 + int n = sint ns \<and> n < 1000000000)"
proof (cases "sint ns < 0")
  case False
  have m: "unat ns - unat ns div 1000000000 * 1000000000 = unat ns mod 1000000000"
    by (simp add: minus_div_mult_eq_mod)
  have "int (unat ns) = sint ns" 
    using False sint_lt [of ns] uint_sint [of ns] by (simp add: take_bit_int_eq_self)
  then show ?thesis using False
    by (simp add: ThreadSleep_linux_def Let_def m zmod_int zdiv_int)
qed (simp add: ThreadSleep_linux_def)

end
