(* ===== verification/Wait_Functions.thy ===== *)
theory Wait_Functions
  imports System_Sync
begin

text \<open>
  \<^verbatim>\<open>WaitFor\<close>, \<^verbatim>\<open>WaitForAll\<close> and \<^verbatim>\<open>WaitForAny\<close> (the functions \<open>...Impl\<close> of meta_scheduler.cpp).  Each
  hangs waiters whose callback posts one system semaphore into the waitables and waits on it.

  The waitables are the environment: \<^verbatim>\<open>AddWaiter\<close> may refuse (the argument \<open>accepted\<close> of a step
  function), a registered waiter may be taken by its waitable at any time, and its callback runs
  some time after.  \<open>status\<close> is where the waiter for the waitable of an index is; \<^verbatim>\<open>RemoveWaiter\<close>
  succeeds exactly while it is registered.  A \<^verbatim>\<open>SpinWait\<close> gets past when the semaphore has a unit
  and blocks until then.
\<close>

section \<open>Waiters and waitables\<close>

datatype wstatus = Unused | Registered | InFlight | Called | Taken | Destroyed

record wait_mem =
  status :: "nat \<Rightarrow> wstatus"
  posts :: nat \<comment> \<open>the value of \<^verbatim>\<open>waitSemaphore\<close>\<close>

abbreviation set_status :: "nat \<Rightarrow> wstatus \<Rightarrow> 'a wait_mem_scheme \<Rightarrow> 'a wait_mem_scheme" where
  "set_status i s m \<equiv> m\<lparr>status := (status m)(i := s)\<rparr>"

text \<open>The lambda \<^verbatim>\<open>[&] { waitSemaphore.Post(); }\<close> that the waiters call.\<close>

definition poster :: "'a wait_mem_scheme \<Rightarrow> 'a wait_mem_scheme" where
  "poster m = m\<lparr>posts := Linux_Sem_Post (posts m)\<rparr>"

inductive waitable_step :: "'a wait_mem_scheme \<Rightarrow> 'a wait_mem_scheme \<Rightarrow> bool" where
  signal: "status m i = Registered \<Longrightarrow> waitable_step m (set_status i InFlight m)"
| callback: "status m i = InFlight \<Longrightarrow> waitable_step m (poster (set_status i Called m))"

inductive_cases waitable_step_cases: "waitable_step m m'"

text \<open>A wait function and its waitables.\<close>

inductive wait_step ::
  "(bool \<Rightarrow> 'a wait_mem_scheme \<Rightarrow> 'p \<Rightarrow> ('a wait_mem_scheme \<times> 'p) option) \<Rightarrow>
   'a wait_mem_scheme \<times> 'p \<Rightarrow> 'a wait_mem_scheme \<times> 'p \<Rightarrow> bool" for fstep where
  own: "fstep accepted m pc = Some s \<Longrightarrow> wait_step fstep (m, pc) s"
| other: "waitable_step m m' \<Longrightarrow> wait_step fstep (m, pc) (m', pc)"

inductive_cases wait_step_cases: "wait_step fstep (m, pc) s"

text \<open>What both kinds of steps keep.\<close>

locale wait_function =
  fixes fstep :: "bool \<Rightarrow> 'a wait_mem_scheme \<Rightarrow> 'p \<Rightarrow> ('a wait_mem_scheme \<times> 'p) option"
    and inv :: "'a wait_mem_scheme \<Rightarrow> 'p \<Rightarrow> bool"
  assumes own_inv: "inv m pc \<Longrightarrow> fstep accepted m pc = Some (m', pc') \<Longrightarrow> inv m' pc'"
    and signal_inv: "inv m pc \<Longrightarrow> status m i = Registered \<Longrightarrow> inv (set_status i InFlight m) pc"
    and callback_inv: "inv m pc \<Longrightarrow> status m i = InFlight \<Longrightarrow> inv (poster (set_status i Called m)) pc"
begin

lemma reachable:
  assumes "rtranclp (wait_step fstep) (m0, pc0) (m, pc)" and "inv m0 pc0"
  shows "inv m pc"
  using assms
proof (induction "(m, pc)" arbitrary: m pc rule: rtranclp_induct)
  case (step y)
  obtain m1 pc1 where y: "y = (m1, pc1)" by (cases y)
  have "inv m1 pc1" using step.hyps(3) [OF y step.prems] .
  then show ?case using step.hyps(2) unfolding y
    by (auto elim!: wait_step_cases waitable_step_cases intro: own_inv signal_inv callback_inv)
qed simp

end

text \<open>The execution of a schedule: \<open>Inl b\<close> a step of the function, its \<^verbatim>\<open>AddWaiter\<close> answering \<open>b\<close>,
  \<open>Inr i\<close> the next step of the waitable of index \<open>i\<close>.\<close>

definition waitable_next :: "nat \<Rightarrow> 'a wait_mem_scheme \<Rightarrow> 'a wait_mem_scheme option" where
  "waitable_next i m =
     (if status m i = Registered then Some (set_status i InFlight m)
      else if status m i = InFlight then Some (poster (set_status i Called m)) else None)"

fun run_wait ::
  "(bool \<Rightarrow> 'a wait_mem_scheme \<Rightarrow> 'p \<Rightarrow> ('a wait_mem_scheme \<times> 'p) option) \<Rightarrow>
   (bool + nat) list \<Rightarrow> 'a wait_mem_scheme \<times> 'p \<Rightarrow> ('a wait_mem_scheme \<times> 'p) option" where
  "run_wait fstep [] s = Some s"
| "run_wait fstep (Inl b # sched) (m, pc) =
     (case fstep b m pc of None \<Rightarrow> None | Some s \<Rightarrow> run_wait fstep sched s)"
| "run_wait fstep (Inr i # sched) (m, pc) =
     (case waitable_next i m of None \<Rightarrow> None | Some m' \<Rightarrow> run_wait fstep sched (m', pc))"

lemma run_wait_reaches:
  "run_wait fstep sched s = Some s' \<Longrightarrow> rtranclp (wait_step fstep) s s'"
proof (induction fstep sched s rule: run_wait.induct)
  case (2 fstep b sched m pc)
  then show ?case
    by (auto split: option.splits intro: converse_rtranclp_into_rtranclp wait_step.own)
next
  case (3 fstep i sched m pc)
  from 3(2) obtain m' where n: "waitable_next i m = Some m'"
    and run: "run_wait fstep sched (m', pc) = Some s'" by (auto split: option.splits)
  have "waitable_step m m'"
    using n by (auto simp: waitable_next_def intro: waitable_step.intros split: if_splits)
  then show ?case using "3.IH" [OF n run]
    by (blast intro: converse_rtranclp_into_rtranclp wait_step.other)
qed simp

section \<open>Counting waiters\<close>

definition tally :: "wstatus set \<Rightarrow> (nat \<Rightarrow> wstatus) \<Rightarrow> nat \<Rightarrow> nat" where
  "tally S st n = length (filter (\<lambda>j. st j \<in> S) [0..<n])"

lemma tally_Suc: "tally S st (Suc n) = tally S st n + of_bool (st n \<in> S)"
  by (simp add: tally_def)

lemma tally_0 [simp]: "tally S st 0 = 0"
  by (simp add: tally_def)

lemma tally_cong: "(\<And>j. j < n \<Longrightarrow> st j \<in> S \<longleftrightarrow> st' j \<in> T) \<Longrightarrow> tally S st n = tally T st' n"
  unfolding tally_def by (intro arg_cong [where f = length] filter_cong) auto

lemma tally_upd_out: "n \<le> i \<Longrightarrow> tally S (st(i := s)) n = tally S st n"
  by (rule tally_cong) (simp add: fun_upd_apply)

lemma tally_upd:
  "i < n \<Longrightarrow> tally S (st(i := s)) n + of_bool (st i \<in> S) = tally S st n + of_bool (s \<in> S)"
  by (induction n) (auto simp: tally_Suc tally_upd_out less_Suc_eq fun_upd_apply)

lemma tally_upd_same:
  "(s \<in> S \<longleftrightarrow> st i \<in> S) \<Longrightarrow> tally S (st(i := s)) n = tally S st n"
  by (rule tally_cong) (auto simp: fun_upd_apply)

lemma tally_mono: "(\<And>j. j < n \<Longrightarrow> st j \<in> S \<Longrightarrow> st j \<in> T) \<Longrightarrow> tally S st n \<le> tally T st n"
  by (induction n) (auto simp: tally_Suc of_bool_def intro: le_SucI)

lemma tally_eq_member:
  "tally T st n \<le> tally S st n \<Longrightarrow> (\<And>j. j < n \<Longrightarrow> st j \<in> S \<Longrightarrow> st j \<in> T) \<Longrightarrow>
   j < n \<Longrightarrow> st j \<in> T \<Longrightarrow> st j \<in> S"
proof (induction n)
  case (Suc n)
  have "tally S st n \<le> tally T st n" using Suc.prems(2) by (intro tally_mono) simp
  then show ?case using Suc by (cases "st n \<in> S"; cases "st n \<in> T") (auto simp: tally_Suc less_Suc_eq)
qed simp

lemma tally_zero: "tally S st n = 0 \<longleftrightarrow> (\<forall>j < n. st j \<notin> S)"
  by (auto simp: tally_def filter_empty_conv)

section \<open>WaitForAny\<close>

record any_mem = wait_mem +
  addedCount :: nat
  signaled :: "nat list"

datatype any_pc =
    AnyAdd nat \<comment> \<open>the first loop, at \<^verbatim>\<open>i\<close>\<close>
  | AnyTest
  | AnySpin
  | AnyRemove nat \<comment> \<open>the second loop\<close>
  | AnyDrain nat \<comment> \<open>the third loop\<close>
  | AnyDestroy nat \<comment> \<open>the last loop\<close>
  | AnyReturn

definition any_init :: "any_mem" where
  "any_init = \<lparr>status = (\<lambda>_. Unused), posts = 0, addedCount = 0, signaled = []\<rparr>"

text \<open>A refused waiter is destroyed at once and ends the first loop.\<close>

fun WaitForAny_step :: "nat \<Rightarrow> bool \<Rightarrow> any_mem \<Rightarrow> any_pc \<Rightarrow> (any_mem \<times> any_pc) option" where
  "WaitForAny_step count accepted m (AnyAdd i) =
     (if i < count then
        if accepted
        then Some ((set_status i Registered m)\<lparr>addedCount := addedCount m + 1\<rparr>, AnyAdd (i + 1))
        else Some ((set_status i Destroyed m)\<lparr>signaled := signaled m @ [i]\<rparr>, AnyTest)
      else Some (m, AnyTest))"
| "WaitForAny_step count accepted m AnyTest =
     Some (m, if addedCount m = count then AnySpin else AnyRemove 0)"
| "WaitForAny_step count accepted m AnySpin =
     map_option (\<lambda>p. (m\<lparr>posts := p\<rparr>, AnyRemove 0)) (Linux_Sem_Wait (posts m))"
| "WaitForAny_step count accepted m (AnyRemove i) =
     (if i < addedCount m then
        if status m i = Registered then Some (set_status i Taken m, AnyRemove (i + 1))
        else Some (m\<lparr>signaled := signaled m @ [i]\<rparr>, AnyRemove (i + 1))
      else Some (m, AnyDrain 1))"
| "WaitForAny_step count accepted m (AnyDrain i) =
     (if i < length (signaled m)
      then map_option (\<lambda>p. (m\<lparr>posts := p\<rparr>, AnyDrain (i + 1))) (Linux_Sem_Wait (posts m))
      else Some (m, AnyDestroy 0))"
| "WaitForAny_step count accepted m (AnyDestroy i) =
     (if i < addedCount m then Some (set_status i Destroyed m, AnyDestroy (i + 1))
      else Some (m, AnyReturn))"
| "WaitForAny_step count accepted m AnyReturn = None"

abbreviation any_runs :: "nat \<Rightarrow> any_mem \<Rightarrow> any_pc \<Rightarrow> bool" where
  "any_runs count m pc \<equiv> rtranclp (wait_step (WaitForAny_step count)) (any_init, AnyAdd 0) (m, pc)"

text \<open>The waitables that have answered before the function waits: the one that refused.\<close>

definition refused :: "nat \<Rightarrow> any_mem \<Rightarrow> nat list" where
  "refused count m = (if addedCount m < count then [addedCount m] else [])"

definition live :: "wstatus \<Rightarrow> bool" where
  "live s \<longleftrightarrow> s = Registered \<or> s = InFlight \<or> s = Called"

definition settled :: "wstatus \<Rightarrow> bool" where
  "settled s \<longleftrightarrow> s = Taken \<or> s = InFlight \<or> s = Called"

definition not_taken :: "any_mem \<Rightarrow> nat \<Rightarrow> nat list" where
  "not_taken m n = filter (\<lambda>j. status m j \<noteq> Taken) [0..<n]"

fun any_pc_inv :: "nat \<Rightarrow> any_mem \<Rightarrow> any_pc \<Rightarrow> bool" where
  "any_pc_inv count m (AnyAdd i) \<longleftrightarrow>
     addedCount m = i \<and> i \<le> count \<and> signaled m = [] \<and>
     posts m = tally {Called} (status m) i \<and> (\<forall>j < i. live (status m j))"
| "any_pc_inv count m AnyTest \<longleftrightarrow>
     signaled m = refused count m \<and>
     posts m = tally {Called} (status m) (addedCount m) \<and> (\<forall>j < addedCount m. live (status m j))"
| "any_pc_inv count m AnySpin \<longleftrightarrow>
     addedCount m = count \<and> signaled m = [] \<and>
     posts m = tally {Called} (status m) count \<and> (\<forall>j < count. live (status m j))"
| "any_pc_inv count m (AnyRemove i) \<longleftrightarrow>
     i \<le> addedCount m \<and> signaled m = refused count m @ not_taken m i \<and>
     posts m + of_bool (addedCount m = count) = tally {Called} (status m) (addedCount m) \<and>
     (\<forall>j < i. settled (status m j)) \<and> (\<forall>j < addedCount m. i \<le> j \<longrightarrow> live (status m j))"
| "any_pc_inv count m (AnyDrain k) \<longleftrightarrow>
     1 \<le> k \<and> k \<le> length (signaled m) \<and>
     signaled m = refused count m @ not_taken m (addedCount m) \<and>
     posts m + (k - 1) + of_bool (addedCount m = count) = tally {Called} (status m) (addedCount m) \<and>
     (\<forall>j < addedCount m. settled (status m j))"
| "any_pc_inv count m (AnyDestroy i) \<longleftrightarrow>
     0 < count \<and> i \<le> addedCount m \<and> posts m = 0 \<and> signaled m \<noteq> [] \<and>
     (\<forall>j < i. status m j = Destroyed) \<and>
     (\<forall>j < addedCount m. i \<le> j \<longrightarrow>
        status m j = Taken \<and> j \<notin> set (signaled m) \<or> status m j = Called \<and> j \<in> set (signaled m))"
| "any_pc_inv count m AnyReturn \<longleftrightarrow>
     0 < count \<and> posts m = 0 \<and> signaled m \<noteq> [] \<and> (\<forall>j < addedCount m. status m j = Destroyed)"

definition any_inv :: "nat \<Rightarrow> any_mem \<Rightarrow> any_pc \<Rightarrow> bool" where
  "any_inv count m pc \<longleftrightarrow>
     addedCount m \<le> count \<and> (\<forall>j. addedCount m \<le> j \<longrightarrow> status m j \<in> {Unused, Destroyed}) \<and>
     any_pc_inv count m pc"

lemma not_taken_length:
  assumes "\<forall>j < n. settled (status m j)"
  shows "length (not_taken m n) = tally {InFlight, Called} (status m) n"
proof -
  have "j < n \<Longrightarrow> status m j \<noteq> Taken \<longleftrightarrow> status m j \<in> {InFlight, Called}" for j
    using assms by (auto simp: settled_def)
  then show ?thesis unfolding not_taken_def tally_def
    by (intro arg_cong [where f = length] filter_cong) auto
qed

lemma not_taken_Suc: "not_taken m (Suc n) = not_taken m n @ (if status m n = Taken then [] else [n])"
  by (simp add: not_taken_def)

lemma not_taken_upd:
  "(i < n \<Longrightarrow> s \<noteq> Taken \<and> status m i \<noteq> Taken) \<Longrightarrow> not_taken (set_status i s m) n = not_taken m n"
  unfolding not_taken_def by (rule filter_cong) (auto simp: fun_upd_apply)

text \<open>At the end of the third loop no callback is outstanding, and every post was consumed.\<close>

lemma drained_all:
  assumes inv: "any_pc_inv count m (AnyDrain k)" and fin: "\<not> k < length (signaled m)"
    and le: "addedCount m \<le> count"
  shows "posts m = 0" and "\<And>j. j < addedCount m \<Longrightarrow> status m j = Taken \<or> status m j = Called"
proof -
  let ?C = "tally {Called} (status m) (addedCount m)"
  let ?I = "tally {InFlight, Called} (status m) (addedCount m)"
  have sett: "\<forall>j < addedCount m. settled (status m j)" using inv by simp
  have L: "length (signaled m) = of_bool (addedCount m < count) + ?I"
    using inv not_taken_length [OF sett] by (simp add: refused_def)
  have k: "k = length (signaled m)" "1 \<le> k" using inv fin by auto
  have eq: "posts m + (k - 1) + of_bool (addedCount m = count) = ?C"
    using inv unfolding any_pc_inv.simps by blast
  have CI: "?C \<le> ?I" by (rule tally_mono) simp
  have sum: "of_bool (addedCount m < count) + of_bool (addedCount m = count) = (1::nat)" using le by simp
  show "posts m = 0" using L k eq CI sum by linarith
  have "?I \<le> ?C" using L k eq sum by linarith
  then have "status m j \<in> {InFlight, Called} \<Longrightarrow> status m j \<in> {Called}" if "j < addedCount m" for j
    using tally_eq_member [of "{InFlight, Called}" "status m" "addedCount m" "{Called}" j] that by blast
  then show "\<And>j. j < addedCount m \<Longrightarrow> status m j = Taken \<or> status m j = Called"
    using sett by (auto simp: settled_def)
qed

lemma any_signal_inv:
  assumes "any_inv count m pc" and "status m i = Registered"
  shows "any_inv count (set_status i InFlight m) pc"
proof -
  have i: "i < addedCount m" using assms by (force simp: any_inv_def not_le [symmetric])
  have t: "tally {Called} ((status m)(i := InFlight)) n = tally {Called} (status m) n" for n
    using assms(2) by (intro tally_upd_same) simp
  have nt: "not_taken (set_status i InFlight m) n = not_taken m n" for n
    using assms(2) by (intro not_taken_upd) simp
  show ?thesis using assms i
    by (cases pc) (auto simp: any_inv_def t nt refused_def fun_upd_apply live_def settled_def)
qed

lemma any_callback_inv:
  assumes "any_inv count m pc" and "status m i = InFlight"
  shows "any_inv count (poster (set_status i Called m)) pc"
proof -
  have i: "i < addedCount m" using assms by (force simp: any_inv_def not_le [symmetric])
  have t: "i < n \<Longrightarrow> tally {Called} ((status m)(i := Called)) n = Suc (tally {Called} (status m) n)" for n
    using tally_upd [of i n "{Called}" "status m" Called] assms(2) by simp
  have nt: "not_taken (m\<lparr>status := (status m)(i := Called), posts := p\<rparr>) n = not_taken m n" for n p
    using assms(2) not_taken_upd [of i n Called "m\<lparr>posts := p\<rparr>"] by (simp add: not_taken_def)
  show ?thesis using assms i
    by (cases pc)
      (auto simp: any_inv_def poster_def Linux_Sem_Post_def t nt refused_def fun_upd_apply live_def settled_def)
qed

lemma any_own_inv:
  assumes "any_inv count m pc" and "WaitForAny_step count accepted m pc = Some (m', pc')"
  shows "any_inv count m' pc'"
proof (cases pc)
  case (AnyAdd i)
  then show ?thesis using assms
    by (auto simp: any_inv_def refused_def tally_upd_out tally_Suc fun_upd_apply live_def
      less_Suc_eq split: if_splits, meson Suc_leD)
next
  case AnyTest
  then show ?thesis using assms by (auto simp: any_inv_def refused_def not_taken_def)
next
  case AnySpin
  then show ?thesis using assms
    by (auto simp: any_inv_def refused_def not_taken_def Linux_Sem_Wait_def split: if_splits)
next
  case (AnyRemove i)
  have out: "addedCount m = count \<Longrightarrow> signaled m \<noteq> []" if "\<not> i < addedCount m" 
  proof -
    assume "addedCount m = count"
    then have "0 < tally {Called} (status m) count" using assms(1) AnyRemove by (auto simp: any_inv_def)
    then obtain j where "j < count" "status m j = Called" using tally_zero [of "{Called}" "status m" count] by auto
    then have "j \<in> set (not_taken m i)" using that \<open>addedCount m = count\<close> by (simp add: not_taken_def)
    then show ?thesis using assms(1) AnyRemove by (auto simp: any_inv_def)
  qed
  have taken: "tally {Called} ((status m)(i := Taken)) n = tally {Called} (status m) n" if "status m i = Registered" for n
    using that by (intro tally_upd_same) simp
  show ?thesis
  proof (cases "i < addedCount m \<and> status m i = Registered")
    case True
    then show ?thesis using assms AnyRemove
      by (auto simp: any_inv_def taken refused_def not_taken_upd not_taken_Suc fun_upd_apply less_Suc_eq settled_def)
  next
    case False
    have "i < addedCount m \<Longrightarrow> live (status m i)" using assms(1) AnyRemove by (simp add: any_inv_def)
    with False show ?thesis using assms AnyRemove out
      by (auto simp: any_inv_def refused_def not_taken_def live_def settled_def less_Suc_eq Suc_le_eq split: if_splits)
  qed
next
  case (AnyDrain k)
  show ?thesis
  proof (cases "k < length (signaled m)")
    case True
    then show ?thesis using assms AnyDrain
      by (auto simp: any_inv_def refused_def not_taken_def Linux_Sem_Wait_def split: if_splits)
  next
    case False
    have "any_pc_inv count m (AnyDrain k)" "addedCount m \<le> count"
      using assms(1) unfolding AnyDrain any_inv_def by blast+
    note fin = drained_all [OF this(1) False this(2)]
    have all: "posts m = 0" "\<forall>j < addedCount m. status m j = Taken \<or> status m j = Called"
      using fin by auto
    have "0 < count" using assms(1) AnyDrain by (cases count) (auto simp: any_inv_def)
    then show ?thesis using assms AnyDrain False all
      by (auto simp: any_inv_def refused_def not_taken_def)
  qed
next
  case (AnyDestroy i)
  then show ?thesis using assms
    by (auto simp: any_inv_def fun_upd_apply less_Suc_eq split: if_splits)
qed (use assms in simp)

interpretation wa: wait_function "WaitForAny_step count" "any_inv count"
  by unfold_locales (fact any_own_inv any_signal_inv any_callback_inv)+

lemma any_runs_inv:
  assumes "any_runs count m pc"
  shows "any_inv count m pc"
  by (rule wa.reachable [OF assms]) (simp add: any_inv_def any_init_def)

text \<open>Claim C11.
  What \<^verbatim>\<open>WaitForAny\<close> returns, in every interleaving with its waitables.  When it returns, the
  semaphore of the calling thread is back at 0 (no callback has posted a unit that was not consumed,
  so the next wait of the thread starts clean) and the result is not empty.  A waiter that the last
  loop destroys is out of its waitable for good: it was taken back, and its waitable is not in the
  result, or its callback has been called, and its waitable is in the result; no callback of this call
  is outstanding.\<close>

theorem wait_for_any_returns_clean:
  assumes "any_runs count m pc"
  shows "(pc = AnyReturn \<longrightarrow> posts m = 0 \<and> signaled m \<noteq> []) \<and>
    (\<forall>i j. pc = AnyDestroy i \<and> i \<le> j \<and> j < addedCount m \<longrightarrow>
      status m j = (if j \<in> set (signaled m) then Called else Taken))"
  using any_runs_inv [OF assms] by (auto simp: any_inv_def)

theorem wait_for_any_returns_clean_witness:
  "\<exists>m. any_runs 2 m AnyReturn \<and> posts m = 0 \<and> signaled m = [0]"
proof -
  let ?sched = "[Inl True, Inl True, Inl True, Inl True, Inr 0, Inr 0] @ replicate 8 (Inl True)"
  obtain m where run: "run_wait (WaitForAny_step 2) ?sched (any_init, AnyAdd 0) = Some (m, AnyReturn)"
    and s: "signaled m = [0]"
    by (simp add: any_init_def waitable_next_def poster_def Linux_Sem_Wait_def Linux_Sem_Post_def
      eval_nat_numeral)
  have r: "any_runs 2 m AnyReturn" using run_wait_reaches [OF run] .
  show ?thesis using wait_for_any_returns_clean [OF r] r s by blast
qed

text \<open>Where \<^verbatim>\<open>WaitForAny\<close> can be blocked.\<close>

lemma any_blocked:
  assumes inv: "any_inv count m pc"
  shows "pc = AnyReturn \<or> WaitForAny_step count accepted m pc \<noteq> None \<or>
      pc = AnySpin \<and> signaled m = [] \<and> (\<forall>j < count. status m j = Registered \<or> status m j = InFlight) \<or>
      (\<exists>k. pc = AnyDrain k) \<and> (\<exists>j < addedCount m. status m j = InFlight)"
proof (cases pc)
  case AnySpin
  then show ?thesis using inv
    by (auto simp: any_inv_def Linux_Sem_Wait_def tally_zero live_def)
next
  case (AnyDrain k)
  show ?thesis
  proof (cases "k < length (signaled m) \<and> posts m = 0 \<and> (\<forall>j < addedCount m. status m j \<noteq> InFlight)")
    case True
    have sett: "\<forall>j < addedCount m. settled (status m j)" using inv AnyDrain by (simp add: any_inv_def)
    then have "tally {InFlight, Called} (status m) (addedCount m) = tally {Called} (status m) (addedCount m)"
      using True by (intro tally_cong) auto
    then have "length (signaled m) = of_bool (addedCount m < count) + tally {Called} (status m) (addedCount m)"
      using inv AnyDrain not_taken_length [OF sett] by (simp add: any_inv_def refused_def)
    then show ?thesis using inv AnyDrain True
      by (cases "addedCount m = count") (auto simp: any_inv_def)
  qed (auto simp: AnyDrain Linux_Sem_Wait_def)
qed auto

text \<open>\<^verbatim>\<open>WaitForAny\<close> is never stuck on its own account.  In every reachable state it has returned, or it
  can make a step, or it waits for its waitables: in the first wait with no callback called so far,
  or for the callback of a waiter that a waitable has already taken off and that it must not destroy
  yet.  With no waitables at all it never returns.\<close>

theorem wait_for_any_progress:
  assumes "any_runs count m pc"
  shows "(pc = AnyReturn \<or> WaitForAny_step count accepted m pc \<noteq> None \<or>
      pc = AnySpin \<and> signaled m = [] \<and> (\<forall>j < count. status m j = Registered \<or> status m j = InFlight) \<or>
      (\<exists>k. pc = AnyDrain k) \<and> (\<exists>j < addedCount m. status m j = InFlight)) \<and>
    (count = 0 \<longrightarrow> pc \<noteq> AnyReturn)"
  using any_blocked [OF any_runs_inv [OF assms], of accepted] any_runs_inv [OF assms] by (auto simp: any_inv_def)
text \<open>The third loop waits for the callback of the second waitable.\<close>

theorem wait_for_any_progress_witness:
  "\<exists>m k. any_runs 2 m (AnyDrain k) \<and> WaitForAny_step 2 True m (AnyDrain k) = None \<and>
     (status m 0 = InFlight \<or> status m 1 = InFlight)"
proof -
  let ?sched = "[Inl True, Inl True, Inl True, Inl True, Inr 0, Inr 0, Inr 1] @ replicate 4 (Inl True)"
  obtain m where run: "run_wait (WaitForAny_step 2) ?sched (any_init, AnyAdd 0) = Some (m, AnyDrain 1)"
    and b: "WaitForAny_step 2 True m (AnyDrain 1) = None" and c: "addedCount m = 2"
    by (simp add: any_init_def waitable_next_def poster_def Linux_Sem_Wait_def Linux_Sem_Post_def
      eval_nat_numeral)
  have r: "any_runs 2 m (AnyDrain 1)" using run_wait_reaches [OF run] .
  have "\<exists>j < 2. status m j = InFlight" using wait_for_any_progress [OF r, of True] b c by auto
  then have "status m 0 = InFlight \<or> status m 1 = InFlight" by (auto simp: less_2_cases_iff)
  then show ?thesis using r b by blast
qed

section \<open>WaitForAll\<close>

text \<open>The first loop sorts the waitables into two arrays.  A waitable is its address;
  \<open>dependent\<close> is \<^verbatim>\<open>IsOrderDependent\<close>.\<close>

fun WaitForAll_split :: "(addr \<Rightarrow> bool) \<Rightarrow> addr list \<Rightarrow> addr list \<times> addr list \<Rightarrow> addr list \<times> addr list" where
  "WaitForAll_split dependent [] (ordered, unordered) = (ordered, unordered)"
| "WaitForAll_split dependent (w # ws) (ordered, unordered) =
     WaitForAll_split dependent ws
       (if dependent w then (ordered @ [w], unordered) else (ordered, unordered @ [w]))"

text \<open>The waitables waited for one by one, in order, and those that get a waiter of the second
  phase: it runs over the first \<^verbatim>\<open>unorderedCount\<close> entries of \<^verbatim>\<open>waitables\<close>.\<close>

definition WaitForAll_plan :: "(addr \<Rightarrow> bool) \<Rightarrow> addr list \<Rightarrow> addr list \<times> addr list" where
  "WaitForAll_plan dependent waitables =
     (let (ordered, unordered) = WaitForAll_split dependent waitables ([], [])
      in (sort ordered, map (\<lambda>i. waitables ! i) [0..<length unordered]))"

lemma WaitForAll_split_eq:
  "WaitForAll_split dependent ws (os, us) = (os @ filter dependent ws, us @ filter (\<lambda>w. \<not> dependent w) ws)"
  by (induction ws arbitrary: os us) auto

lemma WaitForAll_plan_eq:
  "WaitForAll_plan dependent ws =
     (sort (filter dependent ws), take (length (filter (\<lambda>w. \<not> dependent w) ws)) ws)"
  using length_filter_le [of "\<lambda>w. \<not> dependent w" ws]
  by (auto simp: WaitForAll_plan_def WaitForAll_split_eq intro!: nth_equalityI)

text \<open>The second phase: \<open>AllAdd i\<close> the loop that adds waiters, \<open>AllSpin i\<close> the loop that waits.\<close>

record all_mem = wait_mem +
  allAdded :: nat

datatype all_pc = AllAdd nat | AllSpin nat | AllReturn

definition all_init :: "all_mem" where
  "all_init = \<lparr>status = (\<lambda>_. Unused), posts = 0, allAdded = 0\<rparr>"

fun WaitForAll_step :: "nat \<Rightarrow> bool \<Rightarrow> all_mem \<Rightarrow> all_pc \<Rightarrow> (all_mem \<times> all_pc) option" where
  "WaitForAll_step count accepted m (AllAdd i) =
     (if i < count then
        if accepted
        then Some ((set_status i Registered m)\<lparr>allAdded := allAdded m + 1\<rparr>, AllAdd (i + 1))
        else Some (set_status i Destroyed m, AllAdd (i + 1))
      else Some (m, AllSpin 0))"
| "WaitForAll_step count accepted m (AllSpin i) =
     (if i < allAdded m
      then map_option (\<lambda>p. (m\<lparr>posts := p\<rparr>, AllSpin (i + 1))) (Linux_Sem_Wait (posts m))
      else Some (m, AllReturn))"
| "WaitForAll_step count accepted m AllReturn = None"

abbreviation all_runs :: "nat \<Rightarrow> all_mem \<Rightarrow> all_pc \<Rightarrow> bool" where
  "all_runs count m pc \<equiv> rtranclp (wait_step (WaitForAll_step count)) (all_init, AllAdd 0) (m, pc)"

text \<open>A waiter: refused, or waiting, or called.  The posts that were consumed are \<open>k\<close>.\<close>

definition all_counts :: "nat \<Rightarrow> nat \<Rightarrow> all_mem \<Rightarrow> bool" where
  "all_counts n k m \<longleftrightarrow>
     posts m + k = tally {Called} (status m) n \<and>
     allAdded m = tally {Registered, InFlight, Called} (status m) n \<and>
     (\<forall>j < n. live (status m j) \<or> status m j = Destroyed) \<and> (\<forall>j. n \<le> j \<longrightarrow> status m j = Unused)"

fun all_inv :: "nat \<Rightarrow> all_mem \<Rightarrow> all_pc \<Rightarrow> bool" where
  "all_inv count m (AllAdd i) \<longleftrightarrow> i \<le> count \<and> all_counts i 0 m"
| "all_inv count m (AllSpin k) \<longleftrightarrow> k \<le> allAdded m \<and> all_counts count k m"
| "all_inv count m AllReturn \<longleftrightarrow> all_counts count (allAdded m) m"

lemma all_counts_signal:
  assumes "all_counts n k m" and "status m i = Registered"
  shows "all_counts n k (set_status i InFlight m)"
proof -
  have "tally {Called} ((status m)(i := InFlight)) n = tally {Called} (status m) n"
    "tally {Registered, InFlight, Called} ((status m)(i := InFlight)) n =
      tally {Registered, InFlight, Called} (status m) n"
    using assms(2) by (auto intro!: tally_upd_same)
  then show ?thesis using assms by (auto simp: all_counts_def fun_upd_apply live_def)
qed

lemma all_counts_callback:
  assumes "all_counts n k m" and "status m i = InFlight"
  shows "all_counts n k (poster (set_status i Called m))"
proof -
  have i: "i < n" using assms by (force simp: all_counts_def not_le [symmetric])
  have "tally {Called} ((status m)(i := Called)) n = Suc (tally {Called} (status m) n)"
    using tally_upd [OF i, of "{Called}" "status m" Called] assms(2) by simp
  moreover have "tally {Registered, InFlight, Called} ((status m)(i := Called)) n =
      tally {Registered, InFlight, Called} (status m) n"
    using assms(2) by (auto intro!: tally_upd_same)
  ultimately show ?thesis using assms i
    by (auto simp: all_counts_def poster_def Linux_Sem_Post_def fun_upd_apply live_def)
qed

lemma all_own_inv:
  assumes "all_inv count m pc" and "WaitForAll_step count accepted m pc = Some (m', pc')"
  shows "all_inv count m' pc'"
proof (cases pc)
  case (AllAdd i)
  then show ?thesis using assms
    by (auto simp: all_counts_def tally_upd_out tally_Suc fun_upd_apply live_def less_Suc_eq
      split: if_splits)
next
  case (AllSpin k)
  then show ?thesis using assms
    by (auto simp: all_counts_def Linux_Sem_Wait_def split: if_splits)
qed (use assms in simp)

lemma all_signal_inv: "all_inv count m pc \<Longrightarrow> status m i = Registered \<Longrightarrow> all_inv count (set_status i InFlight m) pc"
  by (cases pc) (auto simp: all_counts_signal)

lemma all_callback_inv:
  "all_inv count m pc \<Longrightarrow> status m i = InFlight \<Longrightarrow> all_inv count (poster (set_status i Called m)) pc"
proof (cases pc)
  case (AllSpin k)
  assume "all_inv count m pc" "status m i = InFlight"
  then show ?thesis using AllSpin all_counts_callback [of count k m i] by (simp add: poster_def)
next
  case AllReturn
  assume "all_inv count m pc" "status m i = InFlight"
  then show ?thesis using AllReturn all_counts_callback [of count "allAdded m" m i] by (simp add: poster_def)
qed (auto simp: all_counts_callback)

interpretation wl: wait_function "WaitForAll_step count" "all_inv count"
  by unfold_locales (fact all_own_inv all_signal_inv all_callback_inv)+

lemma all_runs_inv:
  assumes "all_runs count m pc"
  shows "all_inv count m pc"
  by (rule wl.reachable [OF assms]) (simp add: all_counts_def all_init_def)

lemma all_returned:
  assumes c: "all_counts count (allAdded m) m"
  shows "posts m = 0 \<and> (\<forall>j < count. status m j = Destroyed \<or> status m j = Called)"
proof -
  have le: "tally {Called} (status m) count \<le> tally {Registered, InFlight, Called} (status m) count"
    by (rule tally_mono) simp
  have z: "posts m = 0" using c le by (auto simp: all_counts_def)
  have "tally {Registered, InFlight, Called} (status m) count \<le> tally {Called} (status m) count"
    using c by (auto simp: all_counts_def)
  then have "status m j = Called" if "j < count" "live (status m j)" for j
    using tally_eq_member [of "{Registered, InFlight, Called}" "status m" count "{Called}" j] that
    by (auto simp: live_def)
  then show ?thesis using c z by (auto simp: all_counts_def)
qed

lemma all_blocked:
  assumes inv: "all_inv count m pc"
  shows "pc = AllReturn \<or> WaitForAll_step count accepted m pc \<noteq> None \<or>
      (\<exists>j < count. status m j = Registered \<or> status m j = InFlight)"
proof -
  have "\<exists>j < count. status m j = Registered \<or> status m j = InFlight"
    if c: "all_counts count k m" and k: "k < allAdded m" and z: "posts m = 0" for k
  proof (rule ccontr)
    assume "\<not> ?thesis"
    then have "tally {Registered, InFlight, Called} (status m) count = tally {Called} (status m) count"
      by (intro tally_cong) auto
    then show False using c k z by (simp add: all_counts_def)
  qed
  then show ?thesis using inv by (cases pc) (auto simp: Linux_Sem_Wait_def)
qed

text \<open>The second phase of \<^verbatim>\<open>WaitForAll\<close>, in every interleaving with its waitables: when it returns,
  every waitable it hung a waiter in had refused it (it was ready) or has called it, and the
  semaphore is back at 0.  In every reachable state it has returned, can make a step, or waits for a
  waiter that its waitable has not called.\<close>

theorem wait_for_all_waits:
  assumes "all_runs count m pc"
  shows "(pc = AllReturn \<longrightarrow>
      posts m = 0 \<and> (\<forall>j < count. status m j = Destroyed \<or> status m j = Called)) \<and>
    (pc = AllReturn \<or> WaitForAll_step count accepted m pc \<noteq> None \<or>
      (\<exists>j < count. status m j = Registered \<or> status m j = InFlight))"
  using all_runs_inv [OF assms] all_returned [of count m] all_blocked [of count m pc accepted] by auto

theorem wait_for_all_waits_witness:
  "\<exists>m. all_runs 2 m AllReturn \<and> posts m = 0 \<and> status m 0 = Called \<and> status m 1 = Destroyed"
proof -
  let ?sched = "[Inl True, Inl False, Inl True, Inr 0, Inr 0, Inl True, Inl True]"
  obtain m where run: "run_wait (WaitForAll_step 2) ?sched (all_init, AllAdd 0) = Some (m, AllReturn)"
    and s: "status m 0 = Called" "status m 1 = Destroyed"
    by (simp add: all_init_def waitable_next_def poster_def Linux_Sem_Wait_def Linux_Sem_Post_def)
  have r: "all_runs 2 m AllReturn" using run_wait_reaches [OF run] .
  show ?thesis using wait_for_all_waits [OF r] r s by blast
qed

text \<open>Which waitables \<^verbatim>\<open>WaitForAll\<close> waits for.  The order-dependent ones are all waited for, one by one,
  sorted by address.  The second phase hangs as many waiters as there are other waitables, but into
  the first ones of the argument: it hangs them into exactly the other waitables if and only if those
  come before every order-dependent one.  For a mutex followed by an event, it waits for the mutex,
  which the calling thread owns by then, once more, and not for the event.\<close>

theorem wait_for_all_plan:
  "fst (WaitForAll_plan dependent ws) = sort (filter dependent ws) \<and>
   length (snd (WaitForAll_plan dependent ws)) = length (filter (\<lambda>w. \<not> dependent w) ws) \<and>
   (snd (WaitForAll_plan dependent ws) = filter (\<lambda>w. \<not> dependent w) ws) =
     (ws = filter (\<lambda>w. \<not> dependent w) ws @ filter dependent ws) \<and>
   WaitForAll_plan (\<lambda>w. w = 0x1000) [0x1000, 0x2000] = ([0x1000], [0x1000])"
proof (intro conjI)
  let ?us = "filter (\<lambda>w. \<not> dependent w) ws"
  have front: "ws = filter (\<lambda>w. \<not> P w) ws @ filter P ws"
    if "take (length (filter (\<lambda>w. \<not> P w) ws)) ws = filter (\<lambda>w. \<not> P w) ws" for P :: "addr \<Rightarrow> bool" and ws
    using that
  proof (induction ws)
    case (Cons w ws)
    show ?case
    proof (cases "P w")
      case True
      then have "filter (\<lambda>w. \<not> P w) ws = []"
        using Cons.prems by (cases "filter (\<lambda>w. \<not> P w) ws") (auto dest!: filter_eq_ConsD)
      then show ?thesis using True by (auto simp: filter_empty_conv)
    qed (use Cons in auto)
  qed simp
  show "(snd (WaitForAll_plan dependent ws) = ?us) = (ws = ?us @ filter dependent ws)"
  proof
    assume "ws = ?us @ filter dependent ws"
    then have "take (length ?us) ws = take (length ?us) (?us @ filter dependent ws)" by (rule arg_cong)
    then show "snd (WaitForAll_plan dependent ws) = ?us" by (simp add: WaitForAll_plan_eq)
  qed (use front in \<open>simp add: WaitForAll_plan_eq\<close>)
qed (use length_filter_le [of "\<lambda>w. \<not> dependent w" ws] in \<open>auto simp: WaitForAll_plan_eq\<close>)

section \<open>WaitFor\<close>

datatype for_pc = ForAdd | ForSpin | ForReturn

definition for_init :: "wait_mem" where
  "for_init = \<lparr>status = (\<lambda>_. Unused), posts = 0\<rparr>"

fun WaitFor_step :: "bool \<Rightarrow> wait_mem \<Rightarrow> for_pc \<Rightarrow> (wait_mem \<times> for_pc) option" where
  "WaitFor_step accepted m ForAdd =
     (if accepted then Some (set_status 0 Registered m, ForSpin)
      else Some (set_status 0 Destroyed m, ForReturn))"
| "WaitFor_step accepted m ForSpin =
     map_option (\<lambda>p. (m\<lparr>posts := p\<rparr>, ForReturn)) (Linux_Sem_Wait (posts m))"
| "WaitFor_step accepted m ForReturn = None"

fun for_inv :: "wait_mem \<Rightarrow> for_pc \<Rightarrow> bool" where
  "for_inv m ForAdd \<longleftrightarrow> posts m = 0 \<and> (\<forall>j. status m j = Unused)"
| "for_inv m ForSpin \<longleftrightarrow>
     posts m = of_bool (status m 0 = Called) \<and> live (status m 0) \<and> (\<forall>j. j \<noteq> 0 \<longrightarrow> status m j = Unused)"
| "for_inv m ForReturn \<longleftrightarrow>
     posts m = 0 \<and> (status m 0 = Destroyed \<or> status m 0 = Called) \<and> (\<forall>j. j \<noteq> 0 \<longrightarrow> status m j = Unused)"

interpretation wf: wait_function WaitFor_step for_inv
proof unfold_locales
  fix m pc accepted m' pc'
  assume "for_inv m pc" "WaitFor_step accepted m pc = Some (m', pc')"
  then show "for_inv m' pc'"
    by (cases pc) (auto simp: Linux_Sem_Wait_def live_def fun_upd_apply split: if_splits)
next
  fix m pc i
  assume "for_inv m pc" "status m i = Registered"
  then show "for_inv (set_status i InFlight m) pc"
    by (cases pc; cases i) (auto simp: live_def fun_upd_apply)
next
  fix m pc i
  assume "for_inv m pc" "status m i = InFlight"
  then show "for_inv (poster (set_status i Called m)) pc"
    by (cases pc; cases i) (auto simp: live_def poster_def Linux_Sem_Post_def fun_upd_apply)
qed

text \<open>\<^verbatim>\<open>WaitFor\<close> returns when its waitable refused the waiter or has called it, leaves the semaphore at 0,
  and until then can make a step or waits for the waitable.\<close>

theorem wait_for_waits:
  assumes "rtranclp (wait_step WaitFor_step) (for_init, ForAdd) (m, pc)"
  shows "(pc = ForReturn \<longrightarrow> posts m = 0 \<and> (status m 0 = Destroyed \<or> status m 0 = Called)) \<and>
    (pc = ForReturn \<or> WaitFor_step accepted m pc \<noteq> None \<or> status m 0 = Registered \<or> status m 0 = InFlight)"
proof -
  have "for_inv m pc" by (rule wf.reachable [OF assms]) (simp add: for_init_def)
  then show ?thesis by (cases pc) (auto simp: live_def Linux_Sem_Wait_def)
qed

theorem wait_for_waits_witness:
  "\<exists>m. rtranclp (wait_step WaitFor_step) (for_init, ForAdd) (m, ForReturn) \<and>
     posts m = 0 \<and> status m 0 = Called"
proof -
  obtain m where run: "run_wait WaitFor_step [Inl True, Inr 0, Inr 0, Inl True] (for_init, ForAdd) = Some (m, ForReturn)"
    and s: "status m 0 = Called"
    by (simp add: for_init_def waitable_next_def poster_def Linux_Sem_Wait_def Linux_Sem_Post_def)
  note r = run_wait_reaches [OF run]
  show ?thesis using wait_for_waits [OF r] r s by blast
qed

section \<open>Order-dependent waitables and deadlock\<close>

text \<open>
  Threads that run any scripts of \<^verbatim>\<open>WaitForAll\<close> calls, each of which gives back after a call what it took
  in it, and of \<^verbatim>\<open>Set\<close> and \<^verbatim>\<open>Reset\<close> of events.  The order-dependent waitables are mutexes and semaphores:
  \<open>unitsLeft\<close> counts the units that they have left (a mutex has one); toAdd a waiter takes a unit, or
  hangs the waiter, which gets the next one.  The others are events: \<open>setsOf\<close> counts how often
  the waiters of one have been called; toAdd a waiter to a set event does nothing.
\<close>

record ord_mem =
  unitsLeft :: "addr \<Rightarrow> nat"
  eventIsSet :: "addr \<Rightarrow> bool"
  setsOf :: "addr \<Rightarrow> nat"

datatype ord_op = AllOf "addr list" | SetEvent addr | ResetEvent addr

record ord_thread =
  toWait :: "addr list" \<comment> \<open>of the first phase: still to be waited for, one by one\<close>
  toAdd :: "addr list" \<comment> \<open>of the second phase: still to be given a waiter\<close>
  waitingFor :: "(addr \<times> nat) list" \<comment> \<open>of the second phase: the waiters that were not refused and not called\<close>
  tookOf :: "addr list" \<comment> \<open>taken and not given back\<close>
  waitablesArg :: "addr list" \<comment> \<open>the argument \<^verbatim>\<open>waitables\<close>\<close>
  ordScript :: "ord_op list"

definition ord_take :: "addr \<Rightarrow> ord_mem \<Rightarrow> ord_thread \<Rightarrow> ord_mem \<times> ord_thread" where
  "ord_take w g t = (g\<lparr>unitsLeft := (unitsLeft g)(w := unitsLeft g w - 1)\<rparr>, t\<lparr>tookOf := w # tookOf t\<rparr>)"

text \<open>A waiter of the second phase is called: by a waitable that has a unit again, or by a \<^verbatim>\<open>Set\<close> since.\<close>

definition ord_called :: "(addr \<Rightarrow> bool) \<Rightarrow> ord_mem \<Rightarrow> addr \<times> nat \<Rightarrow> bool" where
  "ord_called dependent g h =
     (if dependent (fst h) then unitsLeft g (fst h) > 0 else setsOf g (fst h) > snd h)"

text \<open>The loop that adds waiters (lines 56 to 58).\<close>

definition ord_add :: "(addr \<Rightarrow> bool) \<Rightarrow> addr \<Rightarrow> ord_mem \<Rightarrow> ord_thread \<Rightarrow> ord_mem \<times> ord_thread" where
  "ord_add dependent w g t =
     (if dependent w then
        if unitsLeft g w > 0 then ord_take w g t else (g, t\<lparr>waitingFor := (w, 0) # waitingFor t\<rparr>)
      else if eventIsSet g w then (g, t)
      else (g, t\<lparr>waitingFor := (w, setsOf g w) # waitingFor t\<rparr>))"

definition ord_step :: "(addr \<Rightarrow> bool) \<Rightarrow> ord_mem \<Rightarrow> ord_thread \<Rightarrow> (ord_mem \<times> ord_thread) option" where
  "ord_step dependent g t =
     (case toWait t of
        w # ws \<Rightarrow> if unitsLeft g w = 0 then None else Some (ord_take w g (t\<lparr>toWait := ws\<rparr>))
      | [] \<Rightarrow> (case toAdd t of
        w # ws \<Rightarrow> Some (ord_add dependent w g (t\<lparr>toAdd := ws\<rparr>))
      | [] \<Rightarrow> (case waitingFor t of
        _ # _ \<Rightarrow>
          (case find (ord_called dependent g) (waitingFor t) of
             None \<Rightarrow> None
           | Some h \<Rightarrow>
               Some (if dependent (fst h) then ord_take (fst h) g (t\<lparr>waitingFor := remove1 h (waitingFor t)\<rparr>)
                     else (g, t\<lparr>waitingFor := remove1 h (waitingFor t)\<rparr>)))
      | [] \<Rightarrow> (case tookOf t of
        w # ws \<Rightarrow> Some (g\<lparr>unitsLeft := (unitsLeft g)(w := unitsLeft g w + 1)\<rparr>, t\<lparr>tookOf := ws\<rparr>)
      | [] \<Rightarrow> (case ordScript t of
          [] \<Rightarrow> None
        | AllOf c # ops \<Rightarrow>
            (let (ordered, unordered) = WaitForAll_plan dependent c
             in Some (g, t\<lparr>toWait := ordered, toAdd := unordered, waitablesArg := c, ordScript := ops\<rparr>))
        | SetEvent e # ops \<Rightarrow>
            Some (g\<lparr>eventIsSet := (eventIsSet g)(e := True), setsOf := (setsOf g)(e := setsOf g e + 1)\<rparr>,
                  t\<lparr>ordScript := ops\<rparr>)
        | ResetEvent e # ops \<Rightarrow>
            Some (g\<lparr>eventIsSet := (eventIsSet g)(e := False)\<rparr>, t\<lparr>ordScript := ops\<rparr>))))))"

definition ord_init :: "(addr \<Rightarrow> nat) \<Rightarrow> (addr \<Rightarrow> bool) \<Rightarrow> ord_mem" where
  "ord_init units set_events = \<lparr>unitsLeft = units, eventIsSet = set_events, setsOf = \<lambda>_. 0\<rparr>"

definition ord_thread_init :: "ord_op list \<Rightarrow> ord_thread" where
  "ord_thread_init ops = \<lparr>toWait = [], toAdd = [], waitingFor = [], tookOf = [], waitablesArg = [], ordScript = ops\<rparr>"

definition ord_finished :: "ord_thread \<Rightarrow> bool" where
  "ord_finished t \<longleftrightarrow> toWait t = [] \<and> toAdd t = [] \<and> waitingFor t = [] \<and> tookOf t = [] \<and> ordScript t = []"

text \<open>The order-independent waitables come first.\<close>

definition independent_first :: "(addr \<Rightarrow> bool) \<Rightarrow> addr list \<Rightarrow> bool" where
  "independent_first dependent ws \<longleftrightarrow> ws = filter (\<lambda>w. \<not> dependent w) ws @ filter dependent ws"

text \<open>In the first phase a thread has what comes before the rest; in the second it has all the
  order-dependent waitables of the call.  \<open>calls\<close> are the calls of the scripts.\<close>

definition ord_ok :: "(addr \<Rightarrow> bool) \<Rightarrow> addr list set \<Rightarrow> ord_thread \<Rightarrow> bool" where
  "ord_ok dependent calls t \<longleftrightarrow>
     sorted_wrt (<) (toWait t) \<and> (\<forall>a \<in> set (tookOf t). \<forall>b \<in> set (toWait t). a < b) \<and>
     (toWait t \<noteq> [] \<longrightarrow> waitingFor t = []) \<and>
     (toWait t \<noteq> [] \<or> toAdd t \<noteq> [] \<or> waitingFor t \<noteq> [] \<longrightarrow>
        waitablesArg t \<in> calls \<and> (\<forall>w \<in> set (waitablesArg t). dependent w \<longrightarrow> w \<in> set (tookOf t) \<or> w \<in> set (toWait t)) \<and>
        set (toAdd t) \<union> fst ` set (waitingFor t) \<subseteq> set (snd (WaitForAll_plan dependent (waitablesArg t)))) \<and>
     (\<forall>c. AllOf c \<in> set (ordScript t) \<longrightarrow> c \<in> calls) \<and> (\<forall>c \<in> calls. distinct c)"

lemma plan_strictly_sorted: "distinct ws \<Longrightarrow> sorted_wrt (<) (fst (WaitForAll_plan dependent ws))"
  by (simp add: WaitForAll_plan_eq strict_sorted_iff)

lemma plan_first_all: "set (fst (WaitForAll_plan dependent ws)) = {w \<in> set ws. dependent w}"
  by (simp add: WaitForAll_plan_eq)

lemma plan_second_among: "set (snd (WaitForAll_plan dependent ws)) \<subseteq> set ws"
  by (auto simp: WaitForAll_plan_eq dest: in_set_takeD)

lemma plan_second_independent:
  assumes "independent_first dependent ws" and "w \<in> set (snd (WaitForAll_plan dependent ws))"
  shows "\<not> dependent w"
proof -
  let ?us = "filter (\<lambda>w. \<not> dependent w) ws"
  have "take (length ?us) ws = take (length ?us) (?us @ filter dependent ws)"
    using assms(1) unfolding independent_first_def by (rule arg_cong)
  then show ?thesis using assms(2) by (auto simp: WaitForAll_plan_eq)
qed

text \<open>What a step can be.\<close>

lemma ord_step_cases:
  assumes "ord_step dependent g t = Some (g', t')"
  obtains (first) w ws where "toWait t = w # ws" "unitsLeft g w \<noteq> 0" "(g', t') = ord_take w g (t\<lparr>toWait := ws\<rparr>)"
  | (add) w ws where "toWait t = []" "toAdd t = w # ws" "(g', t') = ord_add dependent w g (t\<lparr>toAdd := ws\<rparr>)"
  | (called) h where "toWait t = []" "toAdd t = []" "h \<in> set (waitingFor t)" "ord_called dependent g h"
      "(g', t') = (if dependent (fst h) then ord_take (fst h) g (t\<lparr>waitingFor := remove1 h (waitingFor t)\<rparr>)
                   else (g, t\<lparr>waitingFor := remove1 h (waitingFor t)\<rparr>))"
  | (release) w ws where "toWait t = []" "toAdd t = []" "waitingFor t = []" "tookOf t = w # ws"
      "g' = g\<lparr>unitsLeft := (unitsLeft g)(w := unitsLeft g w + 1)\<rparr>" "t' = t\<lparr>tookOf := ws\<rparr>"
  | (call) c ops where "toWait t = []" "toAdd t = []" "waitingFor t = []" "tookOf t = []" "ordScript t = AllOf c # ops" "g' = g"
      "t' = t\<lparr>toWait := fst (WaitForAll_plan dependent c), toAdd := snd (WaitForAll_plan dependent c),
              waitablesArg := c, ordScript := ops\<rparr>"
  | (event) op ops where "toWait t = []" "toAdd t = []" "waitingFor t = []" "tookOf t = []" "ordScript t = op # ops"
      "unitsLeft g' = unitsLeft g" "t' = t\<lparr>ordScript := ops\<rparr>"
proof (cases "toWait t")
  case (Cons w ws)
  then show ?thesis using assms first by (auto simp: ord_step_def split: if_splits)
next
  case toWait: Nil
  show ?thesis
  proof (cases "toAdd t")
    case (Cons w ws)
    then show ?thesis using assms toWait add by (auto simp: ord_step_def)
  next
    case toAdd: Nil
    show ?thesis
    proof (cases "waitingFor t")
      case (Cons h' hs)
      then obtain h where h: "find (ord_called dependent g) (waitingFor t) = Some h"
        and r: "(g', t') = (if dependent (fst h) then ord_take (fst h) g (t\<lparr>waitingFor := remove1 h (waitingFor t)\<rparr>)
                   else (g, t\<lparr>waitingFor := remove1 h (waitingFor t)\<rparr>))"
        using assms toWait toAdd by (auto simp: ord_step_def split: option.splits)
      have "h \<in> set (waitingFor t)" "ord_called dependent g h" using h by (auto simp: find_Some_iff)
      then show ?thesis using called toWait toAdd r by blast
    next
      case waitingFor: Nil
      show ?thesis
      proof (cases "tookOf t")
        case (Cons w ws)
        then show ?thesis using assms toWait toAdd waitingFor release by (auto simp: ord_step_def)
      next
        case tookOf: Nil
        show ?thesis using assms toWait toAdd waitingFor tookOf call event
          by (auto simp: ord_step_def split: list.splits ord_op.splits prod.splits)
      qed
    qed
  qed
qed

lemma ord_step_stuck:
  assumes "ord_step dependent g t = None"
  shows "(\<exists>w ws. toWait t = w # ws \<and> unitsLeft g w = 0) \<or>
    toWait t = [] \<and> waitingFor t \<noteq> [] \<and> (\<forall>h \<in> set (waitingFor t). \<not> ord_called dependent g h) \<or> ord_finished t"
  using assms
  by (auto simp: ord_step_def ord_finished_def find_None_iff
      split: list.splits if_splits option.splits ord_op.splits prod.splits)

lemma ord_take_eq:
  "(g', t') = ord_take w g t \<longleftrightarrow> g' = g\<lparr>unitsLeft := (unitsLeft g)(w := unitsLeft g w - 1)\<rparr> \<and> t' = t\<lparr>tookOf := w # tookOf t\<rparr>"
  by (auto simp: ord_take_def)

lemma ord_ok_step:
  assumes ok: "ord_ok dependent calls t" and st: "ord_step dependent g t = Some (g', t')"
  shows "ord_ok dependent calls t'"
  using st
proof (cases rule: ord_step_cases)
  case (first w ws)
  then show ?thesis using ok by (auto simp: ord_ok_def ord_take_eq)
next
  case (add w ws)
  then show ?thesis using ok by (auto simp: ord_ok_def ord_add_def ord_take_def split: if_splits)
next
  case (called h)
  have "set (remove1 h (waitingFor t)) \<subseteq> set (waitingFor t)" by (rule set_remove1_subset)
  then have sub: "fst ` set (remove1 h (waitingFor t)) \<subseteq> fst ` set (waitingFor t)" by (rule image_mono)
  have same: "tookOf t' = fst h # tookOf t \<or> tookOf t' = tookOf t" "toWait t' = []" "toAdd t' = []"
    "waitingFor t' = remove1 h (waitingFor t)" "waitablesArg t' = waitablesArg t" "ordScript t' = ordScript t"
    using called by (auto simp: ord_take_def split: if_splits)
  have cur: "waitablesArg t \<in> calls" "\<And>w. w \<in> set (waitablesArg t) \<Longrightarrow> dependent w \<Longrightarrow> w \<in> set (tookOf t)"
    and plan: "fst ` set (waitingFor t) \<subseteq> set (snd (WaitForAll_plan dependent (waitablesArg t)))"
    using ok called(1-3) by (auto simp: ord_ok_def)
  have "\<And>a b. (a, b) \<in> set (remove1 h (waitingFor t)) \<Longrightarrow> a \<in> set (snd (WaitForAll_plan dependent (waitablesArg t)))"
    using sub plan by force
  then show ?thesis using ok cur same by (auto simp: ord_ok_def)
next
  case (call c ops)
  then have c: "c \<in> calls" "distinct c" using ok by (auto simp: ord_ok_def)
  then show ?thesis using ok call plan_strictly_sorted [of c dependent] plan_first_all [of dependent c]
    by (auto simp: ord_ok_def)
qed (use ok in \<open>auto simp: ord_ok_def\<close>)

lemma ord_units_step:
  assumes st: "ord_step dependent g t = Some (g', t')"
  shows "unitsLeft g' a + count_list (tookOf t') a = unitsLeft g a + count_list (tookOf t) a"
  using st
  by (cases rule: ord_step_cases)
    (auto simp: ord_take_def ord_add_def ord_called_def fun_upd_apply split: if_splits)

interpretation od: token_systems "ord_step dependent" "\<lambda>_. True" "ord_ok dependent calls"
  "\<lambda>a g. unitsLeft g a" "\<lambda>a t. count_list (tookOf t) a" units
  by unfold_locales (use ord_ok_step ord_units_step in blast)

definition calls_of :: "ord_op list list \<Rightarrow> addr list set" where
  "calls_of scripts = {c. \<exists>ops \<in> set scripts. AllOf c \<in> set ops}"

lemma ord_reachable:
  assumes "executes (ord_step dependent) (ord_init units set_events, map ord_thread_init scripts) (g, ts)"
    and "\<forall>c \<in> calls_of scripts. distinct c"
  shows "\<forall>t \<in> set ts. ord_ok dependent (calls_of scripts) t"
    and "unitsLeft g a + sum_list (map (\<lambda>t. count_list (tookOf t) a) ts) = units a"
proof -
  have z: "sum_list (map (\<lambda>t. count_list (tookOf t) a) (map ord_thread_init scripts)) = 0" for a
    by (induction scripts) (simp_all add: ord_thread_init_def)
  have "\<forall>t \<in> set (map ord_thread_init scripts). ord_ok dependent (calls_of scripts) t"
    using assms(2) by (auto simp: ord_ok_def ord_thread_init_def calls_of_def)
  from od.executes_all_tokens [OF assms(1) _ this, of units] z
  show "\<forall>t \<in> set ts. ord_ok dependent (calls_of scripts) t"
    and "unitsLeft g a + sum_list (map (\<lambda>t. count_list (tookOf t) a) ts) = units a"
    by (simp_all add: ord_init_def)
qed

text \<open>When every thread that cannot move waits in its first phase, or has finished, all have finished.\<close>

lemma ordered_phase_ends:
  assumes ok: "\<And>t. t \<in> set ts \<Longrightarrow> ord_ok dependent calls t"
    and units: "\<And>a. unitsLeft g a + sum_list (map (\<lambda>t. count_list (tookOf t) a) ts) = units a" "\<And>a. 0 < units a"
    and stuck: "\<And>t. t \<in> set ts \<Longrightarrow> (\<exists>w ws. toWait t = w # ws \<and> unitsLeft g w = 0) \<or> ord_finished t"
    and t: "t \<in> set ts"
  shows "ord_finished t"
proof (rule ccontr)
  let ?B = "{u \<in> set ts. toWait u \<noteq> []}"
  assume "\<not> ord_finished t"
  then have "finite ?B" "?B \<noteq> {}" using stuck [OF t] t by auto
  then have "Max ((\<lambda>u. hd (toWait u)) ` ?B) \<in> (\<lambda>u. hd (toWait u)) ` ?B" by (intro Max_in) auto
  then obtain m where m: "m \<in> ?B" "hd (toWait m) = Max ((\<lambda>u. hd (toWait u)) ` ?B)" by auto
  have max: "hd (toWait u) \<le> hd (toWait m)" if "u \<in> ?B" for u
    unfolding m(2) using \<open>finite ?B\<close> that by (intro Max_ge) auto
  obtain w ws where w: "toWait m = w # ws" "unitsLeft g w = 0"
    using stuck [of m] m(1) by (auto simp: ord_finished_def)
  then have "sum_list (map (\<lambda>t. count_list (tookOf t) w) ts) \<noteq> 0" using units [of w] by simp
  then obtain u where u: "u \<in> set ts" "w \<in> set (tookOf u)"
    by (auto simp: sum_list_eq_0_iff count_list_0_iff)
  then obtain v vs where v: "toWait u = v # vs" using stuck [OF u(1)] by (auto simp: ord_finished_def)
  then have "w < v" using ok [OF u(1)] u(2) by (auto simp: ord_ok_def)
  then show False using max [of u] u(1) v w by auto
qed


text \<open>Two threads that name two mutexes in opposite orders, one of them with an event, which the other sets.\<close>

lemmas ord_eval = ord_thread_init_def ord_init_def ord_step_def ord_take_def ord_add_def ord_called_def
  WaitForAll_plan_eq fun_upd_apply


text \<open>The other wait happens: with the mutex before the event, the thread waits for the mutex that it owns,
  for ever, even though the event is set.\<close>

theorem wait_for_all_self_deadlock:
  "\<exists>g t. executes (ord_step (\<lambda>w. w < 8)) (ord_init (\<lambda>_. 1) (\<lambda>_. True), [ord_thread_init [AllOf [1, 9]]]) (g, [t]) \<and>
     ord_step (\<lambda>w. w < 8) g t = None \<and> waitingFor t = [(1, 0)] \<and> tookOf t = [1] \<and> eventIsSet g 9"
proof -
  obtain g t where run: "run_sched (ord_step (\<lambda>w. w < 8)) [0,0,0]
      (ord_init (\<lambda>_. 1) (\<lambda>_. True), [ord_thread_init [AllOf [1, 9]]]) = Some (g, [t])"
    and r: "ord_step (\<lambda>w. w < 8) g t = None" "waitingFor t = [(1, 0)]" "tookOf t = [1]" "eventIsSet g 9"
    by (simp add: ord_eval)
  then show ?thesis using run_sched_executes [OF run] by blast
qed

end
