(* ===== verification/Meta_Scheduler.thy ===== *)
theory Meta_Scheduler
  imports Wait_Functions
begin

text \<open>
  The scheduling loop of meta_scheduler.cpp (\<^verbatim>\<open>MetaScheduler::ContextImpl::Run\<close>) with the configuration
  and the throttlers it uses.

  The cooperative schedulers are the environment of the loop: what their \<^verbatim>\<open>Run\<close> answers, whether
  their has-work condition accepts a waiter, and when it calls it, are choices of the environment,
  as are the answers of the waitable \<^verbatim>\<open>until\<close>.  Everything that the code does under \<^verbatim>\<open>stateLock\<close>
  without waiting is one step; a step list of the loop after \<^verbatim>\<open>stopped:\<close>, which keeps the lock, excludes
  the callbacks.
\<close>

section \<open>Run modes and configuration\<close>

datatype mode_type = TYPE_DISABLED | TYPE_SOME | TYPE_TIMED | TYPE_ALL

record RunMode =
  mType :: mode_type
  mCount :: u32
  mDuration :: nat

definition RunMode_Disabled :: RunMode where
  "RunMode_Disabled = \<lparr>mType = TYPE_DISABLED, mCount = 0, mDuration = 0\<rparr>"

definition RunMode_Some :: "u32 \<Rightarrow> RunMode" where
  "RunMode_Some count = \<lparr>mType = TYPE_SOME, mCount = count, mDuration = 0\<rparr>"

definition RunMode_Timed :: "nat \<Rightarrow> RunMode" where
  "RunMode_Timed duration = \<lparr>mType = TYPE_TIMED, mCount = 0, mDuration = duration\<rparr>"

definition RunMode_All :: RunMode where
  "RunMode_All = \<lparr>mType = TYPE_ALL, mCount = 0, mDuration = 0\<rparr>"

text \<open>\<^verbatim>\<open>AddScheduler\<close>: the entries are the ids and default modes; \<open>None\<close> is the failed assertion.\<close>

type_synonym scheduler_info = "u32 \<times> RunMode"

definition Config_AddScheduler :: "u32 \<Rightarrow> RunMode \<Rightarrow> scheduler_info list \<Rightarrow> scheduler_info list option" where
  "Config_AddScheduler i defaultRunMode schedulers =
     (if find (\<lambda>info. fst info = i) schedulers = None then Some (schedulers @ [(i, defaultRunMode)]) else None)"

text \<open>The mode \<^verbatim>\<open>Run\<close> gives a scheduler: the override of the meta thread, else its default.  A disabled
  scheduler gets no state.\<close>

definition effective_mode :: "(u32 \<rightharpoonup> RunMode) \<Rightarrow> scheduler_info \<Rightarrow> RunMode" where
  "effective_mode overrides info =
     (case overrides (fst info) of None \<Rightarrow> snd info | Some mode \<Rightarrow> mode)"

fun make_states :: "(u32 \<rightharpoonup> RunMode) \<Rightarrow> scheduler_info list \<Rightarrow> scheduler_info list" where
  "make_states overrides [] = []"
| "make_states overrides (info # infos) =
     (if mType (effective_mode overrides info) \<noteq> TYPE_DISABLED
      then (fst info, effective_mode overrides info) # make_states overrides infos
      else make_states overrides infos)"

text \<open>The throttlers.  A throttler is asked before each piece of work; its state is its count.\<close>

datatype run_function = RunAll | RunSome | RunTimed

definition RunFunctionFromRunMode :: "RunMode \<Rightarrow> run_function option" where
  "RunFunctionFromRunMode mode = (case mType mode of
     TYPE_ALL \<Rightarrow> Some RunAll
   | TYPE_SOME \<Rightarrow> Some RunSome
   | TYPE_TIMED \<Rightarrow> Some RunTimed
   | TYPE_DISABLED \<Rightarrow> None)"

definition ShouldYield_All :: "bool \<Rightarrow> bool" where
  "ShouldYield_All stop = stop"

definition ShouldYield_Some :: "bool \<Rightarrow> u32 \<Rightarrow> bool \<times> u32" where
  "ShouldYield_Some stop count = (if stop \<or> count = 0 then (True, count) else (False, count - 1))"

definition ShouldYield_Timed :: "bool \<Rightarrow> nat \<Rightarrow> nat \<Rightarrow> bool" where
  "ShouldYield_Timed stop elapsed maxDuration = (stop \<or> elapsed > maxDuration)"

section \<open>The loop\<close>

datatype sched_state = Idle | Working | Polling

record run_mem =
  metaThreads :: nat \<comment> \<open>idle meta threads of the owner\<close>
  stop :: bool
  activeCount :: int
  lastState :: "nat \<Rightarrow> sched_state"
  active :: "nat list" \<comment> \<open>\<^verbatim>\<open>activeSchedulers\<close>, by index\<close>
  idle :: "nat list"
  pollingCount :: int
  hasWork :: "nat \<Rightarrow> wstatus" \<comment> \<open>where the waiter of a scheduler is\<close>
  untilWaiter :: wstatus
  woken :: bool \<comment> \<open>\<^verbatim>\<open>WakeAll\<close> since the last wait began\<close>
  yields :: nat

datatype run_pc =
    RAcquire | RRegister | RTop | RCheck | RMerge
  | RVisit nat | RRunner nat | RAdd nat
  | RIdleTest | RIdleLoop | RIdleSleep | RPollTest
  | RStopped | RStop "nat list" | RStopWait nat "nat list" | RStopSleep nat "nat list"
  | RRelease | RDestroy | RReturn
  | RNone \<comment> \<open>returned without a meta thread\<close>

text \<open>The choices of the environment: the answer of a scheduler and of \<^verbatim>\<open>AddWaiter\<close> in a step of the
  loop; a has-work condition that takes its waiter and, later, calls it; the same for \<^verbatim>\<open>until\<close>.\<close>

datatype run_act = Loop sched_state bool | TakeWaiter nat | NotifyReady nat | TakeUntil | UntilCallback

definition run_init :: "nat \<Rightarrow> nat \<Rightarrow> run_mem" where
  "run_init pool n =
     \<lparr>metaThreads = pool, stop = False, activeCount = int n, lastState = (\<lambda>_. Working),
      active = [0..<n], idle = [], pollingCount = 0, hasWork = (\<lambda>_. Unused), untilWaiter = Unused,
      woken = False, yields = 0\<rparr>"

text \<open>The two callbacks.\<close>

definition notifyReady :: "nat \<Rightarrow> run_mem \<Rightarrow> run_mem" where
  "notifyReady i m =
     m\<lparr>woken := (woken m \<or> activeCount m = 0), activeCount := activeCount m + 1,
       lastState := (lastState m)(i := Working), hasWork := (hasWork m)(i := Called)\<rparr>"

definition untilCallback :: "run_mem \<Rightarrow> run_mem" where
  "untilCallback m = m\<lparr>stop := True, woken := (woken m \<or> activeCount m = 0), untilWaiter := Called\<rparr>"

text \<open>The schedulers that have become ready go back to the active ones (lines 396--409).\<close>

definition merge_ready :: "run_mem \<Rightarrow> run_mem" where
  "merge_ready m =
     (let as = active m @ filter (\<lambda>i. lastState m i \<noteq> Idle) (idle m)
      in m\<lparr>active := as, idle := filter (\<lambda>i. lastState m i = Idle) (idle m), activeCount := int (length as)\<rparr>)"

text \<open>A scheduler that answered \<open>st\<close>, other than idle (lines 441--449).\<close>

definition record_state :: "nat \<Rightarrow> sched_state \<Rightarrow> run_mem \<Rightarrow> run_mem" where
  "record_state i st m =
     (if st \<noteq> lastState m i
      then m\<lparr>pollingCount := pollingCount m + (if st = Polling then 1 else - 1),
             lastState := (lastState m)(i := st)\<rparr>
      else m)"

text \<open>The section under the lock of lines 425--437, for the active scheduler at position \<open>k\<close>.\<close>

definition go_idle :: "nat \<Rightarrow> bool \<Rightarrow> run_mem \<Rightarrow> run_mem \<times> run_pc" where
  "go_idle k accepted m =
     (let i = active m ! k
      in if accepted
         then (m\<lparr>hasWork := (hasWork m)(i := Registered), lastState := (lastState m)(i := Idle),
                 idle := idle m @ [i], active := take k (active m) @ drop (Suc k) (active m),
                 activeCount := activeCount m - 1\<rparr>, RVisit k)
         else (m\<lparr>lastState := (lastState m)(i := Working)\<rparr>, RVisit (k + 1)))"

text \<open>The destructor of \<^verbatim>\<open>SchedulerState\<close> destroys the has-work waiter.\<close>

definition SchedulerState_destroy :: "bool \<Rightarrow> wstatus \<Rightarrow> wstatus" where
  "SchedulerState_destroy exists w = (if exists then Destroyed else w)"

text \<open>\<^verbatim>\<open>RAcquire\<close> is \<^verbatim>\<open>AcquireMetaThread(until)\<close>, which theory Meta\_Threads models: it comes back without a
  meta thread when \<^verbatim>\<open>until\<close> refuses the waiter or is signalled first, else it waits for one.\<close>

fun Run_step :: "sched_state \<Rightarrow> bool \<Rightarrow> run_mem \<Rightarrow> run_pc \<Rightarrow> (run_mem \<times> run_pc) option" where
  "Run_step st accepted m RAcquire =
     (if \<not> accepted then Some (m, RNone)
      else if metaThreads m = 0 then None else Some (m\<lparr>metaThreads := metaThreads m - 1\<rparr>, RRegister))"
| "Run_step st accepted m RRegister =
     (if accepted then Some (m\<lparr>untilWaiter := Registered\<rparr>, RTop) else Some (m, RReturn))"
| "Run_step st accepted m RTop = Some (m, if stop m then RStopped else RCheck)"
| "Run_step st accepted m RCheck =
     Some (m, if activeCount m \<noteq> int (length (active m)) then RMerge else RVisit 0)"
| "Run_step st accepted m RMerge = Some (merge_ready m, RVisit 0)"
| "Run_step st accepted m (RVisit k) =
     (if k < length (active m) then Some (m, if stop m then RStopped else RRunner k)
      else Some (m, RIdleTest))"
| "Run_step st accepted m (RRunner k) =
     (let i = active m ! k
      in if st = Idle
         then Some (if lastState m i = Polling then m\<lparr>pollingCount := pollingCount m - 1\<rparr> else m, RAdd k)
         else Some (record_state i st m, RVisit (k + 1)))"
| "Run_step st accepted m (RAdd k) = Some (go_idle k accepted m)"
| "Run_step st accepted m RIdleTest = Some (m, if active m = [] then RIdleLoop else RPollTest)"
| "Run_step st accepted m RIdleLoop =
     (if activeCount m = 0
      then (if stop m then Some (m, RStopped) else Some (m\<lparr>woken := False\<rparr>, RIdleSleep))
      else Some (m, RPollTest))"
| "Run_step st accepted m RIdleSleep = (if woken m then Some (m, RIdleLoop) else None)"
| "Run_step st accepted m RPollTest =
     Some (if int (length (active m)) = pollingCount m then m\<lparr>yields := yields m + 1\<rparr> else m, RTop)"
| "Run_step st accepted m RStopped = Some (m, RStop (idle m))"
| "Run_step st accepted m (RStop []) = Some (m, RRelease)"
| "Run_step st accepted m (RStop (i # is)) =
     (if hasWork m i = Registered then Some (m\<lparr>hasWork := (hasWork m)(i := Taken)\<rparr>, RStop is)
      else Some (m, RStopWait i is))"
| "Run_step st accepted m (RStopWait i is) =
     (if lastState m i = Idle then Some (m\<lparr>woken := False\<rparr>, RStopSleep i is) else Some (m, RStop is))"
| "Run_step st accepted m (RStopSleep i is) = (if woken m then Some (m, RStopWait i is) else None)"
| "Run_step st accepted m RRelease = Some (m\<lparr>metaThreads := metaThreads m + 1\<rparr>, RDestroy)"
| "Run_step st accepted m RDestroy =
     Some (m\<lparr>hasWork := (\<lambda>i. SchedulerState_destroy (i \<in> set (active m @ idle m)) (hasWork m i))\<rparr>, RReturn)"
| "Run_step st accepted m RReturn = None"
| "Run_step st accepted m RNone = None"

text \<open>The loop holds \<^verbatim>\<open>stateLock\<close> between two steps.\<close>

fun holds_lock :: "run_pc \<Rightarrow> bool" where
  "holds_lock (RStop is) \<longleftrightarrow> True"
| "holds_lock (RStopWait i is) \<longleftrightarrow> True"
| "holds_lock _ \<longleftrightarrow> False"

fun run_next :: "run_act \<Rightarrow> run_mem \<times> run_pc \<Rightarrow> (run_mem \<times> run_pc) option" where
  "run_next (Loop st accepted) (m, pc) = Run_step st accepted m pc"
| "run_next (TakeWaiter i) (m, pc) =
     (if hasWork m i = Registered then Some (m\<lparr>hasWork := (hasWork m)(i := InFlight)\<rparr>, pc) else None)"
| "run_next (NotifyReady i) (m, pc) =
     (if hasWork m i = InFlight \<and> \<not> holds_lock pc then Some (notifyReady i m, pc) else None)"
| "run_next TakeUntil (m, pc) =
     (if untilWaiter m = Registered then Some (m\<lparr>untilWaiter := InFlight\<rparr>, pc) else None)"
| "run_next UntilCallback (m, pc) =
     (if untilWaiter m = InFlight \<and> \<not> holds_lock pc then Some (untilCallback m, pc) else None)"

section \<open>Invariants of the loop\<close>

text \<open>
  \<open>rs\<close> are the idle schedulers whose waiters the loop has not dealt with after \<^verbatim>\<open>stopped:\<close> (all idle
  ones before); \<open>adj\<close> is 1 where the loop has counted a polling scheduler out and not yet recorded
  its new state.
\<close>

definition ready :: "run_mem \<Rightarrow> nat list \<Rightarrow> nat" where
  "ready m xs = length (filter (\<lambda>i. lastState m i \<noteq> Idle) xs)"

definition polling :: "run_mem \<Rightarrow> nat list \<Rightarrow> nat" where
  "polling m xs = length (filter (\<lambda>i. lastState m i = Polling) xs)"

definition idle_ok :: "run_mem \<Rightarrow> nat \<Rightarrow> bool" where
  "idle_ok m i \<longleftrightarrow> (lastState m i = Idle \<and> (hasWork m i = Registered \<or> hasWork m i = InFlight)) \<or>
     (lastState m i = Working \<and> hasWork m i = Called)"

definition off :: "run_mem \<Rightarrow> nat \<Rightarrow> bool" where
  "off m i \<longleftrightarrow> hasWork m i = Unused \<or> hasWork m i = Called \<or> hasWork m i = Taken"

definition sched_inv :: "nat \<Rightarrow> nat list \<Rightarrow> int \<Rightarrow> run_mem \<Rightarrow> bool" where
  "sched_inv n rs adj m \<longleftrightarrow>
     distinct (active m @ idle m) \<and> set (active m) \<union> set (idle m) = {..<n} \<and>
     activeCount m = int (length (active m) + ready m (idle m)) \<and>
     pollingCount m + adj = int (polling m (active m)) \<and>
     (\<forall>i \<in> set (active m). lastState m i \<noteq> Idle \<and> (hasWork m i = Unused \<or> hasWork m i = Called)) \<and>
     set rs \<subseteq> set (idle m) \<and> (\<forall>i \<in> set rs. idle_ok m i) \<and>
     (\<forall>i. i \<notin> set rs \<longrightarrow> off m i) \<and> distinct rs"

lemma ready_append [simp]: "ready m (xs @ ys) = ready m xs + ready m ys"
  and ready_Cons [simp]: "ready m (x # xs) = of_bool (lastState m x \<noteq> Idle) + ready m xs"
  and ready_Nil [simp]: "ready m [] = 0"
  by (simp_all add: ready_def)

lemma polling_append [simp]: "polling m (xs @ ys) = polling m xs + polling m ys"
  and polling_Cons [simp]: "polling m (x # xs) = of_bool (lastState m x = Polling) + polling m xs"
  and polling_Nil [simp]: "polling m [] = 0"
  by (simp_all add: polling_def)

text \<open>Both counts look at the states of the listed schedulers only.\<close>

lemma counts_cong:
  assumes "\<And>i. i \<in> set xs \<Longrightarrow> lastState m i = lastState m' i"
  shows "ready m xs = ready m' xs" and "polling m xs = polling m' xs"
  using assms unfolding ready_def polling_def
  by (auto intro!: arg_cong [where f = length] filter_cong)

lemma ready_upd:
  "distinct xs \<Longrightarrow> i \<in> set xs \<Longrightarrow> lastState m i = Idle \<Longrightarrow> lastState m' = (lastState m)(i := Working) \<Longrightarrow>
   ready m' xs = Suc (ready m xs)"
proof (induction xs)
  case (Cons x xs)
  have "ready m' xs = ready m xs" if "i \<notin> set xs"
    using that Cons.prems(4) by (intro counts_cong) (auto simp: fun_upd_apply)
  then show ?case using Cons by (cases "x = i") (auto simp: fun_upd_apply)
qed simp

lemma sched_notify:
  assumes inv: "sched_inv n rs adj m" and f: "hasWork m i = InFlight"
  shows "sched_inv n rs adj (notifyReady i m)"
proof -
  have rs: "i \<in> set rs" using inv f by (force simp: sched_inv_def off_def)
  then have i: "i \<in> set (idle m)" "i \<notin> set (active m)" "lastState m i = Idle"
    using inv f by (auto simp: sched_inv_def idle_ok_def)
  have "ready (notifyReady i m) (idle m) = Suc (ready m (idle m))"
    using inv i by (intro ready_upd) (auto simp: sched_inv_def notifyReady_def)
  moreover have "polling (notifyReady i m) (active m) = polling m (active m)"
    using i by (intro counts_cong) (auto simp: notifyReady_def fun_upd_apply)
  ultimately show ?thesis using inv rs i
    by (auto simp: sched_inv_def notifyReady_def idle_ok_def off_def fun_upd_apply)
qed

lemma sched_take:
  assumes inv: "sched_inv n rs adj m" and f: "hasWork m i = Registered"
  shows "sched_inv n rs adj (m\<lparr>hasWork := (hasWork m)(i := InFlight)\<rparr>)"
proof -
  have rs: "i \<in> set rs" using inv f by (force simp: sched_inv_def off_def)
  then have i: "i \<in> set (idle m)" "i \<notin> set (active m)" "lastState m i = Idle"
    using inv f by (auto simp: sched_inv_def idle_ok_def)
  have "ready (m\<lparr>hasWork := w\<rparr>) xs = ready m xs" "polling (m\<lparr>hasWork := w\<rparr>) xs = polling m xs" for w xs
    by (auto intro!: counts_cong)
  then show ?thesis using inv rs i
    by (auto simp: sched_inv_def idle_ok_def off_def fun_upd_apply)
qed

text \<open>Fields the invariant does not read.\<close>

lemma sched_inv_frame [simp]:
  "sched_inv n rs adj (m\<lparr>metaThreads := p\<rparr>) = sched_inv n rs adj m"
  "sched_inv n rs adj (m\<lparr>stop := b\<rparr>) = sched_inv n rs adj m"
  "sched_inv n rs adj (m\<lparr>woken := b\<rparr>) = sched_inv n rs adj m"
  "sched_inv n rs adj (m\<lparr>untilWaiter := w\<rparr>) = sched_inv n rs adj m"
  "sched_inv n rs adj (m\<lparr>yields := y\<rparr>) = sched_inv n rs adj m"
  by (simp_all add: sched_inv_def ready_def polling_def idle_ok_def off_def)

lemma sched_merge:
  assumes inv: "sched_inv n (idle m) 0 m"
  shows "sched_inv n (idle (merge_ready m)) 0 (merge_ready m)"
proof -
  let ?m = "merge_ready m"
  have same: "lastState ?m = lastState m" "hasWork ?m = hasWork m" "pollingCount ?m = pollingCount m"
    by (simp_all add: merge_ready_def Let_def)
  have lists: "active ?m = active m @ filter (\<lambda>i. lastState m i \<noteq> Idle) (idle m)"
    "idle ?m = filter (\<lambda>i. lastState m i = Idle) (idle m)"
    "activeCount ?m = int (length (active ?m))"
    by (simp_all add: merge_ready_def Let_def)
  have "polling m (filter (\<lambda>i. lastState m i \<noteq> Idle) (idle m)) = 0"
    using inv by (auto simp: polling_def sched_inv_def idle_ok_def filter_empty_conv)
  moreover have "ready ?m (idle ?m) = 0" by (simp add: ready_def same lists)
  ultimately show ?thesis using inv counts_cong(2) [of "active m" ?m m] same
    by (auto simp: sched_inv_def lists same idle_ok_def off_def polling_def)
qed

lemma active_split:
  assumes "k < length (active m)"
  obtains as i bs where "active m = as @ i # bs" "k = length as" "active m ! k = i"
  using id_take_nth_drop [OF assms] assms by (metis length_take min.absorb2 less_imp_le)

text \<open>A scheduler that is running answers.\<close>

lemma sched_record:
  assumes inv: "sched_inv n rs 0 m" and k: "k < length (active m)" and st: "st \<noteq> Idle"
  shows "sched_inv n rs 0 (record_state (active m ! k) st m)"
proof -
  obtain as i bs where a: "active m = as @ i # bs" "k = length as" "active m ! k = i"
    using k by (rule active_split)
  have i: "i \<notin> set (idle m)" "i \<notin> set rs" "i \<notin> set as" "i \<notin> set bs" "lastState m i \<noteq> Idle"
    using inv a by (auto simp: sched_inv_def)
  show ?thesis
  proof (cases "st = lastState m i")
    case False
    let ?m = "record_state i st m"
    have "lastState ?m j = lastState m j" if "j \<noteq> i" for j
      using that by (simp add: record_state_def)
    then have "ready ?m (idle m) = ready m (idle m)" "polling ?m as = polling m as" "polling ?m bs = polling m bs"
      using i by (metis counts_cong(1), metis counts_cong(2), metis counts_cong(2))
    moreover have "st = Polling \<and> lastState m i = Working \<or> st = Working \<and> lastState m i = Polling"
      using False st i(5) by (cases st; cases "lastState m i") auto
    ultimately show ?thesis using inv i False
      by (auto simp: a sched_inv_def record_state_def idle_ok_def off_def fun_upd_apply)
  qed (use inv a in \<open>simp add: record_state_def\<close>)
qed

lemma sched_poll_out:
  assumes inv: "sched_inv n rs 0 m" and k: "k < length (active m)"
  shows "sched_inv n rs (of_bool (lastState m (active m ! k) = Polling))
    (if lastState m (active m ! k) = Polling then m\<lparr>pollingCount := pollingCount m - 1\<rparr> else m)"
  using inv by (auto simp: sched_inv_def ready_def polling_def idle_ok_def off_def)

lemma sched_go_idle:
  assumes inv: "sched_inv n (idle m) (of_bool (lastState m (active m ! k) = Polling)) m"
    and k: "k < length (active m)" and go: "go_idle k accepted m = (m', pc')"
  shows "sched_inv n (idle m') 0 m'"
proof -
  obtain as i bs where a: "active m = as @ i # bs" "k = length as" "active m ! k = i"
    using k by (rule active_split)
  have i: "i \<notin> set (idle m)" "i \<notin> set as" "i \<notin> set bs" "lastState m i \<noteq> Idle"
    using inv a by (auto simp: sched_inv_def)
  have "lastState m' j = lastState m j" if "j \<noteq> i" for j
    using that go a by (auto simp: go_idle_def split: if_splits)
  then have same: "ready m' (idle m) = ready m (idle m)" "polling m' as = polling m as" "polling m' bs = polling m bs"
    using i by (metis counts_cong(1), metis counts_cong(2), metis counts_cong(2))
  show ?thesis
  proof (cases accepted)
    case True
    then have m': "m' = m\<lparr>hasWork := (hasWork m)(i := Registered), lastState := (lastState m)(i := Idle),
        idle := idle m @ [i], active := as @ bs, activeCount := activeCount m - 1\<rparr>"
      using go a by (simp add: go_idle_def)
    have "{..<n} = insert i (set as \<union> set bs \<union> set (idle m))" using inv a by (auto simp: sched_inv_def)
    then show ?thesis using inv i same a unfolding m'
      by (auto simp: sched_inv_def idle_ok_def off_def fun_upd_apply)
  next
    case False
    then have m': "m' = m\<lparr>lastState := (lastState m)(i := Working)\<rparr>" using go a by (simp add: go_idle_def)
    show ?thesis using inv i same a unfolding m'
      by (auto simp: sched_inv_def idle_ok_def off_def fun_upd_apply)
  qed
qed

lemma sched_remove:
  assumes inv: "sched_inv n (i # rs) 0 m" and r: "hasWork m i = Registered"
  shows "sched_inv n rs 0 (m\<lparr>hasWork := (hasWork m)(i := Taken)\<rparr>)"
proof -
  have "ready (m\<lparr>hasWork := w\<rparr>) xs = ready m xs" "polling (m\<lparr>hasWork := w\<rparr>) xs = polling m xs" for w xs
    by (auto intro!: counts_cong)
  then show ?thesis using inv r
    by (auto simp: sched_inv_def idle_ok_def off_def fun_upd_apply)
qed

lemma sched_called:
  assumes inv: "sched_inv n (i # rs) 0 m" and r: "lastState m i \<noteq> Idle"
  shows "sched_inv n rs 0 m"
  using assms by (auto simp: sched_inv_def idle_ok_def off_def)

section \<open>Control\<close>

text \<open>The schedulers whose waiters the loop has still to take back.\<close>

fun remaining :: "run_mem \<Rightarrow> run_pc \<Rightarrow> nat list" where
  "remaining m (RStop is) = is"
| "remaining m (RStopWait i is) = i # is"
| "remaining m (RStopSleep i is) = i # is"
| "remaining m RRelease = []"
| "remaining m RDestroy = []"
| "remaining m RReturn = []"
| "remaining m _ = idle m"

fun adjust :: "run_mem \<Rightarrow> run_pc \<Rightarrow> int" where
  "adjust m (RAdd k) = of_bool (lastState m (active m ! k) = Polling)"
| "adjust m _ = 0"

fun position_ok :: "run_mem \<Rightarrow> run_pc \<Rightarrow> bool" where
  "position_ok m (RRunner k) \<longleftrightarrow> k < length (active m)"
| "position_ok m (RAdd k) \<longleftrightarrow> k < length (active m)"
| "position_ok m RIdleLoop \<longleftrightarrow> active m = []"
| "position_ok m RIdleSleep \<longleftrightarrow> active m = [] \<and> (woken m \<or> activeCount m = 0 \<and> \<not> stop m)"
| "position_ok m RStopped \<longleftrightarrow> stop m"
| "position_ok m (RStop _) \<longleftrightarrow> stop m"
| "position_ok m (RStopWait i _) \<longleftrightarrow> stop m \<and> hasWork m i \<noteq> Registered"
| "position_ok m (RStopSleep i _) \<longleftrightarrow> stop m \<and> hasWork m i \<noteq> Registered"
| "position_ok m RRelease \<longleftrightarrow> stop m"
| "position_ok m RDestroy \<longleftrightarrow> stop m"
| "position_ok m RNone \<longleftrightarrow> idle m = [] \<and> hasWork m = (\<lambda>_. Unused)"
| "position_ok m RAcquire \<longleftrightarrow> idle m = [] \<and> hasWork m = (\<lambda>_. Unused)"
| "position_ok m RRegister \<longleftrightarrow> idle m = [] \<and> hasWork m = (\<lambda>_. Unused)"
| "position_ok m RReturn \<longleftrightarrow> (if untilWaiter m = Unused then idle m = [] \<and> hasWork m = (\<lambda>_. Unused)
     else \<forall>i. if i \<in> set (active m) \<union> set (idle m) then hasWork m i = Destroyed else off m i)"
| "position_ok m _ \<longleftrightarrow> True"

fun until_ok :: "nat \<Rightarrow> run_mem \<Rightarrow> run_pc \<Rightarrow> bool" where
  "until_ok pool m RAcquire \<longleftrightarrow> untilWaiter m = Unused \<and> metaThreads m = pool"
| "until_ok pool m RRegister \<longleftrightarrow> untilWaiter m = Unused \<and> metaThreads m + 1 = pool"
| "until_ok pool m RReturn \<longleftrightarrow>
     (untilWaiter m = Unused \<and> metaThreads m + 1 = pool) \<or> (untilWaiter m = Called \<and> metaThreads m = pool)"
| "until_ok pool m RNone \<longleftrightarrow> untilWaiter m = Unused \<and> metaThreads m = pool"
| "until_ok pool m RDestroy \<longleftrightarrow> untilWaiter m = Called \<and> metaThreads m = pool"
| "until_ok pool m _ \<longleftrightarrow> live (untilWaiter m) \<and> metaThreads m + 1 = pool"

text \<open>The state with the waiters as they were before they were destroyed.\<close>

definition unforgotten :: "run_mem \<Rightarrow> run_pc \<Rightarrow> run_mem" where
  "unforgotten m pc = (if pc = RReturn then m\<lparr>hasWork := (\<lambda>_. Unused)\<rparr> else m)"

lemma unforgotten_simps [simp]:
  "unforgotten m RReturn = m\<lparr>hasWork := (\<lambda>_. Unused)\<rparr>" "pc \<noteq> RReturn \<Longrightarrow> unforgotten m pc = m"
  by (simp_all add: unforgotten_def)

lemma unforgotten_fields [simp]:
  "active (unforgotten m pc) = active m" "idle (unforgotten m pc) = idle m"
  "activeCount (unforgotten m pc) = activeCount m" "pollingCount (unforgotten m pc) = pollingCount m"
  "lastState (unforgotten m pc) = lastState m" "ready (unforgotten m pc) xs = ready m xs" "polling (unforgotten m pc) xs = polling m xs"
  by (simp_all add: unforgotten_def ready_def polling_def)

lemma sched_forget: "sched_inv n [] 0 m \<Longrightarrow> sched_inv n [] 0 (m\<lparr>hasWork := (\<lambda>_. Unused)\<rparr>)"
  by (simp add: sched_inv_def off_def ready_def polling_def)

definition run_inv :: "nat \<Rightarrow> nat \<Rightarrow> run_mem \<times> run_pc \<Rightarrow> bool" where
  "run_inv pool n s \<longleftrightarrow> (case s of (m, pc) \<Rightarrow>
     sched_inv n (remaining m pc) (adjust m pc) (unforgotten m pc) \<and> position_ok m pc \<and> until_ok pool m pc \<and>
     stop m = (untilWaiter m = Called))"

lemma run_inv_step:
  assumes inv: "run_inv pool n (m, pc)" and st: "Run_step st accepted m pc = Some (m', pc')"
  shows "run_inv pool n (m', pc')"
proof (cases pc)
  case (RRunner k)
  show ?thesis
  proof (cases "st = Idle")
    case True
    then show ?thesis using inv st RRunner sched_poll_out [of n "idle m" m k]
      by (auto simp: run_inv_def Let_def split: if_splits)
  next
    case False
    have "idle (record_state i st m) = idle m" "stop (record_state i st m) = stop m"
      "untilWaiter (record_state i st m) = untilWaiter m" "metaThreads (record_state i st m) = metaThreads m" for i
      by (simp_all add: record_state_def)
    then show ?thesis using inv st RRunner False sched_record [of n "idle m" m k st]
      by (auto simp: run_inv_def)
  qed
next
  case (RAdd k)
  obtain m1 pc1 where go: "go_idle k accepted m = (m1, pc1)" by (cases "go_idle k accepted m")
  have "sched_inv n (idle m1) 0 m1"
    using inv RAdd by (intro sched_go_idle [OF _ _ go]) (auto simp: run_inv_def)
  moreover have "stop m1 = stop m" "untilWaiter m1 = untilWaiter m" "metaThreads m1 = metaThreads m"
    "pc1 = RVisit k \<or> pc1 = RVisit (k + 1)"
    using go by (auto simp: go_idle_def Let_def split: if_splits)
  ultimately show ?thesis using inv st RAdd go by (auto simp: run_inv_def)
next
  case RMerge
  have "stop (merge_ready m) = stop m" "untilWaiter (merge_ready m) = untilWaiter m"
    "metaThreads (merge_ready m) = metaThreads m" by (simp_all add: merge_ready_def Let_def)
  then show ?thesis using inv st RMerge sched_merge [of n m] by (auto simp: run_inv_def)
next
  case (RStop rs)
  then show ?thesis using inv st sched_remove [of n _ _ m]
    by (cases rs) (auto simp: run_inv_def live_def split: if_splits)
next
  case (RStopWait i rs)
  then show ?thesis using inv st sched_called [of n i rs m]
    by (auto simp: run_inv_def split: if_splits)
next
  case RDestroy
  then have m': "m' = m\<lparr>hasWork := (\<lambda>i. SchedulerState_destroy (i \<in> set (active m @ idle m)) (hasWork m i))\<rparr>"
    and pc': "pc' = RReturn" using st by simp_all
  have sched: "sched_inv n [] 0 m" and rest: "stop m" "untilWaiter m = Called" "metaThreads m = pool"
    using inv RDestroy by (auto simp: run_inv_def)
  have "off m i" for i using sched by (simp add: sched_inv_def)
  then have "position_ok m' RReturn" using rest by (simp add: m' SchedulerState_destroy_def off_def)
  then show ?thesis using sched_forget [OF sched] rest by (simp add: run_inv_def pc' m')
qed (use inv st sched_forget [of n m] in \<open>auto simp: run_inv_def live_def split: if_splits\<close>)

text \<open>When \<^verbatim>\<open>Run\<close> has returned, no waiter of its schedulers is with anybody.\<close>

lemma returned_off:
  assumes "run_inv pool n (m, pc)" and "hasWork m i = Registered \<or> hasWork m i = InFlight"
  shows "pc \<noteq> RReturn"
proof
  assume "pc = RReturn"
  then have "position_ok m RReturn" using assms(1) by (simp add: run_inv_def)
  then have "hasWork m i = Destroyed \<or> off m i" by (auto simp: off_def split: if_splits)
  then show False using assms(2) by (auto simp: off_def)
qed

interpretation rl: labelled_invariant run_next "run_inv pool n"
proof
  fix s s' a assume inv: "run_inv pool n s" and st: "run_next a s = Some s'"
  obtain m pc where s: "s = (m, pc)" by (cases s)
  show "run_inv pool n s'"
  proof (cases a)
    case (Loop st accepted)
    then show ?thesis using run_inv_step [of pool n m pc st accepted] inv st s by (cases s') auto
  next
    case (TakeWaiter i)
    then have "pc \<noteq> RReturn" using returned_off [of pool n m pc i] inv st s by (auto split: if_splits)
    then show ?thesis using TakeWaiter inv st sched_take [of n _ _ m i] unfolding s
      by (cases pc) (auto simp: run_inv_def fun_upd_apply split: if_splits)
  next
    case (NotifyReady i)
    have "idle (notifyReady i m) = idle m" "active (notifyReady i m) = active m" "stop (notifyReady i m) = stop m"
      "untilWaiter (notifyReady i m) = untilWaiter m" "metaThreads (notifyReady i m) = metaThreads m"
      by (simp_all add: notifyReady_def)
    note same = this
    have f: "hasWork m i = InFlight" and m': "s' = (notifyReady i m, pc)"
      using st NotifyReady s by (auto split: if_splits)
    have nr: "pc \<noteq> RReturn" using returned_off [of pool n m pc i] inv f s by blast
    then have sched: "sched_inv n (remaining m pc) (adjust m pc) m" and pos: "position_ok m pc"
      using inv s by (auto simp: run_inv_def)
    have "i \<notin> set (active m)" using sched f by (auto simp: sched_inv_def)
    then have "lastState (notifyReady i m) (active m ! k) = lastState m (active m ! k)"
      if "k < length (active m)" for k
      using that nth_mem [OF that] by (auto simp: notifyReady_def fun_upd_apply)
    then have adj: "adjust (notifyReady i m) pc = adjust m pc"
      using pos same by (cases pc) auto
    have rem: "remaining (notifyReady i m) pc = remaining m pc" using same by (cases pc) auto
    have "position_ok (notifyReady i m) pc"
      using pos same nr f by (cases pc) (auto simp: notifyReady_def fun_upd_apply)
    moreover have "until_ok pool (notifyReady i m) pc"
      using inv s same by (cases pc) (auto simp: run_inv_def)
    ultimately show ?thesis using inv s same sched_notify [OF sched f]
      by (simp add: run_inv_def m' adj rem nr)
  next
    case TakeUntil
    then show ?thesis using inv st unfolding s
      by (cases pc) (auto simp: run_inv_def live_def split: if_splits)
  next
    case UntilCallback
    then show ?thesis using inv st unfolding s
      by (cases pc) (auto simp: run_inv_def live_def untilCallback_def split: if_splits)
  qed
qed

abbreviation run_reaches :: "nat \<Rightarrow> nat \<Rightarrow> run_mem \<Rightarrow> run_pc \<Rightarrow> bool" where
  "run_reaches pool n m pc \<equiv> reaches run_next (run_init pool n, RAcquire) (m, pc)"

lemma run_reaches_inv:
  assumes "run_reaches pool n m pc"
  shows "run_inv pool n (m, pc)"
  by (rule rl.reachable [OF assms])
    (simp add: run_inv_def run_init_def sched_inv_def off_def polling_def atLeast0LessThan)

text \<open>Claim C6.
  The bookkeeping of the scheduling loop, in every interleaving with the callbacks.  Every scheduler
  is in exactly one of \<^verbatim>\<open>activeSchedulers\<close> and \<^verbatim>\<open>idleSchedulers\<close>; \<^verbatim>\<open>activeCount\<close> is the number of active
  ones plus the idle ones that have become ready and are not merged yet, so it is between 0 and the
  number of schedulers; \<^verbatim>\<open>pollingCount\<close>, wherever it is compared, is the number of active schedulers
  that answered \<^verbatim>\<open>Polling\<close> last, so it does not wrap.\<close>

theorem run_counts_exact:
  assumes "run_reaches pool n m pc"
  shows "distinct (active m @ idle m) \<and> set (active m @ idle m) = {..<n} \<and>
    activeCount m = int (length (active m) + length (filter (\<lambda>i. lastState m i \<noteq> Idle) (idle m))) \<and>
    activeCount m \<le> int n \<and> 0 \<le> pollingCount m \<and>
    (pc = RPollTest \<longrightarrow> pollingCount m = int (length (filter (\<lambda>i. lastState m i = Polling) (active m))))"
proof -
  have inv: "run_inv pool n (m, pc)" using run_reaches_inv [OF assms] .
  have sched: "sched_inv n (remaining m pc) (adjust m pc) (unforgotten m pc)" using inv by (simp add: run_inv_def)
  then have "set (active m @ idle m) = {..<n}" "distinct (active m @ idle m)"
    by (simp_all add: sched_inv_def)
  then have "card (set (active m @ idle m)) = n" "distinct (active m @ idle m)"
    by (simp_all del: set_append)
  then have len: "length (active m) + length (idle m) = n"
    by (metis distinct_card length_append)
  have "ready m (idle m) \<le> length (idle m)" by (simp add: ready_def)
  moreover have "0 \<le> pollingCount m"
  proof (cases "\<exists>k. pc = RAdd k \<and> lastState m (active m ! k) = Polling")
    case True
    then obtain k where k: "pc = RAdd k" "lastState m (active m ! k) = Polling" by blast
    then have "active m ! k \<in> set (filter (\<lambda>i. lastState m i = Polling) (active m))"
      using inv by (simp add: run_inv_def)
    then have "0 < polling m (active m)" unfolding polling_def by (rule length_pos_if_in_set)
    then show ?thesis using sched k by (simp add: sched_inv_def)
  next
    case False
    then have "adjust m pc = 0" by (cases pc) auto
    then show ?thesis using sched by (simp add: sched_inv_def)
  qed
  ultimately show ?thesis using sched len
    by (auto simp: sched_inv_def ready_def polling_def)
qed

text \<open>One step of the loop that uses no answer.\<close>

abbreviation (input) go :: run_act where
  "go \<equiv> Loop Working True"

theorem run_counts_exact_witness:
  "\<exists>m. run_reaches 1 2 m RPollTest \<and> activeCount m = 2 \<and> active m = [0, 1] \<and> pollingCount m = 1"
proof -
  obtain m where run: "run_acts run_next ([go, go, go, go, go, Loop Polling True, go, go, go] @ [go])
      (run_init 1 2, RAcquire) = Some (m, RPollTest)" and m: "active m = [0, 1]" "idle m = []"
      "lastState m 0 = Polling" "lastState m 1 = Working"
    by (simp add: run_init_def record_state_def Let_def upt_rec)
  have r: "run_reaches 1 2 m RPollTest" using run_acts_reaches [OF run] .
  show ?thesis using run_counts_exact [OF r] r m by auto
qed

text \<open>Claim C7.
  The loop goes to sleep only when nothing is left to do, and cannot miss a wake-up.  If it sleeps
  and has not been woken, every scheduler is idle with its waiter hung in its has-work condition or
  about to be called, and the waiter of \<^verbatim>\<open>until\<close> has not been called; and any of these calls wakes it.\<close>

theorem run_sleeps_soundly:
  assumes "run_reaches pool n m RIdleSleep" and "\<not> woken m"
  shows "\<not> stop m \<and> live (untilWaiter m) \<and> active m = [] \<and>
    (\<forall>i < n. lastState m i = Idle \<and> (hasWork m i = Registered \<or> hasWork m i = InFlight)) \<and>
    (\<forall>a. (\<nexists>st b. a = Loop st b) \<longrightarrow> (\<forall>m' pc'. run_next a (m, RIdleSleep) = Some (m', pc') \<longrightarrow>
       pc' = RIdleSleep \<and> (a \<in> {UntilCallback} \<union> range NotifyReady \<longrightarrow> woken m')))"
proof -
  have inv: "sched_inv n (idle m) 0 m" and z: "active m = []" "activeCount m = 0" "\<not> stop m"
    and u: "live (untilWaiter m)"
    using run_reaches_inv [OF assms(1)] assms(2) by (auto simp: run_inv_def)
  have r: "ready m (idle m) = 0" using inv z by (simp add: sched_inv_def)
  have "lastState m i = Idle \<and> (hasWork m i = Registered \<or> hasWork m i = InFlight)" if "i < n" for i
  proof -
    have i: "i \<in> set (idle m)" using inv z that by (auto simp: sched_inv_def)
    then have "idle_ok m i" using inv by (simp add: sched_inv_def)
    moreover have "lastState m i = Idle" using r i by (auto simp: ready_def filter_empty_conv)
    ultimately show ?thesis by (simp add: idle_ok_def)
  qed
  moreover have "pc' = RIdleSleep \<and> (a \<in> {UntilCallback} \<union> range NotifyReady \<longrightarrow> woken m')"
    if "\<nexists>st b. a = Loop st b" "run_next a (m, RIdleSleep) = Some (m', pc')" for a m' pc'
    using that z by (cases a) (auto simp: notifyReady_def untilCallback_def split: if_splits)
  ultimately show ?thesis using z u by blast
qed

theorem run_sleeps_soundly_witness:
  "\<exists>m. run_reaches 1 1 m RIdleSleep \<and> lastState m 0 = Idle \<and> hasWork m 0 = Registered"
proof -
  obtain m where run: "run_acts run_next [go, go, go, go, go, Loop Idle True, go, go, go, go]
      (run_init 1 1, RAcquire) = Some (m, RIdleSleep)" and m: "\<not> woken m" "hasWork m 0 = Registered"
    by (simp add: run_init_def go_idle_def Let_def upt_rec)
  have r: "run_reaches 1 1 m RIdleSleep" using run_acts_reaches [OF run] .
  have "lastState m 0 = Idle" using run_sleeps_soundly [OF r m(1)] by blast
  then show ?thesis using r m by blast
qed

text \<open>Claim C25.
  How the loop leaves.  When the schedulers' states are destroyed, no has-work waiter of this call is
  registered or about to be called, or was destroyed already, so destroying them is safe; at the return
  each is destroyed.  If \<^verbatim>\<open>until\<close> accepted its waiter, it has called it, and the meta thread has been given
  back.  If it refused the waiter, the meta thread is lost to the scheduler; only a return without a meta
  thread takes none.\<close>

theorem run_leaves_clean:
  assumes "run_reaches pool n m pc"
  shows "(pc = RDestroy \<longrightarrow>
      (\<forall>i. hasWork m i = Unused \<or> hasWork m i = Called \<or> hasWork m i = Taken)) \<and>
    (pc = RReturn \<longrightarrow>
      untilWaiter m = Called \<and> metaThreads m = pool \<and> (\<forall>i < n. hasWork m i = Destroyed) \<or>
      untilWaiter m = Unused \<and> metaThreads m + 1 = pool \<and> hasWork m = (\<lambda>_. Unused)) \<and>
    (pc = RNone \<longrightarrow> untilWaiter m = Unused \<and> metaThreads m = pool \<and> hasWork m = (\<lambda>_. Unused))"
proof -
  have inv: "run_inv pool n (m, pc)" by (rule run_reaches_inv [OF assms])
  show ?thesis
  proof (cases "pc = RReturn")
    case True
    then have "set (active m) \<union> set (idle m) = {..<n}" using inv by (simp add: run_inv_def sched_inv_def)
    then show ?thesis using inv True by (auto simp: run_inv_def split: if_splits)
  next
    case False
    then show ?thesis using inv by (cases pc) (auto simp: run_inv_def sched_inv_def off_def)
  qed
qed

theorem run_leaves_clean_witness:
  "\<exists>m. run_reaches 1 1 m RReturn \<and> hasWork m 0 = Destroyed \<and> metaThreads m = 1"
proof -
  obtain m where run: "run_acts run_next ([go, go, go, go, go, Loop Idle True, go, go, go, go] @
      [TakeUntil, UntilCallback, go, go, go, go, go, go, go])
      (run_init 1 1, RAcquire) = Some (m, RReturn)" and m: "untilWaiter m = Called"
    by (simp add: run_init_def go_idle_def untilCallback_def Let_def upt_rec)
  have r: "run_reaches 1 1 m RReturn" using run_acts_reaches [OF run] .
  have "hasWork m 0 = Destroyed \<and> metaThreads m = 1" using run_leaves_clean [OF r] m by auto
  then show ?thesis using r by blast
qed

text \<open>The loop can hang on its way out.  \<^verbatim>\<open>notifyReady\<close> wakes it only when \<^verbatim>\<open>activeCount\<close> was 0.  Of two
  schedulers, one is idle and its callback is about to run when \<^verbatim>\<open>until\<close> stops the loop: it waits for
  that callback, the callback runs while the other scheduler counts as active and wakes nobody, and
  no step of anything is possible any more.\<close>

theorem run_stop_hang:
  "\<exists>m. run_reaches 1 2 m (RStopSleep 0 []) \<and> lastState m 0 = Working \<and> hasWork m 0 = Called \<and>
     untilWaiter m = Called \<and> \<not> woken m \<and>
     \<not> (\<exists>i. hasWork m i = Registered \<or> hasWork m i = InFlight) \<and>
     \<not> (\<exists>a. run_next a (m, RStopSleep 0 []) \<noteq> None)"
proof -
  obtain m where run: "run_acts run_next ([go, go, go, go, go, Loop Idle True, go] @
      [TakeWaiter 0, TakeUntil, UntilCallback, go, go, go, go, NotifyReady 0])
      (run_init 1 2, RAcquire) = Some (m, RStopSleep 0 [])"
    and m: "lastState m 0 = Working" "hasWork m 0 = Called" "untilWaiter m = Called" "\<not> woken m"
      "hasWork m = (\<lambda>_. Unused)(0 := Called)"
    by (simp add: run_init_def go_idle_def untilCallback_def notifyReady_def Let_def upt_rec)
  have none: "\<not> (\<exists>i. hasWork m i = Registered \<or> hasWork m i = InFlight)"
    using m(5) by (simp add: fun_upd_apply)
  have "run_next a (m, RStopSleep 0 []) = None" for a
    using m none by (cases a) auto
  then show ?thesis
    by (intro exI [of _ m] conjI) (use run_acts_reaches [OF run] m none in simp_all)
qed

end
