(* ===== verification/Meta_Threads.thy ===== *)
theory Meta_Threads
  imports Meta_Scheduler
begin

text \<open>
  The rest of meta_scheduler.cpp: the pool of meta threads (\<^verbatim>\<open>AcquireMetaThread\<close>, \<^verbatim>\<open>ReleaseMetaThread\<close>,
  \<^verbatim>\<open>CreateMetaThread\<close>), the reference count of the context of a thread, and the facts on
  configurations and throttlers.
\<close>

section \<open>The pool of meta threads\<close>

text \<open>
  Each thread asks for a meta thread, gives it back, and asks again.  The callback of its interrupt
  runs in some other thread and is three steps: it sets \<^verbatim>\<open>stop\<close>, wakes the sleepers and posts
  \<^verbatim>\<open>waiterDone\<close>; it does not take the lock of the pool.
\<close>

datatype acq_pc =
    AqAdd | AqLock | AqTest | AqSleepEntry | AqSleep | AqTake | AqRemove | AqWaitDone | AqDestroy | AqReturned

datatype callback_at = CbNone | CbStopSet | CbWoken

record acq_thread =
  aqpc :: acq_pc
  aqStop :: bool
  aqWaiter :: wstatus
  aqCallback :: callback_at \<comment> \<open>how far a callback in flight is\<close>
  aqDone :: nat \<comment> \<open>\<^verbatim>\<open>waiterDone\<close>\<close>
  aqWoken :: bool
  metaThread :: "nat list" \<comment> \<open>the meta thread held, if any\<close>

record pool =
  poolLocked :: bool
  mIdleMetaThreads :: "nat list"

datatype pool_act =
    Acquire nat bool \<comment> \<open>a step of a thread, and what \<^verbatim>\<open>interrupt.AddWaiter\<close> answers\<close>
  | Release nat nat \<comment> \<open>who releases, and the sleeper that \<^verbatim>\<open>WakeOne\<close> chooses\<close>
  | Create nat
  | TakeInterrupt nat | SetStop nat | WakeSleepers nat | PostDone nat

definition acq_init :: acq_thread where
  "acq_init = \<lparr>aqpc = AqAdd, aqStop = False, aqWaiter = Unused, aqCallback = CbNone, aqDone = 0,
     aqWoken = False, metaThread = []\<rparr>"

definition wake :: "acq_thread \<Rightarrow> acq_thread" where
  "wake t = (if aqpc t = AqSleep then t\<lparr>aqWoken := True\<rparr> else t)"

definition AcquireMetaThread_step :: "bool \<Rightarrow> pool \<Rightarrow> acq_thread \<Rightarrow> (pool \<times> acq_thread) option" where
  "AcquireMetaThread_step accepted p t = (case aqpc t of
     AqAdd \<Rightarrow> Some (p, if accepted then t\<lparr>aqWaiter := Registered, aqpc := AqLock\<rparr> else t\<lparr>aqpc := AqDestroy\<rparr>)
   | AqLock \<Rightarrow> (if poolLocked p then None else Some (p\<lparr>poolLocked := True\<rparr>, t\<lparr>aqpc := AqTest\<rparr>))
   | AqTest \<Rightarrow> Some (p, t\<lparr>aqpc := if \<not> aqStop t \<and> mIdleMetaThreads p = [] then AqSleepEntry else AqTake\<rparr>)
   | AqSleepEntry \<Rightarrow> Some (p\<lparr>poolLocked := False\<rparr>, t\<lparr>aqWoken := False, aqpc := AqSleep\<rparr>)
   | AqSleep \<Rightarrow> (if aqWoken t then Some (p, t\<lparr>aqpc := AqLock\<rparr>) else None)
   | AqTake \<Rightarrow>
       (let p' = p\<lparr>poolLocked := False\<rparr>; t' = t\<lparr>aqpc := AqRemove\<rparr>
        in if mIdleMetaThreads p \<noteq> []
           then Some (p'\<lparr>mIdleMetaThreads := butlast (mIdleMetaThreads p)\<rparr>,
                      t'\<lparr>metaThread := [last (mIdleMetaThreads p)]\<rparr>)
           else Some (p', t'))
   | AqRemove \<Rightarrow>
       Some (p, if aqWaiter t = Registered then t\<lparr>aqWaiter := Taken, aqpc := AqDestroy\<rparr>
                else t\<lparr>aqpc := AqWaitDone\<rparr>)
   | AqWaitDone \<Rightarrow> (if aqDone t = 0 then None else Some (p, t\<lparr>aqDone := aqDone t - 1, aqpc := AqDestroy\<rparr>))
   | AqDestroy \<Rightarrow> Some (p, t\<lparr>aqpc := AqReturned\<rparr>)
   | AqReturned \<Rightarrow> None)"

text \<open>\<^verbatim>\<open>ReleaseMetaThread\<close>, after which the thread may ask again.\<close>

definition ReleaseMetaThread :: "pool \<Rightarrow> acq_thread \<Rightarrow> pool \<times> acq_thread" where
  "ReleaseMetaThread p t = (p\<lparr>mIdleMetaThreads := mIdleMetaThreads p @ metaThread t\<rparr>, acq_init)"

definition CreateMetaThread :: "nat \<Rightarrow> pool \<Rightarrow> pool" where
  "CreateMetaThread k p = p\<lparr>mIdleMetaThreads := mIdleMetaThreads p @ [k]\<rparr>"

fun callback_step :: "pool_act \<Rightarrow> acq_thread \<Rightarrow> acq_thread option" where
  "callback_step (TakeInterrupt i) t =
     (if aqWaiter t = Registered then Some (t\<lparr>aqWaiter := InFlight, aqCallback := CbNone\<rparr>) else None)"
| "callback_step (SetStop i) t =
     (if aqWaiter t = InFlight \<and> aqCallback t = CbNone
      then Some (t\<lparr>aqStop := True, aqCallback := CbStopSet\<rparr>) else None)"
| "callback_step (WakeSleepers i) t =
     (if aqWaiter t = InFlight \<and> aqCallback t = CbStopSet then Some (t\<lparr>aqCallback := CbWoken\<rparr>) else None)"
| "callback_step (PostDone i) t =
     (if aqWaiter t = InFlight \<and> aqCallback t = CbWoken
      then Some (t\<lparr>aqWaiter := Called, aqDone := aqDone t + 1\<rparr>) else None)"
| "callback_step _ t = None"

fun pool_next :: "pool_act \<Rightarrow> pool \<times> acq_thread list \<Rightarrow> (pool \<times> acq_thread list) option" where
  "pool_next (Acquire i accepted) (p, ts) =
     (if i < length ts
      then map_option (\<lambda>(p', t'). (p', ts[i := t'])) (AcquireMetaThread_step accepted p (ts ! i))
      else None)"
| "pool_next (Release i j) (p, ts) =
     (if i < length ts \<and> aqpc (ts ! i) = AqReturned \<and> metaThread (ts ! i) \<noteq> [] \<and> \<not> poolLocked p
      then (let (p', t') = ReleaseMetaThread p (ts ! i); ts' = ts[i := t']
            in Some (p', if j < length ts' then ts'[j := wake (ts' ! j)] else ts'))
      else None)"
| "pool_next (Create k) (p, ts) =
     (if poolLocked p \<or> k \<in> set (mIdleMetaThreads p) \<or> (\<exists>t \<in> set ts. k \<in> set (metaThread t)) then None
      else Some (CreateMetaThread k p, ts))"
| "pool_next (TakeInterrupt i) (p, ts) =
     (if i < length ts then map_option (\<lambda>t'. (p, ts[i := t'])) (callback_step (TakeInterrupt i) (ts ! i)) else None)"
| "pool_next (SetStop i) (p, ts) =
     (if i < length ts then map_option (\<lambda>t'. (p, ts[i := t'])) (callback_step (SetStop i) (ts ! i)) else None)"
| "pool_next (WakeSleepers i) (p, ts) =
     (if i < length ts then map_option (\<lambda>t'. (p, map wake (ts[i := t']))) (callback_step (WakeSleepers i) (ts ! i)) else None)"
| "pool_next (PostDone i) (p, ts) =
     (if i < length ts then map_option (\<lambda>t'. (p, ts[i := t'])) (callback_step (PostDone i) (ts ! i)) else None)"

definition places :: "nat \<Rightarrow> pool \<times> acq_thread list \<Rightarrow> nat" where
  "places k s = count_list (mIdleMetaThreads (fst s)) k + sum_list (map (\<lambda>t. count_list (metaThread t) k) (snd s))"

fun acq_pc_ok :: "acq_pc \<Rightarrow> acq_thread \<Rightarrow> bool" where
  "acq_pc_ok AqAdd t \<longleftrightarrow> aqWaiter t = Unused \<and> aqDone t = 0 \<and> metaThread t = []"
| "acq_pc_ok AqRemove t \<longleftrightarrow> live (aqWaiter t) \<and> aqDone t = of_bool (aqWaiter t = Called)"
| "acq_pc_ok AqWaitDone t \<longleftrightarrow>
     (aqWaiter t = InFlight \<or> aqWaiter t = Called) \<and> aqDone t = of_bool (aqWaiter t = Called)"
| "acq_pc_ok AqDestroy t \<longleftrightarrow>
     (aqWaiter t = Unused \<or> aqWaiter t = Taken \<or> aqWaiter t = Called) \<and> aqDone t = 0"
| "acq_pc_ok AqReturned t \<longleftrightarrow>
     (aqWaiter t = Unused \<or> aqWaiter t = Taken \<or> aqWaiter t = Called) \<and> aqDone t = 0"
| "acq_pc_ok _ t \<longleftrightarrow> live (aqWaiter t) \<and> aqDone t = of_bool (aqWaiter t = Called) \<and> metaThread t = []"

definition acq_ok :: "acq_thread \<Rightarrow> bool" where
  "acq_ok t \<longleftrightarrow> acq_pc_ok (aqpc t) t"

fun in_section :: "acq_pc \<Rightarrow> nat" where
  "in_section AqTest = 1"
| "in_section AqSleepEntry = 1"
| "in_section AqTake = 1"
| "in_section _ = 0"

definition section_count :: "acq_thread list \<Rightarrow> nat" where
  "section_count ts = sum_list (map (\<lambda>t. in_section (aqpc t)) ts)"

definition pool_inv :: "nat set \<Rightarrow> pool \<times> acq_thread list \<Rightarrow> bool" where
  "pool_inv K s \<longleftrightarrow>
     (\<forall>k. places k s \<le> 1) \<and> (\<forall>k \<in> K. places k s = 1) \<and>
     section_count (snd s) = of_bool (poolLocked (fst s)) \<and> (\<forall>t \<in> set (snd s). acq_ok t)"

lemma wake_same [simp]:
  "aqpc (wake t) = aqpc t" "metaThread (wake t) = metaThread t" "acq_ok (wake t) = acq_ok t"
  by (cases "aqpc t"; simp add: wake_def acq_ok_def)+

lemma acquire_step_local:
  assumes ok: "acq_ok t" and st: "AcquireMetaThread_step accepted p t = Some (p', t')"
    and sec: "in_section (aqpc t) \<le> of_bool (poolLocked p)"
  shows "acq_ok t'"
    and "count_list (mIdleMetaThreads p') k + count_list (metaThread t') k =
      count_list (mIdleMetaThreads p) k + count_list (metaThread t) k"
    and "of_bool (poolLocked p') + in_section (aqpc t) = of_bool (poolLocked p) + in_section (aqpc t')"
proof -
  have last: "xs \<noteq> [] \<Longrightarrow> count_list (butlast xs) k + of_bool (last xs = k) = count_list xs k" for xs
    by (induction xs rule: rev_induct) auto
  show "acq_ok t'" using ok st
    by (auto simp: AcquireMetaThread_step_def acq_ok_def live_def Let_def split: acq_pc.splits if_splits)
  show "count_list (mIdleMetaThreads p') k + count_list (metaThread t') k =
      count_list (mIdleMetaThreads p) k + count_list (metaThread t) k"
    using ok st last [of "mIdleMetaThreads p"]
    by (auto simp: AcquireMetaThread_step_def acq_ok_def Let_def split: acq_pc.splits if_splits)
  show "of_bool (poolLocked p') + in_section (aqpc t) = of_bool (poolLocked p) + in_section (aqpc t')"
    using st sec by (auto simp: AcquireMetaThread_step_def Let_def split: acq_pc.splits if_splits)
qed

lemma callback_local:
  assumes "acq_ok t" and "callback_step a t = Some t'"
  shows "acq_ok t'" and "metaThread t' = metaThread t" and "aqpc t' = aqpc t"
  using assms by (cases a; cases "aqpc t"; auto simp: acq_ok_def live_def split: if_splits)+

lemma pool_inv_update:
  assumes inv: "pool_inv K (p, ts)" and i: "i < length ts" and ok: "acq_ok t'"
    and cnt: "\<And>k. count_list (mIdleMetaThreads p') k + count_list (metaThread t') k =
      count_list (mIdleMetaThreads p) k + count_list (metaThread (ts ! i)) k"
    and lck: "of_bool (poolLocked p') + in_section (aqpc (ts ! i)) = of_bool (poolLocked p) + in_section (aqpc t')"
  shows "pool_inv K (p', ts[i := t'])"
proof -
  have "places k (p', ts[i := t']) = places k (p, ts)" for k
    using sum_list_map_update [OF i, of "\<lambda>t. count_list (metaThread t) k" t'] cnt [of k]
    by (simp add: places_def)
  moreover have "section_count (ts[i := t']) = of_bool (poolLocked p')"
    using sum_list_map_update [OF i, of "\<lambda>t. in_section (aqpc t)" t'] lck inv
    by (simp add: section_count_def pool_inv_def)
  ultimately show ?thesis using inv ok set_update_subset_insert [of ts i t']
    by (auto simp: pool_inv_def)
qed

lemma pool_inv_callback:
  assumes inv: "pool_inv K (p, ts)" and i: "i < length ts" and st: "callback_step a (ts ! i) = Some t'"
  shows "pool_inv K (p, ts[i := t'])"
  using callback_local [OF _ st] inv i
  by (intro pool_inv_update [OF inv i]) (auto simp: pool_inv_def)

lemma pool_inv_map_wake: "pool_inv K (p, ts) \<Longrightarrow> pool_inv K (p, map wake ts)"
  by (auto simp: pool_inv_def places_def section_count_def comp_def)

lemma pool_inv_wake: "pool_inv K (p, ts) \<Longrightarrow> j < length ts \<Longrightarrow> pool_inv K (p, ts[j := wake (ts ! j)])"
  by (rule pool_inv_update) (auto simp: pool_inv_def)

interpretation pl: labelled_invariant pool_next "pool_inv K"
proof
  fix s s' a assume inv: "pool_inv K s" and st: "pool_next a s = Some s'"
  obtain p ts where s: "s = (p, ts)" by (cases s)
  show "pool_inv K s'"
  proof (cases a)
    case (Acquire i accepted)
    then obtain p' t' where i: "i < length ts" and a: "AcquireMetaThread_step accepted p (ts ! i) = Some (p', t')"
      and s': "s' = (p', ts[i := t'])" using st s by (auto split: if_splits)
    have ok: "acq_ok (ts ! i)" using inv i s by (simp add: pool_inv_def)
    have "in_section (aqpc (ts ! i)) \<le> of_bool (poolLocked p)"
      using sum_list_map_nth_le [OF i, of "\<lambda>t. in_section (aqpc t)"] inv s
      by (simp add: pool_inv_def section_count_def)
    note l = acquire_step_local [OF ok a this]
    show ?thesis unfolding s' by (rule pool_inv_update [OF inv [unfolded s] i l])
  next
    case (Release i j)
    let ?t = "ts ! i"
    let ?p = "p\<lparr>mIdleMetaThreads := mIdleMetaThreads p @ metaThread ?t\<rparr>"
    have i: "i < length ts" "aqpc ?t = AqReturned" using st s Release by (auto split: if_splits)
    have new: "pool_inv K (?p, ts[i := acq_init])"
      using i by (intro pool_inv_update [OF inv [unfolded s]]) (auto simp: acq_init_def acq_ok_def)
    have "s' = (?p, ts[i := acq_init]) \<or>
        (j < length (ts[i := acq_init]) \<and> s' = (?p, ts[i := acq_init, j := wake (ts[i := acq_init] ! j)]))"
      using st s Release by (auto simp: ReleaseMetaThread_def Let_def split: if_splits)
    then show ?thesis using new pool_inv_wake [OF new] by blast
  next
    case (Create k)
    have f: "count_list (mIdleMetaThreads p) k = 0" "sum_list (map (\<lambda>t. count_list (metaThread t) k) ts) = 0"
      and s': "s' = (CreateMetaThread k p, ts)"
      using st s Create by (auto simp: sum_list_eq_0_iff split: if_splits)
    have "places j s' = places j s + of_bool (j = k)" for j
      by (simp add: s' s places_def CreateMetaThread_def)
    moreover have "places k s = 0" using f by (simp add: s places_def)
    ultimately show ?thesis using inv s s' by (auto simp: pool_inv_def CreateMetaThread_def)
  next
    case (WakeSleepers i)
    then show ?thesis using st s pool_inv_map_wake [OF pool_inv_callback [OF inv [unfolded s]]]
      by (auto simp del: callback_step.simps split: if_splits)
  qed (use inv st s in \<open>auto intro: pool_inv_callback simp del: callback_step.simps split: if_splits\<close>)
qed

abbreviation pool_reaches :: "nat list \<Rightarrow> nat \<Rightarrow> pool \<Rightarrow> acq_thread list \<Rightarrow> bool" where
  "pool_reaches ks n p ts \<equiv>
     reaches pool_next (\<lparr>poolLocked = False, mIdleMetaThreads = ks\<rparr>, replicate n acq_init) (p, ts)"

lemma distinct_iff_count: "distinct xs \<longleftrightarrow> (\<forall>k. count_list xs k \<le> 1)"
proof (induction xs)
  case (Cons x xs)
  have "(\<forall>k. count_list (x # xs) k \<le> 1) \<longleftrightarrow> (\<forall>k. count_list xs k \<le> 1) \<and> count_list xs x = 0"
    by (auto simp: le_Suc_eq split: if_splits)
  then show ?case using Cons by (auto simp add: count_list_0_iff)
qed simp

lemma places_eq: "places k (p, ts) = count_list (mIdleMetaThreads p @ concat (map metaThread ts)) k"
  by (induction ts) (simp_all add: places_def)

lemma pool_reaches_inv:
  assumes "pool_reaches ks n p ts" and "distinct ks"
  shows "pool_inv (set ks) (p, ts)"
proof -
  have "places k (\<lparr>poolLocked = False, mIdleMetaThreads = ks\<rparr>, replicate n acq_init) = count_list ks k" for k
    by (induction n) (simp_all add: places_def acq_init_def)
  then have "pool_inv (set ks) (\<lparr>poolLocked = False, mIdleMetaThreads = ks\<rparr>, replicate n acq_init)"
    using assms(2) count_list_0_iff [of ks]
    by (auto simp: pool_inv_def section_count_def distinct_iff_count le_Suc_eq acq_init_def acq_ok_def
      sum_list_replicate)
  then show ?thesis by (rule pl.reachable [OF assms(1)])
qed

lemma meta_threads_placed:
  assumes "pool_reaches ks n p ts" and "distinct ks"
  shows "distinct (mIdleMetaThreads p @ concat (map metaThread ts))"
    and "set ks \<subseteq> set (mIdleMetaThreads p @ concat (map metaThread ts))"
proof -
  note inv = pool_reaches_inv [OF assms]
  have "\<forall>k \<in> set ks. count_list (mIdleMetaThreads p @ concat (map metaThread ts)) k \<noteq> 0"
    using inv unfolding pool_inv_def places_eq by simp
  then show "set ks \<subseteq> set (mIdleMetaThreads p @ concat (map metaThread ts))"
    unfolding count_list_0_iff by blast
  show "distinct (mIdleMetaThreads p @ concat (map metaThread ts))"
    unfolding distinct_iff_count using inv by (auto simp: pool_inv_def places_eq simp del: count_list_append)
qed

text \<open>A meta thread runs one context at a time and is not lost.  Any number of threads acquire and release
  meta threads while others are created, their interrupts firing at any time, in any interleaving.
  In every reachable state the idle meta threads and those that the threads hold are pairwise
  distinct, all the meta threads there were at the start are among them, at most one thread is in
  the section under the lock, and a thread whose \<^verbatim>\<open>AcquireMetaThread\<close> has returned has no waiter
  left in its interrupt and no callback outstanding.\<close>

theorem meta_threads_exclusive:
  assumes "pool_reaches ks n p ts" and "distinct ks"
  shows "distinct (mIdleMetaThreads p @ concat (map metaThread ts)) \<and>
    set ks \<subseteq> set (mIdleMetaThreads p @ concat (map metaThread ts)) \<and>
    length (filter (\<lambda>t. aqpc t \<in> {AqTest, AqSleepEntry, AqTake}) ts) = of_bool (poolLocked p) \<and>
    (\<forall>t \<in> set ts. aqpc t \<noteq> AqReturned \<or> aqWaiter t = Unused \<or> aqWaiter t = Taken \<or> aqWaiter t = Called)"
proof -
  note inv = pool_reaches_inv [OF assms]
  have sec: "length (filter (\<lambda>t. aqpc t \<in> {AqTest, AqSleepEntry, AqTake}) xs) = section_count xs" for xs
  proof (induction xs)
    case (Cons x xs)
    then show ?case by (cases "aqpc x") (simp_all add: section_count_def)
  qed (simp add: section_count_def)
  show ?thesis unfolding sec using inv meta_threads_placed [OF assms]
    by (auto simp: pool_inv_def acq_ok_def simp del: set_append distinct_append)
qed

theorem meta_threads_exclusive_witness:
  "\<exists>p ts. pool_reaches [7] 2 p ts \<and> metaThread (ts ! 0) = [] \<and> metaThread (ts ! 1) = [7] \<and>
     distinct (mIdleMetaThreads p @ concat (map metaThread ts))"
proof -
  let ?s0 = "(\<lparr>poolLocked = False, mIdleMetaThreads = [7]\<rparr>, replicate 2 acq_init) :: pool \<times> acq_thread list"
  let ?get = "\<lambda>i. replicate 6 (Acquire i True)"
  have s0: "replicate 2 acq_init = [acq_init, acq_init]" by (simp add: numeral_2_eq_2)
  obtain p ts where run: "run_acts pool_next
      (?get 0 @ [Acquire 1 True, Acquire 1 True, Acquire 1 True, Acquire 1 True, Release 0 1] @ replicate 4 (Acquire 1 True)) ?s0 = Some (p, ts)"
    and r: "metaThread (ts ! 0) = []" "metaThread (ts ! 1) = [7]"
    by (simp add: s0 acq_init_def AcquireMetaThread_step_def ReleaseMetaThread_def wake_def eval_nat_numeral)
  have "pool_reaches [7] 2 p ts" using run_acts_reaches [OF run] .
  moreover have "distinct (mIdleMetaThreads p @ concat (map metaThread ts))"
    using meta_threads_exclusive [OF run_acts_reaches [OF run]] by (simp del: distinct_append)
  ultimately show ?thesis using r by blast
qed

text \<open>An interrupted \<^verbatim>\<open>AcquireMetaThread\<close> can sleep on: the callback sets \<^verbatim>\<open>stop\<close> and wakes the sleepers
  without taking the lock, so it can do both between the test of \<^verbatim>\<open>stop\<close> and the wait.  In the state
  reached then, the callback has run to its end and nothing can happen any more, except that a new
  meta thread is created, which does not wake the sleeper.\<close>

theorem acquire_lost_wakeup:
  "\<exists>p ts. pool_reaches [] 1 p ts \<and> aqpc (ts ! 0) = AqSleep \<and> aqStop (ts ! 0) \<and> aqWaiter (ts ! 0) = Called \<and>
     \<not> (\<exists>a s. pool_next a (p, ts) = Some s \<and> \<not> (\<exists>k. a = Create k \<and> snd s = ts))"
proof -
  let ?t = "\<lparr>aqpc = AqSleep, aqStop = True, aqWaiter = Called, aqCallback = CbWoken, aqDone = 1,
     aqWoken = False, metaThread = []\<rparr>"
  let ?p = "\<lparr>poolLocked = False, mIdleMetaThreads = []\<rparr>"
  have run: "run_acts pool_next
      [Acquire 0 True, Acquire 0 True, Acquire 0 True, TakeInterrupt 0, SetStop 0, WakeSleepers 0, Acquire 0 True, PostDone 0]
      (?p, replicate 1 acq_init) = Some (?p, [?t])"
    by (simp add: acq_init_def AcquireMetaThread_step_def wake_def)
  have "pool_next a (?p, [?t]) = Some s \<Longrightarrow> \<exists>k. a = Create k \<and> snd s = [?t]" for a s
    by (cases a) (auto simp: AcquireMetaThread_step_def less_Suc_eq split: if_splits)
  then show ?thesis
    by (intro exI [of _ ?p] exI [of _ "[?t]"] conjI) (use run_acts_reaches [OF run] in auto)
qed

section \<open>Contexts\<close>

text \<open>\<^verbatim>\<open>tCurrentContext\<close> of a thread, by its reference count; \<open>None\<close> is the null pointer.  \<^verbatim>\<open>Release\<close> is
  a method of a context: without one there is nothing to call.\<close>

definition AcquireContext :: "u32 option \<Rightarrow> u32 option" where
  "AcquireContext c = (case c of None \<Rightarrow> Some 1 | Some mRefCount \<Rightarrow> Some (mRefCount + 1))"

definition Context_Release :: "u32 option \<Rightarrow> u32 option option" where
  "Context_Release c = (case c of
     None \<Rightarrow> None
   | Some mRefCount \<Rightarrow> Some (if mRefCount - 1 = 0 then None else Some (mRefCount - 1)))"

fun run_contexts :: "bool list \<Rightarrow> u32 option \<Rightarrow> u32 option option" where
  "run_contexts [] c = Some c"
| "run_contexts (True # ops) c = run_contexts ops (AcquireContext c)"
| "run_contexts (False # ops) c = (case Context_Release c of None \<Rightarrow> None | Some c' \<Rightarrow> run_contexts ops c')"

definition refs :: "u32 option \<Rightarrow> nat" where
  "refs c = (case c of None \<Rightarrow> 0 | Some r \<Rightarrow> unat r)"

fun balance :: "bool list \<Rightarrow> nat \<Rightarrow> nat option" where
  "balance [] n = Some n"
| "balance (True # ops) n = balance ops (n + 1)"
| "balance (False # ops) n = (if n = 0 then None else balance ops (n - 1))"

lemma run_contexts_balance:
  assumes "c \<noteq> Some 0" and "refs c + length ops < 2 ^ 32"
  shows "map_option refs (run_contexts ops c) = balance ops (refs c) \<and> run_contexts ops c \<noteq> Some (Some 0)"
  using assms
proof (induction ops arbitrary: c)
  case (Cons b ops)
  show ?case
  proof (cases b)
    case True
    have "refs (AcquireContext c) = refs c + 1 \<and> AcquireContext c \<noteq> Some 0"
    proof (cases c)
      case (Some r)
      then have "unat (r + 1) = unat r + 1"
        using Cons.prems(2) unat_add_lem [of r 1] by (simp add: refs_def)
      then show ?thesis using Some by (auto simp: AcquireContext_def refs_def)
    qed (simp add: AcquireContext_def refs_def)
    then show ?thesis using True Cons.IH [of "AcquireContext c"] Cons.prems by simp
  next
    case False
    show ?thesis
    proof (cases c)
      case (Some r)
      then have "r \<noteq> 0" using Cons.prems by simp
      then have u: "unat (r - 1) = unat r - 1" "0 < unat r"
        by (auto simp: unat_minus_one unat_gt_0)
      let ?c' = "if r - 1 = 0 then None else Some (r - 1)"
      have "refs ?c' = refs c - 1" "?c' \<noteq> Some 0" using u Some by (auto simp: refs_def)
      then show ?thesis
        using False Some u Cons.IH [of ?c'] Cons.prems by (auto simp: Context_Release_def refs_def)
    qed (use False in \<open>simp add: Context_Release_def refs_def\<close>)
  qed
qed simp

text \<open>The reference count of the context of a thread.  Any script of fewer than \<open>2^32\<close> \<^verbatim>\<open>AcquireContext\<close>
  (\<open>True\<close>) and \<^verbatim>\<open>Release\<close> calls, from no context, keeps exactly the number of acquisitions that were
  not released, fails exactly when it releases more than it acquired, and the context exists exactly
  while that number is positive.\<close>

theorem context_refcount_exact:
  assumes "length ops < 2 ^ 32"
  shows "(run_contexts ops None = None) = (balance ops 0 = None) \<and>
    (case run_contexts ops None of
       None \<Rightarrow> True
     | Some c \<Rightarrow> balance ops 0 = Some (refs c) \<and> (c = None) = (refs c = 0))"
proof -
  have "map_option refs (run_contexts ops None) = balance ops 0 \<and> run_contexts ops None \<noteq> Some (Some 0)"
    using run_contexts_balance [of None ops] assms by (simp add: refs_def)
  then show ?thesis
    by (cases "run_contexts ops None"; cases "balance ops 0") (auto simp: refs_def unat_eq_0 split: option.splits)
qed

theorem context_refcount_exact_witness:
  "run_contexts [True, True, False] None = Some (Some 1) \<and> balance [True, True, False] 0 = Some 1 \<and>
   run_contexts [True, False, False] None = None \<and> balance [True, False, False] 0 = None"
  using context_refcount_exact [of "[True, True, False]"] context_refcount_exact [of "[True, False, False]"]
  by (simp add: AcquireContext_def Context_Release_def refs_def)

section \<open>Configuration and throttlers\<close>

fun add_schedulers :: "scheduler_info list \<Rightarrow> scheduler_info list \<Rightarrow> scheduler_info list option" where
  "add_schedulers [] ss = Some ss"
| "add_schedulers ((i, mode) # infos) ss =
     (case Config_AddScheduler i mode ss of None \<Rightarrow> None | Some ss' \<Rightarrow> add_schedulers infos ss')"

lemma add_schedulers_eq:
  "add_schedulers infos ss =
     (if distinct (map fst infos) \<and> set (map fst infos) \<inter> set (map fst ss) = {} then Some (ss @ infos) else None)"
proof (induction infos arbitrary: ss)
  case (Cons info infos)
  obtain i mode where "info = (i, mode)" by (cases info)
  moreover have "find (\<lambda>info. fst info = i) ss = None \<longleftrightarrow> i \<notin> set (map fst ss)"
    by (force simp: find_None_iff)
  ultimately show ?case using Cons.IH by (auto simp: Config_AddScheduler_def)
qed simp

lemma make_states_eq:
  "make_states overrides infos =
     map (\<lambda>info. (fst info, effective_mode overrides info))
       (filter (\<lambda>info. mType (effective_mode overrides info) \<noteq> TYPE_DISABLED) infos)"
  by (induction infos) auto

text \<open>A configuration accepts exactly the schedulers with pairwise different ids, in order, and fails on a
  repeated id.  What \<^verbatim>\<open>Run\<close> then makes of them for a meta thread with any overrides are the schedulers
  whose mode is not disabled, still with different ids, and each of them has a run function: the
  branch that throws on an invalid mode is not reached.\<close>

theorem config_runs_enabled:
  "(add_schedulers infos [] = None) = (\<not> distinct (map fst infos)) \<and>
   (case add_schedulers infos [] of
      None \<Rightarrow> True
    | Some ss \<Rightarrow> ss = infos \<and> distinct (map fst (make_states overrides ss)) \<and>
        set (map fst (make_states overrides ss)) =
          {i. \<exists>mode. (i, mode) \<in> set infos \<and> mType (effective_mode overrides (i, mode)) \<noteq> TYPE_DISABLED} \<and>
        None \<notin> set (map (\<lambda>s. RunFunctionFromRunMode (snd s)) (make_states overrides ss)))"
proof -
  have "distinct (map fst (make_states overrides infos))" if "distinct (map fst infos)"
    using that by (simp add: make_states_eq comp_def distinct_map_filter)
  moreover have "set (map fst (make_states overrides infos)) =
      {i. \<exists>mode. (i, mode) \<in> set infos \<and> mType (effective_mode overrides (i, mode)) \<noteq> TYPE_DISABLED}"
    by (force simp: make_states_eq)
  moreover have "None \<notin> set (map (\<lambda>s. RunFunctionFromRunMode (snd s)) (make_states overrides infos))"
    by (auto simp: make_states_eq RunFunctionFromRunMode_def split: mode_type.splits)
  ultimately show ?thesis by (simp add: add_schedulers_eq)
qed

text \<open>How many pieces of work the throttlers let a scheduler do, given what \<^verbatim>\<open>stop\<close> reads at each
  question.\<close>

fun granted_some :: "bool list \<Rightarrow> u32 \<Rightarrow> nat" where
  "granted_some [] count = 0"
| "granted_some (stopped # stops) count =
     (let (yield, count') = ShouldYield_Some stopped count
      in if yield then 0 else Suc (granted_some stops count'))"

text \<open>The throttler of the mode \<^verbatim>\<open>Some(count)\<close> grants exactly \<open>count\<close> pieces of work, or fewer when the
  loop is stopped before: it yields at the first question that finds \<^verbatim>\<open>stop\<close> set, and its counter does
  not wrap.\<close>

theorem throttler_some_exact:
  "granted_some stops count = min (unat count) (length (takeWhile (\<lambda>stopped. \<not> stopped) stops))"
proof (induction stops arbitrary: count)
  case (Cons b stops)
  show ?case
  proof (cases "b \<or> count = 0")
    case False
    then have "unat (count - 1) = unat count - 1" "0 < unat count"
      by (auto simp: unat_minus_one unat_gt_0)
    then show ?thesis using False Cons.IH [of "count - 1"] by (simp add: ShouldYield_Some_def)
  qed (auto simp: ShouldYield_Some_def)
qed simp

end
