(* ===== verification/Thread_Pool.thy ===== *)
theory Thread_Pool
  imports Crunch_Prelude "HOL-Library.Multiset"
begin

text \<open>
  The thread pool of thread_pool.hpp and thread_pool.cpp: \<^verbatim>\<open>AddWorkItem\<close>, the loop of a worker, and the
  destructor.

  A work item is a number.  What the code does under \<^verbatim>\<open>mLock\<close> without waiting is one step; \<^verbatim>\<open>mStop\<close> is
  read outside the lock by the test of the worker loop, which is a step of its own.  A sleeping
  worker is woken by \<^verbatim>\<open>WakeOne\<close>, which chooses it, by \<^verbatim>\<open>WakeAll\<close>, or spuriously.
\<close>

datatype worker =
    WTop \<comment> \<open>at \<^verbatim>\<open>while (!mStop)\<close>\<close>
  | WLock \<comment> \<open>about to lock\<close>
  | WSleep bool \<comment> \<open>in \<^verbatim>\<open>mHasWork.Wait\<close>, and whether it was woken\<close>
  | WRun nat
  | WExit

datatype dtor_pc = DNone | DJoin nat | DRest | DDone

record thread_pool =
  mMaxThreadCount :: nat
  mStop :: bool
  mThreads :: "worker list"
  mIdleThreadCount :: int
  mWork :: "nat list"
  dtor :: dtor_pc
  posted :: "nat list" \<comment> \<open>all items, in the order of their posts\<close>
  started :: "nat list" \<comment> \<open>in the order in which they were taken\<close>
  finished :: "nat list"

datatype tp_act =
    AddWork nat nat \<comment> \<open>an item, and the sleeper that \<^verbatim>\<open>WakeOne\<close> chooses\<close>
  | Worker nat
  | Spurious nat
  | Dtor

definition ThreadPool_init :: "nat \<Rightarrow> thread_pool" where
  "ThreadPool_init maxThreadCount =
     \<lparr>mMaxThreadCount = maxThreadCount, mStop = False, mThreads = [], mIdleThreadCount = 0, mWork = [],
      dtor = DNone, posted = [], started = [], finished = []\<rparr>"

definition GetThreadCount :: "thread_pool \<Rightarrow> nat" where
  "GetThreadCount p = length (mThreads p)"

definition wake_worker :: "worker \<Rightarrow> worker" where
  "wake_worker w = (case w of WSleep b \<Rightarrow> WSleep True | _ \<Rightarrow> w)"

text \<open>\<^verbatim>\<open>WakeOne\<close> wakes a sleeper if there is one.\<close>

definition WakeOne :: "nat \<Rightarrow> worker list \<Rightarrow> worker list option" where
  "WakeOne j ws =
     (if WSleep False \<notin> set ws then Some ws
      else if j < length ws \<and> ws ! j = WSleep False then Some (ws[j := WSleep True]) else None)"

definition AddWorkItem :: "nat \<Rightarrow> nat \<Rightarrow> thread_pool \<Rightarrow> thread_pool option" where
  "AddWorkItem work j p =
     (let p' = p\<lparr>mWork := mWork p @ [work], posted := posted p @ [work]\<rparr>
      in if mIdleThreadCount p = 0 \<and> length (mThreads p) < mMaxThreadCount p
         then Some (p'\<lparr>mThreads := mThreads p @ [WTop]\<rparr>)
         else map_option (\<lambda>ws. p'\<lparr>mThreads := ws\<rparr>) (WakeOne j (mThreads p)))"

text \<open>The test of the inner loop, by an idle worker under the lock: sleep, or take an item.\<close>

definition take_work :: "thread_pool \<Rightarrow> thread_pool \<times> worker" where
  "take_work p = (case mWork p of
     [] \<Rightarrow> (p, WSleep False)
   | workItem # rest \<Rightarrow>
       (p\<lparr>mWork := rest, mIdleThreadCount := mIdleThreadCount p - 1, started := started p @ [workItem]\<rparr>,
        WRun workItem))"

text \<open>A work item that throws is caught, so its end is the same step.\<close>

fun Worker_step :: "thread_pool \<Rightarrow> worker \<Rightarrow> (thread_pool \<times> worker) option" where
  "Worker_step p WTop = Some (p, if \<not> mStop p then WLock else WExit)"
| "Worker_step p WLock = Some (take_work (p\<lparr>mIdleThreadCount := mIdleThreadCount p + 1\<rparr>))"
| "Worker_step p (WSleep woken) =
     (if \<not> woken then None
      else if mStop p then Some (p\<lparr>mIdleThreadCount := mIdleThreadCount p - 1\<rparr>, WExit)
      else Some (take_work p))"
| "Worker_step p (WRun workItem) = Some (p\<lparr>finished := finished p @ [workItem]\<rparr>, WTop)"
| "Worker_step p WExit = None"

fun Dtor_step :: "thread_pool \<Rightarrow> dtor_pc \<Rightarrow> thread_pool option" where
  "Dtor_step p DNone = Some (p\<lparr>mStop := True, mThreads := map wake_worker (mThreads p), dtor := DJoin 0\<rparr>)"
| "Dtor_step p (DJoin k) =
     (if k < length (mThreads p)
      then if mThreads p ! k = WExit then Some (p\<lparr>dtor := DJoin (k + 1)\<rparr>) else None
      else Some (p\<lparr>dtor := DRest\<rparr>))"
| "Dtor_step p DRest = (case mWork p of
     [] \<Rightarrow> Some (p\<lparr>dtor := DDone\<rparr>)
   | workItem # rest \<Rightarrow>
       Some (p\<lparr>mWork := rest, started := started p @ [workItem], finished := finished p @ [workItem]\<rparr>))"
| "Dtor_step p DDone = None"

text \<open>Nobody posts to a pool that is being destroyed.\<close>

fun tp_next :: "tp_act \<Rightarrow> thread_pool \<Rightarrow> thread_pool option" where
  "tp_next (AddWork work j) p = (if dtor p = DNone then AddWorkItem work j p else None)"
| "tp_next (Worker i) p =
     (if i < length (mThreads p)
      then map_option (\<lambda>(p', w). p'\<lparr>mThreads := (mThreads p)[i := w]\<rparr>) (Worker_step p (mThreads p ! i))
      else None)"
| "tp_next (Spurious i) p =
     (if i < length (mThreads p) \<and> mThreads p ! i = WSleep False
      then Some (p\<lparr>mThreads := (mThreads p)[i := WSleep True]\<rparr>) else None)"
| "tp_next Dtor p = Dtor_step p (dtor p)"

section \<open>Invariants\<close>

fun sleeping :: "worker \<Rightarrow> nat" where
  "sleeping (WSleep b) = 1"
| "sleeping _ = 0"

fun running :: "worker \<Rightarrow> nat list" where
  "running (WRun item) = [item]"
| "running _ = []"

definition tp_items :: "thread_pool \<Rightarrow> bool" where
  "tp_items p \<longleftrightarrow> started p @ mWork p = posted p \<and>
     (\<forall>x. count_list (finished p) x + sum_list (map (\<lambda>w. count_list (running w) x) (mThreads p)) =
       count_list (started p) x)"

definition tp_threads :: "thread_pool \<Rightarrow> bool" where
  "tp_threads p \<longleftrightarrow>
     length (mThreads p) \<le> mMaxThreadCount p \<and>
     mIdleThreadCount p = int (sum_list (map sleeping (mThreads p))) \<and>
     (dtor p = DNone \<longrightarrow> \<not> mStop p \<and> WExit \<notin> set (mThreads p)) \<and>
     (dtor p = DNone \<and> mWork p \<noteq> [] \<and> 0 < mMaxThreadCount p \<longrightarrow> (\<exists>w \<in> set (mThreads p). w \<noteq> WSleep False))"

fun dtor_ok :: "dtor_pc \<Rightarrow> thread_pool \<Rightarrow> bool" where
  "dtor_ok DNone p \<longleftrightarrow> True"
| "dtor_ok (DJoin k) p \<longleftrightarrow> mStop p \<and> (\<forall>w \<in> set (take k (mThreads p)). w = WExit)"
| "dtor_ok DRest p \<longleftrightarrow> mStop p \<and> (\<forall>w \<in> set (mThreads p). w = WExit)"
| "dtor_ok DDone p \<longleftrightarrow> mStop p \<and> (\<forall>w \<in> set (mThreads p). w = WExit) \<and> mWork p = []"

definition tp_inv :: "nat \<Rightarrow> thread_pool \<Rightarrow> bool" where
  "tp_inv n p \<longleftrightarrow> mMaxThreadCount p = n \<and> tp_items p \<and> tp_threads p \<and> dtor_ok (dtor p) p"

lemma worker_step_local:
  assumes "Worker_step p w = Some (p', w')"
  shows "started p' @ mWork p' = started p @ mWork p" and "posted p' = posted p"
    and "\<And>x. count_list (finished p') x + count_list (running w') x + count_list (started p) x =
      count_list (finished p) x + count_list (running w) x + count_list (started p') x"
    and "mIdleThreadCount p' + int (sleeping w) = mIdleThreadCount p + int (sleeping w')"
    and "mMaxThreadCount p' = mMaxThreadCount p" and "mStop p' = mStop p" and "dtor p' = dtor p"
    and "w' = WExit \<Longrightarrow> mStop p" and "w \<noteq> WExit" and "mWork p' \<noteq> [] \<Longrightarrow> w' \<noteq> WSleep False"
  using assms by (cases w; auto simp: take_work_def split: list.splits if_splits)+

text \<open>A thread that has not exited is not one that the destructor has joined.\<close>

lemma dtor_ok_update:
  assumes ok: "dtor_ok d p" and i: "i < length (mThreads p)" and w: "mThreads p ! i \<noteq> WExit"
    and s: "mStop p' = mStop p"
  shows "dtor_ok d (p'\<lparr>mThreads := (mThreads p)[i := w']\<rparr>)"
proof (cases d)
  case (DJoin k)
  have "k \<le> i"
  proof (rule ccontr)
    assume "\<not> k \<le> i"
    then have "mThreads p ! i \<in> set (take k (mThreads p))"
      using i by (auto simp: in_set_conv_nth intro!: exI [of _ i])
    then show False using ok w DJoin by auto
  qed
  then show ?thesis using ok s DJoin by simp
qed (use ok w nth_mem [OF i] in auto)

lemma tp_worker:
  assumes inv: "tp_inv n p" and i: "i < length (mThreads p)"
    and st: "Worker_step p (mThreads p ! i) = Some (p', w')"
  shows "tp_inv n (p'\<lparr>mThreads := (mThreads p)[i := w']\<rparr>)"
proof -
  note l = worker_step_local [OF st]
  let ?q = "p'\<lparr>mThreads := (mThreads p)[i := w']\<rparr>"
  have "tp_items ?q"
  proof -
    have "count_list (finished ?q) x + sum_list (map (\<lambda>w. count_list (running w) x) (mThreads ?q)) =
        count_list (started ?q) x" for x
    proof -
      have "count_list (finished p) x + sum_list (map (\<lambda>w. count_list (running w) x) (mThreads p)) =
          count_list (started p) x" using inv by (simp add: tp_inv_def tp_items_def)
      then show ?thesis
        using sum_list_map_update [OF i, of "\<lambda>w. count_list (running w) x" w'] l(3) [of x] by simp
    qed
    then show ?thesis using l(1,2) inv by (simp add: tp_inv_def tp_items_def)
  qed
  moreover have "tp_threads ?q"
  proof -
    have "mIdleThreadCount ?q = int (sum_list (map sleeping (mThreads ?q)))"
      using sum_list_map_update [OF i, of sleeping w'] l(4) inv by (simp add: tp_inv_def tp_threads_def)
    moreover have "dtor p = DNone \<Longrightarrow> WExit \<notin> set (mThreads ?q)"
      using l(8) inv set_update_subset_insert [of "mThreads p" i w'] by (auto simp: tp_inv_def tp_threads_def)
    moreover have "mWork p' \<noteq> [] \<Longrightarrow> \<exists>w \<in> set (mThreads ?q). w \<noteq> WSleep False"
      using l(10) i by (intro bexI [of _ w']) (auto simp: set_update_memI)
    ultimately show ?thesis using inv l by (simp add: tp_inv_def tp_threads_def)
  qed
  moreover have "dtor_ok (dtor ?q) ?q"
    using dtor_ok_update [OF _ i l(9), of "dtor p" p' w'] inv l by (simp add: tp_inv_def)
  ultimately show ?thesis using inv l by (simp add: tp_inv_def)
qed

lemma wake_worker_same [simp]:
  "sleeping (wake_worker w) = sleeping w" "running (wake_worker w) = running w"
  "wake_worker w = WExit \<longleftrightarrow> w = WExit" "wake_worker w \<noteq> WSleep False"
  by (cases w; simp add: wake_worker_def)+

text \<open>Waking sleepers keeps the invariant.\<close>

lemma tp_wake:
  assumes inv: "tp_inv n p" and i: "i < length (mThreads p)" and w: "mThreads p ! i = WSleep False"
  shows "tp_inv n (p\<lparr>mThreads := (mThreads p)[i := WSleep True]\<rparr>)"
proof -
  let ?q = "p\<lparr>mThreads := (mThreads p)[i := WSleep True]\<rparr>"
  have r: "sum_list (map (\<lambda>w. count_list (running w) x) (mThreads ?q)) =
      sum_list (map (\<lambda>w. count_list (running w) x) (mThreads p))" for x
    using sum_list_map_update [OF i, of "\<lambda>w. count_list (running w) x" "WSleep True"] w by simp
  have s: "sum_list (map sleeping (mThreads ?q)) = sum_list (map sleeping (mThreads p))"
    using sum_list_map_update [OF i, of sleeping "WSleep True"] w by simp
  have e: "WExit \<in> set (mThreads ?q) \<longrightarrow> WExit \<in> set (mThreads p)"
    using set_update_subset_insert [of "mThreads p" i "WSleep True"] by auto
  have "WSleep True \<in> set (mThreads ?q)" using i by (simp add: set_update_memI)
  then have b: "\<exists>w \<in> set (mThreads ?q). w \<noteq> WSleep False" by blast
  have d: "dtor_ok (dtor ?q) ?q"
    using dtor_ok_update [OF _ i, of "dtor p" p "WSleep True"] inv w by (simp add: tp_inv_def)
  have "tp_items ?q" using inv r by (simp add: tp_inv_def tp_items_def)
  moreover have "tp_threads ?q" using inv s e b by (auto simp: tp_inv_def tp_threads_def)
  ultimately show ?thesis using inv d by (simp add: tp_inv_def)
qed

lemma WakeOne_cases:
  assumes "WakeOne j ws = Some ws'"
  obtains "ws' = ws" "WSleep False \<notin> set ws"
  | "j < length ws" "ws ! j = WSleep False" "ws' = ws[j := WSleep True]"
proof (cases "WSleep False \<in> set ws")
  case True
  then have "j < length ws \<and> ws ! j = WSleep False \<and> ws' = ws[j := WSleep True]"
    using assms by (simp add: WakeOne_def split: if_splits)
  then show thesis using that(2) by blast
next
  case False
  then show thesis using assms that(1) by (simp add: WakeOne_def)
qed

lemma tp_add:
  assumes inv: "tp_inv n p" and d: "dtor p = DNone" and add: "AddWorkItem item j p = Some p'"
  shows "tp_inv n p'"
proof (cases "mIdleThreadCount p = 0 \<and> length (mThreads p) < mMaxThreadCount p")
  case True
  then have p': "p' = p\<lparr>mWork := mWork p @ [item], posted := posted p @ [item], mThreads := mThreads p @ [WTop]\<rparr>"
    using add by (simp add: AddWorkItem_def)
  show ?thesis using inv d True unfolding p' by (simp add: tp_inv_def tp_items_def tp_threads_def)
next
  case False
  then obtain ws where w: "WakeOne j (mThreads p) = Some ws"
    and p': "p' = p\<lparr>mWork := mWork p @ [item], posted := posted p @ [item], mThreads := ws\<rparr>"
    using add by (auto simp: AddWorkItem_def Let_def)
  have work: "tp_inv n (q\<lparr>mWork := mWork q @ [item], posted := posted q @ [item]\<rparr>)"
    if q: "tp_inv n q" "dtor q = DNone" "0 < mMaxThreadCount q \<Longrightarrow> \<exists>w \<in> set (mThreads q). w \<noteq> WSleep False" for q
    using q by (simp add: tp_inv_def tp_items_def tp_threads_def)
  from w show ?thesis
  proof (cases rule: WakeOne_cases)
    case 1
    have "\<exists>w \<in> set (mThreads p). w \<noteq> WSleep False" if "0 < mMaxThreadCount p"
    proof -
      have "mThreads p \<noteq> []" using False that inv by (auto simp: tp_inv_def tp_threads_def)
      then show ?thesis using 1(2) by (cases "mThreads p") auto
    qed
    then show ?thesis using work [OF inv d] 1(1) by (simp add: p')
  next
    case 2
    have "WSleep True \<in> set ws" using 2 by (simp add: set_update_memI)
    then have "\<exists>w \<in> set ws. w \<noteq> WSleep False" by blast
    then have "tp_inv n (p\<lparr>mThreads := ws, mWork := mWork p @ [item], posted := posted p @ [item]\<rparr>)"
      using work [OF tp_wake [OF inv 2(1,2)]] d 2(3) by simp
    also have "p\<lparr>mThreads := ws, mWork := mWork p @ [item], posted := posted p @ [item]\<rparr> = p'"
      by (simp add: p')
    finally show ?thesis .
  qed
qed

lemma tp_dtor:
  assumes inv: "tp_inv n p" and st: "Dtor_step p (dtor p) = Some p'"
  shows "tp_inv n p'"
proof (cases "dtor p")
  case DNone
  then show ?thesis using inv st by (auto simp: tp_inv_def tp_items_def tp_threads_def comp_def)
next
  case (DJoin k)
  then show ?thesis using inv st
    by (auto simp: tp_inv_def tp_items_def tp_threads_def take_Suc_conv_app_nth split: if_splits)
next
  case DRest
  then show ?thesis using inv st
    by (auto simp: tp_inv_def tp_items_def tp_threads_def split: list.splits)
qed (use st in simp)

interpretation tp: labelled_invariant tp_next "tp_inv n"
proof
  fix s s' a assume inv: "tp_inv n s" and st: "tp_next a s = Some s'"
  show "tp_inv n s'"
  proof (cases a)
    case (Worker i)
    then show ?thesis using inv st tp_worker [of n s i] by (auto split: if_splits)
  next
    case (Spurious i)
    then show ?thesis using inv st tp_wake [of n s i] by (auto split: if_splits)
  next
    case (AddWork item j)
    then show ?thesis using inv st tp_add [of n s item j s'] by (auto split: if_splits)
  next
    case Dtor
    then show ?thesis using inv st tp_dtor [of n s s'] by simp
  qed
qed

abbreviation tp_reaches :: "nat \<Rightarrow> thread_pool \<Rightarrow> bool" where
  "tp_reaches n \<equiv> reaches tp_next (ThreadPool_init n)"

lemma tp_reaches_inv:
  assumes "tp_reaches n p"
  shows "tp_inv n p"
  by (rule tp.reachable [OF assms])
    (simp add: tp_inv_def tp_items_def tp_threads_def ThreadPool_init_def)

text \<open>Items, as multisets.\<close>

lemma tp_items_mset:
  assumes "tp_inv n p"
  shows "mset (started p) = mset (finished p) + mset (concat (map running (mThreads p)))"
proof -
  have c: "count_list (concat (map running ws)) x = sum_list (map (\<lambda>w. count_list (running w) x) ws)" for ws x
    by (induction ws) simp_all
  show ?thesis using assms by (intro multiset_eqI)
      (simp add: tp_inv_def tp_items_def count_mset count_list_eq_length_filter c del: mset_concat
        flip: count_list_eq_length_filter)
qed

lemma tp_all_done:
  assumes inv: "tp_inv n p" and "dtor p = DDone"
  shows "mset (finished p) = mset (posted p)"
proof -
  have "concat (map running (mThreads p)) = []" "mWork p = []" using assms by (auto simp: tp_inv_def)
  then show ?thesis using inv tp_items_mset [OF inv] by (auto simp: tp_inv_def tp_items_def)
qed

lemma tp_finished_all: "tp_reaches n p \<Longrightarrow> dtor p = DDone \<Longrightarrow> mset (finished p) = mset (posted p)"
  by (rule tp_all_done [OF tp_reaches_inv])

text \<open>Claim C13.
  What happens to the work of a thread pool, for any number of workers, in every interleaving of posts,
  workers, wake-ups and the destructor.  Items are taken in the order of their posts, each of them
  once: those taken, followed by those waiting, are those posted, and those taken are those finished and
  those that a worker is running.  There are never more threads than the maximum, and the idle count
  is the number of sleeping workers.  When the destructor is done, every item posted was run exactly
  once.\<close>

theorem thread_pool_runs_all_once:
  assumes "tp_reaches n p"
  shows "started p @ mWork p = posted p \<and>
    mset (started p) = mset (finished p) + mset (concat (map running (mThreads p))) \<and>
    GetThreadCount p \<le> n \<and> mIdleThreadCount p = int (sum_list (map sleeping (mThreads p))) \<and>
    (dtor p = DDone \<longrightarrow> mset (finished p) = mset (posted p))"
proof -
  have inv: "tp_inv n p" using tp_reaches_inv [OF assms] .
  show ?thesis using inv tp_items_mset [OF inv] tp_finished_all [OF assms]
    by (auto simp: tp_inv_def tp_items_def tp_threads_def GetThreadCount_def)
qed

theorem thread_pool_runs_all_once_witness:
  "\<exists>p. tp_reaches 1 p \<and> dtor p = DDone \<and> posted p = [5, 6] \<and> mset (finished p) = {#5, 6#}"
proof -
  obtain p where run: "run_acts tp_next [AddWork 5 0, Worker 0, Worker 0, AddWork 6 0, Worker 0, Dtor, Worker 0, Dtor,
      Dtor, Dtor, Dtor] (ThreadPool_init 1) = Some p" and p: "dtor p = DDone" "posted p = [5, 6]"
    by (simp add: ThreadPool_init_def AddWorkItem_def WakeOne_def take_work_def wake_worker_def)
  have r: "tp_reaches 1 p" using run_acts_reaches [OF run] .
  show ?thesis using thread_pool_runs_all_once [OF r] r p by auto
qed

text \<open>Claim C24.
  Posted work does not wait for nothing: while work is waiting in a pool that is not being destroyed
  and may have a thread, some worker can make a step; a post that finds all workers asleep has woken one,
  and a woken worker that loses its item to another leaves that one awake.\<close>

theorem thread_pool_work_conserving:
  assumes "tp_reaches n p" and "dtor p = DNone" and "mWork p \<noteq> []" and "0 < n"
  shows "\<exists>i < GetThreadCount p. tp_next (Worker i) p \<noteq> None"
proof -
  have inv: "tp_inv n p" using tp_reaches_inv [OF assms(1)] .
  then have "\<exists>w \<in> set (mThreads p). w \<noteq> WSleep False" "WExit \<notin> set (mThreads p)"
    using assms(2-4) by (simp_all add: tp_inv_def tp_threads_def)
  then obtain w where w: "w \<in> set (mThreads p)" "w \<noteq> WSleep False" "w \<noteq> WExit" by blast
  then obtain i where i: "i < length (mThreads p)" "mThreads p ! i = w" by (auto simp: in_set_conv_nth)
  have "Worker_step p w \<noteq> None" using w(2,3) by (cases w) (simp_all add: of_bool_def)
  then show ?thesis using i by (auto simp: GetThreadCount_def)
qed

theorem thread_pool_work_conserving_witness:
  "\<exists>p. tp_reaches 1 p \<and> mWork p = [6] \<and> tp_next (Worker 0) p \<noteq> None"
proof -
  obtain p where run: "run_acts tp_next [AddWork 5 0, Worker 0, Worker 0, Worker 0, Worker 0, Worker 0, AddWork 6 0]
      (ThreadPool_init 1) = Some p" and p: "dtor p = DNone" "mWork p = [6]" "GetThreadCount p = 1"
    by (simp add: ThreadPool_init_def AddWorkItem_def WakeOne_def take_work_def GetThreadCount_def)
  have r: "tp_reaches 1 p" using run_acts_reaches [OF run] .
  have "\<exists>i < GetThreadCount p. tp_next (Worker i) p \<noteq> None"
    by (rule thread_pool_work_conserving [OF r]) (simp_all add: p)
  then have "tp_next (Worker 0) p \<noteq> None" using p(3) by simp
  then show ?thesis using r p(2) by blast
qed

text \<open>The destructor can wait for ever.  A worker reads \<^verbatim>\<open>mStop\<close> outside the lock; if the destructor sets it
  and wakes the sleepers before the worker takes the lock, the worker finds no work and goes to
  sleep after the last wake-up there will be, and the destructor joins it.  Only a spurious wake-up
  can end that.\<close>

theorem thread_pool_destructor_hang:
  "\<exists>p. tp_reaches 1 p \<and> mStop p \<and> dtor p = DJoin 0 \<and> mThreads p = [WSleep False] \<and>
     \<not> (\<exists>a. tp_next a p \<noteq> None \<and> \<not> (\<exists>i. a = Spurious i))"
proof -
  let ?p = "\<lparr>mMaxThreadCount = 1, mStop = True, mThreads = [WSleep False], mIdleThreadCount = 1, mWork = [],
    dtor = DJoin 0, posted = [5], started = [5], finished = [5]\<rparr>"
  have run: "run_acts tp_next [AddWork 5 0, Worker 0, Worker 0, Worker 0, Worker 0, Dtor, Worker 0]
      (ThreadPool_init 1) = Some ?p"
    by (simp add: ThreadPool_init_def AddWorkItem_def WakeOne_def take_work_def wake_worker_def)
  have none: "tp_next a ?p = None" if "\<not> (\<exists>i. a = Spurious i)" for a
    using that by (cases a) simp_all
  have "\<not> (\<exists>a. tp_next a ?p \<noteq> None \<and> \<not> (\<exists>i. a = Spurious i))"
  proof (intro notI, elim exE conjE)
    fix a assume "tp_next a ?p \<noteq> None" "\<not> (\<exists>i. a = Spurious i)"
    then show False using none by simp
  qed
  then show ?thesis
    using run_acts_reaches [OF run] by (intro exI [of _ ?p] conjI) simp_all
qed

end
