(* ===== verification/Future.thy ===== *)
theory Future
  imports Atomic_Ops
begin

text \<open>
  Promises and futures (promise.hpp, future.hpp, detail/future_data.hpp): the shared \<^verbatim>\<open>FutureData\<close> with
  its reference count, its result and its event, and threads that copy, drop, set and get.

  A value and an exception are numbers.  The event is its flag here: \<^verbatim>\<open>Event::Set\<close> is one step and
  \<^verbatim>\<open>WaitFor\<close> on it blocks until it is set (theory Event holds the event itself).  A thread works on the
  data only through an intrusive pointer it holds; \<open>held\<close> is how many it holds.
\<close>

record fut_mem =
  mRefCount :: u32
  storage :: "nat option" \<comment> \<open>\<^verbatim>\<open>mResult\<close>, once constructed\<close>
  mException :: "nat option"
  eventSet :: bool
  destroyed :: nat \<comment> \<open>how often \<^verbatim>\<open>Destroy\<close> ran\<close>
  drops :: nat \<comment> \<open>pointers dropped so far\<close>

datatype fut_op = CopyRef | DropRef | SetV nat | SetE nat | GetR

datatype fut_pc = FIdle | FDestroy | FSetEvent | FGetWait | FGetRead | FAssert

record fut_thread =
  fpc :: fut_pc
  fscript :: "fut_op list"
  held :: nat
  results :: "(nat + nat) list" \<comment> \<open>of the calls of \<^verbatim>\<open>Get\<close>: \<open>Inl\<close> a rethrown exception, \<open>Inr\<close> a value\<close>

definition FutureData_init :: "nat \<Rightarrow> fut_mem" where
  "FutureData_init refCount =
     \<lparr>mRefCount = of_nat refCount, storage = None, mException = None, eventSet = False,
      destroyed = 0, drops = 0\<rparr>"

definition HasValue :: "fut_mem \<Rightarrow> bool" where
  "HasValue g \<longleftrightarrow> eventSet g \<and> mException g = None"

definition HasException :: "fut_mem \<Rightarrow> bool" where
  "HasException g \<longleftrightarrow> eventSet g \<and> mException g \<noteq> None"

text \<open>\<^verbatim>\<open>AddRef\<close> and \<^verbatim>\<open>Release\<close>: the count, and whether \<^verbatim>\<open>Destroy\<close> is called next; \<open>None\<close> is the failed assertion.\<close>

definition FutureData_AddRef :: "fut_mem \<Rightarrow> fut_mem" where
  "FutureData_AddRef g = g\<lparr>mRefCount := snd (AtomicIncrement (mRefCount g))\<rparr>"

definition FutureData_Release :: "fut_mem \<Rightarrow> (fut_mem \<times> bool) option" where
  "FutureData_Release g =
     (if mRefCount g = 0 then None
      else (let (old, count') = AtomicDecrement (mRefCount g)
            in Some (g\<lparr>mRefCount := count', drops := drops g + 1\<rparr>, old = 1)))"

text \<open>The part of \<^verbatim>\<open>Set\<close> and of \<^verbatim>\<open>SetException\<close> before the event is set.\<close>

definition FutureData_Set :: "nat \<Rightarrow> fut_mem \<Rightarrow> fut_mem option" where
  "FutureData_Set v g = (if eventSet g then None else Some (g\<lparr>storage := Some v\<rparr>))"

definition FutureData_SetException :: "nat \<Rightarrow> fut_mem \<Rightarrow> fut_mem option" where
  "FutureData_SetException e g = (if eventSet g then None else Some (g\<lparr>mException := Some e\<rparr>))"

text \<open>What \<^verbatim>\<open>Get\<close> gives when it has waited; \<open>None\<close> would be a read of storage that holds no value.\<close>

definition FutureData_Get :: "fut_mem \<Rightarrow> (nat + nat) option" where
  "FutureData_Get g = (case mException g of None \<Rightarrow> map_option Inr (storage g) | Some e \<Rightarrow> Some (Inl e))"

definition set_or_assert :: "fut_mem option \<Rightarrow> fut_mem \<Rightarrow> fut_thread \<Rightarrow> fut_mem \<times> fut_thread" where
  "set_or_assert r g t =
     (case r of None \<Rightarrow> (g, t\<lparr>fpc := FAssert\<rparr>) | Some g' \<Rightarrow> (g', t\<lparr>fpc := FSetEvent\<rparr>))"

fun fut_begin :: "fut_op \<Rightarrow> fut_mem \<Rightarrow> fut_thread \<Rightarrow> fut_mem \<times> fut_thread" where
  "fut_begin CopyRef g t = (FutureData_AddRef g, t\<lparr>held := held t + 1\<rparr>)"
| "fut_begin DropRef g t =
     (case FutureData_Release g of
        None \<Rightarrow> (g, t\<lparr>fpc := FAssert\<rparr>)
      | Some (g', lastRef) \<Rightarrow> (g', t\<lparr>held := held t - 1, fpc := if lastRef then FDestroy else FIdle\<rparr>))"
| "fut_begin (SetV v) g t = set_or_assert (FutureData_Set v g) g t"
| "fut_begin (SetE e) g t = set_or_assert (FutureData_SetException e g) g t"
| "fut_begin GetR g t = (g, t\<lparr>fpc := if eventSet g then FGetRead else FGetWait\<rparr>)"

definition fut_step :: "fut_mem \<Rightarrow> fut_thread \<Rightarrow> (fut_mem \<times> fut_thread) option" where
  "fut_step g t = (case fpc t of
     FIdle \<Rightarrow>
       (case fscript t of
          [] \<Rightarrow> None
        | op # ops \<Rightarrow> if held t = 0 then None else Some (fut_begin op g (t\<lparr>fscript := ops\<rparr>)))
   | FDestroy \<Rightarrow> Some (g\<lparr>destroyed := destroyed g + 1\<rparr>, t\<lparr>fpc := FIdle\<rparr>)
   | FSetEvent \<Rightarrow> Some (g\<lparr>eventSet := True\<rparr>, t\<lparr>fpc := FIdle\<rparr>)
   | FGetWait \<Rightarrow> if eventSet g then Some (g, t\<lparr>fpc := FGetRead\<rparr>) else None
   | FGetRead \<Rightarrow>
       (case FutureData_Get g of
          None \<Rightarrow> Some (g, t\<lparr>fpc := FAssert\<rparr>)
        | Some r \<Rightarrow> Some (g, t\<lparr>fpc := FIdle, results := results t @ [r]\<rparr>))
   | FAssert \<Rightarrow> None)"

text \<open>A thread that starts with \<open>n\<close> pointers.\<close>

definition fut_thread_init :: "fut_op list \<times> nat \<Rightarrow> fut_thread" where
  "fut_thread_init p = \<lparr>fpc = FIdle, fscript = fst p, held = snd p, results = []\<rparr>"

section \<open>Protocol\<close>

text \<open>
  Counted for \<open>N\<close> pointers in all: those that exist, were dropped, or are still to be copied
  (\<open>Budget\<close>); those held, against the count (\<open>Held\<close>); the one \<^verbatim>\<open>Destroy\<close> (\<open>Destruction\<close>); the calls of
  \<^verbatim>\<open>Set\<close> (\<open>Setter\<close>).
\<close>

datatype fut_token = Budget | Held | Destruction | Setter

fun fut_gtok :: "nat \<Rightarrow> fut_token \<Rightarrow> fut_mem \<Rightarrow> nat" where
  "fut_gtok N Budget g = unat (mRefCount g) + drops g"
| "fut_gtok N Held g = N - unat (mRefCount g)"
| "fut_gtok N Destruction g = destroyed g + of_bool (mRefCount g \<noteq> 0)"
| "fut_gtok N Setter g = of_bool (eventSet g)"

fun is_copy :: "fut_op \<Rightarrow> bool" where
  "is_copy CopyRef \<longleftrightarrow> True"
| "is_copy _ \<longleftrightarrow> False"

fun is_set :: "fut_op \<Rightarrow> bool" where
  "is_set (SetV v) \<longleftrightarrow> True"
| "is_set (SetE e) \<longleftrightarrow> True"
| "is_set _ \<longleftrightarrow> False"

definition count_ops :: "(fut_op \<Rightarrow> bool) \<Rightarrow> fut_op list \<Rightarrow> nat" where
  "count_ops P ops = length (filter P ops)"

fun fut_ltok :: "fut_token \<Rightarrow> fut_thread \<Rightarrow> nat" where
  "fut_ltok Budget t = count_ops is_copy (fscript t)"
| "fut_ltok Held t = held t"
| "fut_ltok Destruction t = of_bool (fpc t = FDestroy)"
| "fut_ltok Setter t = count_ops is_set (fscript t) + of_bool (fpc t = FSetEvent)"

fun fut_cap :: "nat \<Rightarrow> nat \<Rightarrow> fut_token \<Rightarrow> nat" where
  "fut_cap N s Budget = N"
| "fut_cap N s Held = N"
| "fut_cap N s Destruction = 1"
| "fut_cap N s Setter = s"

text \<open>\<open>ops\<close> are the operations of all scripts.\<close>

definition fut_gi :: "nat \<Rightarrow> nat \<Rightarrow> fut_op set \<Rightarrow> fut_mem \<Rightarrow> bool" where
  "fut_gi N s ops g \<longleftrightarrow> N < 2 ^ 32 \<and> s \<le> 1 \<and> (eventSet g \<longrightarrow> FutureData_Get g \<noteq> None) \<and>
     (\<forall>v. storage g = Some v \<longrightarrow> SetV v \<in> ops) \<and> (\<forall>e. mException g = Some e \<longrightarrow> SetE e \<in> ops)"

definition fut_ti :: "fut_op set \<Rightarrow> fut_mem \<Rightarrow> fut_thread \<Rightarrow> bool" where
  "fut_ti ops g t \<longleftrightarrow> set (fscript t) \<subseteq> ops \<and>
     fpc t \<noteq> FAssert \<and> (fpc t = FSetEvent \<longrightarrow> FutureData_Get g \<noteq> None) \<and> (fpc t = FGetRead \<longrightarrow> eventSet g) \<and>
     (fpc t \<in> {FSetEvent, FGetWait, FGetRead} \<longrightarrow> 0 < held t) \<and>
     (\<forall>r \<in> set (results t). eventSet g \<and> FutureData_Get g = Some r)"

lemma count_ops_simps [simp]:
  "count_ops P [] = 0" "count_ops P (op # ops) = of_bool (P op) + count_ops P ops"
  by (simp_all add: count_ops_def)

lemmas fut_defs = FutureData_AddRef_def FutureData_Release_def FutureData_Set_def
  FutureData_SetException_def FutureData_Get_def set_or_assert_def AtomicIncrement_def AtomicDecrement_def
  sync_fetch_and_def

lemma FutureData_Get_frame [simp]:
  "FutureData_Get (g\<lparr>mRefCount := r\<rparr>) = FutureData_Get g"
  "FutureData_Get (g\<lparr>drops := n\<rparr>) = FutureData_Get g"
  "FutureData_Get (g\<lparr>destroyed := n\<rparr>) = FutureData_Get g"
  "FutureData_Get (g\<lparr>eventSet := b\<rparr>) = FutureData_Get g"
  by (simp_all add: FutureData_Get_def cong: option.case_cong)

lemma FutureData_Get_new [simp]:
  "FutureData_Get (g\<lparr>storage := Some v\<rparr>) \<noteq> None" "FutureData_Get (g\<lparr>mException := Some v\<rparr>) \<noteq> None"
  by (simp_all add: FutureData_Get_def split: option.split)

text \<open>The counter moves without wrapping.\<close>

lemma ref_inc: "unat (r :: u32) + 1 < 2 ^ 32 \<Longrightarrow> unat (r + 1) = unat r + 1"
  using unat_add_lem [of r 1] by simp

lemma ref_dec: "0 < unat (r :: u32) \<Longrightarrow> unat (r - 1) = unat r - 1"
  by (simp add: unat_minus_one unat_gt_0)

lemma fut_own:
  assumes gi: "fut_gi N s V g" and ti: "fut_ti V g t"
    and tok: "\<And>k. fut_gtok N k g + fut_ltok k t \<le> fut_cap N s k"
    and st: "fut_step g t = Some (g', t')"
  shows "fut_gi N s V g' \<and> fut_ti V g' t' \<and>
    (\<forall>k. fut_gtok N k g' + fut_ltok k t' = fut_gtok N k g + fut_ltok k t)"
proof -
  have tB: "unat (mRefCount g) + drops g + count_ops is_copy (fscript t) \<le> N"
    and tH: "N - unat (mRefCount g) + held t \<le> N"
    and tD: "destroyed g + of_bool (mRefCount g \<noteq> 0) + of_bool (fpc t = FDestroy) \<le> (1::nat)"
    and tS: "of_bool (eventSet g) + count_ops is_set (fscript t) + of_bool (fpc t = FSetEvent) \<le> s"
    using tok [of Budget] tok [of Held] tok [of Destruction] tok [of Setter] by simp_all
  have refs: "held t \<le> unat (mRefCount g)" using tH tB by linarith
  show ?thesis
  proof (cases "fpc t")
    case FIdle
    then obtain op ops where sc: "fscript t = op # ops" and h: "held t \<noteq> 0"
      and b: "fut_begin op g (t\<lparr>fscript := ops\<rparr>) = (g', t')"
      using st by (auto simp: fut_step_def split: list.splits if_splits)
    have nz: "mRefCount g \<noteq> 0" "0 < unat (mRefCount g)" using refs h by (auto simp: unat_gt_0)
    note defs = fut_gi_def fut_ti_def
    show ?thesis
    proof (cases op)
      case CopyRef
      have g': "g' = g\<lparr>mRefCount := mRefCount g + 1\<rparr>" and t': "t' = t\<lparr>fscript := ops, held := held t + 1\<rparr>"
        using b CopyRef by (simp_all add: fut_defs)
      have u: "unat (mRefCount g + 1) = unat (mRefCount g) + 1"
        using tB gi sc CopyRef by (intro ref_inc) (simp add: fut_gi_def)
      then have n: "mRefCount g + 1 \<noteq> 0" by (metis add_is_0 one_neq_zero unat_0)
      have "fut_gtok N k g' + fut_ltok k t' = fut_gtok N k g + fut_ltok k t" for k
        using u n nz tB sc CopyRef FIdle unfolding g' t' by (cases k) simp_all
      moreover have "fut_gi N s V g'" "fut_ti V g' t'" using gi ti sc FIdle unfolding g' t' by (simp_all add: defs)
      ultimately show ?thesis by blast
    next
      case DropRef
      have g': "g' = g\<lparr>mRefCount := mRefCount g - 1, drops := drops g + 1\<rparr>"
        and t': "t' = t\<lparr>fscript := ops, held := held t - 1, fpc := if mRefCount g = 1 then FDestroy else FIdle\<rparr>"
        using b DropRef nz by (simp_all add: fut_defs)
      have u: "unat (mRefCount g - 1) = unat (mRefCount g) - 1" using nz by (intro ref_dec)
      have z: "mRefCount g - 1 = 0 \<longleftrightarrow> mRefCount g = 1" by simp
      have "fut_gtok N k g' + fut_ltok k t' = fut_gtok N k g + fut_ltok k t" for k
        using u z nz tB refs h sc DropRef FIdle unfolding g' t' by (cases k) simp_all
      moreover have "fut_gi N s V g'" "fut_ti V g' t'" using gi ti sc FIdle unfolding g' t' by (simp_all add: defs)
      ultimately show ?thesis by blast
    next
      case (SetV v)
      have e: "\<not> eventSet g" using tS gi sc SetV by (cases "eventSet g") (simp_all add: fut_gi_def)
      have g': "g' = g\<lparr>storage := Some v\<rparr>" and t': "t' = t\<lparr>fscript := ops, fpc := FSetEvent\<rparr>"
        using b SetV e by (simp_all add: fut_defs)
      have "fut_gtok N k g' + fut_ltok k t' = fut_gtok N k g + fut_ltok k t" for k
        using sc SetV FIdle unfolding g' t' by (cases k) simp_all
      moreover have "fut_gi N s V g'" "fut_ti V g' t'"
        using gi ti sc SetV e h FIdle unfolding g' t' by (auto simp: defs simp del: not_None_eq)
      ultimately show ?thesis by blast
    next
      case (SetE v)
      have e: "\<not> eventSet g" using tS gi sc SetE by (cases "eventSet g") (simp_all add: fut_gi_def)
      have g': "g' = g\<lparr>mException := Some v\<rparr>" and t': "t' = t\<lparr>fscript := ops, fpc := FSetEvent\<rparr>"
        using b SetE e by (simp_all add: fut_defs)
      have "fut_gtok N k g' + fut_ltok k t' = fut_gtok N k g + fut_ltok k t" for k
        using sc SetE FIdle unfolding g' t' by (cases k) simp_all
      moreover have "fut_gi N s V g'" "fut_ti V g' t'"
        using gi ti sc SetE e h FIdle unfolding g' t' by (auto simp: defs simp del: not_None_eq)
      ultimately show ?thesis by blast
    next
      case GetR
      have g': "g' = g" and t': "t' = t\<lparr>fscript := ops, fpc := if eventSet g then FGetRead else FGetWait\<rparr>"
        using b GetR by auto
      have "fut_gtok N k g' + fut_ltok k t' = fut_gtok N k g + fut_ltok k t" for k
        using sc GetR FIdle unfolding g' t' by (cases k) simp_all
      moreover have "fut_gi N s V g'" "fut_ti V g' t'" using gi ti sc h FIdle unfolding g' t' by (simp_all add: defs)
      ultimately show ?thesis by blast
    qed
  next
    case FDestroy
    then have g': "g' = g\<lparr>destroyed := destroyed g + 1\<rparr>" and t': "t' = t\<lparr>fpc := FIdle\<rparr>"
      using st by (simp_all add: fut_step_def)
    have "fut_gtok N k g' + fut_ltok k t' = fut_gtok N k g + fut_ltok k t" for k
      using FDestroy unfolding g' t' by (cases k) simp_all
    then show ?thesis using gi ti unfolding g' t' by (simp add: fut_gi_def fut_ti_def)
  next
    case FSetEvent
    then have g': "g' = g\<lparr>eventSet := True\<rparr>" and t': "t' = t\<lparr>fpc := FIdle\<rparr>"
      using st by (simp_all add: fut_step_def)
    have e: "\<not> eventSet g" using tS gi FSetEvent by (cases "eventSet g") (simp_all add: fut_gi_def)
    have "fut_gtok N k g' + fut_ltok k t' = fut_gtok N k g + fut_ltok k t" for k
      using FSetEvent e unfolding g' t' by (cases k) simp_all
    then show ?thesis using gi ti FSetEvent unfolding g' t' by (simp add: fut_gi_def fut_ti_def)
  next
    case FGetWait
    then have e: "eventSet g" and g': "g' = g" and t': "t' = t\<lparr>fpc := FGetRead\<rparr>"
      using st by (auto simp: fut_step_def split: if_splits)
    have "fut_gtok N k g' + fut_ltok k t' = fut_gtok N k g + fut_ltok k t" for k
      using FGetWait unfolding g' t' by (cases k) simp_all
    then show ?thesis using gi ti e FGetWait unfolding g' t' by (simp add: fut_gi_def fut_ti_def)
  next
    case FGetRead
    then obtain r where r: "FutureData_Get g = Some r" using gi ti by (auto simp: fut_gi_def fut_ti_def)
    then have g': "g' = g" and t': "t' = t\<lparr>fpc := FIdle, results := results t @ [r]\<rparr>"
      using st FGetRead by (auto simp: fut_step_def)
    have "fut_gtok N k g' + fut_ltok k t' = fut_gtok N k g + fut_ltok k t" for k
      using FGetRead unfolding g' t' by (cases k) simp_all
    then show ?thesis using gi ti r FGetRead unfolding g' t' by (auto simp: fut_gi_def fut_ti_def)
  qed (use ti in \<open>simp add: fut_ti_def\<close>)
qed

text \<open>Only a setter changes the outcome, and there is no other one.\<close>

lemma fut_step_outcome:
  assumes "fut_step g t = Some (g', t')"
  shows "(eventSet g' = eventSet g \<and> FutureData_Get g' = FutureData_Get g) \<or> 0 < fut_ltok Setter t"
    and "eventSet g \<Longrightarrow> eventSet g'"
  using assms
  by (auto simp: fut_step_def fut_defs split: fut_pc.splits list.splits if_splits option.splits elim!: fut_begin.elims)

lemma fut_stable:
  assumes gi: "fut_gi N s V g" and ti: "fut_ti V g t" "fut_ti V g m"
    and tok: "\<And>k. fut_gtok N k g + fut_ltok k t + fut_ltok k m \<le> fut_cap N s k"
    and st: "fut_step g t = Some (g', t')"
  shows "fut_ti V g' m"
proof (cases "eventSet g' = eventSet g \<and> FutureData_Get g' = FutureData_Get g")
  case False
  then have "0 < fut_ltok Setter t" using fut_step_outcome(1) [OF st] by blast
  then have "\<not> eventSet g" "fpc m \<noteq> FSetEvent"
    using tok [of Setter] gi by (auto simp: fut_gi_def)
  then show ?thesis using ti(2) by (auto simp: fut_ti_def)
qed (use ti in \<open>simp add: fut_ti_def\<close>)

interpretation fu: token_protocol fut_step "fut_gi N s V" "fut_ti V" "fut_gtok N" fut_ltok "fut_cap N s"
  by unfold_locales (fact fut_own, fact fut_stable)

definition fut_runs :: "(fut_op list \<times> nat) list \<Rightarrow> fut_mem \<Rightarrow> fut_thread list \<Rightarrow> bool" where
  "fut_runs ps g ts \<longleftrightarrow>
     executes fut_step (FutureData_init (sum_list (map snd ps)), map fut_thread_init ps) (g, ts)"

text \<open>Pointers that exist at the start, or may be made by copying.\<close>

definition pointers :: "(fut_op list \<times> nat) list \<Rightarrow> nat" where
  "pointers ps = sum_list (map snd ps) + count_ops is_copy (concat (map fst ps))"

lemma count_ops_concat: "count_ops P (concat xss) = sum_list (map (count_ops P) xss)"
  by (induction xss) (simp_all add: count_ops_def)

lemma fut_runs_inv:
  assumes run: "fut_runs ps g ts" and pos: "0 < sum_list (map snd ps)" and bound: "pointers ps < 2 ^ 32"
    and sets: "count_ops is_set (concat (map fst ps)) \<le> 1"
  shows "fut_gi (pointers ps) (count_ops is_set (concat (map fst ps))) (set (concat (map fst ps))) g \<and>
    (\<forall>t \<in> set ts. fut_ti (set (concat (map fst ps))) g t) \<and>
    (\<forall>k. fut_gtok (pointers ps) k g + sum_list (map (fut_ltok k) ts) =
      fut_cap (pointers ps) (count_ops is_set (concat (map fst ps))) k)"
proof (rule fu.executes_protocol [OF run [unfolded fut_runs_def]])
  let ?n = "sum_list (map snd ps)"
  have n: "?n < 2 ^ 32" using bound by (simp add: pointers_def)
  then have u: "unat (of_nat ?n :: u32) = ?n" by (simp add: unat_of_nat)
  then have nz: "(of_nat ?n :: u32) \<noteq> 0" using pos by (metis less_irrefl unat_0)
  show "fut_gi (pointers ps) (count_ops is_set (concat (map fst ps))) (set (concat (map fst ps))) (FutureData_init ?n)"
    using bound sets by (simp add: fut_gi_def FutureData_init_def)
  show "\<forall>t \<in> set (map fut_thread_init ps). fut_ti (set (concat (map fst ps))) (FutureData_init ?n) t"
    by (auto simp: fut_ti_def fut_thread_init_def)
  show "fut_gtok (pointers ps) k (FutureData_init ?n) + sum_list (map (fut_ltok k) (map fut_thread_init ps)) =
      fut_cap (pointers ps) (count_ops is_set (concat (map fst ps))) k" for k
    using u nz by (cases k)
      (simp_all add: FutureData_init_def fut_thread_init_def comp_def pointers_def count_ops_concat)
qed

lemma outcome_from_scripts:
  "fut_gi N s V g \<Longrightarrow> FutureData_Get g = Some r \<Longrightarrow>
   (case r of Inl e \<Rightarrow> SetE e \<in> V | Inr v \<Rightarrow> SetV v \<in> V)"
  by (auto simp: FutureData_Get_def fut_gi_def split: option.splits)

text \<open>The count against the pointers held and the destruction.\<close>

lemma fut_runs_refs:
  assumes "fut_runs ps g ts" and "0 < sum_list (map snd ps)" and "pointers ps < 2 ^ 32"
    and "count_ops is_set (concat (map fst ps)) \<le> 1"
  shows "unat (mRefCount g) = sum_list (map held ts)"
    and "destroyed g + of_bool (0 < sum_list (map held ts)) + sum_list (map (fut_ltok Destruction) ts) = 1"
    and "\<And>t. t \<in> set ts \<Longrightarrow> 0 < held t \<Longrightarrow> destroyed g = 0"
proof -
  let ?N = "pointers ps"
  have tok: "\<And>k. fut_gtok ?N k g + sum_list (map (fut_ltok k) ts) =
      fut_cap ?N (count_ops is_set (concat (map fst ps))) k"
    using fut_runs_inv [OF assms] by blast
  have h: "(\<lambda>t. fut_ltok Held t) = held" by (rule ext) simp
  have "unat (mRefCount g) \<le> ?N" using tok [of Budget] by simp
  then show refs: "unat (mRefCount g) = sum_list (map held ts)" using tok [of Held] by (simp add: h)
  then have "mRefCount g \<noteq> 0 \<longleftrightarrow> 0 < sum_list (map held ts)" by (simp flip: unat_gt_0 add: word_neq_0_conv)
  then show d: "destroyed g + of_bool (0 < sum_list (map held ts)) + sum_list (map (fut_ltok Destruction) ts) = 1"
    using tok [of Destruction] by simp
  show "destroyed g = 0" if "t \<in> set ts" "0 < held t" for t
  proof -
    have "0 < sum_list (map held ts)" using that member_le_sum_list [of "held t" "map held ts"] by auto
    then show ?thesis using d by simp
  qed
qed

text \<open>No thread fails an assertion; a setter is ahead of the event.\<close>

lemma future_runs_no_assert:
  assumes "fut_runs ps g ts" and "0 < sum_list (map snd ps)" and "pointers ps < 2 ^ 32"
    and "count_ops is_set (concat (map fst ps)) \<le> 1" and "t \<in> set ts"
  shows "fpc t \<noteq> FAssert" and "r \<in> set (results t) \<Longrightarrow> FutureData_Get g = Some r"
    and "r \<in> set (results t) \<Longrightarrow>
      case r of Inl e \<Rightarrow> SetE e \<in> set (concat (map fst ps)) | Inr v \<Rightarrow> SetV v \<in> set (concat (map fst ps))"
proof -
  let ?V = "set (concat (map fst ps))"
  have inv: "fut_gi (pointers ps) (count_ops is_set (concat (map fst ps))) ?V g" "fut_ti ?V g t"
    using fut_runs_inv [OF assms(1-4)] assms(5) by blast+
  show "fpc t \<noteq> FAssert" using inv(2) unfolding fut_ti_def by blast
  show r: "FutureData_Get g = Some r" if "r \<in> set (results t)" using inv(2) that unfolding fut_ti_def by blast
  show "case r of Inl e \<Rightarrow> SetE e \<in> ?V | Inr v \<Rightarrow> SetV v \<in> ?V" if "r \<in> set (results t)"
    by (rule outcome_from_scripts [OF inv(1) r [OF that]])
qed

lemma future_setters:
  assumes "fut_runs ps g ts" and "0 < sum_list (map snd ps)" and "pointers ps < 2 ^ 32"
    and "count_ops is_set (concat (map fst ps)) \<le> 1"
  shows "of_bool (eventSet g) + sum_list (map (fut_ltok Setter) ts) = count_ops is_set (concat (map fst ps))"
proof -
  have "fut_gtok (pointers ps) Setter g + sum_list (map (fut_ltok Setter) ts) =
      fut_cap (pointers ps) (count_ops is_set (concat (map fst ps))) Setter"
    using fut_runs_inv [OF assms] by blast
  then show ?thesis by simp
qed

text \<open>A future delivers what its promise was given.  Any number of threads copy, drop and read pointers to
  the shared data, one call of \<^verbatim>\<open>SetValue\<close> or \<^verbatim>\<open>SetException\<close> among them, in any interleaving, with fewer
  than \<open>2^32\<close> pointers.  Then no assertion fails and no \<^verbatim>\<open>Get\<close> reads a value that is not there; all
  calls of \<^verbatim>\<open>Get\<close> that return give the same result, the value of that \<^verbatim>\<open>SetValue\<close> or the exception of that
  \<^verbatim>\<open>SetException\<close>.\<close>

theorem future_delivers:
  assumes "fut_runs ps g ts" and "0 < sum_list (map snd ps)" and "pointers ps < 2 ^ 32"
    and "count_ops is_set (concat (map fst ps)) \<le> 1"
  shows "\<forall>t \<in> set ts. fpc t \<noteq> FAssert \<and>
    (\<forall>r \<in> set (results t). FutureData_Get g = Some r \<and>
      (case r of Inl e \<Rightarrow> SetE e \<in> set (concat (map fst ps)) | Inr v \<Rightarrow> SetV v \<in> set (concat (map fst ps))))"
  using future_runs_no_assert [OF assms] by blast

text \<open>Claim C17.
  The shared data of a future is destroyed once, and not too early.  While a thread holds a pointer, and
  so whenever a thread is inside one of its operations, the data is not destroyed and \<^verbatim>\<open>mRefCount\<close> is
  the number of pointers held; it is never destroyed twice; and when all threads are done and hold no
  pointer it has been destroyed.\<close>

theorem future_destroyed_once:
  assumes "fut_runs ps g ts" and "0 < sum_list (map snd ps)" and "pointers ps < 2 ^ 32"
    and "count_ops is_set (concat (map fst ps)) \<le> 1"
  shows "unat (mRefCount g) = sum_list (map held ts) \<and> destroyed g \<le> 1 \<and>
    (\<forall>t \<in> set ts. (fpc t \<in> {FSetEvent, FGetWait, FGetRead} \<longrightarrow> 0 < held t) \<and> (0 < held t \<longrightarrow> destroyed g = 0)) \<and>
    ((\<forall>t \<in> set ts. fpc t = FIdle \<and> held t = 0) \<longrightarrow> destroyed g = 1)"
proof -
  have inv: "\<forall>t \<in> set ts. fut_ti (set (concat (map fst ps))) g t" using fut_runs_inv [OF assms] by blast
  note refs = fut_runs_refs [OF assms]
  have "destroyed g = 1" if "\<forall>t \<in> set ts. fpc t = FIdle \<and> held t = 0"
  proof -
    have "sum_list (map held ts) = 0" "sum_list (map (fut_ltok Destruction) ts) = 0"
      using that by (simp_all add: sum_list_eq_0_iff)
    then show ?thesis using refs(2) by (simp only: less_irrefl of_bool_eq add_0_right)
  qed
  moreover have "destroyed g \<le> 1" using refs(2) by linarith
  ultimately show ?thesis using refs(1,3) inv by (auto simp: fut_ti_def)
qed

text \<open>The promise of one thread, the future of another, which copies it.\<close>

definition fut_demo :: "(fut_op list \<times> nat) list" where
  "fut_demo = [([SetV 42, DropRef], 1), ([CopyRef, GetR, DropRef, DropRef], 1)]"

lemma fut_demo_run:
  "\<exists>g ts. fut_runs fut_demo g ts \<and> results (ts ! 1) = [Inr 42] \<and> length ts = 2 \<and>
     map fpc ts = [FIdle, FIdle] \<and> map held ts = [0, 0] \<and> map (\<lambda>t. fscript t) ts = [[], []]"
proof -
  obtain g ts where run: "run_sched fut_step [1,1,0,0,0,1,1,1,1,1]
      (FutureData_init (sum_list (map snd fut_demo)), map fut_thread_init fut_demo) = Some (g, ts)"
    and r: "results (ts ! 1) = [Inr 42]" "length ts = 2" "map fpc ts = [FIdle, FIdle]" "map held ts = [0, 0]"
      "map (\<lambda>t. fscript t) ts = [[], []]"
    by (simp add: fut_demo_def FutureData_init_def fut_thread_init_def fut_step_def fut_defs)
  show ?thesis unfolding fut_runs_def
    by (intro exI [of _ g] exI [of _ ts] conjI) (use run_sched_executes [OF run] r in simp_all)
qed

theorem future_delivers_witness:
  "\<exists>g ts. fut_runs fut_demo g ts \<and> results (ts ! 1) = [Inr 42] \<and> FutureData_Get g = Some (Inr 42)"
proof -
  obtain g ts where r: "fut_runs fut_demo g ts" "results (ts ! 1) = [Inr 42]" "length ts = 2"
    using fut_demo_run by (elim exE conjE)
  have "ts ! 1 \<in> set ts" using r(3) by simp
  moreover have "\<forall>t \<in> set ts. fpc t \<noteq> FAssert \<and> (\<forall>r \<in> set (results t). FutureData_Get g = Some r \<and>
      (case r of Inl e \<Rightarrow> SetE e \<in> set (concat (map fst fut_demo)) | Inr v \<Rightarrow> SetV v \<in> set (concat (map fst fut_demo))))"
    by (rule future_delivers [OF r(1)]) (simp_all add: fut_demo_def pointers_def)
  ultimately have "\<forall>r \<in> set (results (ts ! 1)). FutureData_Get g = Some r" by blast
  then have "FutureData_Get g = Some (Inr 42)" using r(2) by simp
  then show ?thesis using r by blast
qed

theorem future_destroyed_once_witness:
  "\<exists>g ts. fut_runs fut_demo g ts \<and> map held ts = [0, 0] \<and> destroyed g = 1"
proof -
  obtain g ts where r: "fut_runs fut_demo g ts" "map fpc ts = [FIdle, FIdle]" "map held ts = [0, 0]"
    using fut_demo_run by (elim exE conjE)
  then obtain a b where ab: "ts = [a, b]" by (auto simp: map_eq_Cons_conv)
  have "(\<forall>t \<in> set ts. fpc t = FIdle \<and> held t = 0) \<longrightarrow> destroyed g = 1"
    using future_destroyed_once [OF r(1)] by (simp add: fut_demo_def pointers_def)
  then have "destroyed g = 1" using r(2,3) ab by simp
  then show ?thesis by (intro exI [of _ g] exI [of _ ts] conjI) (use r in simp_all)
qed

section \<open>Work items of the thread pool\<close>

text \<open>\<^verbatim>\<open>ThreadPool::Runner\<close>: what it does to the promise it owns when its function returns \<open>Inr v\<close> or
  throws (\<open>Inl\<close>): the exception leaves it before \<^verbatim>\<open>SetValue\<close> and before \<^verbatim>\<open>delete p\<close>, and the worker
  swallows it.\<close>

definition Runner :: "nat + nat \<Rightarrow> fut_op list" where
  "Runner outcome = (case outcome of Inr v \<Rightarrow> [SetV v, DropRef] | Inl e \<Rightarrow> [])"

text \<open>A work item that throws breaks its promise: whatever the threads that share its future do, in any
  interleaving, the future never becomes ready, every \<^verbatim>\<open>Get\<close> that is called waits for ever, and the shared
  data is never destroyed.\<close>

theorem runner_exception_never_ready:
  assumes "fut_runs ((Runner (Inl e), 1) # ps) g ts" and "pointers ps + 1 < 2 ^ 32"
    and "count_ops is_set (concat (map fst ps)) = 0"
  shows "\<not> eventSet g \<and> destroyed g = 0 \<and>
    (\<forall>t \<in> set ts. results t = [] \<and> (fpc t = FGetWait \<longrightarrow> fut_step g t = None))"
proof -
  let ?ps = "(Runner (Inl e), 1) # ps"
  have hyps: "0 < sum_list (map snd ?ps)" "pointers ?ps < 2 ^ 32" "count_ops is_set (concat (map fst ?ps)) \<le> 1"
    "count_ops is_set (concat (map fst ?ps)) = 0"
    using assms(2,3) by (simp_all add: Runner_def pointers_def)
  note inv = fut_runs_inv [OF assms(1) hyps(1-3)]
  then have "fut_gtok (pointers ?ps) Setter g + sum_list (map (fut_ltok Setter) ts) =
      fut_cap (pointers ?ps) (count_ops is_set (concat (map fst ?ps))) Setter" by blast
  then have e: "\<not> eventSet g" using hyps(4) by simp
  then have res: "\<forall>t \<in> set ts. results t = []"
    using inv unfolding fut_ti_def by (metis list.set_intros(1) neq_Nil_conv)
  have "0 < length ts \<and> (fscript (ts ! 0) = [] \<and> fpc (ts ! 0) = FIdle \<and> held (ts ! 0) = 1)"
    by (rule executes_thread_invariant [of "\<lambda>t. fscript t = [] \<and> fpc t = FIdle \<and> held t = 1",
        OF _ assms(1) [unfolded fut_runs_def]])
      (auto simp: fut_step_def fut_thread_init_def Runner_def)
  then have "destroyed g = 0" using fut_runs_refs(3) [OF assms(1) hyps(1-3), of "ts ! 0"] by simp
  then show ?thesis using e res by (simp add: fut_step_def)
qed

theorem runner_exception_never_ready_witness:
  "\<exists>g ts. fut_runs [(Runner (Inl 7), 1), ([GetR, DropRef], 1)] g ts \<and>
     fpc (ts ! 1) = FGetWait \<and> fut_step g (ts ! 1) = None"
proof -
  let ?ps = "[(Runner (Inl 7), 1), ([GetR, DropRef], 1)]"
  obtain g ts where run: "run_sched fut_step [1]
      (FutureData_init (sum_list (map snd ?ps)), map fut_thread_init ?ps) = Some (g, ts)"
    and r: "fpc (ts ! 1) = FGetWait" "length ts = 2"
    by (simp add: FutureData_init_def fut_thread_init_def fut_step_def Runner_def)
  have runs: "fut_runs ?ps g ts" unfolding fut_runs_def by (rule run_sched_executes [OF run])
  have "ts ! 1 \<in> set ts" using r(2) by simp
  moreover have "\<not> eventSet g \<and> destroyed g = 0 \<and>
      (\<forall>t \<in> set ts. results t = [] \<and> (fpc t = FGetWait \<longrightarrow> fut_step g t = None))"
    by (rule runner_exception_never_ready [OF runs]) (simp_all add: pointers_def)
  ultimately show ?thesis using runs r(1) by blast
qed

end
