(* ===== verification/Waiter_Alloc.thy ===== *)
theory Waiter_Alloc
  imports Atomic_Ops Tagged_Pointer Waiter_List
begin

text \<open>
  Waiters as objects (waiter.hpp, waiter.cpp): the global allocator with its free list, the free lists
  of the threads, and the life of a waiter with its functor.

  \<open>malloc\<close> is the environment: its answer \<open>m\<close> is a parameter of an allocation and, as documented, not
  null and not a block that is allocated already.  The calls of the global allocator are machines with
  one step per shared access; the lists of the threads are their own, so what a thread does with
  its list is one step.
\<close>

record wobj =
  callable :: nat
  functorSize :: nat
  destroyOnNotify :: bool \<comment> \<open>\<^verbatim>\<open>mCallback\<close> is \<^verbatim>\<open>InvokeAndDestroy\<close>\<close>

record walloc =
  nextPtr :: "addr \<Rightarrow> addr"
  mFreeList :: u64
  mAllocations :: "addr list"
  tWaiterFreeList :: "nat \<Rightarrow> addr" \<comment> \<open>of each thread\<close>
  waiters :: "addr \<rightharpoonup> wobj" \<comment> \<open>the waiters that exist\<close>
  boxes :: int \<comment> \<open>functors allocated with \<^verbatim>\<open>new\<close> and not deleted\<close>
  calls :: "nat list" \<comment> \<open>functors called\<close>

section \<open>The global allocator\<close>

datatype alloc_pc = AllocLoad | AllocTest u64 | AllocMalloc | AllocCas u64 addr | AllocDone addr | AllocAssert

abbreviation alloc_ptr :: "u64 \<Rightarrow> addr" where
  "alloc_ptr \<equiv> get_ptr ALLOC_PTR_MASK"

fun WaiterAllocator_Allocate_step :: "addr \<Rightarrow> walloc \<Rightarrow> alloc_pc \<Rightarrow> (walloc \<times> alloc_pc) option" where
  "WaiterAllocator_Allocate_step m g AllocLoad = Some (g, AllocTest (mFreeList g))"
| "WaiterAllocator_Allocate_step m g (AllocTest head) =
     Some (g, if alloc_ptr head = 0 then AllocMalloc else AllocCas head (nextPtr g (alloc_ptr head)))"
| "WaiterAllocator_Allocate_step m g AllocMalloc =
     Some (g\<lparr>mAllocations := mAllocations g @ [m]\<rparr>, AllocDone m)"
| "WaiterAllocator_Allocate_step m g (AllocCas head nxt) =
     (if \<not> fits ALLOC_PTR_MASK nxt then Some (g, AllocAssert)
      else (let (swapped, head', list') =
              AtomicCompareAndSwap (mFreeList g) head (set_ptr ALLOC_PTR_MASK head nxt + ALLOC_ABA_ADDEND);
                g' = g\<lparr>mFreeList := list'\<rparr>
            in Some (g', if swapped then AllocDone (alloc_ptr head) else AllocTest head')))"
| "WaiterAllocator_Allocate_step m g (AllocDone p) = None"
| "WaiterAllocator_Allocate_step m g AllocAssert = None"

datatype free_pc = FreeLoad | FreeLink u64 | FreeCas u64 | FreeDone | FreeAssert

fun WaiterAllocator_Free_step :: "addr \<Rightarrow> walloc \<Rightarrow> free_pc \<Rightarrow> (walloc \<times> free_pc) option" where
  "WaiterAllocator_Free_step node g FreeLoad = Some (g, FreeLink (mFreeList g))"
| "WaiterAllocator_Free_step node g (FreeLink head) =
     Some (g\<lparr>nextPtr := (nextPtr g)(node := alloc_ptr head)\<rparr>, FreeCas head)"
| "WaiterAllocator_Free_step node g (FreeCas head) =
     (if \<not> fits ALLOC_PTR_MASK node then Some (g, FreeAssert)
      else (let (swapped, head', list') =
              AtomicCompareAndSwap (mFreeList g) head (set_ptr ALLOC_PTR_MASK head node + ALLOC_ABA_ADDEND);
                g' = g\<lparr>mFreeList := list'\<rparr>
            in Some (g', if swapped then FreeDone else FreeLink head')))"
| "WaiterAllocator_Free_step node g FreeDone = None"
| "WaiterAllocator_Free_step node g FreeAssert = None"

section \<open>Waiters\<close>

definition Waiter_Allocate :: "nat \<Rightarrow> addr \<Rightarrow> walloc \<Rightarrow> (addr \<times> walloc) option" where
  "Waiter_Allocate t m g =
     (let localFree = tWaiterFreeList g t
      in if localFree \<noteq> 0
         then Some (localFree, g\<lparr>tWaiterFreeList := (tWaiterFreeList g)(t := nextPtr g localFree)\<rparr>)
         else (case run_to_end (WaiterAllocator_Allocate_step m) 3 (g, AllocLoad) of
                 Some (g', AllocDone p) \<Rightarrow> Some (p, g')
               | _ \<Rightarrow> None))"

definition Waiter_Free :: "nat \<Rightarrow> addr \<Rightarrow> walloc \<Rightarrow> walloc" where
  "Waiter_Free t node g =
     g\<lparr>nextPtr := (nextPtr g)(node := tWaiterFreeList g t),
       tWaiterFreeList := (tWaiterFreeList g)(t := node)\<rparr>"

text \<open>A functor of more than 16 bytes is not stored in the waiter.\<close>

definition is_boxed :: "wobj \<Rightarrow> bool" where
  "is_boxed w \<longleftrightarrow> functorSize w > 16"

definition Waiter_Create :: "nat \<Rightarrow> wobj \<Rightarrow> addr \<Rightarrow> walloc \<Rightarrow> (addr \<times> walloc) option" where
  "Waiter_Create t w m g =
     map_option (\<lambda>(a, g'). (a, g'\<lparr>waiters := (waiters g')(a \<mapsto> w),
         boxes := boxes g' + (if is_boxed w then 1 else 0)\<rparr>))
       (Waiter_Allocate t m g)"

definition Waiter_Invoke :: "wobj \<Rightarrow> walloc \<Rightarrow> walloc" where
  "Waiter_Invoke w g = g\<lparr>calls := calls g @ [callable w]\<rparr>"

definition Waiter_Destroy :: "nat \<Rightarrow> addr \<Rightarrow> wobj \<Rightarrow> walloc \<Rightarrow> walloc" where
  "Waiter_Destroy t a w g =
     Waiter_Free t a (g\<lparr>waiters := (waiters g)(a := None), boxes := boxes g - (if is_boxed w then 1 else 0)\<rparr>)"

definition Waiter_Notify :: "nat \<Rightarrow> addr \<Rightarrow> wobj \<Rightarrow> walloc \<Rightarrow> walloc" where
  "Waiter_Notify t a w g =
     (if destroyOnNotify w then Waiter_Destroy t a w (Waiter_Invoke w g) else Waiter_Invoke w g)"

text \<open>\<^verbatim>\<open>IWaitable::AddWaiter\<close> of a functor (waitable.hpp): the virtual \<^verbatim>\<open>AddWaiter\<close> of the waitable is a
  parameter, with its answer and what it does to the memory of waiters.\<close>

definition IWaitable_AddWaiter :: "(addr \<Rightarrow> walloc \<Rightarrow> bool \<times> walloc) \<Rightarrow> nat \<Rightarrow> wobj \<Rightarrow> addr \<Rightarrow> walloc \<Rightarrow> (bool \<times> walloc) option" where
  "IWaitable_AddWaiter AddWaiter t callback m g =
     (case Waiter_Create t (callback\<lparr>destroyOnNotify := True\<rparr>) m g of None \<Rightarrow> None
      | Some (waiter, g1) \<Rightarrow>
          (let (added, g2) = AddWaiter waiter g1
           in if added then Some (True, g2)
              else Some (False, Waiter_Destroy t waiter (callback\<lparr>destroyOnNotify := True\<rparr>) g2)))"

text \<open>Threads that create, notify and destroy waiters; each waiter by any thread.\<close>

datatype walloc_act = CreateW nat wobj addr | NotifyW nat addr | DestroyW nat addr

fun walloc_next :: "walloc_act \<Rightarrow> walloc \<Rightarrow> walloc option" where
  "walloc_next (CreateW t w m) g =
     (if m \<noteq> 0 \<and> m \<notin> set (mAllocations g) then map_option snd (Waiter_Create t w m g) else None)"
| "walloc_next (NotifyW t a) g = map_option (\<lambda>w. Waiter_Notify t a w g) (waiters g a)"
| "walloc_next (DestroyW t a) g = map_option (\<lambda>w. Waiter_Destroy t a w g) (waiters g a)"

definition walloc_init :: "(addr \<Rightarrow> addr) \<Rightarrow> walloc" where
  "walloc_init nx = \<lparr>nextPtr = nx, mFreeList = 0, mAllocations = [], tWaiterFreeList = (\<lambda>_. 0),
     waiters = Map.empty, boxes = 0, calls = []\<rparr>"

section \<open>The free list of the global allocator\<close>

definition block :: "addr \<Rightarrow> bool" where
  "block a \<longleftrightarrow> a \<noteq> 0 \<and> fits ALLOC_PTR_MASK a"

definition alloc_at_rest :: "walloc \<Rightarrow> addr list \<Rightarrow> bool" where
  "alloc_at_rest g fs \<longleftrightarrow> wlist (nextPtr g) (alloc_ptr (mFreeList g)) fs \<and> list_all block fs"

text \<open>The calls of \<^verbatim>\<open>WaiterAllocator\<close> without interference are a stack of free blocks backed by \<^verbatim>\<open>malloc\<close>, for
  any version in the head word: \<^verbatim>\<open>Free\<close> returns within three accesses and puts the block in front;
  \<^verbatim>\<open>Allocate\<close> returns within three accesses with the front block or, when there is none, with the answer
  of \<^verbatim>\<open>malloc\<close>, which it records; no assertion fails.\<close>

theorem allocator_calls_implement_free_list:
  assumes "alloc_at_rest g fs" and "block node" and "node \<notin> set fs"
  shows "(\<exists>g'. run_to_end (WaiterAllocator_Free_step node) 3 (g, FreeLoad) = Some (g', FreeDone) \<and>
      alloc_at_rest g' (node # fs) \<and> mAllocations g' = mAllocations g) \<and>
    (\<exists>g'. run_to_end (WaiterAllocator_Allocate_step m) 3 (g, AllocLoad) =
        Some (g', AllocDone (case fs of [] \<Rightarrow> m | f # _ \<Rightarrow> f)) \<and>
      alloc_at_rest g' (drop 1 fs) \<and> mAllocations g' = mAllocations g @ (if fs = [] then [m] else []))"
proof
  have f: "fits ALLOC_PTR_MASK node" "node \<noteq> 0" using assms(2) by (simp_all add: block_def)
  show "\<exists>g'. run_to_end (WaiterAllocator_Free_step node) 3 (g, FreeLoad) = Some (g', FreeDone) \<and>
      alloc_at_rest g' (node # fs) \<and> mAllocations g' = mAllocations g"
    using assms f by (simp add: eval_nat_numeral AtomicCompareAndSwap_if Let_def alloc_at_rest_def
        al.get_set_bump)
  show "\<exists>g'. run_to_end (WaiterAllocator_Allocate_step m) 3 (g, AllocLoad) =
        Some (g', AllocDone (case fs of [] \<Rightarrow> m | f # _ \<Rightarrow> f)) \<and>
      alloc_at_rest g' (drop 1 fs) \<and> mAllocations g' = mAllocations g @ (if fs = [] then [m] else [])"
  proof (cases fs)
    case Nil
    then show ?thesis using assms(1) by (simp add: eval_nat_numeral alloc_at_rest_def)
  next
    case (Cons x ys)
    have x: "alloc_ptr (mFreeList g) = x" "x \<noteq> 0" and l: "wlist (nextPtr g) (nextPtr g x) ys"
      and ok: "list_all block ys" using assms(1) Cons by (auto simp: alloc_at_rest_def)
    have fx: "fits ALLOC_PTR_MASK (nextPtr g x)" using l ok by (cases ys) (auto simp: block_def)
    show ?thesis using x l ok fx
      by (simp add: eval_nat_numeral AtomicCompareAndSwap_if Let_def alloc_at_rest_def al.get_set_bump Cons)
  qed
qed

theorem allocator_calls_implement_free_list_witness:
  "\<exists>g g'. alloc_at_rest g [] \<and>
     run_to_end (WaiterAllocator_Free_step 16) 3 (g, FreeLoad) = Some (g', FreeDone) \<and> alloc_at_rest g' [16]"
proof -
  have r: "alloc_at_rest (walloc_init (\<lambda>_. 0)) []"
    by (simp add: alloc_at_rest_def walloc_init_def get_ptr_def)
  have "block 16" "(16 :: addr) \<notin> set []"
    by (simp_all add: block_def fits_def alloc_layout_defs)
  from allocator_calls_implement_free_list [OF r this] r show ?thesis by blast
qed

section \<open>Blocks and waiters\<close>

text \<open>
  \<open>fl t\<close> is the free list of thread \<open>t\<close>.  A block is in one of the lists or is a waiter; the global list is
  empty, because nothing calls \<^verbatim>\<open>FreeGlobal\<close>.
\<close>

definition walloc_lists :: "(nat \<Rightarrow> addr list) \<Rightarrow> walloc \<Rightarrow> bool" where
  "walloc_lists fl g \<longleftrightarrow>
     mFreeList g = 0 \<and> 0 \<notin> set (mAllocations g) \<and>
     (\<forall>t. wlist (nextPtr g) (tWaiterFreeList g t) (fl t)) \<and>
     (\<forall>t u. t \<noteq> u \<longrightarrow> set (fl t) \<inter> set (fl u) = {}) \<and> (\<forall>t. set (fl t) \<inter> dom (waiters g) = {}) \<and>
     (\<Union>t. set (fl t)) \<union> dom (waiters g) = set (mAllocations g)"

definition boxed_waiters :: "walloc \<Rightarrow> addr set" where
  "boxed_waiters g = {a. \<exists>w. waiters g a = Some w \<and> is_boxed w}"

definition walloc_inv :: "walloc \<Rightarrow> bool" where
  "walloc_inv g \<longleftrightarrow> (\<exists>fl. walloc_lists fl g) \<and> boxes g = int (card (boxed_waiters g))"

lemma boxed_finite: "walloc_lists fl g \<Longrightarrow> finite (boxed_waiters g)"
  by (rule finite_subset [of _ "set (mAllocations g)"]) (auto simp: walloc_lists_def boxed_waiters_def)

lemma allocate_empty:
  "mFreeList g = 0 \<Longrightarrow> run_to_end (WaiterAllocator_Allocate_step m) 3 (g, AllocLoad) =
     Some (g\<lparr>mAllocations := mAllocations g @ [m]\<rparr>, AllocDone m)"
  by (simp add: eval_nat_numeral get_ptr_def)

lemma disjoint_insert_sub: "A \<subseteq> B \<Longrightarrow> B \<inter> D = {} \<Longrightarrow> x \<notin> A \<Longrightarrow> A \<inter> insert x D = {}"
  by blast

lemma create_step:
  assumes lists: "walloc_lists fl g" and m: "m \<noteq> 0" "m \<notin> set (mAllocations g)"
  obtains a g' where "Waiter_Create t w m g = Some (a, g')" and "waiters g a = None"
    and "a = (if fl t = [] then m else hd (fl t))"
    and "waiters g' = (waiters g)(a \<mapsto> w)" and "boxes g' = boxes g + (if is_boxed w then 1 else 0)"
    and "mAllocations g' = mAllocations g @ (if fl t = [] then [m] else [])"
    and "walloc_lists (fl(t := tl (fl t))) g'" and "calls g' = calls g"
proof (cases "fl t")
  case Nil
  then have z: "tWaiterFreeList g t = 0" using lists by (metis walloc_lists_def wlist.simps(1))
  let ?g' = "g\<lparr>mAllocations := mAllocations g @ [m], waiters := (waiters g)(m \<mapsto> w),
    boxes := boxes g + (if is_boxed w then 1 else 0)\<rparr>"
  have new: "waiters g m = None" "\<And>u. m \<notin> set (fl u)" using lists m by (auto simp: walloc_lists_def)
  have "Waiter_Create t w m g = Some (m, ?g')"
    using lists z by (simp add: Waiter_Create_def Waiter_Allocate_def Let_def allocate_empty walloc_lists_def)
  moreover have "fl(t := []) = fl" using Nil by (metis fun_upd_triv)
  then have "walloc_lists (fl(t := tl (fl t))) ?g'"
    using lists m new Nil by (simp add: walloc_lists_def)
  ultimately show thesis using new Nil by (intro that [of m ?g']) simp_all
next
  case (Cons x ys)
  have l: "wlist (nextPtr g) (tWaiterFreeList g t) (x # ys)" using lists Cons by (metis walloc_lists_def)
  then have x: "tWaiterFreeList g t = x" "x \<noteq> 0" "wlist (nextPtr g) (nextPtr g x) ys" "x \<notin> set ys"
    using wlist_distinct [OF l] by auto
  let ?g' = "g\<lparr>tWaiterFreeList := (tWaiterFreeList g)(t := nextPtr g x), waiters := (waiters g)(x \<mapsto> w),
    boxes := boxes g + (if is_boxed w then 1 else 0)\<rparr>"
  have xt: "x \<in> set (fl t)" using Cons by simp
  have "x \<notin> dom (waiters g)" using lists xt unfolding walloc_lists_def by blast
  then have new: "waiters g x = None" by (simp add: domIff)
  have others: "x \<notin> set (fl u)" if "u \<noteq> t" for u
    using lists xt that unfolding walloc_lists_def by blast
  have "Waiter_Create t w m g = Some (x, ?g')"
    using x by (simp add: Waiter_Create_def Waiter_Allocate_def)
  moreover have "walloc_lists (fl(t := ys)) ?g'"
    unfolding walloc_lists_def
  proof (intro conjI allI impI)
    let ?fl = "fl(t := ys)"
    have sub: "set (?fl u) \<subseteq> set (fl u)" for u using Cons by (auto simp: fun_upd_apply)
    show "mFreeList ?g' = 0" "0 \<notin> set (mAllocations ?g')" using lists by (simp_all add: walloc_lists_def)
    show "wlist (nextPtr ?g') (tWaiterFreeList ?g' u) (?fl u)" for u
      using lists x by (cases "u = t") (simp_all add: walloc_lists_def)
    show "set (?fl u) \<inter> set (?fl v) = {}" if "u \<noteq> v" for u v
    proof -
      have "set (fl u) \<inter> set (fl v) = {}" using lists that by (simp add: walloc_lists_def)
      then show ?thesis using sub [of u] sub [of v] by blast
    qed
    show "set (?fl u) \<inter> dom (waiters ?g') = {}" for u
    proof -
      have "x \<notin> set (?fl u)" using others x by (simp add: fun_upd_apply)
      moreover have "set (fl u) \<inter> dom (waiters g) = {}" using lists by (simp add: walloc_lists_def)
      moreover have "dom (waiters ?g') = insert x (dom (waiters g))" by simp
      ultimately show ?thesis using disjoint_insert_sub [OF sub [of u]] by simp
    qed
    have "(\<Union>u. set (fl u)) = insert x (\<Union>u. set (?fl u))"
    proof (intro set_eqI iffI)
      fix a assume "a \<in> (\<Union>u. set (fl u))"
      then obtain u where "a \<in> set (fl u)" by blast
      then have "a = x \<or> a \<in> set (?fl u)" using Cons by (cases "u = t") simp_all
      then show "a \<in> insert x (\<Union>u. set (?fl u))" by (elim disjE) (simp, rule insertI2, rule UN_I [of u], simp_all)
    qed (use sub xt in blast)
    moreover have "(\<Union>u. set (fl u)) \<union> dom (waiters g) = set (mAllocations g)"
      using lists by (simp add: walloc_lists_def)
    ultimately show "(\<Union>u. set (?fl u)) \<union> dom (waiters ?g') = set (mAllocations ?g')" by simp
  qed
  ultimately show thesis using new Cons by (intro that [of x ?g']) simp_all
qed

lemma destroy_step:
  assumes lists: "walloc_lists fl g" and w: "waiters g a = Some w"
  shows "walloc_lists (fl(t := a # fl t)) (Waiter_Destroy t a w g)"
proof -
  have new: "a \<notin> set (fl u)" for u
  proof -
    have "a \<in> dom (waiters g)" using w by (simp add: domIff)
    then show ?thesis using lists unfolding walloc_lists_def by blast
  qed
  have a0: "a \<noteq> 0" "a \<in> set (mAllocations g)" using lists w by (auto simp: walloc_lists_def)
  let ?g' = "Waiter_Destroy t a w g" and ?fl = "fl(t := a # fl t)"
  have g': "mFreeList ?g' = mFreeList g" "mAllocations ?g' = mAllocations g" "waiters ?g' = (waiters g)(a := None)"
    "nextPtr ?g' = (nextPtr g)(a := tWaiterFreeList g t)" "tWaiterFreeList ?g' = (tWaiterFreeList g)(t := a)"
    by (simp_all add: Waiter_Destroy_def Waiter_Free_def)
  show ?thesis
    unfolding walloc_lists_def
  proof (intro conjI allI impI)
    show "mFreeList ?g' = 0" "0 \<notin> set (mAllocations ?g')" using lists by (simp_all add: walloc_lists_def g')
    show "wlist (nextPtr ?g') (tWaiterFreeList ?g' u) (?fl u)" for u
      using lists new a0 by (cases "u = t") (simp_all add: walloc_lists_def g')
    show "set (?fl u) \<inter> set (?fl v) = {}" if "u \<noteq> v" for u v
      using lists that new by (auto simp: walloc_lists_def fun_upd_apply)
    show "set (?fl u) \<inter> dom (waiters ?g') = {}" for u
    proof -
      have "set (fl u) \<inter> dom (waiters g) = {}" using lists by (simp add: walloc_lists_def)
      moreover have "dom (waiters ?g') = dom (waiters g) - {a}" by (simp add: g')
      moreover have "set (?fl u) \<subseteq> insert a (set (fl u))" by (auto simp: fun_upd_apply)
      ultimately show ?thesis by blast
    qed
    have "(\<Union>u. set (?fl u)) = insert a (\<Union>u. set (fl u))" by (auto simp: fun_upd_apply split: if_splits)
    then show "(\<Union>u. set (?fl u)) \<union> dom (waiters ?g') = set (mAllocations ?g')"
      using lists a0(2) by (auto simp: walloc_lists_def g')
  qed
qed

lemma destroy_inv:
  assumes inv: "walloc_inv g" and w: "waiters g a = Some w"
  shows "walloc_inv (Waiter_Destroy t a w g)"
proof -
  obtain fl where fl: "walloc_lists fl g" using inv by (auto simp: walloc_inv_def)
  have same: "waiters (Waiter_Destroy t a w g) = (waiters g)(a := None)"
    "boxes (Waiter_Destroy t a w g) = boxes g - (if is_boxed w then 1 else 0)"
    by (simp_all add: Waiter_Destroy_def Waiter_Free_def)
  have eq: "boxed_waiters (Waiter_Destroy t a w g) = boxed_waiters g - {a}"
    by (auto simp: boxed_waiters_def same fun_upd_apply)
  have b: "boxes g = int (card (boxed_waiters g))" using inv by (simp add: walloc_inv_def)
  have mem: "a \<in> boxed_waiters g \<longleftrightarrow> is_boxed w" using w by (simp add: boxed_waiters_def)
  have "boxes (Waiter_Destroy t a w g) = int (card (boxed_waiters (Waiter_Destroy t a w g)))"
  proof (cases "is_boxed w")
    case True
    then have "card (boxed_waiters g) = Suc (card (boxed_waiters g - {a}))"
      using card.remove [OF boxed_finite [OF fl], of a] mem by simp
    then show ?thesis using True b by (simp add: same eq)
  next
    case False
    then have "boxed_waiters g - {a} = boxed_waiters g" using mem by simp
    then show ?thesis using False b by (simp add: same eq)
  qed
  then show ?thesis using destroy_step [OF fl w] by (auto simp: walloc_inv_def)
qed

lemma invoke_inv: "walloc_inv g \<Longrightarrow> walloc_inv (Waiter_Invoke w g)"
  by (simp add: walloc_inv_def Waiter_Invoke_def walloc_lists_def boxed_waiters_def)

lemma create_inv:
  assumes inv: "walloc_inv g" and m: "m \<noteq> 0" "m \<notin> set (mAllocations g)" and c: "Waiter_Create t w m g = Some (a, g')"
  shows "walloc_inv g'"
proof -
  obtain fl where fl: "walloc_lists fl g" using inv by (auto simp: walloc_inv_def)
  obtain a1 g1 where s: "Waiter_Create t w m g = Some (a1, g1)" "waiters g a1 = None"
    "waiters g1 = (waiters g)(a1 \<mapsto> w)" "boxes g1 = boxes g + (if is_boxed w then 1 else 0)"
    "walloc_lists (fl(t := tl (fl t))) g1"
    by (rule create_step [OF fl m, of t w])
  have "a1 = a" "g1 = g'" using s(1) c by simp_all
  then have new: "waiters g a = None" "waiters g' = (waiters g)(a \<mapsto> w)"
    and b: "boxes g' = boxes g + (if is_boxed w then 1 else 0)" and fl': "walloc_lists (fl(t := tl (fl t))) g'"
    using s by simp_all
  have "boxed_waiters g' = (if is_boxed w then insert a (boxed_waiters g) else boxed_waiters g)"
    using new by (auto simp: boxed_waiters_def fun_upd_apply split: if_splits)
  moreover have "a \<notin> boxed_waiters g" using new by (simp add: boxed_waiters_def)
  ultimately have "boxes g' = int (card (boxed_waiters g'))"
    using inv b boxed_finite [OF fl] by (simp add: walloc_inv_def)
  then show ?thesis using fl' by (auto simp: walloc_inv_def)
qed

interpretation wa: labelled_invariant walloc_next walloc_inv
proof
  fix g g' act assume inv: "walloc_inv g" and st: "walloc_next act g = Some g'"
  show "walloc_inv g'"
  proof (cases act)
    case (CreateW t w m)
    then show ?thesis using inv st create_inv [OF inv, of m t w] by (auto split: if_splits)
  next
    case (NotifyW t a)
    then obtain w where w: "waiters g a = Some w" and g': "g' = Waiter_Notify t a w g" using st by auto
    have "waiters (Waiter_Invoke w g) a = Some w" using w by (simp add: Waiter_Invoke_def)
    then show ?thesis using invoke_inv [OF inv, of w] destroy_inv [of "Waiter_Invoke w g" a w t]
      by (simp add: g' Waiter_Notify_def)
  next
    case (DestroyW t a)
    then show ?thesis using inv st destroy_inv [OF inv] by auto
  qed
qed

abbreviation walloc_reaches :: "walloc \<Rightarrow> bool" where
  "walloc_reaches \<equiv> reaches walloc_next (walloc_init (\<lambda>_. 0))"

lemma walloc_reaches_inv:
  assumes "walloc_reaches g"
  shows "walloc_inv g"
proof (rule wa.reachable [OF assms])
  have "walloc_lists (\<lambda>_. []) (walloc_init (\<lambda>_. 0))" by (simp add: walloc_lists_def walloc_init_def)
  then show "walloc_inv (walloc_init (\<lambda>_. 0))"
    by (auto simp: walloc_inv_def boxed_waiters_def walloc_init_def)
qed

text \<open>Claim C26.
  Memory for waiters is handed out to one waiter at a time.  However threads create, notify and destroy
  waiters, each waiter being notified or destroyed by any thread: a creation succeeds, its waiter gets
  a block that no existing waiter has, taken from the free list of its thread or fresh from \<^verbatim>\<open>malloc\<close>,
  and leaves the other waiters as they were; and the functors on the heap are those of the existing
  waiters with large functors: none leaks, none is deleted twice.\<close>

theorem waiter_blocks_exclusive:
  assumes "walloc_reaches g"
  shows "boxes g = int (card {a. \<exists>w. waiters g a = Some w \<and> is_boxed w}) \<and>
    (\<forall>t w m. m \<noteq> 0 \<and> m \<notin> set (mAllocations g) \<longrightarrow>
      (\<exists>a g'. Waiter_Create t w m g = Some (a, g') \<and> waiters g a = None \<and> a \<noteq> 0 \<and>
        (a = m \<or> a \<in> set (mAllocations g)) \<and> waiters g' = (waiters g)(a \<mapsto> w)))"
proof -
  have inv: "walloc_inv g" using walloc_reaches_inv [OF assms] .
  then obtain fl where fl: "walloc_lists fl g" by (auto simp: walloc_inv_def)
  have "\<exists>a g'. Waiter_Create t w m g = Some (a, g') \<and> waiters g a = None \<and> a \<noteq> 0 \<and>
      (a = m \<or> a \<in> set (mAllocations g)) \<and> waiters g' = (waiters g)(a \<mapsto> w)"
    if m: "m \<noteq> 0" "m \<notin> set (mAllocations g)" for t w m
  proof -
    obtain a g' where c: "Waiter_Create t w m g = Some (a, g')" "waiters g a = None"
      "a = (if fl t = [] then m else hd (fl t))" "waiters g' = (waiters g)(a \<mapsto> w)"
      by (rule create_step [OF fl m, of t w])
    have "set (fl t) \<subseteq> set (mAllocations g)" "0 \<notin> set (mAllocations g)" using fl by (auto simp: walloc_lists_def)
    then have "a = m \<or> a \<in> set (mAllocations g)" "a \<noteq> 0"
      using c(3) m by (cases "fl t"; auto)+
    then show ?thesis using c by blast
  qed
  then show ?thesis using inv by (auto simp: walloc_inv_def boxed_waiters_def)
qed

theorem waiter_blocks_exclusive_witness:
  "\<exists>g. walloc_reaches g \<and> mAllocations g = [16] \<and> dom (waiters g) = {} \<and> boxes g = 0 \<and> calls g = [7]"
proof -
  let ?w = "\<lparr>callable = 7, functorSize = 24, destroyOnNotify = True\<rparr>"
  obtain g where run: "run_acts walloc_next [CreateW 0 ?w 16, NotifyW 1 16] (walloc_init (\<lambda>_. 0)) = Some g"
    and r: "mAllocations g = [16]" "waiters g = Map.empty" "calls g = [7]"
    by (simp add: walloc_init_def Waiter_Create_def Waiter_Allocate_def Let_def allocate_empty
      Waiter_Notify_def Waiter_Destroy_def Waiter_Free_def Waiter_Invoke_def)
  have g: "walloc_reaches g" using run_acts_reaches [OF run] .
  have "boxes g = 0" using waiter_blocks_exclusive [OF g] r(2) by simp
  then show ?thesis using g r by auto
qed

text \<open>Blocks travel one way.  A waiter is freed to the list of the thread that notifies it, never back to the
  thread that creates waiters or to the global list: a thread that creates waiters which another thread
  notifies takes a new block from \<^verbatim>\<open>malloc\<close> for each, and any number of blocks can be allocated while no
  waiter exists.\<close>

theorem waiter_memory_one_way:
  assumes "n < 2 ^ 64"
  shows "\<exists>g. walloc_reaches g \<and> dom (waiters g) = {} \<and> length (mAllocations g) = n \<and> tWaiterFreeList g 0 = 0"
proof -
  define addrs :: "nat \<Rightarrow> addr list" where "addrs n = map of_nat [1..<Suc n]" for n
  let ?w = "\<lparr>callable = 7, functorSize = 8, destroyOnNotify = True\<rparr>"
  have "\<exists>g. walloc_reaches g \<and> waiters g = Map.empty \<and> mAllocations g = addrs n \<and>
      tWaiterFreeList g 0 = 0 \<and> mFreeList g = 0"
    using assms
  proof (induction n)
    case 0
    then show ?case
      by (intro exI [of _ "walloc_init (\<lambda>_. 0)"]) (simp add: walloc_init_def addrs_def)
  next
    case (Suc n)
    then obtain g where g: "walloc_reaches g" "waiters g = Map.empty" "mAllocations g = addrs n"
      "tWaiterFreeList g 0 = 0" "mFreeList g = 0" by auto
    let ?m = "of_nat (Suc n) :: addr"
    have u: "unat ?m = Suc n" using Suc.prems by (simp add: unat_of_nat del: of_nat_Suc)
    have "unat (of_nat k :: addr) = k" if "k < Suc n" for k
      using Suc.prems that by (simp add: unat_of_nat)
    then have fresh: "?m \<noteq> 0" "?m \<notin> set (addrs n)"
      using u by (auto simp: addrs_def simp del: of_nat_Suc)
    have gone: "(Map.empty :: addr \<rightharpoonup> wobj)(?m := None) = Map.empty" by (rule ext) (simp add: fun_upd_apply)
    obtain g' where run: "run_acts walloc_next [CreateW 0 ?w ?m, NotifyW 1 ?m] g = Some g'"
      and g': "waiters g' = Map.empty" "mAllocations g' = addrs n @ [?m]" "tWaiterFreeList g' 0 = 0"
        "mFreeList g' = 0"
      using g(2-5) fresh gone
      by (simp add: Waiter_Create_def Waiter_Allocate_def allocate_empty Waiter_Notify_def
        Waiter_Destroy_def Waiter_Free_def Waiter_Invoke_def del: of_nat_Suc)
    have "walloc_reaches g'" using g(1) run_acts_reaches [OF run] by (rule rtranclp_trans)
    moreover have "addrs n @ [?m] = addrs (Suc n)" by (simp add: addrs_def del: of_nat_Suc)
    ultimately show ?case using g' by (intro exI [of _ g']) simp
  qed
  then obtain g where "walloc_reaches g" "waiters g = Map.empty" "mAllocations g = addrs n" "tWaiterFreeList g 0 = 0"
    by blast
  then show ?thesis by (intro exI [of _ g]) (simp add: addrs_def)
qed

theorem waiter_memory_one_way_witness:
  "\<exists>g. walloc_reaches g \<and> dom (waiters g) = {} \<and> length (mAllocations g) = 1000 \<and> tWaiterFreeList g 0 = 0"
  using waiter_memory_one_way [of 1000] by simp

text \<open>\<^verbatim>\<open>AddWaiter\<close> of a functor, with a waitable that only takes the waiter or refuses it.  If it takes it, there is one more
  waiter, which will be destroyed when it is notified; if it refuses, the waiter and the copy of the functor
  are gone again.  Either way the functor was not called, and the memory of waiters is in a state that
  creations, notifications and destructions reach.\<close>

theorem add_waiter_owns:
  assumes "walloc_reaches g" and m: "m \<noteq> 0" "m \<notin> set (mAllocations g)"
  shows "\<exists>a g'. IWaitable_AddWaiter (\<lambda>waiter s. (added, s)) t callback m g = Some (added, g') \<and> walloc_reaches g' \<and>
    waiters g a = None \<and> calls g' = calls g \<and>
    waiters g' = (if added then (waiters g)(a \<mapsto> callback\<lparr>destroyOnNotify := True\<rparr>) else waiters g) \<and>
    boxes g' = boxes g + (if added \<and> is_boxed callback then 1 else 0)"
proof -
  let ?w = "callback\<lparr>destroyOnNotify := True\<rparr>"
  obtain fl where fl: "walloc_lists fl g" using walloc_reaches_inv [OF assms(1)] by (auto simp: walloc_inv_def)
  obtain a g1 where c: "Waiter_Create t ?w m g = Some (a, g1)" "waiters g a = None" "waiters g1 = (waiters g)(a \<mapsto> ?w)"
    "boxes g1 = boxes g + (if is_boxed ?w then 1 else 0)" "calls g1 = calls g"
    by (rule create_step [OF fl m, of t ?w])
  have box: "is_boxed ?w = is_boxed callback" by (simp add: is_boxed_def)
  have "walloc_next (CreateW t ?w m) g = Some g1" using c(1) m by simp
  then have r1: "walloc_reaches g1" by (rule reaches_step [OF assms(1)])
  show ?thesis
  proof (cases added)
    case True
    then show ?thesis using c r1 box by (intro exI [of _ a] exI [of _ g1]) (simp add: IWaitable_AddWaiter_def)
  next
    case False
    let ?g2 = "Waiter_Destroy t a ?w g1"
    have "walloc_next (DestroyW t a) g1 = Some ?g2" using c(3) by simp
    then have "walloc_reaches ?g2" by (rule reaches_step [OF r1])
    moreover have "waiters ?g2 = waiters g" "boxes ?g2 = boxes g" "calls ?g2 = calls g"
      using c by (auto simp: Waiter_Destroy_def Waiter_Free_def fun_eq_iff fun_upd_apply)
    ultimately show ?thesis using False c(1,2)
      by (intro exI [of _ a] exI [of _ ?g2]) (simp add: IWaitable_AddWaiter_def)
  qed
qed

theorem add_waiter_owns_witness:
  "\<exists>a g'. IWaitable_AddWaiter (\<lambda>waiter s. (False, s)) 0 \<lparr>callable = 7, functorSize = 24, destroyOnNotify = False\<rparr> 16
     (walloc_init (\<lambda>_. 0)) = Some (False, g') \<and> waiters g' = Map.empty \<and> boxes g' = 0"
  using add_waiter_owns [of "walloc_init (\<lambda>_. 0)" 16 False 0 "\<lparr>callable = 7, functorSize = 24, destroyOnNotify = False\<rparr>"]
  by (auto simp: walloc_init_def)

end
