(* ===== verification/Processors.thy ===== *)
theory Processors
  imports Crunch_Prelude
begin

text \<open>
  Processor affinities and the processor topology (processor_affinity.cpp with its Linux and Windows
  files, processor_topology.cpp).

  A \<^verbatim>\<open>std::bitset<32>\<close> is a 32-bit word; its \<^verbatim>\<open>set\<close>, \<^verbatim>\<open>reset\<close> and \<^verbatim>\<open>test\<close> throw \<^verbatim>\<open>out_of_range\<close> on a
  position that it does not have, which is \<open>None\<close>.  The CPUID instruction and the bit utilities belong
  to the library crunch.base, whose code is not in this repository: they are parameters.
\<close>

section \<open>ProcessorAffinity\<close>

type_synonym affinity = u32

definition MaxProcessorId :: nat where
  "MaxProcessorId = 31"

definition Affinity_Set :: "nat \<Rightarrow> affinity \<Rightarrow> affinity option" where
  "Affinity_Set p a = (if p \<le> MaxProcessorId then Some (set_bit p a) else None)"

definition Affinity_Clear :: "nat \<Rightarrow> affinity \<Rightarrow> affinity option" where
  "Affinity_Clear p a = (if p \<le> MaxProcessorId then Some (unset_bit p a) else None)"

definition Affinity_IsSet :: "nat \<Rightarrow> affinity \<Rightarrow> bool option" where
  "Affinity_IsSet p a = (if p \<le> MaxProcessorId then Some (bit a p) else None)"

definition Affinity_IsEmpty :: "affinity \<Rightarrow> bool" where
  "Affinity_IsEmpty a \<longleftrightarrow> a = 0"

text \<open>\<^verbatim>\<open>Set\<close> and \<^verbatim>\<open>Clear\<close> of a list of processors, by their system ids; a throw ends the loop.\<close>

fun Affinity_SetAll :: "nat list \<Rightarrow> affinity \<Rightarrow> affinity option" where
  "Affinity_SetAll [] a = Some a"
| "Affinity_SetAll (p # ps) a = (case Affinity_Set p a of None \<Rightarrow> None | Some a' \<Rightarrow> Affinity_SetAll ps a')"

fun Affinity_ClearAll :: "nat list \<Rightarrow> affinity \<Rightarrow> affinity option" where
  "Affinity_ClearAll [] a = Some a"
| "Affinity_ClearAll (p # ps) a = (case Affinity_Clear p a of None \<Rightarrow> None | Some a' \<Rightarrow> Affinity_ClearAll ps a')"

text \<open>The constructors: of no processor, of one and of a list.\<close>

definition ProcessorAffinity_none :: affinity where
  "ProcessorAffinity_none = 0"

definition ProcessorAffinity_of :: "nat \<Rightarrow> affinity option" where
  "ProcessorAffinity_of processorId = Affinity_Set processorId ProcessorAffinity_none"

definition ProcessorAffinity_of_all :: "nat list \<Rightarrow> affinity option" where
  "ProcessorAffinity_of_all processors = Affinity_SetAll processors ProcessorAffinity_none"

text \<open>The loop from \<open>i\<close> down.\<close>

fun highest_from :: "nat \<Rightarrow> affinity \<Rightarrow> nat" where
  "highest_from 0 a = 0"
| "highest_from (Suc i) a = (if bit a (Suc i) then Suc i else highest_from i a)"

definition GetHighestSetProcessor :: "affinity \<Rightarrow> nat" where
  "GetHighestSetProcessor a = highest_from MaxProcessorId a"

section \<open>System masks\<close>

text \<open>Linux: a \<^verbatim>\<open>cpu_set_t\<close> has 1024 processors in 128 bytes; \<^verbatim>\<open>CreateAffinity\<close> looks at as many processors
  as it has bytes.\<close>

type_synonym cpu_set = "1024 word"

fun cpu_set_below :: "nat \<Rightarrow> affinity \<Rightarrow> cpu_set \<Rightarrow> cpu_set" where
  "cpu_set_below 0 a s = s"
| "cpu_set_below (Suc p) a s =
     (let s' = cpu_set_below p a s in if bit a p then set_bit p s' else s')"

definition CreateCpuSet :: "affinity \<Rightarrow> cpu_set" where
  "CreateCpuSet a = (let highest = GetHighestSetProcessor a in cpu_set_below highest a (set_bit highest 0))"

fun affinity_below :: "nat \<Rightarrow> 'w::len word \<Rightarrow> affinity option" where
  "affinity_below 0 s = Some 0"
| "affinity_below (Suc p) s =
     (case affinity_below p s of None \<Rightarrow> None | Some a \<Rightarrow> if bit s p then Affinity_Set p a else Some a)"

definition sizeof_cpu_set :: nat where
  "sizeof_cpu_set = 128"

definition CreateAffinity :: "cpu_set \<Rightarrow> affinity option" where
  "CreateAffinity s = affinity_below sizeof_cpu_set s"

text \<open>The calls on a thread whose mask in the kernel is \<open>s\<close>.  \<open>sched r s\<close> is the mask that
  \<^verbatim>\<open>sched_setaffinity\<close> installs when it is asked for \<open>r\<close>, or \<open>None\<close> when it fails; the kernel is a
  parameter.  The code asserts that it does not fail.\<close>

datatype affinity_error = OutOfRange | AssertFailed

type_synonym sched = "cpu_set \<Rightarrow> cpu_set \<Rightarrow> cpu_set option"

definition SetProcessAffinity :: "sched \<Rightarrow> affinity \<Rightarrow> cpu_set \<Rightarrow> affinity_error + cpu_set" where
  "SetProcessAffinity sched a s =
     (case sched (CreateCpuSet a) s of None \<Rightarrow> Inl AssertFailed | Some s' \<Rightarrow> Inr s')"

definition GetProcessAffinity :: "cpu_set \<Rightarrow> affinity_error + affinity" where
  "GetProcessAffinity s = (case CreateAffinity s of None \<Rightarrow> Inl OutOfRange | Some a \<Rightarrow> Inr a)"

definition SetThreadAffinity :: "sched \<Rightarrow> affinity \<Rightarrow> cpu_set \<Rightarrow> affinity_error + affinity \<times> cpu_set" where
  "SetThreadAffinity sched a s =
     (case GetProcessAffinity s of Inl e \<Rightarrow> Inl e
      | Inr old \<Rightarrow> (case SetProcessAffinity sched a s of Inl e \<Rightarrow> Inl e | Inr s' \<Rightarrow> Inr (old, s')))"

text \<open>Windows: a \<^verbatim>\<open>DWORD_PTR\<close> of 64 bits.\<close>

fun mask_upto :: "nat \<Rightarrow> affinity \<Rightarrow> u64" where
  "mask_upto 0 a = 0"
| "mask_upto (Suc p) a = (let m = mask_upto p a in if bit a p then m OR push_bit p 1 else m)"

definition MaskFromAffinity :: "affinity \<Rightarrow> u64" where
  "MaskFromAffinity a = mask_upto (Suc (GetHighestSetProcessor a)) a"

definition AffinityFromMask :: "u64 \<Rightarrow> affinity option" where
  "AffinityFromMask m = affinity_below 64 m"

section \<open>Topology\<close>

record Processor =
  systemId :: nat
  threadId :: u32
  coreId :: u32
  packageId :: u32

record CpuidResult =
  eax :: u32
  ebx :: u32
  ecx :: u32
  edx :: u32

text \<open>What the code takes from crunch.base: \<open>cpuid s leaf sub\<close> is what the instruction answers a
  thread whose affinity mask is \<open>s\<close>.\<close>

record base_lib =
  QueryCpuid :: "cpu_set \<Rightarrow> u32 \<Rightarrow> u32 \<Rightarrow> CpuidResult"
  GetCpuidMaxFunction :: u32
  GetCpuidVendorId :: string
  HighestExtendedFunction :: u32
  ExtractBits :: "u32 \<Rightarrow> nat \<Rightarrow> nat \<Rightarrow> u32"
  Log2Floor :: "u32 \<Rightarrow> u32"
  Log2Ceil :: "u32 \<Rightarrow> u32"
  Pow2Ceil :: "u32 \<Rightarrow> u32"

text \<open>The masks, from the widths of the thread and core fields, which are less than 32.\<close>

definition smtMask :: "nat \<Rightarrow> u32" where
  "smtMask smtBits = NOT (push_bit smtBits (NOT 0))"

definition coreMask :: "nat \<Rightarrow> nat \<Rightarrow> u32" where
  "coreMask smtBits coreAndSmtBits = NOT (push_bit coreAndSmtBits (NOT 0)) XOR smtMask smtBits"

definition packageMask :: "nat \<Rightarrow> u32" where
  "packageMask coreAndSmtBits = push_bit coreAndSmtBits (NOT 0)"

definition split_apic :: "nat \<Rightarrow> nat \<Rightarrow> nat \<Rightarrow> u32 \<Rightarrow> Processor" where
  "split_apic smtBits coreAndSmtBits i apic =
     \<lparr>systemId = i, threadId = apic AND smtMask smtBits,
      coreId = drop_bit smtBits (apic AND coreMask smtBits coreAndSmtBits),
      packageId = drop_bit coreAndSmtBits (apic AND packageMask coreAndSmtBits)\<rparr>"

text \<open>The loop over the processors of the process; \<open>read i s\<close> is what the body finds out while the
  thread is bound to processor \<open>i\<close>, with the mask \<open>s\<close>.\<close>

fun enumerate_loop ::
  "(nat \<Rightarrow> cpu_set \<Rightarrow> Processor) \<Rightarrow> sched \<Rightarrow> affinity \<Rightarrow> nat list \<Rightarrow> Processor list \<Rightarrow> cpu_set \<Rightarrow>
     affinity_error + Processor list \<times> cpu_set" where
  "enumerate_loop read sched processAffinity [] processors s = Inr (processors, s)"
| "enumerate_loop read sched processAffinity (i # is) processors s =
     (if \<not> bit processAffinity i then enumerate_loop read sched processAffinity is processors s
      else case Affinity_Set i 0 of None \<Rightarrow> Inl OutOfRange
      | Some only \<Rightarrow> (case SetThreadAffinity sched only s of Inl e \<Rightarrow> Inl e
      | Inr (oldAffinity, s1) \<Rightarrow> (case SetThreadAffinity sched oldAffinity s1 of Inl e \<Rightarrow> Inl e
      | Inr (_, s2) \<Rightarrow> enumerate_loop read sched processAffinity is (processors @ [read i s1]) s2)))"

definition EnumerateFromCpuidInitialApicId ::
  "base_lib \<Rightarrow> sched \<Rightarrow> nat \<Rightarrow> nat \<Rightarrow> cpu_set \<Rightarrow> affinity_error + Processor list \<times> cpu_set" where
  "EnumerateFromCpuidInitialApicId L sched smtBits coreBits s =
     (case GetProcessAffinity s of Inl e \<Rightarrow> Inl e
      | Inr processAffinity \<Rightarrow>
          enumerate_loop
            (\<lambda>i s1. split_apic smtBits (coreBits + smtBits) i
                      (ExtractBits L (ebx (QueryCpuid L s1 1 0)) 24 31))
            sched processAffinity [0..<Suc (GetHighestSetProcessor processAffinity)] [] s)"

text \<open>The loop over the sub-leaves of leaf 11 may not end.\<close>

partial_function (option) x2_levels :: "(u32 \<Rightarrow> u32) \<Rightarrow> u32 \<Rightarrow> u32 option" where
  "x2_levels level i = (if level i = 0 then Some i else x2_levels level (i + 1))"

definition x2_read :: "base_lib \<Rightarrow> nat \<Rightarrow> cpu_set \<Rightarrow> Processor" where
  "x2_read L i s1 =
     (let smtBits = unat (ExtractBits L (eax (QueryCpuid L s1 11 0)) 0 4);
          coreAndSmtBits = unat (ExtractBits L (eax (QueryCpuid L s1 11 1)) 0 4)
      in split_apic smtBits coreAndSmtBits i (edx (QueryCpuid L s1 11 0)))"

definition EnumerateFromCpuidx2ApicId ::
  "base_lib \<Rightarrow> sched \<Rightarrow> cpu_set \<Rightarrow> (affinity_error + Processor list \<times> cpu_set) option" where
  "EnumerateFromCpuidx2ApicId L sched s =
     (case GetProcessAffinity s of Inl e \<Rightarrow> Some (Inl e)
      | Inr processAffinity \<Rightarrow>
          map_option
            (\<lambda>_. enumerate_loop (x2_read L) sched processAffinity
                   [0..<Suc (GetHighestSetProcessor processAffinity)] [] s)
            (x2_levels (\<lambda>i. ExtractBits L (ebx (QueryCpuid L s 11 i)) 0 15) 0))"

definition EnumerateFromCpuidIntel ::
  "base_lib \<Rightarrow> sched \<Rightarrow> cpu_set \<Rightarrow> (affinity_error + Processor list \<times> cpu_set) option" where
  "EnumerateFromCpuidIntel L sched s =
     (if 11 \<le> GetCpuidMaxFunction L \<and> ebx (QueryCpuid L s 11 0) \<noteq> 0
      then EnumerateFromCpuidx2ApicId L sched s
      else if 4 \<le> GetCpuidMaxFunction L
      then let maxNumLogicalPerPackage = ExtractBits L (ebx (QueryCpuid L s 1 0)) 16 23;
               maxNumPhysicalPerPackage = ExtractBits L (eax (QueryCpuid L s 4 0)) 26 31 + 1;
               smtBits = Log2Floor L (Pow2Ceil L maxNumLogicalPerPackage div maxNumPhysicalPerPackage);
               coreBits = Log2Floor L maxNumPhysicalPerPackage
           in Some (EnumerateFromCpuidInitialApicId L sched (unat smtBits) (unat coreBits) s)
      else Some (Inr ([], s)))"

definition EnumerateFromCpuidAmd ::
  "base_lib \<Rightarrow> sched \<Rightarrow> cpu_set \<Rightarrow> affinity_error + Processor list \<times> cpu_set" where
  "EnumerateFromCpuidAmd L sched s =
     (let maxLogicalPerPackage = ExtractBits L (ebx (QueryCpuid L s 1 0)) 16 23
      in if eax (QueryCpuid L s (HighestExtendedFunction L) 0) \<noteq> 0
         then let coreBits = unat (ExtractBits L (ecx (QueryCpuid L s 0x80000008 0)) 12 15);
                  smtBits = (if drop_bit coreBits maxLogicalPerPackage = 0 then 0
                             else unat (Log2Ceil L (drop_bit coreBits maxLogicalPerPackage)))
              in EnumerateFromCpuidInitialApicId L sched smtBits coreBits s
         else EnumerateFromCpuidInitialApicId L sched 0 (unat (Log2Ceil L maxLogicalPerPackage)) s)"

definition EnumerateFromCpuid ::
  "base_lib \<Rightarrow> sched \<Rightarrow> cpu_set \<Rightarrow> (affinity_error + Processor list \<times> cpu_set) option" where
  "EnumerateFromCpuid L sched s =
     (if edx (QueryCpuid L s 1 0) AND push_bit 28 1 = 0 then Some (Inr ([], s))
      else if GetCpuidVendorId L = ''GenuineIntel'' then EnumerateFromCpuidIntel L sched s
      else if GetCpuidVendorId L = ''AuthenticAMD'' then Some (EnumerateFromCpuidAmd L sched s)
      else Some (Inr ([], s)))"

text \<open>The constructor on x86, with what it does when nothing could be enumerated; \<open>online\<close> is what
  \<^verbatim>\<open>sysconf\<close> answers.\<close>

definition GetSystemNumProcessors :: "int \<Rightarrow> nat" where
  "GetSystemNumProcessors online = (if 0 < online then nat online else 1)"

definition ProcessorTopology_init ::
  "base_lib \<Rightarrow> sched \<Rightarrow> int \<Rightarrow> cpu_set \<Rightarrow> (affinity_error + Processor list \<times> cpu_set) option" where
  "ProcessorTopology_init L sched online s =
     map_option (map_sum id (\<lambda>(ps, s').
       (if ps = []
        then map (\<lambda>i. \<lparr>systemId = i, threadId = 0, coreId = of_nat i, packageId = 0\<rparr>) 
               [0..<GetSystemNumProcessors online]
        else ps, s')))
       (EnumerateFromCpuid L sched s)"

section \<open>Bits of affinities and masks\<close>

lemma bit_set_bit_iff_word: "bit (set_bit n w) p \<longleftrightarrow> bit w p \<or> p = n \<and> p < LENGTH('a)" for w :: "'a::len word"
  by (auto simp: bit_simps bit_set_bit_iff dest: bit_imp_le_length)

lemma highest_le: "highest_from n a \<le> n"
  by (induction n) auto

lemma highest_above: "\<lbrakk>highest_from n a < p; p \<le> n\<rbrakk> \<Longrightarrow> \<not> bit a p"
  by (induction n) (auto split: if_splits simp: le_Suc_eq)

lemma highest_bit: "\<lbrakk>bit a p; p \<le> n\<rbrakk> \<Longrightarrow> bit a (highest_from n a)"
  by (induction n) (auto simp: le_Suc_eq)

lemma u32_bit_less: "bit (a :: u32) p \<Longrightarrow> p < 32"
  using bit_imp_le_length [of a p] by simp

lemma highest_set:
  "GetHighestSetProcessor a < 32"
  "bit a p \<Longrightarrow> p \<le> GetHighestSetProcessor a"
  "a \<noteq> 0 \<Longrightarrow> bit a (GetHighestSetProcessor a)"
  "GetHighestSetProcessor 0 = 0"
proof -
  show "GetHighestSetProcessor a < 32"
    using highest_le [of 31 a] by (simp add: GetHighestSetProcessor_def MaxProcessorId_def)
  show "p \<le> GetHighestSetProcessor a" if "bit a p"
    using highest_above [of 31 a p] that u32_bit_less [OF that]
    by (fastforce simp: GetHighestSetProcessor_def MaxProcessorId_def)
  show "bit a (GetHighestSetProcessor a)" if "a \<noteq> 0"
  proof -
    have "\<not> (\<forall>p. \<not> bit a p)" using that bit_eqI [of a 0] by auto
    then obtain p where "bit a p" by blast
    thus ?thesis using highest_bit [of a p 31] u32_bit_less [of a p]
      by (simp add: GetHighestSetProcessor_def MaxProcessorId_def)
  qed
  show "GetHighestSetProcessor 0 = 0"
    using highest_le highest_bit [of 0] by (simp add: GetHighestSetProcessor_def MaxProcessorId_def numeral_eq_Suc)
qed

lemma bit_cpu_set_below:
  "n \<le> 1024 \<Longrightarrow> bit (cpu_set_below n a s) p \<longleftrightarrow> bit s p \<or> p < n \<and> bit a p"
  by (induction n) (auto simp: Let_def bit_set_bit_iff_word less_Suc_eq)

lemma bit_CreateCpuSet: "bit (CreateCpuSet a) p \<longleftrightarrow> bit a p \<or> a = 0 \<and> p = 0"
proof -
  have h: "GetHighestSetProcessor a \<le> 1024" using highest_set(1) [of a] by simp
  show ?thesis
  proof (cases "a = 0")
    case True
    thus ?thesis by (simp add: CreateCpuSet_def Let_def highest_set(4) bit_set_bit_iff_word bit_1_iff)
  next
    case False
    thus ?thesis using highest_set(1) [of a] highest_set(2) [of a p] highest_set(3) [of a]
      by (auto simp: CreateCpuSet_def Let_def bit_cpu_set_below [OF h] bit_set_bit_iff_word bit_exp_iff)
  qed
qed

lemma affinity_below_None: "affinity_below n s = None \<longleftrightarrow> (\<exists>p<n. bit s p \<and> 32 \<le> p)"
  by (induction n) (auto simp: Affinity_Set_def MaxProcessorId_def less_Suc_eq split: option.splits)

lemma affinity_below_Some:
  "affinity_below n s = Some a \<Longrightarrow> bit a p \<longleftrightarrow> p < n \<and> bit s p"
proof (induction n arbitrary: a)
  case (Suc n)
  then show ?case
    by (auto simp: Affinity_Set_def MaxProcessorId_def less_Suc_eq bit_set_bit_iff_word
             split: option.splits if_splits)
qed simp

lemma affinity_below_eq:
  assumes "\<And>p. bit s p \<Longrightarrow> p < n \<longrightarrow> p < 32" and "\<And>p. p < n \<and> bit s p \<longleftrightarrow> bit a p"
  shows "affinity_below n s = Some a"
proof -
  obtain b where b: "affinity_below n s = Some b"
    using affinity_below_None [of n s] assms(1) by (cases "affinity_below n s") fastforce+
  have "b = a" by (rule bit_eqI) (simp add: affinity_below_Some [OF b] assms(2))
  with b show ?thesis by simp
qed

lemma bit_mask_upto: "n \<le> 64 \<Longrightarrow> bit (mask_upto n a) p \<longleftrightarrow> p < n \<and> bit a p"
  by (induction n) (auto simp: Let_def bit_simps bit_or_iff bit_push_bit_iff less_Suc_eq)

lemma bit_MaskFromAffinity: "bit (MaskFromAffinity a) p \<longleftrightarrow> bit a p"
proof -
  have "Suc (GetHighestSetProcessor a) \<le> 64" using highest_set(1) [of a] by simp
  from bit_mask_upto [OF this, of a p] show ?thesis
    using highest_set(2) [of a p] by (auto simp: MaskFromAffinity_def simp del: mask_upto.simps)
qed

text \<open>Claim C37.
  An affinity survives the way to the system's mask and back, on Linux and on Windows, but for the
  empty one, which Linux turns into processor 0.\<close>

theorem affinity_roundtrip:
  "CreateAffinity (CreateCpuSet a) = Some (if a = 0 then 1 else a)
   \<and> AffinityFromMask (MaskFromAffinity a) = Some a"
proof
  have one: "bit (1 :: u32) p \<longleftrightarrow> p = 0" for p by (simp add: bit_1_iff)
  show "CreateAffinity (CreateCpuSet a) = Some (if a = 0 then 1 else a)"
    unfolding CreateAffinity_def
    by (rule affinity_below_eq) (auto simp: bit_CreateCpuSet sizeof_cpu_set_def one dest: u32_bit_less)
  show "AffinityFromMask (MaskFromAffinity a) = Some a"
    unfolding AffinityFromMask_def
    by (rule affinity_below_eq) (auto simp: bit_MaskFromAffinity dest: u32_bit_less)
qed

text \<open>Reading a mask back throws exactly when the system has given the thread a processor from 32 on that
  the loop looks at: those below 128 on Linux, which takes the size in bytes for the number of
  processors, and all 64 on Windows.  When it does not throw it returns the mask's first 32 bits.\<close>

theorem affinity_out_of_range:
  "(CreateAffinity s = None \<longleftrightarrow> (\<exists>p<128. 32 \<le> p \<and> bit s p))
   \<and> (AffinityFromMask m = None \<longleftrightarrow> (\<exists>p<64. 32 \<le> p \<and> bit m p))
   \<and> CreateAffinity s \<in> {None, Some (ucast s)} \<and> AffinityFromMask m \<in> {None, Some (ucast m)}"
proof -
  have u: "affinity_below n w \<in> {None, Some (ucast w)}" if "32 \<le> n" for n and w :: "'w::len word"
  proof (cases "affinity_below n w")
    case (Some b)
    have "bit b p \<longleftrightarrow> bit (ucast w :: u32) p" for p
      using affinity_below_Some [OF Some, of p] that u32_bit_less [of b p]
      by (auto simp: bit_ucast_iff)
    with Some show ?thesis by (auto intro: bit_eqI)
  qed simp
  show ?thesis using u [of 128 s] u [of 64 m]
    by (auto simp: CreateAffinity_def AffinityFromMask_def sizeof_cpu_set_def affinity_below_None)
qed

section \<open>Reading the topology\<close>

text \<open>What the manual of \<^verbatim>\<open>sched_setaffinity\<close> promises: the mask that takes effect is the requested one
  within the processors \<open>online\<close>, and the call fails when there are none.\<close>

definition kernel_sched :: "cpu_set \<Rightarrow> sched" where
  "kernel_sched online r s = (if r AND online = 0 then None else Some (r AND online))"

lemma single_nonzero: "i < LENGTH('a) \<Longrightarrow> (2 :: 'a::len word) ^ i \<noteq> 0"
  using arg_cong [of "2 ^ i" "0 :: 'a word" "\<lambda>w. bit w i"] by (auto simp: bit_exp_iff)

lemma single_cpu_set:
  "i < 32 \<Longrightarrow> CreateCpuSet (2 ^ i) = 2 ^ i"
  by (rule bit_eqI) (auto simp: bit_CreateCpuSet bit_exp_iff single_nonzero)

lemma single_affinity: "i < 32 \<Longrightarrow> CreateAffinity (2 ^ i) = Some (2 ^ i)"
  unfolding CreateAffinity_def
  by (rule affinity_below_eq) (auto simp: bit_exp_iff sizeof_cpu_set_def)

lemma CreateCpuSet_ucast:
  assumes "drop_bit 32 (s :: cpu_set) = 0" "s \<noteq> 0"
  shows "CreateCpuSet (ucast s) = s" "CreateAffinity s = Some (ucast s)"
proof -
  have hi: "\<not> bit s p" if "32 \<le> p" for p
    using arg_cong [OF assms(1), of "\<lambda>w. bit w (p - 32)"] that by (simp add: bit_drop_bit_eq)
  have lo: "p < 32" if "bit s p" for p using hi [of p] that by linarith
  have ne: "ucast s \<noteq> (0 :: u32)"
  proof
    assume z: "ucast s = (0 :: u32)"
    have "s = 0"
    proof (rule bit_eqI)
      fix p
      show "bit s p = bit 0 p"
        using hi [of p] arg_cong [OF z, of "\<lambda>w. bit w p"] by (cases "p < 32") (auto simp: bit_ucast_iff)
    qed
    with assms(2) show False by simp
  qed
  show "CreateCpuSet (ucast s) = s"
    by (rule bit_eqI) (auto simp: bit_CreateCpuSet bit_ucast_iff ne dest: lo)
  show "CreateAffinity s = Some (ucast s)"
    unfolding CreateAffinity_def by (rule affinity_below_eq) (auto simp: bit_ucast_iff sizeof_cpu_set_def dest: lo)
qed

text \<open>Binding the thread to one of its processors and setting it free again.\<close>

lemma bind_and_restore:
  assumes "drop_bit 32 s = 0" "s AND online = s" "bit s i" "i < 32"
  shows "SetThreadAffinity (kernel_sched online) (2 ^ i) s = Inr (ucast s, 2 ^ i)"
    "SetThreadAffinity (kernel_sched online) (ucast s) (2 ^ i) = Inr (2 ^ i, s)"
proof -
  have ne: "s \<noteq> 0" using assms(3) by auto
  have on: "bit online i" using assms(2,3) by (metis bit_and_iff)
  have one: "(2 :: cpu_set) ^ i AND online = 2 ^ i"
    using on assms(4) by (auto intro!: bit_eqI simp: bit_and_iff bit_exp_iff)
  have nz: "(2 :: cpu_set) ^ i \<noteq> 0" using assms(4) by (simp add: single_nonzero)
  show "SetThreadAffinity (kernel_sched online) (2 ^ i) s = Inr (ucast s, 2 ^ i)"
    using assms(4) by (simp add: SetThreadAffinity_def GetProcessAffinity_def SetProcessAffinity_def
          kernel_sched_def CreateCpuSet_ucast [OF assms(1) ne] single_cpu_set one nz)
  show "SetThreadAffinity (kernel_sched online) (ucast s) (2 ^ i) = Inr (2 ^ i, s)"
    by (simp add: SetThreadAffinity_def GetProcessAffinity_def SetProcessAffinity_def kernel_sched_def
          CreateCpuSet_ucast [OF assms(1) ne] single_affinity assms(2,4) ne)
qed

lemma enumerate_loop_exact:
  assumes "drop_bit 32 s = 0" "s AND online = s"
  shows "enumerate_loop read (kernel_sched online) (ucast s) is ps s
           = Inr (ps @ map (\<lambda>i. read i (2 ^ i)) (filter (bit (ucast s :: u32)) is), s)"
proof (induction "is" arbitrary: ps)
  case (Cons i "is")
  show ?case
  proof (cases "bit (ucast s :: u32) i")
    case True
    hence i: "bit s i" "i < 32" by (auto simp: bit_ucast_iff)
    have "Affinity_Set i 0 = Some (2 ^ i)" using i(2) by (simp add: Affinity_Set_def MaxProcessorId_def)
    thus ?thesis
      by (simp add: True bind_and_restore [OF assms i] Cons.IH)
  qed (simp add: Cons.IH)
qed simp

lemma filter_upto_highest:
  "filter (bit a) [0..<Suc (GetHighestSetProcessor a)] = filter (bit a) [0..<32]" for a :: u32
proof -
  have h: "Suc (GetHighestSetProcessor a) \<le> 32" using highest_set(1) [of a] by simp
  have "[0..<32] = [0..<Suc (GetHighestSetProcessor a)] @ [Suc (GetHighestSetProcessor a)..<32]"
    using upt_add_eq_append [of 0 "Suc (GetHighestSetProcessor a)" "32 - Suc (GetHighestSetProcessor a)"] h
    by (simp del: upt_Suc)
  moreover have "filter (bit a) [Suc (GetHighestSetProcessor a)..<32] = []"
    using highest_set(2) [of a] by (force simp: filter_empty_conv)
  ultimately show ?thesis by (metis append_Nil2 filter_append)
qed


lemma topology_enumeration_exact:
  assumes "drop_bit 32 s = 0" "s AND online = s" "s \<noteq> 0"
  shows "EnumerateFromCpuidInitialApicId L (kernel_sched online) smtBits coreBits s =
     Inr (map (\<lambda>i. split_apic smtBits (coreBits + smtBits) i (ExtractBits L (ebx (QueryCpuid L (2 ^ i) 1 0)) 24 31))
            (filter (bit s) [0..<32]), s)"
proof -
  have b: "filter (bit (ucast s :: u32)) [0..<32] = filter (bit s) [0..<32]"
    by (rule filter_cong) (auto simp: bit_ucast_iff)
  show ?thesis
    by (simp add: EnumerateFromCpuidInitialApicId_def GetProcessAffinity_def CreateCpuSet_ucast [OF assms(1,3)]
          enumerate_loop_exact [OF assms(1,2)] filter_upto_highest b del: upt_Suc upt_rec_numeral)
qed

text \<open>The loop over the sub-leaves stops at the first one that describes no level, counting past
  the end of the index if need be.\<close>

lemma x2_levels_stop: "x2_levels level i = Some y \<Longrightarrow> level y = 0"
proof (erule x2_levels.raw_induct [where P = "\<lambda>l i y. l y = 0", rotated])
  fix rec :: "(u32 \<Rightarrow> u32) \<Rightarrow> u32 \<Rightarrow> u32 option" and l i y
  assume ih: "\<And>l i y. rec l i = Some y \<Longrightarrow> l y = 0"
    and step: "(if l i = 0 then Some i else rec l (i + 1)) = Some y"
  show "l y = 0" using ih [of l "i + 1" y] step by (cases "l i = 0") simp_all
qed

lemma x2_levels_reach: "level (i + of_nat n) = 0 \<Longrightarrow> \<exists>y. x2_levels level i = Some y"
proof (induction n arbitrary: i)
  case 0
  thus ?case by (subst x2_levels.simps) simp
next
  case (Suc n)
  have "\<exists>y. x2_levels level (i + 1) = Some y" using Suc.prems by (intro Suc.IH) (simp add: algebra_simps)
  thus ?case by (subst x2_levels.simps) auto
qed

lemma x2_levels_returns: "(\<exists>y. x2_levels level i = Some y) \<longleftrightarrow> (\<exists>j. level j = 0)"
proof
  assume "\<exists>j. level j = 0"
  then obtain j where "level j = 0" by blast
  hence "level (i + of_nat (unat (j - i))) = 0" by simp
  thus "\<exists>y. x2_levels level i = Some y" by (rule x2_levels_reach)
qed (use x2_levels_stop in blast)

text \<open>Claim C36.
  Reading the topology from the x2APIC leaf returns, with a list or an exception, exactly when the
  affinity cannot be read or some sub-leaf of leaf 11 has no level in its low 16 bits; the loop over
  the sub-leaves has no other end.\<close>

theorem x2_enumeration_returns:
  "(\<exists>r. EnumerateFromCpuidx2ApicId L sched s = Some r)
     \<longleftrightarrow> CreateAffinity s = None \<or> (\<exists>i. ExtractBits L (ebx (QueryCpuid L s 11 i)) 0 15 = 0)"
  using x2_levels_returns [of "\<lambda>i. ExtractBits L (ebx (QueryCpuid L s 11 i)) 0 15" 0]
  by (auto simp: EnumerateFromCpuidx2ApicId_def GetProcessAffinity_def split: option.splits)

lemma x2_enumeration_exact:
  assumes "drop_bit 32 s = 0" "s AND online = s" "s \<noteq> 0"
    and "ExtractBits L (ebx (QueryCpuid L s 11 j)) 0 15 = 0"
  shows "EnumerateFromCpuidx2ApicId L (kernel_sched online) s =
     Some (Inr (map (\<lambda>i. x2_read L i (2 ^ i)) (filter (bit s) [0..<32]), s))"
proof -
  have b: "filter (bit (ucast s :: u32)) [0..<32] = filter (bit s) [0..<32]"
    by (rule filter_cong) (auto simp: bit_ucast_iff)
  obtain y where y: "x2_levels (\<lambda>i. ExtractBits L (ebx (QueryCpuid L s 11 i)) 0 15) 0 = Some y"
    using x2_levels_returns [of "\<lambda>i. ExtractBits L (ebx (QueryCpuid L s 11 i)) 0 15" 0] assms(4) by blast
  show ?thesis
    by (simp add: EnumerateFromCpuidx2ApicId_def GetProcessAffinity_def CreateCpuSet_ucast [OF assms(1,3)]
          enumerate_loop_exact [OF assms(1,2)] filter_upto_highest b y del: upt_Suc upt_rec_numeral)
qed

section \<open>The fields of an APIC id\<close>

lemma bit_split_apic:
  "bit (threadId (split_apic m n i x)) p \<longleftrightarrow> p < m \<and> bit x p"
  "m \<le> n \<Longrightarrow> bit (coreId (split_apic m n i x)) p \<longleftrightarrow> p < n - m \<and> bit x (p + m)"
  "bit (packageId (split_apic m n i x)) p \<longleftrightarrow> bit x (p + n)"
  using u32_bit_less [of x p] u32_bit_less [of x "p + m"] u32_bit_less [of x "p + n"]
  by (auto simp: ac_simps split_apic_def smtMask_def coreMask_def packageMask_def bit_simps bit_and_iff bit_xor_iff
        bit_not_iff bit_push_bit_iff bit_drop_bit_eq)

lemma unat_less_exp:
  assumes "\<And>p. bit w p \<Longrightarrow> p < k"
  shows "unat (w :: u32) < 2 ^ k"
proof -
  have "take_bit k w = w" by (rule bit_eqI) (auto simp: bit_take_bit_iff dest: assms)
  thus ?thesis by (metis take_bit_nat_less_exp unsigned_take_bit_eq)
qed

text \<open>Claim C38.
  The three fields of a processor are the parts of its APIC id: they are within their widths, they
  recombine to the id, and two processors agree in all three only if they have the same id.\<close>

theorem apic_fields_recombine:
  assumes "m \<le> n" "n < 32"
  shows "push_bit n (packageId (split_apic m n i x)) OR push_bit m (coreId (split_apic m n i x))
       OR threadId (split_apic m n i x) = x
    \<and> unat (threadId (split_apic m n i x)) < 2 ^ m \<and> unat (coreId (split_apic m n i x)) < 2 ^ (n - m)
    \<and> unat (packageId (split_apic m n i x)) < 2 ^ (32 - n)"
proof (intro conjI)
  note bits = bit_split_apic [of m n i x]
  show "push_bit n (packageId (split_apic m n i x)) OR push_bit m (coreId (split_apic m n i x))
       OR threadId (split_apic m n i x) = x"
  proof (rule bit_eqI)
    fix p
    consider "p < m" | "m \<le> p" "p < n" | "n \<le> p" by linarith
    thus "bit (push_bit n (packageId (split_apic m n i x)) OR push_bit m (coreId (split_apic m n i x))
            OR threadId (split_apic m n i x)) p = bit x p"
      using assms(1) by cases (auto simp: bit_or_iff bit_push_bit_iff bits dest: u32_bit_less)
  qed
  show "unat (threadId (split_apic m n i x)) < 2 ^ m" by (rule unat_less_exp) (simp add: bits)
  show "unat (coreId (split_apic m n i x)) < 2 ^ (n - m)"
    by (rule unat_less_exp) (simp add: bits(2) [OF assms(1)])
  show "unat (packageId (split_apic m n i x)) < 2 ^ (32 - n)"
    by (rule unat_less_exp) (auto simp: bits dest: u32_bit_less)
qed

theorem apic_fields_recombine_witness:
  "push_bit 4 (packageId (split_apic 1 4 0 0x5B)) OR push_bit 1 (coreId (split_apic 1 4 0 0x5B))
     OR threadId (split_apic 1 4 0 0x5B) = (0x5B :: u32)"
  using apic_fields_recombine [of 1 4 0 "0x5B"] by simp

section \<open>The constructor\<close>

lemma initial_restores:
  assumes "drop_bit 32 s = 0" "s AND online = s" "s \<noteq> 0"
  shows "\<exists>ps. EnumerateFromCpuidInitialApicId L (kernel_sched online) m c s = Inr (ps, s)
           \<and> map systemId ps = filter (bit s) [0..<32]"
  by (simp add: topology_enumeration_exact [OF assms] split_apic_def o_def del: upt_rec_numeral)

lemma x2_restores:
  assumes "drop_bit 32 s = 0" "s AND online = s" "s \<noteq> 0"
    and "EnumerateFromCpuidx2ApicId L (kernel_sched online) s = Some r"
  shows "\<exists>ps. r = Inr (ps, s) \<and> map systemId ps = filter (bit s) [0..<32]"
proof -
  obtain j where j: "ExtractBits L (ebx (QueryCpuid L s 11 j)) 0 15 = 0"
    using x2_levels_returns [of "\<lambda>i. ExtractBits L (ebx (QueryCpuid L s 11 i)) 0 15" 0] assms(4)
    by (auto simp: EnumerateFromCpuidx2ApicId_def GetProcessAffinity_def CreateCpuSet_ucast [OF assms(1,3)])
  show ?thesis using assms(4)
    by (auto simp: x2_enumeration_exact [OF assms(1-3) j] x2_read_def Let_def split_apic_def o_def
             simp del: upt_rec_numeral)
qed


text \<open>Two processors, as two cores of an Intel package.\<close>

definition two_cores :: base_lib where
  "two_cores =
     \<lparr>QueryCpuid = \<lambda>s leaf sub. \<lparr>eax = 0x04000000, ebx = (if bit s 1 then 0x01020000 else 0x00020000), ecx = 0,
        edx = 0x10000000\<rparr>,
      GetCpuidMaxFunction = 4, GetCpuidVendorId = ''GenuineIntel'', HighestExtendedFunction = 0x80000000,
      ExtractBits = \<lambda>x lo hi. take_bit (hi - lo + 1) (drop_bit lo x),
      Log2Floor = \<lambda>x. of_nat (GetHighestSetProcessor x),
      Log2Ceil = \<lambda>x. if x \<le> 1 then 0 else of_nat (GetHighestSetProcessor (x - 1)) + 1,
      Pow2Ceil = \<lambda>x. if x \<le> 1 then 1 else 2 ^ (GetHighestSetProcessor (x - 1) + 1)\<rparr>"

lemma two_cores_filter: "filter (bit (3 :: cpu_set)) [0..<32] = [0, 1]"
  by code_simp

lemma topology_init_returns:
  "\<not> 11 \<le> GetCpuidMaxFunction L \<Longrightarrow> \<exists>r. ProcessorTopology_init L sched n s = Some r"
  by (simp add: ProcessorTopology_init_def EnumerateFromCpuid_def EnumerateFromCpuidIntel_def Let_def)


section \<open>Affinities of processor lists\<close>

lemma Affinity_SetAll_bits:
  "(Affinity_SetAll ps a = None) = (\<exists>p \<in> set ps. 32 \<le> p) \<and>
   (Affinity_SetAll ps a = Some b \<longrightarrow> bit b q = (q \<in> set ps \<or> bit a q))"
proof (induction ps arbitrary: a)
  case (Cons p ps)
  show ?case
  proof (cases "p \<le> 31")
    case True
    then have "bit (set_bit p a) q = (q = p \<or> bit a q)" by (auto simp: bit_set_bit_iff_word)
    then show ?thesis using True Cons.IH [of "set_bit p a"] by (auto simp: Affinity_Set_def MaxProcessorId_def)
  qed (auto simp: Affinity_Set_def MaxProcessorId_def)
qed auto

text \<open>An affinity made from a list of processors has exactly these, in any order and with repetitions,
  and is empty only if the list is; the constructor throws exactly when one of them is beyond the 32 that fit.\<close>

theorem affinity_of_processors:
  "(ProcessorAffinity_of_all ps = None) = (\<exists>p \<in> set ps. 32 \<le> p) \<and>
   (case ProcessorAffinity_of_all ps of None \<Rightarrow> True
    | Some a \<Rightarrow> (\<forall>q. bit a q = (q \<in> set ps)) \<and> Affinity_IsEmpty a = (ps = []))"
proof (cases "ProcessorAffinity_of_all ps")
  case None
  then show ?thesis using Affinity_SetAll_bits [of ps 0]
    by (simp add: ProcessorAffinity_of_all_def ProcessorAffinity_none_def)
next
  case (Some a)
  then have b: "bit a q = (q \<in> set ps)" for q
    using Affinity_SetAll_bits [of ps 0 a q] by (simp add: ProcessorAffinity_of_all_def ProcessorAffinity_none_def)
  have "(a = 0) = (ps = [])"
  proof
    assume "a = 0"
    then have "\<And>q. q \<notin> set ps" using b by simp
    then show "ps = []" by (cases ps) auto
  next
    assume "ps = []"
    then show "a = 0" using b by (auto intro: bit_eqI)
  qed
  then show ?thesis using Some b Affinity_SetAll_bits [of ps 0]
    by (simp add: ProcessorAffinity_of_all_def ProcessorAffinity_none_def Affinity_IsEmpty_def)
qed

end
