(* ===== verification/Backoff.thy ===== *)
theory Backoff
  imports Crunch_Prelude
begin

text \<open>
  The policies by which a thread waits: the back-offs of exponential_backoff.hpp, constant_backoff.hpp
  and null_backoff.hpp, the loop \<^verbatim>\<open>Pause\<close> of yield.hpp and the modes of wait_mode.hpp.  A pause and a
  yield have no effect on the program, so a call is described by how many pause instructions it
  executes and whether it yields.  \<open>mCount\<close> is an \<^verbatim>\<open>int\<close>; that it does not overflow is proved.
\<close>

datatype wait_effect = Pauses nat | Yields

definition Pause_loop :: "int \<Rightarrow> wait_effect" where
  "Pause_loop count = Pauses (nat count)"

text \<open>Exponential: the limit is the template's parameter.\<close>

definition ExponentialBackoff_init :: int where
  "ExponentialBackoff_init = 1"

definition ExponentialBackoff_Pause :: "int \<Rightarrow> int \<Rightarrow> wait_effect \<times> int" where
  "ExponentialBackoff_Pause limit mCount =
     (if mCount \<le> limit then (Pause_loop mCount, mCount * 2) else (Yields, mCount))"

definition ExponentialBackoff_TryPause :: "int \<Rightarrow> int \<Rightarrow> bool \<times> wait_effect \<times> int" where
  "ExponentialBackoff_TryPause limit mCount =
     (if mCount \<le> limit then (True, Pause_loop mCount, mCount * 2) else (False, Pauses 0, mCount))"

definition ExponentialBackoff_Reset :: "int \<Rightarrow> int" where
  "ExponentialBackoff_Reset mCount = 1"

text \<open>Constant and null: they have no state.\<close>

definition ConstantBackoff_Pause :: "int \<Rightarrow> wait_effect" where
  "ConstantBackoff_Pause limit = Pause_loop limit"

definition ConstantBackoff_TryPause :: "int \<Rightarrow> bool \<times> wait_effect" where
  "ConstantBackoff_TryPause limit = (True, ConstantBackoff_Pause limit)"

definition NullBackoff_TryPause :: "bool \<times> wait_effect" where
  "NullBackoff_TryPause = (True, Pauses 0)"

text \<open>The modes of the wait functions.\<close>

record WaitMode =
  spinCount :: u32
  runCooperative :: bool

definition WaitMode_Poll :: WaitMode where
  "WaitMode_Poll = \<lparr>spinCount = 0xffffffff, runCooperative = False\<rparr>"

definition WaitMode_Block :: "u32 \<Rightarrow> WaitMode" where
  "WaitMode_Block n = \<lparr>spinCount = n, runCooperative = False\<rparr>"

definition WaitMode_Run :: "u32 \<Rightarrow> WaitMode" where
  "WaitMode_Run n = \<lparr>spinCount = n, runCooperative = True\<rparr>"

section \<open>How long a back-off waits\<close>

text \<open>\<open>k\<close> calls of \<^verbatim>\<open>Pause\<close>, with what each did.\<close>

fun backoff_calls :: "int \<Rightarrow> nat \<Rightarrow> int \<Rightarrow> wait_effect list \<times> int" where
  "backoff_calls limit 0 c = ([], c)"
| "backoff_calls limit (Suc k) c =
     (let (es, c1) = backoff_calls limit k c; (e, c2) = ExponentialBackoff_Pause limit c1 in (es @ [e], c2))"

lemma doubling_within:
  assumes "(2 :: int) ^ m \<le> limit" "limit < 2 ^ Suc m"
  shows "(2 :: int) ^ j \<le> limit \<longleftrightarrow> j \<le> m"
proof
  assume "(2 :: int) ^ j \<le> limit"
  hence "(2 :: int) ^ j < 2 ^ Suc m" using assms(2) by linarith
  thus "j \<le> m" by (simp add: power_strict_increasing_iff del: power_Suc)
next
  assume "j \<le> m"
  hence "(2 :: int) ^ j \<le> 2 ^ m" by simp
  thus "(2 :: int) ^ j \<le> limit" using assms(1) by linarith
qed

lemma backoff_calls_exact:
  assumes "(2 :: int) ^ m \<le> limit" "limit < 2 ^ Suc m"
  shows "backoff_calls limit k ExponentialBackoff_init
           = (map (\<lambda>j. if j \<le> m then Pauses (2 ^ j) else Yields) [0..<k], 2 ^ min k (Suc m))"
proof (induction k)
  case (Suc k)
  have q: "(2 :: int) ^ min k (Suc m) \<le> limit \<longleftrightarrow> k \<le> m"
    using doubling_within [OF assms, of "min k (Suc m)"] by auto
  show ?case
  proof (cases "k \<le> m")
    case True
    hence "min k (Suc m) = k" "min (Suc k) (Suc m) = Suc k" by simp_all
    thus ?thesis using q True
      by (simp add: Suc.IH ExponentialBackoff_Pause_def Pause_loop_def nat_power_eq)
  next
    case False
    hence "min k (Suc m) = Suc m" "min (Suc k) (Suc m) = Suc m" by simp_all
    thus ?thesis using q False by (simp add: Suc.IH ExponentialBackoff_Pause_def del: power_Suc)
  qed
qed (simp add: ExponentialBackoff_init_def)

text \<open>An exponential back-off whose limit lies between two powers of two pauses for 1, 2, 4 and so on up
  to the lower of them and yields from then on; its counter stays within twice the limit, so a limit
  below 2 to the 30 never overflows an \<^verbatim>\<open>int\<close>, and \<^verbatim>\<open>TryPause\<close> gives up exactly when \<^verbatim>\<open>Pause\<close> would yield.\<close>

theorem exponential_backoff_bounded:
  assumes "(2 :: int) ^ m \<le> limit" "limit < 2 ^ Suc m" "limit < 2 ^ 30"
  shows "fst (backoff_calls limit k ExponentialBackoff_init)
            = map (\<lambda>j. if j \<le> m then Pauses (2 ^ j) else Yields) [0..<k]
    \<and> 1 \<le> snd (backoff_calls limit k ExponentialBackoff_init)
    \<and> snd (backoff_calls limit k ExponentialBackoff_init) \<le> 2 * limit \<and> 2 * limit < 2 ^ 31
    \<and> (fst (ExponentialBackoff_TryPause limit (snd (backoff_calls limit k ExponentialBackoff_init))) \<longleftrightarrow> k \<le> m)"
proof -
  note ex = backoff_calls_exact [OF assms(1,2), of k]
  have "(2 :: int) ^ min k (Suc m) \<le> 2 ^ Suc m" by (intro power_increasing) simp_all
  hence le: "(2 :: int) ^ min k (Suc m) \<le> 2 * limit" using assms(1) by simp
  have q: "(2 :: int) ^ min k (Suc m) \<le> limit \<longleftrightarrow> k \<le> m"
    using doubling_within [OF assms(1,2), of "min k (Suc m)"] by auto
  show ?thesis using le q assms(3) by (simp add: ex ExponentialBackoff_TryPause_def)
qed

text \<open>The limit of the library, 16.\<close>

theorem exponential_backoff_bounded_witness:
  "fst (backoff_calls 16 7 ExponentialBackoff_init)
     = [Pauses 1, Pauses 2, Pauses 4, Pauses 8, Pauses 16, Yields, Yields]
   \<and> \<not> fst (ExponentialBackoff_TryPause 16 (snd (backoff_calls 16 5 ExponentialBackoff_init)))"
proof -
  have "[0..<7] = [0, 1, 2, 3, 4, 5, 6 :: nat]" by code_simp
  thus ?thesis
    using exponential_backoff_bounded [of 4 16 7] exponential_backoff_bounded [of 4 16 5] by simp
qed

end
