(* ===== verification/Versioned_Data.thy ===== *)
theory Versioned_Data
  imports Crunch_Prelude
begin

text \<open>
  \<^verbatim>\<open>VersionedData\<close> (versioned_data.hpp): data and a 32-bit version behind a mutex, with a version check
  outside the mutex.  Threads run scripts of \<^verbatim>\<open>Update\<close> and \<^verbatim>\<open>ReadIfDifferent\<close>, with one step per access;
  the reader's function takes a copy of the data.
\<close>

record 'd versioned =
  mVersion :: u32
  mData :: 'd
  mLocked :: bool

datatype 'd vd_op = Update "'d \<Rightarrow> 'd" | ReadIfDifferent

datatype 'd vd_pc =
    VIdle
  | VUpdateLock "'d \<Rightarrow> 'd" | VUpdateData "'d \<Rightarrow> 'd" | VUpdateVersion | VUpdateUnlock
  | VReadLock | VReadData | VReadVersion | VReadUnlock

record 'd vd_thread =
  vpc :: "'d vd_pc"
  vscript :: "'d vd_op list"
  localVersion :: u32
  localCopy :: "'d option" \<comment> \<open>what the last read saw\<close>

definition VersionedData_init :: "u32 \<Rightarrow> 'd \<Rightarrow> 'd versioned" where
  "VersionedData_init initialVersion d = \<lparr>mVersion = initialVersion, mData = d, mLocked = False\<rparr>"

definition HasChanged :: "u32 \<Rightarrow> 'd versioned \<Rightarrow> bool" where
  "HasChanged lastSeenVersion g \<longleftrightarrow> lastSeenVersion \<noteq> mVersion g"

definition vd_thread_init :: "u32 \<Rightarrow> 'd vd_op list \<Rightarrow> 'd vd_thread" where
  "vd_thread_init v ops = \<lparr>vpc = VIdle, vscript = ops, localVersion = v, localCopy = None\<rparr>"

definition VersionedData_step ::
  "'d versioned \<Rightarrow> 'd vd_thread \<Rightarrow> ('d versioned \<times> 'd vd_thread) option" where
  "VersionedData_step g t =
     (case vpc t of
        VIdle \<Rightarrow>
          (case vscript t of [] \<Rightarrow> None
           | Update f # ops \<Rightarrow> Some (g, t\<lparr>vpc := VUpdateLock f, vscript := ops\<rparr>)
           | ReadIfDifferent # ops \<Rightarrow>
               Some (g, t\<lparr>vpc := (if localVersion t \<noteq> mVersion g then VReadLock else VIdle), vscript := ops\<rparr>))
      | VUpdateLock f \<Rightarrow> if mLocked g then None else Some (g\<lparr>mLocked := True\<rparr>, t\<lparr>vpc := VUpdateData f\<rparr>)
      | VUpdateData f \<Rightarrow> Some (g\<lparr>mData := f (mData g)\<rparr>, t\<lparr>vpc := VUpdateVersion\<rparr>)
      | VUpdateVersion \<Rightarrow> Some (g\<lparr>mVersion := mVersion g + 1\<rparr>, t\<lparr>vpc := VUpdateUnlock\<rparr>)
      | VUpdateUnlock \<Rightarrow> Some (g\<lparr>mLocked := False\<rparr>, t\<lparr>vpc := VIdle\<rparr>)
      | VReadLock \<Rightarrow> if mLocked g then None else Some (g\<lparr>mLocked := True\<rparr>, t\<lparr>vpc := VReadData\<rparr>)
      | VReadData \<Rightarrow> Some (g, t\<lparr>vpc := VReadVersion, localCopy := Some (mData g)\<rparr>)
      | VReadVersion \<Rightarrow> Some (g, t\<lparr>vpc := VReadUnlock, localVersion := mVersion g\<rparr>)
      | VReadUnlock \<Rightarrow> Some (g\<lparr>mLocked := False\<rparr>, t\<lparr>vpc := VIdle\<rparr>))"

section \<open>Snapshots\<close>

text \<open>The states \<open>h\<close> that the data has had.  A thread holds a copy of one of them, with its version
  except between the two reads.\<close>

fun in_mutex :: "'d vd_pc \<Rightarrow> nat" where
  "in_mutex VIdle = 0"
| "in_mutex (VUpdateLock f) = 0"
| "in_mutex VReadLock = 0"
| "in_mutex pc = 1"

fun before_version :: "'d vd_pc \<Rightarrow> nat" where
  "before_version VUpdateVersion = 1"
| "before_version pc = 0"

definition snapshot :: "u32 \<Rightarrow> 'd list \<Rightarrow> 'd vd_thread \<Rightarrow> bool" where
  "snapshot v0 h t \<longleftrightarrow> localCopy t = None
     \<or> (\<exists>k < length h. localCopy t = Some (h ! k) \<and> localVersion t = v0 + of_nat k)"

definition vd_thread_ok :: "u32 \<Rightarrow> 'd list \<Rightarrow> 'd vd_thread \<Rightarrow> bool" where
  "vd_thread_ok v0 h t \<longleftrightarrow>
     (if vpc t = VReadVersion then localCopy t = Some (last h) else snapshot v0 h t)"

definition vd_inv :: "u32 \<Rightarrow> 'd list \<Rightarrow> 'd versioned \<Rightarrow> 'd vd_thread list \<Rightarrow> bool" where
  "vd_inv v0 h g ts \<longleftrightarrow> h \<noteq> [] \<and> mData g = last h \<and> (\<forall>t \<in> set ts. vd_thread_ok v0 h t)
     \<and> sum_list (map (\<lambda>t. in_mutex (vpc t)) ts) = (if mLocked g then 1 else 0)
     \<and> mVersion g + of_nat (sum_list (map (\<lambda>t. before_version (vpc t)) ts)) = v0 + of_nat (length h - 1)"

lemma before_version_le: "before_version pc \<le> in_mutex pc"
  by (cases pc) simp_all

lemma snapshot_append: "snapshot v0 h t \<Longrightarrow> snapshot v0 (h @ [d]) t"
  by (force simp: snapshot_def nth_append)

lemma vd_alone:
  assumes "vd_inv v0 h g ts" "i < length ts" "in_mutex (vpc (ts ! i)) = 1" "j < length ts" "j \<noteq> i"
  shows "in_mutex (vpc (ts ! j)) = 0"
  using assms sum_list_map_two_le [of i ts j "\<lambda>t. in_mutex (vpc t)"] by (auto simp: vd_inv_def split: if_splits)

lemma vd_version_exact:
  assumes "vd_inv v0 h g ts" "i < length ts" "in_mutex (vpc (ts ! i)) = 1" "before_version (vpc (ts ! i)) = 0"
  shows "mVersion g = v0 + of_nat (length h - 1)"
proof -
  have "before_version (vpc t) = 0" if "t \<in> set ts" for t
    using that vd_alone [OF assms(1-3)] assms(4) before_version_le by (metis in_set_conv_nth le_0_eq)
  hence z: "sum_list (map (\<lambda>t. before_version (vpc t)) ts) = 0" by simp
  show ?thesis using assms(1) unfolding vd_inv_def z by simp
qed

lemma balance:
  fixes a :: u32
  assumes "a' + x = a + y" "w' + y = w + x"
  shows "w' + a' = w + a"
proof -
  have "a' = a + y - x" "w' = w + x - y" using assms by (simp_all add: eq_diff_eq)
  thus ?thesis by simp
qed

text \<open>A step that leaves the history alone, from its effect on the sums.\<close>

lemma vd_inv_quiet:
  assumes inv: "vd_inv v0 h g ts" and i: "i < length ts" and ok: "vd_thread_ok v0 h t'"
    and d: "mData g' = mData g"
    and m: "(if mLocked g' then 1 else 0) + in_mutex (vpc (ts ! i)) = (if mLocked g then 1 else 0) + in_mutex (vpc t')"
    and v: "mVersion g' + of_nat (before_version (vpc t')) = mVersion g + of_nat (before_version (vpc (ts ! i)))"
  shows "vd_inv v0 h g' (ts[i := t'])"
proof -
  note sums = sum_list_map_update [OF i, of "\<lambda>t. in_mutex (vpc t)" t'] sum_list_map_update [OF i, of "\<lambda>t. before_version (vpc t)" t']
  have "\<forall>t \<in> set (ts[i := t']). vd_thread_ok v0 h t"
    using inv ok set_update_subset_insert [of ts i t'] by (auto simp: vd_inv_def)
  moreover have "sum_list (map (\<lambda>t. in_mutex (vpc t)) (ts[i := t'])) = (if mLocked g' then 1 else 0)"
    using sums(1) m inv by (simp add: vd_inv_def)
  moreover have "mVersion g' + of_nat (sum_list (map (\<lambda>t. before_version (vpc t)) (ts[i := t'])))
      = mVersion g + of_nat (sum_list (map (\<lambda>t. before_version (vpc t)) ts))"
  proof -
    have "(of_nat (sum_list (map (\<lambda>t. before_version (vpc t)) (ts[i := t']))) :: u32) + of_nat (before_version (vpc (ts ! i)))
        = of_nat (sum_list (map (\<lambda>t. before_version (vpc t)) ts)) + of_nat (before_version (vpc t'))"
      using arg_cong [OF sums(2), of "of_nat :: nat \<Rightarrow> u32"] by (simp only: of_nat_add)
    from balance [OF this v] show ?thesis .
  qed
  ultimately show ?thesis using inv d by (simp add: vd_inv_def)
qed

text \<open>Writing the data appends to the history; nobody else is in the mutex.\<close>

lemma vd_inv_write:
  assumes inv: "vd_inv v0 h g ts" and i: "i < length ts" and pc: "vpc (ts ! i) = VUpdateData f"
  shows "vd_inv v0 (h @ [f (last h)]) (g\<lparr>mData := f (mData g)\<rparr>) (ts[i := (ts ! i)\<lparr>vpc := VUpdateVersion\<rparr>])"
proof -
  let ?t' = "(ts ! i)\<lparr>vpc := VUpdateVersion\<rparr>"
  note sums = sum_list_map_update [OF i, of "\<lambda>t. in_mutex (vpc t)" ?t'] sum_list_map_update [OF i, of "\<lambda>t. before_version (vpc t)" ?t']
  have "vd_thread_ok v0 (h @ [f (last h)]) (ts[i := ?t'] ! j)" if j: "j < length ts" for j
  proof -
    have "vd_thread_ok v0 h (ts ! j)" using inv j by (simp add: vd_inv_def)
    moreover have "j \<noteq> i \<Longrightarrow> vpc (ts ! j) \<noteq> VReadVersion"
      using vd_alone [OF inv i _ j] pc by auto
    ultimately show ?thesis using i pc snapshot_append [of v0 h "ts ! j"]
      by (cases "j = i") (auto simp: vd_thread_ok_def snapshot_def)
  qed
  hence "\<forall>t \<in> set (ts[i := ?t']). vd_thread_ok v0 (h @ [f (last h)]) t"
    by (auto simp: in_set_conv_nth simp del: nth_list_update)
  moreover have "(of_nat (length h) :: u32) = of_nat (length h - 1) + 1"
    using inv by (cases h) (simp_all add: vd_inv_def)
  ultimately show ?thesis using inv sums pc by (simp add: vd_inv_def algebra_simps)
qed

lemma vd_inv_other:
  assumes inv: "vd_inv v0 h g ts" and i: "i < length ts" and step: "VersionedData_step g (ts ! i) = Some (g', t')"
  shows "vd_inv v0 h g' (ts[i := t']) \<or> (\<exists>f. vpc (ts ! i) = VUpdateData f)"
proof (cases "\<exists>f. vpc (ts ! i) = VUpdateData f")
  case False
  have ok: "vd_thread_ok v0 h (ts ! i)" using inv i by (simp add: vd_inv_def)
  have "vd_inv v0 h g' (ts[i := t'])"
  proof (cases "vpc (ts ! i) = VReadVersion")
    case True
    have "mVersion g = v0 + of_nat (length h - 1)"
      by (rule vd_version_exact [OF inv i]) (simp_all add: True)
    hence "vd_thread_ok v0 h t'" using step True ok inv
      by (auto simp: VersionedData_step_def vd_thread_ok_def snapshot_def vd_inv_def last_conv_nth
               intro!: exI [of _ "length h - 1"])
    thus ?thesis using step True
      by (intro vd_inv_quiet [OF inv i]) (auto simp: VersionedData_step_def)
  next
    case nr: False
    have "vd_thread_ok v0 h t'" using step nr False ok inv
      by (cases "vpc (ts ! i)")
        (auto simp: VersionedData_step_def vd_thread_ok_def snapshot_def vd_inv_def
           split: if_splits list.splits vd_op.splits)
    moreover have "mLocked g" if "in_mutex (vpc (ts ! i)) = 1"
      using sum_list_map_nth_le [OF i, of "\<lambda>t. in_mutex (vpc t)"] inv that by (auto simp: vd_inv_def split: if_splits)
    ultimately show ?thesis using step nr False
      by (intro vd_inv_quiet [OF inv i])
        (cases "vpc (ts ! i)"; auto simp: VersionedData_step_def split: if_splits list.splits vd_op.splits)+
  qed
  thus ?thesis ..
qed simp

lemma vd_quiet:
  assumes "vd_inv v0 h g ts" "list_all (\<lambda>t. in_mutex (vpc t) = 0) ts"
  shows "mData g = last h \<and> mVersion g = v0 + of_nat (length h - 1)"
proof -
  have "before_version (vpc t) = 0" if "t \<in> set ts" for t
    using that assms(2) before_version_le [of "vpc t"] by (auto simp: list_all_iff)
  hence z: "sum_list (map (\<lambda>t. before_version (vpc t)) ts) = 0" by simp
  show ?thesis using assms(1) unfolding vd_inv_def z by simp
qed

section \<open>Histories\<close>

text \<open>The histories that updates with functions of \<open>F\<close> make from \<open>d\<close>.\<close>

inductive history :: "('d \<Rightarrow> 'd) set \<Rightarrow> 'd \<Rightarrow> 'd list \<Rightarrow> bool" for F d where
  start: "history F d [d]"
| update: "history F d h \<Longrightarrow> f \<in> F \<Longrightarrow> history F d (h @ [f (last h)])"

definition updates :: "(u32 \<times> 'd vd_op list) list \<Rightarrow> ('d \<Rightarrow> 'd) set" where
  "updates scripts = {f. \<exists>s \<in> set scripts. Update f \<in> set (snd s)}"

definition quiet :: "'d vd_thread list \<Rightarrow> bool" where
  "quiet ts \<longleftrightarrow> list_all (\<lambda>t. in_mutex (vpc t) = 0) ts"

definition updates_of :: "('d \<Rightarrow> 'd) set \<Rightarrow> 'd vd_thread \<Rightarrow> bool" where
  "updates_of F t \<longleftrightarrow> (\<forall>f. vpc t = VUpdateLock f \<or> vpc t = VUpdateData f \<or> Update f \<in> set (vscript t) \<longrightarrow> f \<in> F)"

lemma updates_of_step: "updates_of F t \<Longrightarrow> VersionedData_step g t = Some (g', t') \<Longrightarrow> updates_of F t'"
  by (cases "vpc t") (auto simp: updates_of_def VersionedData_step_def split: if_splits list.splits vd_op.splits)

lemma vd_inv_write_only:
  assumes "vd_inv v0 h g ts" "\<not> vd_inv v0 h g' ts'" "interleave VersionedData_step (g, ts) (g', ts')"
    "\<forall>t \<in> set ts. updates_of F t"
  shows "\<exists>f \<in> F. vd_inv v0 (h @ [f (last h)]) g' ts'"
proof -
  obtain i t' where i: "i < length ts" and step: "VersionedData_step g (ts ! i) = Some (g', t')"
    and ts': "ts' = ts[i := t']" using assms(3) by (auto elim: interleave_cases)
  obtain f where pc: "vpc (ts ! i) = VUpdateData f"
    using vd_inv_other [OF assms(1) i step] assms(2) ts' by blast
  have "f \<in> F" using assms(4) i pc by (auto simp: updates_of_def)
  moreover have "g' = g\<lparr>mData := f (mData g)\<rparr>" "t' = (ts ! i)\<lparr>vpc := VUpdateVersion\<rparr>"
    using step pc by (auto simp: VersionedData_step_def)
  ultimately show ?thesis using vd_inv_write [OF assms(1) i pc] ts' by blast
qed

lemma vd_executes:
  assumes "executes VersionedData_step (g0, ts0) (g, ts)" and "vd_inv v0 [d0] g0 ts0"
    and "\<forall>t \<in> set ts0. updates_of F t"
  shows "\<exists>h. history F d0 h \<and> vd_inv v0 h g ts \<and> (\<forall>t \<in> set ts. updates_of F t)"
  using assms(1)
proof (induction "(g, ts)" arbitrary: g ts rule: rtranclp_induct)
  case base
  show ?case by (intro exI [of _ "[d0]"] conjI history.start) (use assms(2,3) in simp_all)
next
  case (step y)
  obtain g1 ts1 where y: "y = (g1, ts1)" by (cases y)
  obtain h where h: "history F d0 h" "vd_inv v0 h g1 ts1" "\<forall>t \<in> set ts1. updates_of F t"
    using step.hyps(3) [OF y] by blast
  have st: "interleave VersionedData_step (g1, ts1) (g, ts)" using step.hyps(2) by (simp add: y)
  have F: "\<forall>t \<in> set ts. updates_of F t"
  proof -
    obtain i t' where i: "i < length ts1" "VersionedData_step g1 (ts1 ! i) = Some (g, t')" "ts = ts1[i := t']"
      using st by (auto elim: interleave_cases)
    have "updates_of F t'" using updates_of_step [OF _ i(2)] h(3) i(1) by simp
    thus ?thesis using h(3) set_update_subset_insert [of ts1 i t'] i(3) by blast
  qed
  show ?case
  proof (cases "vd_inv v0 h g ts")
    case True
    thus ?thesis using h(1) F by blast
  next
    case False
    obtain f where f: "f \<in> F" "vd_inv v0 (h @ [f (last h)]) g ts"
      using vd_inv_write_only [OF h(2) False st h(3)] by blast
    have "history F d0 (h @ [f (last h)])" by (rule history.update [OF h(1) f(1)])
    thus ?thesis using f(2) F by blast
  qed
qed

text \<open>Claim C30.
  However updates and reads interleave, the data goes through a history of whole updates; a reader
  that has read holds one state of that history together with the version of that state; when nobody is
  inside the mutex the memory holds the last state and its version; and then, as long as fewer than 2 to
  the 32 updates have been made, a reader whose version is current holds the current data.\<close>

theorem versioned_data_snapshots:
  assumes "executes VersionedData_step
      (VersionedData_init v0 d0, map (\<lambda>s. vd_thread_init (fst s) (snd s)) scripts) (g, ts)"
  shows "\<exists>h. history (updates scripts) d0 h
    \<and> (\<forall>t \<in> set ts. vpc t \<noteq> VReadVersion \<longrightarrow> snapshot v0 h t)
    \<and> (quiet ts \<longrightarrow> mData g = last h \<and> mVersion g = v0 + of_nat (length h - 1)
         \<and> (length h \<le> 2 ^ 32 \<longrightarrow>
              (\<forall>t \<in> set ts. localCopy t \<noteq> None \<and> \<not> HasChanged (localVersion t) g \<longrightarrow> localCopy t = Some (mData g))))"
proof -
  let ?ts = "map (\<lambda>s. vd_thread_init (fst s) (snd s)) scripts"
  have start: "vd_inv v0 [d0] (VersionedData_init v0 d0) ?ts"
    by (simp add: vd_inv_def VersionedData_init_def vd_thread_init_def vd_thread_ok_def snapshot_def o_def)
  have F: "\<forall>t \<in> set ?ts. updates_of (updates scripts) t"
    by (auto simp: updates_of_def vd_thread_init_def updates_def)
  obtain h where h: "history (updates scripts) d0 h" and inv: "vd_inv v0 h g ts"
    using vd_executes [OF assms start F] by blast
  have snap: "snapshot v0 h t" if "t \<in> set ts" "vpc t \<noteq> VReadVersion" for t
    using inv that by (auto simp: vd_inv_def vd_thread_ok_def)
  have still: "mData g = last h \<and> mVersion g = v0 + of_nat (length h - 1)" if "quiet ts"
    using vd_quiet [OF inv] that by (simp add: quiet_def)
  have current: "localCopy t = Some (mData g)"
    if q: "quiet ts" and len: "length h \<le> 2 ^ 32" and t: "t \<in> set ts"
      and c: "localCopy t \<noteq> None \<and> \<not> HasChanged (localVersion t) g" for t
  proof -
    have "vpc t \<noteq> VReadVersion" using q t by (auto simp: quiet_def list_all_iff)
    then obtain k where k: "k < length h" "localCopy t = Some (h ! k)" "localVersion t = v0 + of_nat k"
      using snap [OF t] c by (auto simp: snapshot_def)
    have e: "(of_nat k :: u32) = of_nat (length h - 1)" using k(3) c still [OF q] by (simp add: HasChanged_def)
    have "k < 2 ^ 32" "length h - 1 < 2 ^ 32" using k(1) len by simp_all
    hence "k = length h - 1"
      using e of_nat_u32_eq [of k "length h - 1"] by blast
    moreover have "h \<noteq> []" using k(1) by auto
    ultimately show ?thesis using k(2) still [OF q] by (simp add: last_conv_nth)
  qed
  show ?thesis using h snap still current by (intro exI [of _ h]) blast
qed

text \<open>One update and one read of a counter.\<close>

theorem versioned_data_snapshots_witness:
  "\<exists>g ts. run_sched VersionedData_step [1, 1, 1, 1, 1, 0, 0, 0, 0, 0]
       (VersionedData_init 5 (0 :: nat),
        map (\<lambda>s. vd_thread_init (fst s) (snd s)) [(0, [ReadIfDifferent]), (0, [Update Suc])]) = Some (g, ts)
     \<and> mData g = 1 \<and> localCopy (ts ! 0) = Some 1
     \<and> (\<exists>h. history (updates [(0, [ReadIfDifferent]), (0, [Update Suc])]) 0 h \<and> snapshot 5 h (ts ! 0) \<and> last h = 1)"
proof -
  let ?s = "[(0, [ReadIfDifferent]), (0, [Update Suc])] :: (u32 \<times> nat vd_op list) list"
  let ?g = "\<lparr>mVersion = 6, mData = 1 :: nat, mLocked = False\<rparr>"
  let ?ts = "[\<lparr>vpc = VIdle, vscript = [], localVersion = 6, localCopy = Some 1\<rparr>,
              \<lparr>vpc = VIdle, vscript = [], localVersion = 0, localCopy = None :: nat option\<rparr>]"
  have run: "run_sched VersionedData_step [1, 1, 1, 1, 1, 0, 0, 0, 0, 0]
       (VersionedData_init 5 (0 :: nat), map (\<lambda>s. vd_thread_init (fst s) (snd s)) ?s) = Some (?g, ?ts)"
    by (simp add: VersionedData_step_def VersionedData_init_def vd_thread_init_def)
  have q: "quiet ?ts" by (simp add: quiet_def)
  obtain h where h: "history (updates ?s) 0 h" "snapshot 5 h (?ts ! 0)" "mData ?g = last h"
    using versioned_data_snapshots [OF run_sched_executes [OF run]] q by force
  show ?thesis
  proof (intro exI [of _ ?g] exI [of _ ?ts] conjI exI [of _ h])
    show "run_sched VersionedData_step [1, 1, 1, 1, 1, 0, 0, 0, 0, 0]
       (VersionedData_init 5 (0 :: nat), map (\<lambda>s. vd_thread_init (fst s) (snd s)) ?s) = Some (?g, ?ts)" by (rule run)
    show "last h = 1" using h(3) by simp
  qed (use h(1,2) in simp_all)
qed

end
