(* ===== verification/Spin_Barrier.thy ===== *)
theory Spin_Barrier
  imports Atomic_Ops
begin

text \<open>
  The barrier of spin_barrier.hpp: its two counts as 32-bit words, \<^verbatim>\<open>Wait\<close> with one step per access,
  and threads that call \<^verbatim>\<open>Wait\<close> a number of times each.  The pauses of the spin loop have no effect.
  The lemmas follow how many threads are at each point of \<^verbatim>\<open>Wait\<close>.
\<close>

record barrier_mem =
  mTotalCount :: u32
  mWaitCount :: u32
  mReadyCount :: u32

datatype barrier_pc = BIdle | BSpin | BReady | BResetReady | BResetWait

record barrier_thread =
  bar_pc :: barrier_pc
  calls :: nat \<comment> \<open>calls of \<^verbatim>\<open>Wait\<close> still to make\<close>
  returned :: "bool list" \<comment> \<open>what \<^verbatim>\<open>Wait\<close> has returned, the last call first\<close>

definition SpinBarrier_init :: "u32 \<Rightarrow> barrier_mem" where
  "SpinBarrier_init count = \<lparr>mTotalCount = count, mWaitCount = count, mReadyCount = 0\<rparr>"

definition barrier_thread_init :: "nat \<Rightarrow> barrier_thread" where
  "barrier_thread_init k = \<lparr>bar_pc = BIdle, calls = k, returned = []\<rparr>"

definition barrier_return :: "bool \<Rightarrow> barrier_thread \<Rightarrow> barrier_thread" where
  "barrier_return b t = t\<lparr>bar_pc := BIdle, returned := b # returned t\<rparr>"

definition SpinBarrier_Wait_step ::
  "barrier_mem \<Rightarrow> barrier_thread \<Rightarrow> (barrier_mem \<times> barrier_thread) option" where
  "SpinBarrier_Wait_step g t =
     (case bar_pc t of
        BIdle \<Rightarrow>
          if calls t = 0 then None
          else Some (g\<lparr>mWaitCount := snd (AtomicDecrement (mWaitCount g))\<rparr>,
                     t\<lparr>bar_pc := BSpin, calls := calls t - 1\<rparr>)
      | BSpin \<Rightarrow> Some (g, if mWaitCount g \<noteq> 0 then t else t\<lparr>bar_pc := BReady\<rparr>)
      | BReady \<Rightarrow>
          let (old, new) = AtomicIncrement (mReadyCount g)
          in Some (g\<lparr>mReadyCount := new\<rparr>,
                   if old = mTotalCount g - 1 then t\<lparr>bar_pc := BResetReady\<rparr> else barrier_return False t)
      | BResetReady \<Rightarrow> Some (g\<lparr>mReadyCount := 0\<rparr>, t\<lparr>bar_pc := BResetWait\<rparr>)
      | BResetWait \<Rightarrow> Some (g\<lparr>mWaitCount := mTotalCount g\<rparr>, barrier_return True t))"

section \<open>One round\<close>

text \<open>The points of the single call of a thread.\<close>

datatype point = Before | At barrier_pc | After bool

definition point_of :: "barrier_thread \<Rightarrow> point" where
  "point_of t = (if bar_pc t \<noteq> BIdle then At (bar_pc t)
     else if returned t = [] then Before else After (hd (returned t)))"

definition number_at :: "point \<Rightarrow> barrier_thread list \<Rightarrow> nat" where
  "number_at p ts = sum_list (map (\<lambda>t. if point_of t = p then 1 else 0) ts)"

lemma number_at_update:
  "i < length ts \<Longrightarrow>
   number_at p (ts[i := t]) + (if point_of (ts ! i) = p then 1 else 0)
     = number_at p ts + (if point_of t = p then 1 else 0)"
  unfolding number_at_def by (rule sum_list_map_update)

lemma number_at_pos: "i < length ts \<Longrightarrow> point_of (ts ! i) = p \<Longrightarrow> 0 < number_at p ts"
  using sum_list_map_nth_le [of i ts "\<lambda>t. if point_of t = p then 1 else 0"] by (simp add: number_at_def)

lemma number_at_zero: "number_at p ts = 0 \<longleftrightarrow> (\<forall>t \<in> set ts. point_of t \<noteq> p)"
  by (auto simp: number_at_def)

definition one_call :: "barrier_thread \<Rightarrow> bool" where
  "one_call t \<longleftrightarrow> (calls t = 0 \<or> point_of t = Before) \<and> (returned t = [] \<longrightarrow> point_of t \<noteq> Before \<or> calls t = 1)
     \<and> (bar_pc t \<noteq> BIdle \<longrightarrow> returned t = []) \<and> length (returned t) \<le> 1"

text \<open>The counts, of \<open>n\<close> threads: until the last one is through, the first word counts those that have
  not come and the second those that have gone.\<close>

definition counts_ok :: "nat \<Rightarrow> barrier_mem \<Rightarrow> nat \<Rightarrow> nat \<Rightarrow> nat \<Rightarrow> nat \<Rightarrow> nat \<Rightarrow> nat \<Rightarrow> nat \<Rightarrow> bool" where
  "counts_ok n g b s r rr rw f t \<longleftrightarrow>
     mTotalCount g = of_nat n \<and> b + s + r + rr + rw + f + t = n \<and> (b = 0 \<or> b + s = n)
     \<and> (if rr + rw + t = 0
        then mWaitCount g = of_nat b \<and> mReadyCount g = of_nat f \<and> f < n
        else f = n - 1
             \<and> (t = 0 \<longrightarrow> mWaitCount g = 0) \<and> (rr = 0 \<longrightarrow> mReadyCount g = 0)
             \<and> (t \<noteq> 0 \<longrightarrow> mWaitCount g = of_nat n))"

definition round_inv :: "nat \<Rightarrow> barrier_mem \<Rightarrow> barrier_thread list \<Rightarrow> bool" where
  "round_inv n g ts \<longleftrightarrow> list_all one_call ts \<and>
     counts_ok n g (number_at Before ts) (number_at (At BSpin) ts) (number_at (At BReady) ts)
       (number_at (At BResetReady) ts) (number_at (At BResetWait) ts)
       (number_at (After False) ts) (number_at (After True) ts)"

lemma number_at_move:
  assumes "i < length ts" "point_of (ts ! i) = a" "point_of t = b" "a \<noteq> b"
  shows "number_at p (ts[i := t])
           = (if p = a then number_at a ts - 1 else if p = b then number_at b ts + 1 else number_at p ts)"
    and "0 < number_at a ts"
  using number_at_update [OF assms(1), of p t] number_at_pos [OF assms(1,2)] assms(2-4)
  by (auto split: if_splits)

lemma of_nat_pred: "0 < k \<Longrightarrow> of_nat k - 1 = (of_nat (k - 1) :: u32)"
  by (cases k) simp_all

lemma of_nat_u32_0: "k < 2 ^ 32 \<Longrightarrow> (of_nat k :: u32) = 0 \<longleftrightarrow> k = 0"
  using of_nat_u32_eq [of k 0] by simp

lemma point_of_cases:
  assumes "one_call t"
  shows "bar_pc t = BIdle \<Longrightarrow> calls t \<noteq> 0 \<Longrightarrow> point_of t = Before \<and> returned t = []"
    "bar_pc t \<noteq> BIdle \<Longrightarrow> point_of t = At (bar_pc t) \<and> returned t = [] \<and> calls t = 0"
  using assms by (auto simp: one_call_def point_of_def split: if_splits)

text \<open>What the accesses of \<^verbatim>\<open>Wait\<close> do to the counts.\<close>

lemma counts_arrive:
  "counts_ok n g b s r rr rw f t \<Longrightarrow> 0 < b \<Longrightarrow>
   counts_ok n (g\<lparr>mWaitCount := mWaitCount g - 1\<rparr>) (b - 1) (s + 1) r rr rw f t"
  unfolding counts_ok_def by (cases b) (auto split: if_splits)

lemma counts_all_arrived:
  "counts_ok n g b s r rr rw f t \<Longrightarrow> 0 < s \<Longrightarrow> n < 2 ^ 32 \<Longrightarrow> mWaitCount g = 0 \<Longrightarrow> b = 0"
  unfolding counts_ok_def by (auto simp: of_nat_u32_0 split: if_splits)

lemma counts_pass:
  "counts_ok n g b s r rr rw f t \<Longrightarrow> 0 < s \<Longrightarrow> b = 0 \<Longrightarrow> counts_ok n g b (s - 1) (r + 1) rr rw f t"
  unfolding counts_ok_def by (auto split: if_splits)

lemma counts_ready:
  assumes "counts_ok n g b s r rr rw f t" "0 < r" "n < 2 ^ 32"
  shows "mReadyCount g = mTotalCount g - 1 \<longleftrightarrow> f = n - 1"
    and "f = n - 1 \<Longrightarrow> counts_ok n (g\<lparr>mReadyCount := mReadyCount g + 1\<rparr>) b s (r - 1) (rr + 1) rw f t"
    and "f \<noteq> n - 1 \<Longrightarrow> counts_ok n (g\<lparr>mReadyCount := mReadyCount g + 1\<rparr>) b s (r - 1) rr rw (f + 1) t"
proof -
  have z: "rr + rw + t = 0" "f < n" "b = 0"
    using assms(1,2) unfolding counts_ok_def by (auto split: if_splits)
  have "mReadyCount g = of_nat f" "mTotalCount g - 1 = of_nat (n - 1)"
    using assms(1) z of_nat_pred [of n] unfolding counts_ok_def by auto
  thus "mReadyCount g = mTotalCount g - 1 \<longleftrightarrow> f = n - 1"
    using of_nat_u32_eq [of f "n - 1"] z(2) assms(3) by simp
  show "f = n - 1 \<Longrightarrow> counts_ok n (g\<lparr>mReadyCount := mReadyCount g + 1\<rparr>) b s (r - 1) (rr + 1) rw f t"
    using assms(1,2) z unfolding counts_ok_def by auto
  show "f \<noteq> n - 1 \<Longrightarrow> counts_ok n (g\<lparr>mReadyCount := mReadyCount g + 1\<rparr>) b s (r - 1) rr rw (f + 1) t"
    using assms(1,2) z unfolding counts_ok_def by auto
qed

lemma counts_reset_ready:
  "counts_ok n g b s r rr rw f t \<Longrightarrow> 0 < rr \<Longrightarrow>
   counts_ok n (g\<lparr>mReadyCount := 0\<rparr>) b s r (rr - 1) (rw + 1) f t"
  unfolding counts_ok_def by (auto split: if_splits)

lemma counts_reset_wait:
  "counts_ok n g b s r rr rw f t \<Longrightarrow> 0 < rw \<Longrightarrow>
   counts_ok n (g\<lparr>mWaitCount := mTotalCount g\<rparr>) b s r rr (rw - 1) f (t + 1)"
  unfolding counts_ok_def by (auto split: if_splits)

lemma round_inv_step:
  assumes inv: "round_inv n g ts" and n: "0 < n" "n < 2 ^ 32"
    and i: "i < length ts" and step: "SpinBarrier_Wait_step g (ts ! i) = Some (g', t')"
  shows "round_inv n g' (ts[i := t'])"
proof -
  let ?t = "ts ! i"
  note d = round_inv_def
  have one: "list_all one_call ts" using inv by (simp add: d)
  note counts = inv [unfolded d, THEN conjunct2]
  from one have oi: "one_call ?t" using i by (simp add: list_all_length)
  note pt = point_of_cases [OF oi]
  show ?thesis
  proof (cases "bar_pc ?t")
    case BIdle
    hence c: "calls ?t \<noteq> 0" and g': "g' = g\<lparr>mWaitCount := mWaitCount g - 1\<rparr>"
      and t': "t' = ?t\<lparr>bar_pc := BSpin, calls := calls ?t - 1\<rparr>"
      using step by (auto simp: SpinBarrier_Wait_step_def AtomicDecrement_def sync_fetch_and_def split: if_splits)
    have p: "point_of ?t = Before" "returned ?t = []" using pt(1) [OF BIdle c] by auto
    have q: "point_of t' = At BSpin" by (simp add: t' point_of_def)
    have ot: "one_call t'" using oi p by (auto simp: one_call_def t' point_of_def)
    note mv = number_at_move [OF i p(1) q]
    show ?thesis using counts_arrive [OF counts mv(2)]
      by (simp add: d mv(1) list_all_update [OF one ot] g')
  next
    case BSpin
    note p = pt(2) [unfolded BSpin, simplified]
    show ?thesis
    proof (cases "mWaitCount g \<noteq> 0")
      case True
      hence "g' = g" "t' = ?t" using step BSpin by (auto simp: SpinBarrier_Wait_step_def)
      thus ?thesis using inv by simp
    next
      case False
      hence g': "g' = g" and t': "t' = ?t\<lparr>bar_pc := BReady\<rparr>"
        using step BSpin by (auto simp: SpinBarrier_Wait_step_def)
      have q: "point_of t' = At BReady" by (simp add: t' point_of_def)
      have ot: "one_call t'" using oi p by (auto simp: one_call_def t' point_of_def)
      note mv = number_at_move [OF i conjunct1 [OF p] q, simplified]
      have z: "number_at Before ts = 0"
        using counts_all_arrived [OF counts mv(2) n(2)] False by simp
      show ?thesis using counts_pass [OF counts mv(2) z]
        by (simp add: d mv(1) list_all_update [OF one ot] g')
    qed
  next
    case BReady
    note p = pt(2) [unfolded BReady, simplified]
    note p1 = conjunct1 [OF p]
    have pos: "0 < number_at (At BReady) ts" by (rule number_at_pos [OF i p1])
    note ready = counts_ready [OF counts pos n(2)]
    have g': "g' = g\<lparr>mReadyCount := mReadyCount g + 1\<rparr>"
      and t': "t' = (if number_at (After False) ts = n - 1 then ?t\<lparr>bar_pc := BResetReady\<rparr> else barrier_return False ?t)"
      using step BReady ready(1)
      by (auto simp: SpinBarrier_Wait_step_def AtomicIncrement_def sync_fetch_and_def Let_def)
    have ot: "one_call t'"
      using oi p by (auto simp: one_call_def t' point_of_def barrier_return_def)
    show ?thesis
    proof (cases "number_at (After False) ts = n - 1")
      case True
      have q: "point_of t' = At BResetReady" by (simp add: t' True point_of_def)
      note mv = number_at_move [OF i p1 q, simplified]
      show ?thesis using ready(2) [OF True] by (simp add: d mv(1) list_all_update [OF one ot] g')
    next
      case False
      have q: "point_of t' = After False" using False by (simp add: t' point_of_def barrier_return_def)
      note mv = number_at_move [OF i p1 q, simplified]
      show ?thesis using ready(3) [OF False] by (simp add: d mv(1) list_all_update [OF one ot] g')
    qed
  next
    case BResetReady
    note p = pt(2) [unfolded BResetReady, simplified]
    hence g': "g' = g\<lparr>mReadyCount := 0\<rparr>" and t': "t' = ?t\<lparr>bar_pc := BResetWait\<rparr>"
      using step BResetReady by (auto simp: SpinBarrier_Wait_step_def)
    have q: "point_of t' = At BResetWait" by (simp add: t' point_of_def)
    have ot: "one_call t'" using oi p by (auto simp: one_call_def t' point_of_def)
    note mv = number_at_move [OF i conjunct1 [OF p] q, simplified]
    show ?thesis using counts_reset_ready [OF counts mv(2)]
      by (simp add: d mv(1) list_all_update [OF one ot] g')
  next
    case BResetWait
    note p = pt(2) [unfolded BResetWait, simplified]
    hence g': "g' = g\<lparr>mWaitCount := mTotalCount g\<rparr>" and t': "t' = barrier_return True ?t"
      using step BResetWait by (auto simp: SpinBarrier_Wait_step_def)
    have q: "point_of t' = After True" by (simp add: t' point_of_def barrier_return_def)
    have ot: "one_call t'" using oi p by (auto simp: one_call_def t' point_of_def barrier_return_def)
    note mv = number_at_move [OF i conjunct1 [OF p] q, simplified]
    show ?thesis using counts_reset_wait [OF counts mv(2)]
      by (simp add: d mv(1) list_all_update [OF one ot] g')
  qed
qed

lemma round_inv_executes:
  assumes "executes SpinBarrier_Wait_step (g, ts) (g', ts')" "round_inv n g ts" "0 < n" "n < 2 ^ 32"
  shows "round_inv n g' ts' \<and> length ts' = length ts"
  using assms(1)
proof (induction "(g', ts')" arbitrary: g' ts' rule: rtranclp_induct)
  case base
  show ?case using assms(2) by simp
next
  case (step y)
  obtain g1 ts1 where y: "y = (g1, ts1)" by (cases y)
  show ?case using step.hyps(2) step.hyps(3) [OF y] assms(3,4) unfolding y
    by (auto elim!: interleave_cases intro: round_inv_step)
qed

lemma number_at_start: "number_at p (replicate n (barrier_thread_init 1)) = (if p = Before then n else 0)"
  by (simp add: number_at_def sum_list_replicate point_of_def barrier_thread_init_def)

lemma round_inv_start:
  "0 < n \<Longrightarrow> round_inv n (SpinBarrier_init (of_nat n)) (replicate n (barrier_thread_init 1))"
  unfolding round_inv_def number_at_start
  by (simp add: counts_ok_def SpinBarrier_init_def list_all_length one_call_def barrier_thread_init_def point_of_def)

definition arrived :: "barrier_thread \<Rightarrow> bool" where
  "arrived t \<longleftrightarrow> bar_pc t \<noteq> BIdle \<or> returned t \<noteq> []"

definition through :: "barrier_thread \<Rightarrow> bool" where
  "through t \<longleftrightarrow> bar_pc t \<notin> {BIdle, BSpin} \<or> returned t \<noteq> []"

text \<open>A thread that is done, or that spins and does not read 0.\<close>

definition stuck_in :: "barrier_mem \<Rightarrow> barrier_thread \<Rightarrow> bool" where
  "stuck_in g t \<longleftrightarrow> SpinBarrier_Wait_step g t = None \<or> bar_pc t = BSpin \<and> mWaitCount g \<noteq> 0"

definition winners :: "barrier_thread list \<Rightarrow> nat" where
  "winners ts = length (filter (\<lambda>t. returned t = [True]) ts)"

lemma winners_number:
  "list_all one_call ts \<Longrightarrow> winners ts = number_at (After True) ts"
  unfolding winners_def number_at_def
  by (induction ts) (auto simp: one_call_def point_of_def length_Suc_conv le_Suc_eq split: if_splits)

lemma stepless: "SpinBarrier_Wait_step g t = None \<longleftrightarrow> bar_pc t = BIdle \<and> calls t = 0"
  by (cases "bar_pc t") (auto simp: SpinBarrier_Wait_step_def Let_def split: prod.splits)

lemma through_point: "one_call t \<Longrightarrow> \<not> through t \<longleftrightarrow> point_of t = Before \<or> point_of t = At BSpin"
  by (cases "bar_pc t") (auto simp: through_def point_of_def one_call_def)

lemma arrived_point: "one_call t \<Longrightarrow> \<not> arrived t \<longleftrightarrow> point_of t = Before"
  by (cases "bar_pc t") (auto simp: arrived_def point_of_def one_call_def)

lemma round_none_early:
  assumes "round_inv n g ts" "t \<in> set ts" "u \<in> set ts" "through t"
  shows "arrived u"
proof (rule ccontr)
  assume na: "\<not> arrived u"
  obtain i j where ij: "i < length ts" "ts ! i = t" "j < length ts" "ts ! j = u"
    using assms(2,3) by (auto simp: in_set_conv_nth)
  have oc: "one_call t" "one_call u" using assms(1-3) by (auto simp: round_inv_def list_all_iff)
  have b: "0 < number_at Before ts"
    using number_at_pos [OF ij(3)] ij(4) na arrived_point [OF oc(2)] by simp
  have "point_of t \<noteq> Before" "point_of t \<noteq> At BSpin" using through_point [OF oc(1)] assms(4) by auto
  hence "0 < number_at (point_of t) ts" "point_of t \<in> {At BReady, At BResetReady, At BResetWait, After False, After True}"
    using number_at_pos [OF ij(1) refl] ij(2) oc(1)
    by (auto simp: point_of_def split: if_splits) (metis barrier_pc.exhaust)
  thus False using assms(1) b by (auto simp: round_inv_def counts_ok_def)
qed

lemma round_no_deadlock:
  assumes inv: "round_inv n g ts" and n: "0 < n" "n < 2 ^ 32" and all: "\<forall>t \<in> set ts. stuck_in g t"
  shows "\<forall>t \<in> set ts. SpinBarrier_Wait_step g t = None"
    and "g = SpinBarrier_init (of_nat n)" and "winners ts = 1"
proof -
  have oc: "list_all one_call ts" using inv by (simp add: round_inv_def)
  have pts: "point_of t \<in> {At BSpin, After True, After False}" if t: "t \<in> set ts" for t
  proof -
    have "one_call t" "stuck_in g t" using oc all t by (auto simp: list_all_iff)
    thus ?thesis
      by (cases "returned t") (auto simp: stuck_in_def stepless point_of_def one_call_def split: if_splits)
  qed
  have zero: "number_at Before ts = 0" "number_at (At BReady) ts = 0" "number_at (At BResetReady) ts = 0"
    "number_at (At BResetWait) ts = 0"
    using pts by (fastforce simp: number_at_zero)+
  have c: "counts_ok n g 0 (number_at (At BSpin) ts) 0 0 0 (number_at (After False) ts) (number_at (After True) ts)"
    using inv zero by (simp add: round_inv_def)
  have nospin: "number_at (At BSpin) ts = 0"
  proof (rule ccontr)
    assume s: "number_at (At BSpin) ts \<noteq> 0"
    then obtain t where "t \<in> set ts" "point_of t = At BSpin" by (auto simp: number_at_zero)
    hence "mWaitCount g \<noteq> 0" using all by (auto simp: stuck_in_def stepless point_of_def split: if_splits)
    thus False using c s n by (auto simp: counts_ok_def split: if_splits)
  qed
  show "\<forall>t \<in> set ts. SpinBarrier_Wait_step g t = None"
    using all nospin by (fastforce simp: number_at_zero stuck_in_def point_of_def)
  show "winners ts = 1" using c nospin n by (auto simp: winners_number [OF oc] counts_ok_def split: if_splits)
  show "g = SpinBarrier_init (of_nat n)"
    using c nospin n by (cases g) (auto simp: SpinBarrier_init_def counts_ok_def split: if_splits)
qed

lemma round_one_winner: "round_inv n g ts \<Longrightarrow> winners ts \<le> 1"
  by (auto simp: round_inv_def winners_number counts_ok_def split: if_splits)

text \<open>Claim C28.
  When \<open>n\<close> threads meet once at a barrier for \<open>n\<close>, in any interleaving: no thread is through before
  every thread has come; at most one call returns true; when no thread can do anything but spin, every
  call has returned, exactly one of them true, and the barrier is as it was created.\<close>

theorem spin_barrier_round:
  assumes "0 < n" "n < 2 ^ 32"
    and "executes SpinBarrier_Wait_step (SpinBarrier_init (of_nat n), replicate n (barrier_thread_init 1)) (g, ts)"
  shows "(\<forall>t \<in> set ts. \<forall>u \<in> set ts. through t \<longrightarrow> arrived u) \<and> winners ts \<le> 1
    \<and> ((\<forall>t \<in> set ts. stuck_in g t) \<longrightarrow>
         (\<forall>t \<in> set ts. SpinBarrier_Wait_step g t = None) \<and> g = SpinBarrier_init (of_nat n) \<and> winners ts = 1)"
proof -
  have inv: "round_inv n g ts"
    using round_inv_executes [OF assms(3) round_inv_start [OF assms(1)] assms(1,2)] by simp
  show ?thesis
    using round_none_early [OF inv] round_one_winner [OF inv] round_no_deadlock [OF inv assms(1,2)]
    by (intro conjI ballI impI) simp_all
qed

lemmas barrier_eval = SpinBarrier_Wait_step_def SpinBarrier_init_def barrier_thread_init_def barrier_return_def
  AtomicDecrement_def AtomicIncrement_def sync_fetch_and_def

theorem spin_barrier_round_witness:
  "\<exists>g ts. run_sched SpinBarrier_Wait_step [0, 1, 0, 1, 0, 1, 1, 1]
      (SpinBarrier_init (of_nat 2), replicate 2 (barrier_thread_init 1)) = Some (g, ts)
    \<and> g = SpinBarrier_init (of_nat 2) \<and> winners ts = 1"
proof -
  let ?ts = "[\<lparr>bar_pc = BIdle, calls = 0, returned = [False]\<rparr>, \<lparr>bar_pc = BIdle, calls = 0, returned = [True]\<rparr>]"
  have run: "run_sched SpinBarrier_Wait_step [0, 1, 0, 1, 0, 1, 1, 1]
      (SpinBarrier_init (of_nat 2), replicate 2 (barrier_thread_init 1)) = Some (SpinBarrier_init (of_nat 2), ?ts)"
    by (simp add: barrier_eval numeral_2_eq_2)
  have st: "\<forall>t \<in> set ?ts. stuck_in (SpinBarrier_init (of_nat 2)) t" by (simp add: stuck_in_def stepless)
  show ?thesis
    using spin_barrier_round [OF _ _ run_sched_executes [OF run]] st run by auto
qed

section \<open>Meeting again\<close>

text \<open>Two threads of which one comes back before the other has left the first round: it takes the
  count, which is not reset yet, below 0, and nobody ever sees it at 0 again.\<close>

definition barrier_wrapped :: "barrier_mem \<times> barrier_thread list \<Rightarrow> bool" where
  "barrier_wrapped s \<longleftrightarrow> mWaitCount (fst s) \<noteq> 0 \<and> (\<forall>t \<in> set (snd s). bar_pc t = BSpin)"

lemma barrier_wrapped_executes:
  "executes SpinBarrier_Wait_step s s' \<Longrightarrow> barrier_wrapped s \<Longrightarrow> barrier_wrapped s'"
proof (induction rule: rtranclp_induct)
  case (step s1 s2)
  obtain g ts where s1: "s1 = (g, ts)" by (cases s1)
  have w: "mWaitCount g \<noteq> 0" "\<forall>t \<in> set ts. bar_pc t = BSpin"
    using step.IH [OF step.prems] by (auto simp: s1 barrier_wrapped_def)
  obtain i g' l' where i: "i < length ts" "SpinBarrier_Wait_step g (ts ! i) = Some (g', l')"
    and s2: "s2 = (g', ts[i := l'])"
    using step.hyps(2) unfolding s1 by (auto elim: interleave_cases)
  have "g' = g" "l' = ts ! i" using i w by (auto simp: SpinBarrier_Wait_step_def)
  with w show ?case by (simp add: s2 barrier_wrapped_def)
qed simp

text \<open>The barrier cannot be used again at once, although it resets itself: two threads that both call
  \<^verbatim>\<open>Wait\<close> twice can get to where both spin for ever.\<close>

theorem spin_barrier_reuse_hang:
  "\<exists>s. executes SpinBarrier_Wait_step (SpinBarrier_init 2, replicate 2 (barrier_thread_init 2)) s
     \<and> \<not> (\<exists>g ts. executes SpinBarrier_Wait_step s (g, ts) \<and> (\<exists>t \<in> set ts. bar_pc t \<noteq> BSpin))"
proof -
  let ?s = "(\<lparr>mTotalCount = 2, mWaitCount = - 1, mReadyCount = 1\<rparr>,
     [\<lparr>bar_pc = BSpin, calls = 0, returned = [False]\<rparr>, \<lparr>bar_pc = BSpin, calls = 1, returned = []\<rparr>])"
  have "run_sched SpinBarrier_Wait_step [0, 1, 0, 0, 0]
      (SpinBarrier_init 2, replicate 2 (barrier_thread_init 2)) = Some ?s"
    by (simp add: barrier_eval numeral_2_eq_2)
  hence "executes SpinBarrier_Wait_step (SpinBarrier_init 2, replicate 2 (barrier_thread_init 2)) ?s"
    by (rule run_sched_executes)
  moreover have "barrier_wrapped ?s" by (simp add: barrier_wrapped_def)
  ultimately show ?thesis
    by (intro exI [of _ ?s]) (auto dest: barrier_wrapped_executes simp: barrier_wrapped_def)
qed

end
