(* ===== verification/Lifo_Queue.thy ===== *)
theory Lifo_Queue
  imports Lifo_List
begin

text \<open>
  \<^verbatim>\<open>MPMCLifoQueue\<close> (mpmc_lifo_queue.hpp): values in the nodes of one lock-free list, with a second list
  of nodes to use again.  The lists are those of theory Lifo\_List, with one step per access: their roots are
  words with a version of 16 bits, and they share the links of the nodes, which wander between them.
  Nodes are never given back (\<^verbatim>\<open>ReclamationPolicyNone\<close>); \<open>alloc i\<close> is the address that the \<open>i\<close>-th
  \<^verbatim>\<open>new\<close> returns.  A storage is \<open>None\<close> when it holds no constructed value.
\<close>

section \<open>The two lists\<close>

record 'a lq_mem =
  mQueueNodes :: u64
  mFreeNodes :: u64
  node_next :: "addr \<Rightarrow> addr"
  node_storage :: "addr \<Rightarrow> 'a option"
  allocated :: nat
  queue_history :: "lifo_event list"
  free_history :: "lifo_event list"

definition queue_list :: "'a lq_mem \<Rightarrow> lifo_mem" where
  "queue_list g = \<lparr>mRoot = mQueueNodes g, lnext = node_next g, history = queue_history g\<rparr>"

definition free_list :: "'a lq_mem \<Rightarrow> lifo_mem" where
  "free_list g = \<lparr>mRoot = mFreeNodes g, lnext = node_next g, history = free_history g\<rparr>"

definition with_queue_list :: "'a lq_mem \<Rightarrow> lifo_mem \<Rightarrow> 'a lq_mem" where
  "with_queue_list g m = g\<lparr>mQueueNodes := mRoot m, node_next := lnext m, queue_history := history m\<rparr>"

definition with_free_list :: "'a lq_mem \<Rightarrow> lifo_mem \<Rightarrow> 'a lq_mem" where
  "with_free_list g m = g\<lparr>mFreeNodes := mRoot m, node_next := lnext m, free_history := history m\<rparr>"

section \<open>Operations\<close>

datatype 'a lq_op = QPush 'a | QTryPop

datatype 'a lq_pc =
    QIdle
  | QPopFree 'a lifo_pop_pc \<comment> \<open>\<^verbatim>\<open>Push\<close>, in \<^verbatim>\<open>mFreeNodes.Pop()\<close>\<close>
  | QNew 'a | QConstruct addr 'a | QNull addr
  | QLink addr lifo_push_pc \<comment> \<open>in \<^verbatim>\<open>mQueueNodes.Push(node)\<close>\<close>
  | QTake lifo_pop_pc \<comment> \<open>\<^verbatim>\<open>TryPop\<close>, in \<^verbatim>\<open>mQueueNodes.Pop()\<close>\<close>
  | QMove addr
  | QRelease addr 'a lifo_push_pc \<comment> \<open>in \<^verbatim>\<open>mFreeNodes.Push(node)\<close>\<close>

text \<open>A result of \<^verbatim>\<open>TryPop\<close> is what it returned, \<open>None\<close> when control runs off its end, and what it left
  in \<^verbatim>\<open>outValue\<close>.\<close>

record 'a lq_thread =
  qpc :: "'a lq_pc"
  qscript :: "'a lq_op list"
  qresults :: "(bool option \<times> 'a option) list"

definition MPMCLifoQueue_init :: "(addr \<Rightarrow> addr) \<Rightarrow> 'a lq_mem" where
  "MPMCLifoQueue_init nx = \<lparr>mQueueNodes = 0, mFreeNodes = 0, node_next = nx, node_storage = \<lambda>_. None,
     allocated = 0, queue_history = [], free_history = []\<rparr>"

definition lq_thread_init :: "'a lq_op list \<Rightarrow> 'a lq_thread" where
  "lq_thread_init ops = \<lparr>qpc = QIdle, qscript = ops, qresults = []\<rparr>"

text \<open>A step inside a call of one of the lists.\<close>

definition in_list ::
  "('a lq_mem \<Rightarrow> lifo_mem \<Rightarrow> 'a lq_mem) \<Rightarrow> ('p \<Rightarrow> 'a lq_pc) \<Rightarrow> 'a lq_mem \<Rightarrow> 'a lq_thread \<Rightarrow>
    (lifo_mem \<times> 'p) option \<Rightarrow> ('a lq_mem \<times> 'a lq_thread) option" where
  "in_list put at g t r = map_option (\<lambda>(m, pc). (put g m, t\<lparr>qpc := at pc\<rparr>)) r"

fun Queue_Push_step ::
  "(nat \<Rightarrow> addr) \<Rightarrow> 'a lq_mem \<Rightarrow> 'a lq_thread \<Rightarrow> 'a lq_pc \<Rightarrow> ('a lq_mem \<times> 'a lq_thread) option" where
  "Queue_Push_step alloc g t (QPopFree v (PopDone r)) =
     Some (g, t\<lparr>qpc := if r = 0 then QNew v else QConstruct r v\<rparr>)"
| "Queue_Push_step alloc g t (QPopFree v pc) = in_list with_free_list (QPopFree v) g t (Lifo_Pop_step (free_list g) pc)"
| "Queue_Push_step alloc g t (QNew v) =
     (let node = alloc (allocated g)
      in Some (g\<lparr>allocated := Suc (allocated g), node_next := (node_next g)(node := 0)\<rparr>,
               t\<lparr>qpc := QConstruct node v\<rparr>))"
| "Queue_Push_step alloc g t (QConstruct n v) =
     Some (g\<lparr>node_storage := (node_storage g)(n \<mapsto> v)\<rparr>, t\<lparr>qpc := QNull n\<rparr>)"
| "Queue_Push_step alloc g t (QNull n) =
     Some (g\<lparr>node_next := (node_next g)(n := 0)\<rparr>, t\<lparr>qpc := QLink n PushLoad\<rparr>)"
| "Queue_Push_step alloc g t (QLink n PushDone) = Some (g, t\<lparr>qpc := QIdle\<rparr>)"
| "Queue_Push_step alloc g t (QLink n pc) = in_list with_queue_list (QLink n) g t (Lifo_Push_step n (queue_list g) pc)"
| "Queue_Push_step alloc g t _ = None"

fun Queue_TryPop_step ::
  "'a lq_mem \<Rightarrow> 'a lq_thread \<Rightarrow> 'a lq_pc \<Rightarrow> ('a lq_mem \<times> 'a lq_thread) option" where
  "Queue_TryPop_step g t (QTake (PopDone r)) =
     Some (g, if r = 0 then t\<lparr>qpc := QIdle, qresults := (Some False, None) # qresults t\<rparr> else t\<lparr>qpc := QMove r\<rparr>)"
| "Queue_TryPop_step g t (QTake pc) = in_list with_queue_list QTake g t (Lifo_Pop_step (queue_list g) pc)"
| "Queue_TryPop_step g t (QMove n) =
     (case node_storage g n of
        None \<Rightarrow> None
      | Some v \<Rightarrow> Some (g\<lparr>node_storage := (node_storage g)(n := None)\<rparr>, t\<lparr>qpc := QRelease n v PushLoad\<rparr>))"
| "Queue_TryPop_step g t (QRelease n v PushDone) =
     Some (g, t\<lparr>qpc := QIdle, qresults := (None, Some v) # qresults t\<rparr>)"
| "Queue_TryPop_step g t (QRelease n v pc) =
     in_list with_free_list (QRelease n v) g t (Lifo_Push_step n (free_list g) pc)"
| "Queue_TryPop_step g t _ = None"

definition MPMCLifoQueue_step ::
  "(nat \<Rightarrow> addr) \<Rightarrow> 'a lq_mem \<Rightarrow> 'a lq_thread \<Rightarrow> ('a lq_mem \<times> 'a lq_thread) option" where
  "MPMCLifoQueue_step alloc g t =
     (case qpc t of
        QIdle \<Rightarrow>
          (case qscript t of [] \<Rightarrow> None
           | QPush v # ops \<Rightarrow> Some (g, t\<lparr>qpc := QPopFree v PopLoad, qscript := ops\<rparr>)
           | QTryPop # ops \<Rightarrow> Some (g, t\<lparr>qpc := QTake PopLoad, qscript := ops\<rparr>))
      | QTake pc \<Rightarrow> Queue_TryPop_step g t (QTake pc)
      | QMove n \<Rightarrow> Queue_TryPop_step g t (QMove n)
      | QRelease n v pc \<Rightarrow> Queue_TryPop_step g t (QRelease n v pc)
      | pc \<Rightarrow> Queue_Push_step alloc g t pc)"

text \<open>The destructor takes the values, node by node; the nodes stay allocated.  \<^verbatim>\<open>Pop\<close> is called
  with nobody else about, and ends after three accesses at most.\<close>

partial_function (option) MPMCLifoQueue_destroy :: "'a lq_mem \<Rightarrow> 'a lq_mem option" where
  "MPMCLifoQueue_destroy g =
     (case run_to_end Lifo_Pop_step 3 (queue_list g, PopLoad) of
        Some (m, PopDone r) \<Rightarrow>
          (let g' = with_queue_list g m
           in if r = 0 then Some g'
              else MPMCLifoQueue_destroy (g'\<lparr>node_storage := (node_storage g')(r := None)\<rparr>))
      | _ \<Rightarrow> None)"

section \<open>Nodes and values\<close>

text \<open>What \<^verbatim>\<open>new\<close> promises: objects of different calls are apart, and their addresses fit.\<close>

definition new_nodes :: "(nat \<Rightarrow> addr) \<Rightarrow> bool" where
  "new_nodes alloc \<longleftrightarrow> inj_on alloc {..<2 ^ 16} \<and> (\<forall>i < 2 ^ 16. node_addr (alloc i))"

definition nodes_upto :: "(nat \<Rightarrow> addr) \<Rightarrow> nat \<Rightarrow> addr list" where
  "nodes_upto alloc k = map alloc [0..<k]"

definition values_in :: "(nat \<Rightarrow> addr) \<Rightarrow> 'a \<Rightarrow> 'a lq_mem \<Rightarrow> nat" where
  "values_in alloc v g = length (filter (\<lambda>n. node_storage g n = Some v) (nodes_upto alloc (allocated g)))"

text \<open>A node is unallocated, in one of the lists or with one thread; a value is yet to be pushed,
  stored, or out.  A call updates either list once at most; one of \<^verbatim>\<open>Push\<close> updates the free list or
  allocates.\<close>

datatype 'a lq_token = QNode addr | QVal 'a | QueueUpdates | FreeUpdates

fun lq_gtok :: "(nat \<Rightarrow> addr) \<Rightarrow> 'a lq_token \<Rightarrow> 'a lq_mem \<Rightarrow> nat" where
  "lq_gtok alloc (QNode a) g = lifo_gtok (Node a) (queue_list g) + lifo_gtok (Node a) (free_list g)
     + of_bool (a \<notin> set (nodes_upto alloc (allocated g)))"
| "lq_gtok alloc (QVal v) g = values_in alloc v g"
| "lq_gtok alloc QueueUpdates g = lifo_gtok Updates (queue_list g)"
| "lq_gtok alloc FreeUpdates g = lifo_gtok Updates (free_list g) + allocated g"

fun pc_node :: "addr \<Rightarrow> 'a lq_pc \<Rightarrow> nat" where
  "pc_node a QIdle = 0"
| "pc_node a (QPopFree v pc) = lifo_pc_tok (Node a) (LPopping pc)"
| "pc_node a (QNew v) = 0"
| "pc_node a (QConstruct n v) = of_bool (a = n)"
| "pc_node a (QNull n) = of_bool (a = n)"
| "pc_node a (QLink n pc) = lifo_pc_tok (Node a) (LPushing n pc)"
| "pc_node a (QTake pc) = lifo_pc_tok (Node a) (LPopping pc)"
| "pc_node a (QMove n) = of_bool (a = n)"
| "pc_node a (QRelease n v pc) = lifo_pc_tok (Node a) (LPushing n pc)"

fun pc_value :: "'a \<Rightarrow> 'a lq_pc \<Rightarrow> nat" where
  "pc_value v (QPopFree w pc) = of_bool (v = w)"
| "pc_value v (QNew w) = of_bool (v = w)"
| "pc_value v (QConstruct n w) = of_bool (v = w)"
| "pc_value v (QRelease n w pc) = of_bool (v = w)"
| "pc_value v _ = 0"

fun pc_queue :: "'a lq_pc \<Rightarrow> nat" where
  "pc_queue (QPopFree v pc) = 1"
| "pc_queue (QNew v) = 1"
| "pc_queue (QConstruct n v) = 1"
| "pc_queue (QNull n) = 1"
| "pc_queue (QLink n pc) = lifo_pc_tok Updates (LPushing n pc)"
| "pc_queue (QTake pc) = lifo_pc_tok Updates (LPopping pc)"
| "pc_queue _ = 0"

fun pc_free :: "'a lq_pc \<Rightarrow> nat" where
  "pc_free (QPopFree v pc) = lifo_pc_tok Updates (LPopping pc)"
| "pc_free (QNew v) = 1"
| "pc_free (QTake pc) = 1"
| "pc_free (QMove n) = 1"
| "pc_free (QRelease n v pc) = lifo_pc_tok Updates (LPushing n pc)"
| "pc_free _ = 0"

definition to_push :: "'a \<Rightarrow> 'a lq_thread \<Rightarrow> nat" where
  "to_push v t = count_list (qscript t) (QPush v)"

definition taken :: "'a \<Rightarrow> 'a lq_thread \<Rightarrow> nat" where
  "taken v t = count_list (map snd (qresults t)) (Some v)"

definition missed :: "'a lq_thread \<Rightarrow> nat" where
  "missed t = count_list (qresults t) (Some False, None)"

fun lq_ltok :: "'a lq_token \<Rightarrow> 'a lq_thread \<Rightarrow> nat" where
  "lq_ltok (QNode a) t = pc_node a (qpc t)"
| "lq_ltok (QVal v) t = to_push v t + pc_value v (qpc t) + taken v t"
| "lq_ltok QueueUpdates t = length (qscript t) + pc_queue (qpc t) + missed t"
| "lq_ltok FreeUpdates t = length (qscript t) + pc_free (qpc t) + missed t"

fun lq_cap :: "nat \<Rightarrow> ('a \<Rightarrow> nat) \<Rightarrow> 'a lq_token \<Rightarrow> nat" where
  "lq_cap n pushes (QNode a) = 1"
| "lq_cap n pushes (QVal v) = pushes v"
| "lq_cap n pushes QueueUpdates = n"
| "lq_cap n pushes FreeUpdates = n"

definition lq_gi :: "(nat \<Rightarrow> addr) \<Rightarrow> 'a lq_mem \<Rightarrow> bool" where
  "lq_gi alloc g \<longleftrightarrow> lifo_gi (queue_list g) \<and> lifo_gi (free_list g)
     \<and> (\<forall>a \<in> set (stack_of (queue_list g)). node_storage g a \<noteq> None)
     \<and> (\<forall>a \<in> set (stack_of (free_list g)). node_storage g a = None)
     \<and> (\<forall>a. a \<notin> set (nodes_upto alloc (allocated g)) \<longrightarrow> node_storage g a = None)"

definition lq_run_inv :: "(nat \<Rightarrow> addr) \<Rightarrow> nat \<Rightarrow> 'a lq_mem \<Rightarrow> bool" where
  "lq_run_inv alloc n g \<longleftrightarrow> lq_gi alloc g \<and> new_nodes alloc \<and> n < 2 ^ 16"

fun lq_pc_ok :: "'a lq_mem \<Rightarrow> 'a lq_pc \<Rightarrow> bool" where
  "lq_pc_ok g QIdle \<longleftrightarrow> True"
| "lq_pc_ok g (QPopFree v pc) \<longleftrightarrow> lifo_pc_ok (free_list g) (LPopping pc)
     \<and> (\<forall>r. pc = PopDone r \<longrightarrow> r \<noteq> 0 \<longrightarrow> node_storage g r = None)"
| "lq_pc_ok g (QNew v) \<longleftrightarrow> True"
| "lq_pc_ok g (QConstruct n v) \<longleftrightarrow> node_addr n \<and> node_storage g n = None"
| "lq_pc_ok g (QNull n) \<longleftrightarrow> node_addr n \<and> node_storage g n \<noteq> None"
| "lq_pc_ok g (QLink n pc) \<longleftrightarrow> lifo_pc_ok (queue_list g) (LPushing n pc)
     \<and> (pc \<noteq> PushDone \<longrightarrow> node_storage g n \<noteq> None)"
| "lq_pc_ok g (QTake pc) \<longleftrightarrow> lifo_pc_ok (queue_list g) (LPopping pc)
     \<and> (\<forall>r. pc = PopDone r \<longrightarrow> r \<noteq> 0 \<longrightarrow> node_storage g r \<noteq> None)"
| "lq_pc_ok g (QMove n) \<longleftrightarrow> node_addr n \<and> node_storage g n \<noteq> None"
| "lq_pc_ok g (QRelease n v pc) \<longleftrightarrow> lifo_pc_ok (free_list g) (LPushing n pc)
     \<and> (pc \<noteq> PushDone \<longrightarrow> node_storage g n = None)"

definition lq_ti :: "'a lq_mem \<Rightarrow> 'a lq_thread \<Rightarrow> bool" where
  "lq_ti g t \<longleftrightarrow> lq_pc_ok g (qpc t)"

section \<open>One list\<close>

definition list_effect :: "lifo_mem \<Rightarrow> lifo_mem \<Rightarrow> bool" where
  "list_effect g g' \<longleftrightarrow>
     mRoot g' = mRoot g \<and> updates g' = updates g \<or> updates g' = updates g + 1 \<and> lnext g' = lnext g"

lemma list_effect_relink: "list_effect g (g\<lparr>lnext := nx\<rparr>)"
  by (simp add: list_effect_def updates_def)

lemma lifo_push_effect:
  assumes "Lifo_Push_step n g pc = Some (g', pc')"
  shows "list_effect g g'" and "a \<noteq> n \<Longrightarrow> lnext g' a = lnext g a" and "pc \<noteq> PushDone"
  using assms
  by (cases pc; auto simp: list_effect_def updates_def AtomicCompareAndSwap_if Let_def fun_upd_apply split: if_splits)+

lemma lifo_pop_effect:
  assumes "Lifo_Pop_step g pc = Some (g', pc')" and "lifo_gi g"
  shows "list_effect g g'" and "lnext g' = lnext g"
  using assms(1) lifo_gi_read_root [OF assms(2)]
  by (cases pc; auto simp: list_effect_def updates_def AtomicCompareAndSwap_if Let_def split: if_splits)+

text \<open>A link of a node that is not in the list.\<close>

lemma lifo_gi_relink:
  assumes "lifo_gi g" and "\<And>a. a \<in> set (stack_of g) \<Longrightarrow> nx a = lnext g a"
  shows "lifo_gi (g\<lparr>lnext := nx\<rparr>)"
  using assms wlist_cong [of "stack_of g" nx "lnext g"] by (simp add: lifo_gi_def stack_of_def updates_def)

lemma stack_of_relink [simp]:
  "stack_of (g\<lparr>lnext := nx\<rparr>) = stack_of g" "updates (g\<lparr>lnext := nx\<rparr>) = updates g"
  by (simp_all add: stack_of_def updates_def)

text \<open>What another thread knows of the list.\<close>

lemma lifo_pc_ok_stable:
  assumes gi: "lifo_gi g" "lifo_gi g'" and ok: "lifo_pc_ok g p" and eff: "list_effect g g'"
    and mine: "\<And>a. lifo_pc_tok (Node a) p > 0 \<Longrightarrow> lnext g' a = lnext g a"
    and listed: "\<And>a. a \<in> set (stack_of g) \<Longrightarrow> lnext g' a = lnext g a"
  shows "lifo_pc_ok g' p"
proof (cases p)
  case (LPushing n pc)
  then show ?thesis using ok mine [of n] by (cases pc) auto
next
  case (LPopping pc)
  have snap: "snapshot g w \<Longrightarrow> snapshot g' w" for w
    using eff by (auto simp: snapshot_def list_effect_def)
  show ?thesis
  proof (cases pc)
    case (PopCas w nxt)
    have s: "snapshot g w" and nz: "root_ptr w \<noteq> 0" and nx: "w = mRoot g \<longrightarrow> nxt = lnext g (root_ptr w)"
      using ok LPopping PopCas by auto
    have "nxt = lnext g' (root_ptr w)" if w: "w = mRoot g'"
    proof -
      have same: "mRoot g' = mRoot g"
        using eff s w gi(2) by (auto simp: snapshot_def lifo_gi_def list_effect_def)
      have "root_ptr w \<in> set (stack_of g)"
        using gi(1) nz w same by (auto simp: lifo_gi_def wlist_nonnull)
      then show ?thesis using listed same nx w by simp
    qed
    then show ?thesis using LPopping PopCas snap [OF s] nz by simp
  qed (use ok LPopping snap in auto)
qed (use ok in simp)

lemma lifo_tokens_member:
  assumes "\<forall>k. lifo_gtok k g' + lifo_pc_tok k p' = lifo_gtok k g + lifo_pc_tok k p"
    and "a \<in> set (stack_of g')"
  shows "a \<in> set (stack_of g) \<or> lifo_pc_tok (Node a) p > 0"
  using assms(1) [rule_format, of "Node a"] assms(2) count_list_set [of "stack_of g" a] count_list_set [of "stack_of g'" a]
  by (cases "a \<in> set (stack_of g)") auto

lemma lifo_tokens_popped:
  assumes "\<forall>k. lifo_gtok k g' + lifo_pc_tok k (LPopping (PopDone r)) = lifo_gtok k g + lifo_pc_tok k (LPopping pc)"
    and "r \<noteq> 0" and "\<And>q. pc \<noteq> PopDone q"
  shows "r \<in> set (stack_of g)"
proof -
  have "lifo_pc_tok (Node r) (LPopping pc) = 0" using assms(3) by (cases pc) auto
  then have "count_list (stack_of g) r > 0" using assms(1) [rule_format, of "Node r"] assms(2) by simp
  then show ?thesis using count_list_set [of "stack_of g" r] by simp
qed

section \<open>Views\<close>

lemma list_views [simp]:
  "queue_list (with_queue_list g m) = m" "free_list (with_free_list g m) = m"
  "free_list (with_queue_list g m) = (free_list g)\<lparr>lnext := lnext m\<rparr>"
  "queue_list (with_free_list g m) = (queue_list g)\<lparr>lnext := lnext m\<rparr>"
  "node_storage (with_queue_list g m) = node_storage g" "node_storage (with_free_list g m) = node_storage g"
  "allocated (with_queue_list g m) = allocated g" "allocated (with_free_list g m) = allocated g"
  "node_next (with_queue_list g m) = lnext m" "node_next (with_free_list g m) = lnext m"
  by (simp_all add: queue_list_def free_list_def with_queue_list_def with_free_list_def)

lemma list_links [simp]: "lnext (queue_list g) = node_next g" "lnext (free_list g) = node_next g"
  by (simp_all add: queue_list_def free_list_def)

lemma list_views_upd [simp]:
  "queue_list (g\<lparr>node_storage := st\<rparr>) = queue_list g" "free_list (g\<lparr>node_storage := st\<rparr>) = free_list g"
  "queue_list (g\<lparr>node_next := nx\<rparr>) = (queue_list g)\<lparr>lnext := nx\<rparr>" "free_list (g\<lparr>node_next := nx\<rparr>) = (free_list g)\<lparr>lnext := nx\<rparr>"
  "queue_list (g\<lparr>allocated := k\<rparr>) = queue_list g" "free_list (g\<lparr>allocated := k\<rparr>) = free_list g"
  "queue_list (g\<lparr>allocated := k, node_next := nx\<rparr>) = (queue_list g)\<lparr>lnext := nx\<rparr>"
  "free_list (g\<lparr>allocated := k, node_next := nx\<rparr>) = (free_list g)\<lparr>lnext := nx\<rparr>"
  by (simp_all add: queue_list_def free_list_def)

lemma stored_views [simp]:
  "values_in alloc v (with_queue_list g m) = values_in alloc v g" "values_in alloc v (with_free_list g m) = values_in alloc v g"
  "values_in alloc v (g\<lparr>node_next := nx\<rparr>) = values_in alloc v g"
  by (simp_all add: values_in_def)

lemma relink_same: "lnext m = lnext g \<Longrightarrow> (g :: lifo_mem)\<lparr>lnext := lnext m\<rparr> = g"
  by simp

text \<open>Constructing and destroying in an allocated node.\<close>

lemma filter_one_update:
  assumes "distinct ns" and "n \<in> set ns" and "\<And>m. m \<noteq> n \<Longrightarrow> f' m = f m"
  shows "length (filter (\<lambda>m. f' m = Some v) ns) + of_bool (f n = Some v)
    = length (filter (\<lambda>m. f m = Some v) ns) + of_bool (f' n = Some v)"
  using assms(1,2)
proof (induction ns)
  case (Cons m ns)
  show ?case
  proof (cases "m = n")
    case True
    then have "filter (\<lambda>m. f' m = Some v) ns = filter (\<lambda>m. f m = Some v) ns"
      using Cons.prems(1) by (intro filter_cong) (auto intro!: arg_cong2 [of _ _ _ _ "(=)"] assms(3))
    then show ?thesis using True by simp
  next
    case False
    then show ?thesis using Cons assms(3) [OF False] by simp
  qed
qed simp

lemma stored_update:
  assumes "distinct (nodes_upto alloc (allocated g))" and "n \<in> set (nodes_upto alloc (allocated g))"
  shows "values_in alloc v (g\<lparr>node_storage := (node_storage g)(n := x)\<rparr>) + of_bool (node_storage g n = Some v)
           = values_in alloc v g + of_bool (x = Some v)"
  using filter_one_update [OF assms, of "(node_storage g)(n := x)" "node_storage g" v]
  by (simp add: values_in_def fun_upd_apply)

lemma stored_allocate:
  "node_storage g (alloc (allocated g)) = None \<Longrightarrow>
   values_in alloc v (g\<lparr>allocated := Suc (allocated g), node_next := nx\<rparr>) = values_in alloc v g"
  by (simp add: values_in_def nodes_upto_def)

lemma nodes_upto_distinct: "new_nodes alloc \<Longrightarrow> k \<le> 2 ^ 16 \<Longrightarrow> distinct (nodes_upto alloc k)"
  by (auto simp: new_nodes_def nodes_upto_def distinct_map inj_on_def)

lemma new_node:
  assumes "new_nodes alloc" and "k < 2 ^ 16"
  shows "node_addr (alloc k)" and "alloc k \<notin> set (nodes_upto alloc k)"
    and "set (nodes_upto alloc (Suc k)) = insert (alloc k) (set (nodes_upto alloc k))"
  using assms by (auto simp: new_nodes_def nodes_upto_def dest: inj_onD)

section \<open>Steps inside the lists\<close>

lemma all_lq_token:
  "(\<forall>k. P k) \<longleftrightarrow> (\<forall>a. P (QNode a)) \<and> (\<forall>v. P (QVal v)) \<and> P QueueUpdates \<and> P FreeUpdates"
  by (metis lq_token.exhaust)

lemma lq_giD:
  assumes "lq_gi alloc g"
  shows "lifo_gi (queue_list g)" and "lifo_gi (free_list g)"
    and "a \<in> set (stack_of (queue_list g)) \<Longrightarrow> node_storage g a \<noteq> None"
    and "a \<in> set (stack_of (free_list g)) \<Longrightarrow> node_storage g a = None"
    and "a \<notin> set (nodes_upto alloc (allocated g)) \<Longrightarrow> node_storage g a = None"
  using assms by (auto simp: lq_gi_def)

lemma lq_gi_with_queue:
  assumes gi: "lq_gi alloc g" and m: "lifo_gi m"
    and links: "\<And>a. a \<in> set (stack_of (free_list g)) \<Longrightarrow> lnext m a = node_next g a"
    and members: "\<And>a. a \<in> set (stack_of m) \<Longrightarrow> node_storage g a \<noteq> None"
  shows "lq_gi alloc (with_queue_list g m)"
  using lifo_gi_relink [OF lq_giD(2) [OF gi], of "lnext m"] links m members gi by (simp add: lq_gi_def)

lemma lq_gi_with_free:
  assumes gi: "lq_gi alloc g" and m: "lifo_gi m"
    and links: "\<And>a. a \<in> set (stack_of (queue_list g)) \<Longrightarrow> lnext m a = node_next g a"
    and members: "\<And>a. a \<in> set (stack_of m) \<Longrightarrow> node_storage g a = None"
  shows "lq_gi alloc (with_free_list g m)"
  using lifo_gi_relink [OF lq_giD(1) [OF gi], of "lnext m"] links m members gi by (simp add: lq_gi_def)

text \<open>The node in a thread's hands is in no list, and allocated.\<close>

lemma held_node:
  assumes "\<And>k. lq_gtok alloc k g + lq_ltok k t \<le> lq_cap n pushes k" and "pc_node a (qpc t) > 0"
  shows "a \<notin> set (stack_of (queue_list g))" and "a \<notin> set (stack_of (free_list g))"
    and "a \<in> set (nodes_upto alloc (allocated g))"
  using assms(1) [of "QNode a"] assms(2) count_list_set [of "stack_of (queue_list g)" a]
    count_list_set [of "stack_of (free_list g)" a]
  by (cases "a \<in> set (nodes_upto alloc (allocated g))"; auto simp del: pc_node.simps)+

lemma list_writes:
  assumes "lq_gi alloc g" and "n \<notin> set (stack_of (queue_list g))" and "n \<notin> set (stack_of (free_list g))"
  shows "lifo_gi ((queue_list g)\<lparr>lnext := (node_next g)(n := b)\<rparr>)"
    and "lifo_gi ((free_list g)\<lparr>lnext := (node_next g)(n := b)\<rparr>)"
proof -
  show "lifo_gi ((queue_list g)\<lparr>lnext := (node_next g)(n := b)\<rparr>)"
    by (rule lifo_gi_relink [OF lq_giD(1) [OF assms(1)]]) (use assms(2) in \<open>auto simp: fun_upd_apply\<close>)
  show "lifo_gi ((free_list g)\<lparr>lnext := (node_next g)(n := b)\<rparr>)"
    by (rule lifo_gi_relink [OF lq_giD(2) [OF assms(1)]]) (use assms(3) in \<open>auto simp: fun_upd_apply\<close>)
qed

lemma list_step_cases:
  assumes "MPMCLifoQueue_step alloc g t = Some (g', t')"
  shows "qpc t = QPopFree v pc \<Longrightarrow> \<not> (\<exists>r. pc = PopDone r) \<Longrightarrow>
      \<exists>m pc'. Lifo_Pop_step (free_list g) pc = Some (m, pc') \<and> g' = with_free_list g m \<and> t' = t\<lparr>qpc := QPopFree v pc'\<rparr>"
    and "qpc t = QTake pc \<Longrightarrow> \<not> (\<exists>r. pc = PopDone r) \<Longrightarrow>
      \<exists>m pc'. Lifo_Pop_step (queue_list g) pc = Some (m, pc') \<and> g' = with_queue_list g m \<and> t' = t\<lparr>qpc := QTake pc'\<rparr>"
    and "qpc t = QLink n ppc \<Longrightarrow> ppc \<noteq> PushDone \<Longrightarrow>
      \<exists>m pc'. Lifo_Push_step n (queue_list g) ppc = Some (m, pc') \<and> g' = with_queue_list g m \<and> t' = t\<lparr>qpc := QLink n pc'\<rparr>"
    and "qpc t = QRelease n v ppc \<Longrightarrow> ppc \<noteq> PushDone \<Longrightarrow>
      \<exists>m pc'. Lifo_Push_step n (free_list g) ppc = Some (m, pc') \<and> g' = with_free_list g m \<and> t' = t\<lparr>qpc := QRelease n v pc'\<rparr>"
proof -
  show "qpc t = QPopFree v pc \<Longrightarrow> \<not> (\<exists>r. pc = PopDone r) \<Longrightarrow>
      \<exists>m pc'. Lifo_Pop_step (free_list g) pc = Some (m, pc') \<and> g' = with_free_list g m \<and> t' = t\<lparr>qpc := QPopFree v pc'\<rparr>"
    using assms by (cases pc) (auto simp: MPMCLifoQueue_step_def in_list_def simp del: Lifo_Pop_step.simps)
  show "qpc t = QTake pc \<Longrightarrow> \<not> (\<exists>r. pc = PopDone r) \<Longrightarrow>
      \<exists>m pc'. Lifo_Pop_step (queue_list g) pc = Some (m, pc') \<and> g' = with_queue_list g m \<and> t' = t\<lparr>qpc := QTake pc'\<rparr>"
    using assms by (cases pc) (auto simp: MPMCLifoQueue_step_def in_list_def simp del: Lifo_Pop_step.simps)
  show "qpc t = QLink n ppc \<Longrightarrow> ppc \<noteq> PushDone \<Longrightarrow>
      \<exists>m pc'. Lifo_Push_step n (queue_list g) ppc = Some (m, pc') \<and> g' = with_queue_list g m \<and> t' = t\<lparr>qpc := QLink n pc'\<rparr>"
    using assms by (cases ppc) (auto simp: MPMCLifoQueue_step_def in_list_def simp del: Lifo_Push_step.simps)
  show "qpc t = QRelease n v ppc \<Longrightarrow> ppc \<noteq> PushDone \<Longrightarrow>
      \<exists>m pc'. Lifo_Push_step n (free_list g) ppc = Some (m, pc') \<and> g' = with_free_list g m \<and> t' = t\<lparr>qpc := QRelease n v pc'\<rparr>"
    using assms by (cases ppc) (auto simp: MPMCLifoQueue_step_def in_list_def simp del: Lifo_Push_step.simps)
qed

text \<open>One's own steps inside a list.\<close>

abbreviation lq_keeps :: "(nat \<Rightarrow> addr) \<Rightarrow> 'a lq_mem \<Rightarrow> 'a lq_thread \<Rightarrow> 'a lq_mem \<Rightarrow> 'a lq_thread \<Rightarrow> bool" where
  "lq_keeps alloc g t g' t' \<equiv> lq_gi alloc g' \<and> lq_ti g' t' \<and>
     (\<forall>k. lq_gtok alloc k g' + lq_ltok k t' = lq_gtok alloc k g + lq_ltok k t)"

lemma own_pop_free:
  assumes gi: "lq_gi alloc g" and ti: "lq_ti g t" and pc: "qpc t = QPopFree v pc" "\<not> (\<exists>r. pc = PopDone r)"
    and b: "updates (free_list g) + lifo_pc_tok Updates (LPopping pc) < 2 ^ 16"
    and st: "MPMCLifoQueue_step alloc g t = Some (g', t')"
  shows "lq_keeps alloc g t g' t'"
proof -
  obtain m pc' where s: "Lifo_Pop_step (free_list g) pc = Some (m, pc')" and g': "g' = with_free_list g m"
    and t': "t' = t\<lparr>qpc := QPopFree v pc'\<rparr>" using list_step_cases(1) [OF st pc] by blast
  note own = lifo_pop_step_inv [OF s lq_giD(2) [OF gi] _ b]
  have ok: "lifo_pc_ok (free_list g) (LPopping pc)" using ti pc by (simp add: lq_ti_def)
  from own [OF this] have m: "lifo_gi m" "lifo_pc_ok m (LPopping pc')"
    and tok: "\<forall>k. lifo_gtok k m + lifo_pc_tok k (LPopping pc') = lifo_gtok k (free_list g) + lifo_pc_tok k (LPopping pc)"
    by blast+
  note eff = lifo_pop_effect [OF s lq_giD(2) [OF gi]]
  have none: "lifo_pc_tok (Node a) (LPopping pc) = 0" for a using pc(2) by (cases pc) auto
  have "node_storage g a = None" if "a \<in> set (stack_of m)" for a
    using lifo_tokens_member [OF tok that] none [of a] lq_giD(4) [OF gi] by auto
  then have "lq_gi alloc g'" unfolding g' using eff(2) by (intro lq_gi_with_free [OF gi m(1)]) simp_all
  moreover have "lq_ti g' t'"
    using m(2) lifo_tokens_popped [of m _ "free_list g" pc] tok pc(2) lq_giD(4) [OF gi] by (auto simp: lq_ti_def t' g')
  moreover have "lq_gtok alloc k g' + lq_ltok k t' = lq_gtok alloc k g + lq_ltok k t" for k
    using tok [rule_format, of "case k of QNode a \<Rightarrow> Node a | _ \<Rightarrow> Updates"] pc
    by (cases k) (simp_all add: g' t' to_push_def taken_def missed_def del: lifo_pc_tok.simps)
  ultimately show ?thesis by blast
qed

lemma own_take:
  assumes gi: "lq_gi alloc g" and ti: "lq_ti g t" and pc: "qpc t = QTake pc" "\<not> (\<exists>r. pc = PopDone r)"
    and b: "updates (queue_list g) + lifo_pc_tok Updates (LPopping pc) < 2 ^ 16"
    and st: "MPMCLifoQueue_step alloc g t = Some (g', t')"
  shows "lq_keeps alloc g t g' t'"
proof -
  obtain m pc' where s: "Lifo_Pop_step (queue_list g) pc = Some (m, pc')" and g': "g' = with_queue_list g m"
    and t': "t' = t\<lparr>qpc := QTake pc'\<rparr>" using list_step_cases(2) [OF st pc] by blast
  note own = lifo_pop_step_inv [OF s lq_giD(1) [OF gi] _ b]
  have ok: "lifo_pc_ok (queue_list g) (LPopping pc)" using ti pc by (simp add: lq_ti_def)
  from own [OF this] have m: "lifo_gi m" "lifo_pc_ok m (LPopping pc')"
    and tok: "\<forall>k. lifo_gtok k m + lifo_pc_tok k (LPopping pc') = lifo_gtok k (queue_list g) + lifo_pc_tok k (LPopping pc)"
    by blast+
  note eff = lifo_pop_effect [OF s lq_giD(1) [OF gi]]
  have none: "lifo_pc_tok (Node a) (LPopping pc) = 0" for a using pc(2) by (cases pc) auto
  have "node_storage g a \<noteq> None" if "a \<in> set (stack_of m)" for a
    using lifo_tokens_member [OF tok that] none [of a] lq_giD(3) [OF gi] by auto
  then have "lq_gi alloc g'" unfolding g' using eff(2) by (intro lq_gi_with_queue [OF gi m(1)]) simp_all
  moreover have "lq_ti g' t'"
    using m(2) lifo_tokens_popped [of m _ "queue_list g" pc] tok pc(2) lq_giD(3) [OF gi] by (auto simp: lq_ti_def t' g')
  moreover have "lq_gtok alloc k g' + lq_ltok k t' = lq_gtok alloc k g + lq_ltok k t" for k
    using tok [rule_format, of "case k of QNode a \<Rightarrow> Node a | _ \<Rightarrow> Updates"] pc
    by (cases k) (simp_all add: g' t' to_push_def taken_def missed_def del: lifo_pc_tok.simps)
  ultimately show ?thesis by blast
qed

lemma own_link:
  assumes gi: "lq_gi alloc g" and ti: "lq_ti g t" and pc: "qpc t = QLink n pc" "pc \<noteq> PushDone"
    and out: "n \<notin> set (stack_of (queue_list g))" "n \<notin> set (stack_of (free_list g))"
    and b: "updates (queue_list g) + lifo_pc_tok Updates (LPushing n pc) < 2 ^ 16"
    and st: "MPMCLifoQueue_step alloc g t = Some (g', t')"
  shows "lq_keeps alloc g t g' t'"
proof -
  obtain m pc' where s: "Lifo_Push_step n (queue_list g) pc = Some (m, pc')" and g': "g' = with_queue_list g m"
    and t': "t' = t\<lparr>qpc := QLink n pc'\<rparr>" using list_step_cases(3) [OF st pc] by blast
  have ok: "lifo_pc_ok (queue_list g) (LPushing n pc)" and n: "node_storage g n \<noteq> None"
    using ti pc by (simp_all add: lq_ti_def)
  from lifo_push_step_inv [OF s lq_giD(1) [OF gi] ok out(1) b] have m: "lifo_gi m" "lifo_pc_ok m (LPushing n pc')"
    and tok: "\<forall>k. lifo_gtok k m + lifo_pc_tok k (LPushing n pc') = lifo_gtok k (queue_list g) + lifo_pc_tok k (LPushing n pc)"
    by blast+
  have "node_storage g a \<noteq> None" if "a \<in> set (stack_of m)" for a
    using lifo_tokens_member [OF tok that] n lq_giD(3) [OF gi] by (cases "a = n") auto
  moreover have "lnext m a = node_next g a" if "a \<in> set (stack_of (free_list g))" for a
    using lifo_push_effect(2) [OF s, of a] that out(2) by (cases "a = n") auto
  ultimately have "lq_gi alloc g'" unfolding g' by (intro lq_gi_with_queue [OF gi m(1)])
  moreover have "lq_ti g' t'" using m(2) n by (simp add: lq_ti_def t' g')
  moreover have "lq_gtok alloc k g' + lq_ltok k t' = lq_gtok alloc k g + lq_ltok k t" for k
    using tok [rule_format, of "case k of QNode a \<Rightarrow> Node a | _ \<Rightarrow> Updates"] pc
    by (cases k) (simp_all add: g' t' to_push_def taken_def missed_def del: lifo_pc_tok.simps)
  ultimately show ?thesis by blast
qed

lemma own_release:
  assumes gi: "lq_gi alloc g" and ti: "lq_ti g t" and pc: "qpc t = QRelease n v pc" "pc \<noteq> PushDone"
    and out: "n \<notin> set (stack_of (queue_list g))" "n \<notin> set (stack_of (free_list g))"
    and b: "updates (free_list g) + lifo_pc_tok Updates (LPushing n pc) < 2 ^ 16"
    and st: "MPMCLifoQueue_step alloc g t = Some (g', t')"
  shows "lq_keeps alloc g t g' t'"
proof -
  obtain m pc' where s: "Lifo_Push_step n (free_list g) pc = Some (m, pc')" and g': "g' = with_free_list g m"
    and t': "t' = t\<lparr>qpc := QRelease n v pc'\<rparr>" using list_step_cases(4) [OF st pc] by blast
  have ok: "lifo_pc_ok (free_list g) (LPushing n pc)" and n: "node_storage g n = None"
    using ti pc by (simp_all add: lq_ti_def)
  from lifo_push_step_inv [OF s lq_giD(2) [OF gi] ok out(2) b] have m: "lifo_gi m" "lifo_pc_ok m (LPushing n pc')"
    and tok: "\<forall>k. lifo_gtok k m + lifo_pc_tok k (LPushing n pc') = lifo_gtok k (free_list g) + lifo_pc_tok k (LPushing n pc)"
    by blast+
  have "node_storage g a = None" if "a \<in> set (stack_of m)" for a
    using lifo_tokens_member [OF tok that] n lq_giD(4) [OF gi] by (cases "a = n") auto
  moreover have "lnext m a = node_next g a" if "a \<in> set (stack_of (queue_list g))" for a
    using lifo_push_effect(2) [OF s, of a] that out(1) by (cases "a = n") auto
  ultimately have "lq_gi alloc g'" unfolding g' by (intro lq_gi_with_free [OF gi m(1)])
  moreover have "lq_ti g' t'" using m(2) n by (simp add: lq_ti_def t' g')
  moreover have "lq_gtok alloc k g' + lq_ltok k t' = lq_gtok alloc k g + lq_ltok k t" for k
    using tok [rule_format, of "case k of QNode a \<Rightarrow> Node a | _ \<Rightarrow> Updates"] pc
    by (cases k) (simp_all add: g' t' to_push_def taken_def missed_def del: lifo_pc_tok.simps)
  ultimately show ?thesis by blast
qed

section \<open>Every step\<close>

lemma own_new:
  assumes gi: "lq_gi alloc g" and pc: "qpc t = QNew v" and new: "new_nodes alloc" and few: "allocated g < 2 ^ 16"
    and le: "\<And>k. lq_gtok alloc k g + lq_ltok k t \<le> lq_cap n pushes k"
    and st: "MPMCLifoQueue_step alloc g t = Some (g', t')"
  shows "lq_keeps alloc g t g' t'"
proof -
  let ?n = "alloc (allocated g)" and ?nx = "(node_next g)(alloc (allocated g) := 0)"
  note nn = new_node [OF new few]
  have g': "g' = g\<lparr>allocated := Suc (allocated g), node_next := ?nx\<rparr>" and t': "t' = t\<lparr>qpc := QConstruct ?n v\<rparr>"
    using st pc by (auto simp: MPMCLifoQueue_step_def Let_def)
  have out: "?n \<notin> set (stack_of (queue_list g))" "?n \<notin> set (stack_of (free_list g))"
    using le [of "QNode ?n"] nn(2) count_list_set [of "stack_of (queue_list g)" ?n]
      count_list_set [of "stack_of (free_list g)" ?n] by (auto simp: pc)
  have none: "node_storage g ?n = None" by (rule lq_giD(5) [OF gi nn(2)])
  have "lifo_gi ((queue_list g)\<lparr>lnext := ?nx\<rparr>)" "lifo_gi ((free_list g)\<lparr>lnext := ?nx\<rparr>)"
    using list_writes [OF gi out] by simp_all
  then have "lq_gi alloc g'" using gi nn(3) by (auto simp: lq_gi_def g')
  moreover have "lq_ti g' t'" using nn(1) none by (simp add: lq_ti_def t' g')
  moreover have "lq_gtok alloc k g' + lq_ltok k t' = lq_gtok alloc k g + lq_ltok k t" for k
    using nn(2,3) stored_allocate [where alloc = alloc, OF none] pc
    by (cases k) (auto simp: g' t' to_push_def taken_def missed_def)
  ultimately show ?thesis by blast
qed

lemma own_storage:
  assumes gi: "lq_gi alloc g" and new: "new_nodes alloc" and few: "allocated g < 2 ^ 16"
    and out: "n \<notin> set (stack_of (queue_list g))" "n \<notin> set (stack_of (free_list g))"
      "n \<in> set (nodes_upto alloc (allocated g))"
  shows "lq_gi alloc (g\<lparr>node_storage := (node_storage g)(n := x)\<rparr>)"
    and "values_in alloc w (g\<lparr>node_storage := (node_storage g)(n := x)\<rparr>) + of_bool (node_storage g n = Some w)
      = values_in alloc w g + of_bool (x = Some w)"
proof -
  show "lq_gi alloc (g\<lparr>node_storage := (node_storage g)(n := x)\<rparr>)"
    using gi out by (auto simp: lq_gi_def fun_upd_apply)
  have "distinct (nodes_upto alloc (allocated g))" by (rule nodes_upto_distinct [OF new]) (use few in simp)
  from stored_update [OF this out(3)]
  show "values_in alloc w (g\<lparr>node_storage := (node_storage g)(n := x)\<rparr>) + of_bool (node_storage g n = Some w)
      = values_in alloc w g + of_bool (x = Some w)" .
qed

lemma lq_own:
  assumes inv: "lq_run_inv alloc n g" and ti: "lq_ti g t"
    and le: "\<And>k. lq_gtok alloc k g + lq_ltok k t \<le> lq_cap n pushes k"
    and st: "MPMCLifoQueue_step alloc g t = Some (g', t')"
  shows "lq_keeps alloc g t g' t'"
proof -
  have gi: "lq_gi alloc g" and new: "new_nodes alloc" and n: "n < 2 ^ 16" using inv by (auto simp: lq_run_inv_def)
  have q: "updates (queue_list g) + pc_queue (qpc t) < 2 ^ 16" using le [of QueueUpdates] n by simp
  have f: "updates (free_list g) + pc_free (qpc t) + allocated g < 2 ^ 16" using le [of FreeUpdates] n by simp
  have few: "allocated g < 2 ^ 16" using f by simp
  note toks = to_push_def taken_def missed_def all_lq_token
  show ?thesis
  proof (cases "qpc t")
    case QIdle
    then show ?thesis using st gi
      by (auto simp: MPMCLifoQueue_step_def lq_ti_def toks split: list.splits lq_op.splits)
  next
    case (QPopFree v pc)
    show ?thesis
    proof (cases "\<exists>r. pc = PopDone r")
      case True
      then show ?thesis using st gi ti QPopFree
        by (auto simp: MPMCLifoQueue_step_def lq_ti_def toks)
    next
      case False
      have "updates (free_list g) + lifo_pc_tok Updates (LPopping pc) < 2 ^ 16" using f unfolding QPopFree pc_free.simps by linarith
      from own_pop_free [OF gi ti QPopFree False this st] show ?thesis .
    qed
  next
    case (QNew v)
    from own_new [OF gi QNew new few le st] show ?thesis .
  next
    case (QConstruct m v)
    then have "pc_node m (qpc t) > 0" by simp
    note own = own_storage [OF gi new few held_node [OF le this], where x = "Some v"]
    have "node_storage g m = None" "node_addr m" using ti QConstruct by (simp_all add: lq_ti_def)
    then show ?thesis using own st QConstruct
      by (auto simp: MPMCLifoQueue_step_def lq_ti_def toks fun_upd_apply)
  next
    case (QNull m)
    then have "pc_node m (qpc t) > 0" by simp
    note out = held_node [OF le this]
    show ?thesis using list_writes [OF gi out(1,2), of 0] st gi ti QNull
      by (auto simp: MPMCLifoQueue_step_def lq_ti_def lq_gi_def toks)
  next
    case (QLink m pc)
    show ?thesis
    proof (cases "pc = PushDone")
      case True
      then show ?thesis using st gi ti QLink by (auto simp: MPMCLifoQueue_step_def lq_ti_def toks)
    next
      case False
      then have "pc_node m (qpc t) > 0" using QLink by simp
      note out = held_node(1,2) [OF le this]
      have "updates (queue_list g) + lifo_pc_tok Updates (LPushing m pc) < 2 ^ 16" using q unfolding QLink pc_queue.simps .
      from own_link [OF gi ti QLink False out this st] show ?thesis .
    qed
  next
    case (QTake pc)
    show ?thesis
    proof (cases "\<exists>r. pc = PopDone r")
      case True
      then show ?thesis using st gi ti QTake
        by (auto simp: MPMCLifoQueue_step_def lq_ti_def toks)
    next
      case False
      have "updates (queue_list g) + lifo_pc_tok Updates (LPopping pc) < 2 ^ 16" using q unfolding QTake pc_queue.simps .
      from own_take [OF gi ti QTake False this st] show ?thesis .
    qed
  next
    case (QMove m)
    then have "pc_node m (qpc t) > 0" by simp
    note own = own_storage [OF gi new few held_node [OF le this], where x = None]
    obtain v where v: "node_storage g m = Some v" and a: "node_addr m" using ti QMove by (auto simp: lq_ti_def)
    have s: "values_in alloc w (g\<lparr>node_storage := (node_storage g)(m := None)\<rparr>) + of_bool (v = w) = values_in alloc w g" for w
      using own(2) [of w] v by simp
    show ?thesis using own(1) st QMove v a
      by (auto simp: MPMCLifoQueue_step_def lq_ti_def toks fun_upd_apply s [symmetric])
  next
    case (QRelease m v pc)
    show ?thesis
    proof (cases "pc = PushDone")
      case True
      then show ?thesis using st gi ti QRelease by (auto simp: MPMCLifoQueue_step_def lq_ti_def toks)
    next
      case False
      then have "pc_node m (qpc t) > 0" using QRelease by simp
      note out = held_node(1,2) [OF le this]
      have "updates (free_list g) + lifo_pc_tok Updates (LPushing m pc) < 2 ^ 16" using f unfolding QRelease pc_free.simps by linarith
      from own_release [OF gi ti QRelease False out this st] show ?thesis .
    qed
  qed
qed

text \<open>What a step does to the lists and to nodes that the others know of.\<close>

definition own_node :: "(nat \<Rightarrow> addr) \<Rightarrow> 'a lq_mem \<Rightarrow> 'a lq_thread \<Rightarrow> addr \<Rightarrow> bool" where
  "own_node alloc g t a \<longleftrightarrow> pc_node a (qpc t) > 0 \<or> a \<notin> set (nodes_upto alloc (allocated g))"

definition lq_effect :: "(nat \<Rightarrow> addr) \<Rightarrow> 'a lq_mem \<Rightarrow> 'a lq_thread \<Rightarrow> 'a lq_mem \<Rightarrow> bool" where
  "lq_effect alloc g t g' \<longleftrightarrow>
     list_effect (queue_list g) (queue_list g') \<and> list_effect (free_list g) (free_list g') \<and>
     (\<forall>a. \<not> own_node alloc g t a \<longrightarrow> node_next g' a = node_next g a \<and> node_storage g' a = node_storage g a)"

lemma lq_effect_same: "lq_effect alloc g t g"
  by (simp add: lq_effect_def list_effect_def)

lemma lq_effect_node:
  assumes "own_node alloc g t n"
  shows "lq_effect alloc g t (g\<lparr>node_next := (node_next g)(n := b)\<rparr>)"
    and "lq_effect alloc g t (g\<lparr>node_storage := (node_storage g)(n := x)\<rparr>)"
    and "lq_effect alloc g t (g\<lparr>allocated := k, node_next := (node_next g)(n := b)\<rparr>)"
  using assms by (auto simp: lq_effect_def list_effect_def fun_upd_apply)

lemma lq_step_effect:
  assumes gi: "lq_gi alloc g" and new: "new_nodes alloc" and few: "\<And>v. qpc t = QNew v \<Longrightarrow> allocated g < 2 ^ 16"
    and st: "MPMCLifoQueue_step alloc g t = Some (g', t')"
  shows "lq_effect alloc g t g'"
proof (cases "qpc t")
  case QIdle
  then have "g' = g" using st by (auto simp: MPMCLifoQueue_step_def split: list.splits lq_op.splits)
  then show ?thesis by (simp add: lq_effect_same)
next
  case (QPopFree w pc)
  show ?thesis
  proof (cases "\<exists>r. pc = PopDone r")
    case True
    then have "g' = g" using st QPopFree by (auto simp: MPMCLifoQueue_step_def)
    then show ?thesis by (simp add: lq_effect_same)
  next
    case False
    then obtain m pc' where s: "Lifo_Pop_step (free_list g) pc = Some (m, pc')" and g': "g' = with_free_list g m"
      using list_step_cases(1) [OF st QPopFree] by blast
    show ?thesis using lifo_pop_effect [OF s lq_giD(2) [OF gi]]
      by (simp add: lq_effect_def g' list_effect_relink)
  qed
next
  case (QNew w)
  then have "own_node alloc g t (alloc (allocated g))"
    using new_node(2) [OF new few] by (simp add: own_node_def)
  then show ?thesis using st QNew lq_effect_node(3) by (auto simp: MPMCLifoQueue_step_def Let_def)
next
  case (QConstruct n w)
  then have "own_node alloc g t n" by (simp add: own_node_def)
  then show ?thesis using st QConstruct lq_effect_node(2) by (auto simp: MPMCLifoQueue_step_def)
next
  case (QNull n)
  then have "own_node alloc g t n" by (simp add: own_node_def)
  then show ?thesis using st QNull lq_effect_node(1) by (auto simp: MPMCLifoQueue_step_def)
next
  case (QLink n pc)
  show ?thesis
  proof (cases "pc = PushDone")
    case True
    then have "g' = g" using st QLink by (auto simp: MPMCLifoQueue_step_def)
    then show ?thesis by (simp add: lq_effect_same)
  next
    case False
    then obtain m pc' where s: "Lifo_Push_step n (queue_list g) pc = Some (m, pc')" and g': "g' = with_queue_list g m"
      using list_step_cases(3) [OF st QLink] by blast
    have "own_node alloc g t n" using QLink False by (simp add: own_node_def)
    then have "lnext m a = node_next g a" if "\<not> own_node alloc g t a" for a
      using lifo_push_effect(2) [OF s, of a] that by (cases "a = n") auto
    then show ?thesis using lifo_push_effect(1) [OF s] by (simp add: lq_effect_def g' list_effect_relink)
  qed
next
  case (QTake pc)
  show ?thesis
  proof (cases "\<exists>r. pc = PopDone r")
    case True
    then have "g' = g" using st QTake by (auto simp: MPMCLifoQueue_step_def)
    then show ?thesis by (simp add: lq_effect_same)
  next
    case False
    then obtain m pc' where s: "Lifo_Pop_step (queue_list g) pc = Some (m, pc')" and g': "g' = with_queue_list g m"
      using list_step_cases(2) [OF st QTake] by blast
    show ?thesis using lifo_pop_effect [OF s lq_giD(1) [OF gi]]
      by (simp add: lq_effect_def g' list_effect_relink)
  qed
next
  case (QMove n)
  then have "own_node alloc g t n" by (simp add: own_node_def)
  then show ?thesis using st QMove lq_effect_node(2) by (auto simp: MPMCLifoQueue_step_def split: option.splits)
next
  case (QRelease n w pc)
  show ?thesis
  proof (cases "pc = PushDone")
    case True
    then have "g' = g" using st QRelease by (auto simp: MPMCLifoQueue_step_def)
    then show ?thesis by (simp add: lq_effect_same)
  next
    case False
    then obtain m pc' where s: "Lifo_Push_step n (free_list g) pc = Some (m, pc')" and g': "g' = with_free_list g m"
      using list_step_cases(4) [OF st QRelease] by blast
    have "own_node alloc g t n" using QRelease False by (simp add: own_node_def)
    then have "lnext m a = node_next g a" if "\<not> own_node alloc g t a" for a
      using lifo_push_effect(2) [OF s, of a] that by (cases "a = n") auto
    then show ?thesis using lifo_push_effect(1) [OF s] by (simp add: lq_effect_def g' list_effect_relink)
  qed
qed

text \<open>The steps of other threads.\<close>

lemma lq_pc_stable:
  assumes gi: "lq_gi alloc g" "lq_gi alloc g'" and ok: "lq_pc_ok g p" and eff: "lq_effect alloc g t g'"
    and mine: "\<And>a. pc_node a p > 0 \<Longrightarrow> \<not> own_node alloc g t a"
    and listed: "\<And>a. a \<in> set (stack_of (queue_list g)) \<or> a \<in> set (stack_of (free_list g)) \<Longrightarrow> \<not> own_node alloc g t a"
  shows "lq_pc_ok g' p"
proof -
  have links: "node_next g' a = node_next g a" and stor: "node_storage g' a = node_storage g a"
    if "pc_node a p > 0" for a
    using eff mine [OF that] by (simp_all add: lq_effect_def)
  have in_lists: "node_next g' a = node_next g a"
    if "a \<in> set (stack_of (queue_list g)) \<or> a \<in> set (stack_of (free_list g))" for a
    using eff listed [OF that] by (simp add: lq_effect_def)
  have q: "list_effect (queue_list g) (queue_list g')" and f: "list_effect (free_list g) (free_list g')"
    using eff by (simp_all add: lq_effect_def)
  note queue = lifo_pc_ok_stable [OF lq_giD(1) [OF gi(1)] lq_giD(1) [OF gi(2)] _ q]
    and free = lifo_pc_ok_stable [OF lq_giD(2) [OF gi(1)] lq_giD(2) [OF gi(2)] _ f]
  show ?thesis
  proof (cases p)
    case (QPopFree w pc)
    have "lifo_pc_ok (free_list g') (LPopping pc)"
      by (rule free) (use ok links in_lists QPopFree in \<open>simp_all del: lifo_pc_ok.simps lifo_pc_tok.simps\<close>)
    then show ?thesis using ok stor QPopFree by (auto simp del: lifo_pc_ok.simps)
  next
    case (QLink n pc)
    have "lifo_pc_ok (queue_list g') (LPushing n pc)"
      by (rule queue) (use ok links in_lists QLink in \<open>simp_all del: lifo_pc_ok.simps lifo_pc_tok.simps\<close>)
    then show ?thesis using ok stor QLink by (auto simp del: lifo_pc_ok.simps)
  next
    case (QTake pc)
    have "lifo_pc_ok (queue_list g') (LPopping pc)"
      by (rule queue) (use ok links in_lists QTake in \<open>simp_all del: lifo_pc_ok.simps lifo_pc_tok.simps\<close>)
    then show ?thesis using ok stor QTake by (auto simp del: lifo_pc_ok.simps)
  next
    case (QRelease n w pc)
    have "lifo_pc_ok (free_list g') (LPushing n pc)"
      by (rule free) (use ok links in_lists QRelease in \<open>simp_all del: lifo_pc_ok.simps lifo_pc_tok.simps\<close>)
    then show ?thesis using ok stor QRelease by (auto simp del: lifo_pc_ok.simps)
  qed (use ok stor in auto)
qed

lemma lq_stable:
  assumes inv: "lq_run_inv alloc n g" and ti: "lq_ti g t" "lq_ti g u"
    and le: "\<And>k. lq_gtok alloc k g + lq_ltok k t + lq_ltok k u \<le> lq_cap n pushes k"
    and st: "MPMCLifoQueue_step alloc g t = Some (g', t')"
  shows "lq_ti g' u"
proof -
  have gi: "lq_gi alloc g" and new: "new_nodes alloc" and n: "n < 2 ^ 16" using inv by (auto simp: lq_run_inv_def)
  have le1: "lq_gtok alloc k g + lq_ltok k t \<le> lq_cap n pushes k" for k using le [of k] by simp
  have gi': "lq_gi alloc g'" using lq_own [OF inv ti(1) le1 st] by blast
  have few: "allocated g < 2 ^ 16" if "qpc t = QNew v" for v using le [of FreeUpdates] n that by simp
  note eff = lq_step_effect [OF gi new few st]
  have one: "count_list (stack_of (queue_list g)) a + count_list (stack_of (free_list g)) a
      + of_bool (a \<notin> set (nodes_upto alloc (allocated g))) + pc_node a (qpc t) + pc_node a (qpc u) \<le> 1" for a
    using le [of "QNode a"] by (simp del: pc_node.simps)
  have mine: "\<not> own_node alloc g t a" if "pc_node a (qpc u) > 0" for a
    using one [of a] that by (cases "a \<in> set (nodes_upto alloc (allocated g))") (auto simp: own_node_def)
  have listed: "\<not> own_node alloc g t a" if "a \<in> set (stack_of (queue_list g)) \<or> a \<in> set (stack_of (free_list g))" for a
    using one [of a] that count_list_set [of "stack_of (queue_list g)" a] count_list_set [of "stack_of (free_list g)" a]
    by (cases "a \<in> set (nodes_upto alloc (allocated g))") (auto simp: own_node_def)
  show ?thesis unfolding lq_ti_def
    by (rule lq_pc_stable [OF gi gi' _ eff mine listed]) (use ti(2) in \<open>simp_all add: lq_ti_def\<close>)
qed

interpretation lq: token_protocol "MPMCLifoQueue_step alloc" "lq_run_inv alloc n" lq_ti "lq_gtok alloc" lq_ltok
  "lq_cap n pushes" for alloc n and pushes :: "'a \<Rightarrow> nat"
proof unfold_locales
  fix g :: "'a lq_mem" and t u :: "'a lq_thread" and g' t'
  show "lq_run_inv alloc n g' \<and> lq_ti g' t' \<and> (\<forall>k. lq_gtok alloc k g' + lq_ltok k t' = lq_gtok alloc k g + lq_ltok k t)"
    if "lq_run_inv alloc n g" "lq_ti g t" "\<And>k. lq_gtok alloc k g + lq_ltok k t \<le> lq_cap n pushes k"
      "MPMCLifoQueue_step alloc g t = Some (g', t')"
    using lq_own [OF that] that(1) by (simp add: lq_run_inv_def)
  show "lq_ti g' u"
    if "lq_run_inv alloc n g" "lq_ti g t" "lq_ti g u"
      "\<And>k. lq_gtok alloc k g + lq_ltok k t + lq_ltok k u \<le> lq_cap n pushes k"
      "MPMCLifoQueue_step alloc g t = Some (g', t')" using that by (rule lq_stable)
qed

section \<open>Reachable states\<close>

definition pushed :: "'a \<Rightarrow> 'a lq_op list list \<Rightarrow> nat" where
  "pushed v scripts = sum_list (map (\<lambda>ops. count_list ops (QPush v)) scripts)"

definition at_rest :: "'a lq_thread list \<Rightarrow> bool" where
  "at_rest ts \<longleftrightarrow> list_all (\<lambda>t. qpc t = QIdle) ts"

lemma lq_start:
  fixes scripts :: "'a lq_op list list"
  assumes "new_nodes alloc" and "sum_list (map length scripts) < 2 ^ 16"
  shows "lq_run_inv alloc (sum_list (map length scripts)) (MPMCLifoQueue_init nx :: 'a lq_mem)"
    and "\<forall>t \<in> set (map lq_thread_init scripts). lq_ti (MPMCLifoQueue_init nx) t"
    and "lq_gtok alloc k (MPMCLifoQueue_init nx) + sum_list (map (lq_ltok k) (map lq_thread_init scripts))
      = lq_cap (sum_list (map length scripts)) (\<lambda>v. pushed v scripts) k"
proof -
  have l: "stack_of (queue_list (MPMCLifoQueue_init nx :: 'a lq_mem)) = []"
      "stack_of (free_list (MPMCLifoQueue_init nx :: 'a lq_mem)) = []"
      "updates (queue_list (MPMCLifoQueue_init nx :: 'a lq_mem)) = 0" "updates (free_list (MPMCLifoQueue_init nx :: 'a lq_mem)) = 0"
    by (simp_all add: MPMCLifoQueue_init_def queue_list_def free_list_def stack_of_def updates_def)
  have "lifo_gi (queue_list (MPMCLifoQueue_init nx :: 'a lq_mem))" "lifo_gi (free_list (MPMCLifoQueue_init nx :: 'a lq_mem))"
    using l by (simp_all add: MPMCLifoQueue_init_def queue_list_def free_list_def lifo_gi_def version_def)
  then show "lq_run_inv alloc (sum_list (map length scripts)) (MPMCLifoQueue_init nx :: 'a lq_mem)"
    using assms l by (simp add: lq_run_inv_def lq_gi_def) (simp add: MPMCLifoQueue_init_def)
  show "\<forall>t \<in> set (map lq_thread_init scripts). lq_ti (MPMCLifoQueue_init nx) t"
    by (auto simp: lq_ti_def lq_thread_init_def)
  have a: "allocated (MPMCLifoQueue_init nx :: 'a lq_mem) = 0" by (simp add: MPMCLifoQueue_init_def)
  show "lq_gtok alloc k (MPMCLifoQueue_init nx) + sum_list (map (lq_ltok k) (map lq_thread_init scripts))
      = lq_cap (sum_list (map length scripts)) (\<lambda>v. pushed v scripts) k"
    by (cases k) (simp_all add: l a nodes_upto_def values_in_def lq_thread_init_def to_push_def taken_def missed_def pushed_def o_def)
qed

lemma lq_executes:
  fixes scripts :: "'a lq_op list list"
  assumes new: "new_nodes alloc" and few: "sum_list (map length scripts) < 2 ^ 16"
    and ex: "executes (MPMCLifoQueue_step alloc) (MPMCLifoQueue_init nx, map lq_thread_init scripts) (g, ts)"
  shows "lq_gi alloc g" and "allocated g < 2 ^ 16"
    and "count_list (stack_of (queue_list g)) a + count_list (stack_of (free_list g)) a
        + of_bool (a \<notin> set (nodes_upto alloc (allocated g))) + sum_list (map (\<lambda>t. pc_node a (qpc t)) ts) = 1"
    and "values_in alloc v g + sum_list (map (\<lambda>t. to_push v t + pc_value v (qpc t) + taken v t) ts) = pushed v scripts"
proof -
  note inv = lq.executes_protocol [OF ex lq_start(1,2) [OF new few] lq_start(3) [OF new few]]
  show "lq_gi alloc g" using inv by (simp add: lq_run_inv_def)
  have t: "lq_gtok alloc k g + sum_list (map (lq_ltok k) ts)
      = lq_cap (sum_list (map length scripts)) (\<lambda>v. pushed v scripts) k" for k using inv by blast
  show "allocated g < 2 ^ 16" using t [of FreeUpdates] few by simp
  have "lq_ltok (QNode a) = (\<lambda>t :: 'a lq_thread. pc_node a (qpc t))" for a by (rule ext) simp
  then show "count_list (stack_of (queue_list g)) a + count_list (stack_of (free_list g)) a
      + of_bool (a \<notin> set (nodes_upto alloc (allocated g))) + sum_list (map (\<lambda>t. pc_node a (qpc t)) ts) = 1"
    using t [of "QNode a"] by (simp del: pc_node.simps)
  have "lq_ltok (QVal v) = (\<lambda>t. to_push v t + pc_value v (qpc t) + taken v t)" for v :: 'a by (rule ext) simp
  then show "values_in alloc v g + sum_list (map (\<lambda>t. to_push v t + pc_value v (qpc t) + taken v t) ts) = pushed v scripts"
    using t [of "QVal v"] by simp
qed

lemma stored_at_rest:
  assumes gi: "lq_gi alloc g" and new: "new_nodes alloc" and few: "allocated g < 2 ^ 16"
    and nodes: "\<And>a. count_list (stack_of (queue_list g)) a + count_list (stack_of (free_list g)) a
        + of_bool (a \<notin> set (nodes_upto alloc (allocated g))) = 1"
  shows "values_in alloc v g = length (filter (\<lambda>n. node_storage g n = Some v) (stack_of (queue_list g)))"
    and "node_storage g a \<noteq> None \<Longrightarrow> a \<in> set (stack_of (queue_list g))"
proof -
  have "count_list (stack_of (queue_list g)) a \<le> 1" for a using nodes [of a] by linarith
  then have d: "distinct (stack_of (queue_list g))" by (rule distinct_if_counts)
  have n: "distinct (nodes_upto alloc (allocated g))" by (rule nodes_upto_distinct [OF new]) (use few in simp)
  have q: "a \<in> set (stack_of (queue_list g)) \<and> a \<in> set (nodes_upto alloc (allocated g))"
    if "node_storage g a \<noteq> None" for a
  proof -
    have "a \<in> set (nodes_upto alloc (allocated g))" "a \<notin> set (stack_of (free_list g))"
      using lq_giD(4,5) [OF gi, of a] that by auto
    then show ?thesis using nodes [of a] count_list_set [of "stack_of (queue_list g)" a]
        count_list_set [of "stack_of (free_list g)" a] by auto
  qed
  then show "node_storage g a \<noteq> None \<Longrightarrow> a \<in> set (stack_of (queue_list g))" by blast
  have sub: "a \<in> set (nodes_upto alloc (allocated g))" if "a \<in> set (stack_of (queue_list g))" for a
    using q lq_giD(3) [OF gi that] by blast
  have "set (filter (\<lambda>n. node_storage g n = Some v) (nodes_upto alloc (allocated g)))
      = set (filter (\<lambda>n. node_storage g n = Some v) (stack_of (queue_list g)))" using q sub by auto
  then show "values_in alloc v g = length (filter (\<lambda>n. node_storage g n = Some v) (stack_of (queue_list g)))"
    unfolding values_in_def by (metis d n distinct_card distinct_filter)
qed

text \<open>The destructor, on a list at rest.\<close>

lemma lifo_pop_at_rest:
  assumes "lifo_at_rest g xs"
  shows "\<exists>g'. run_to_end Lifo_Pop_step 3 (g, PopLoad) = Some (g', PopDone (case xs of [] \<Rightarrow> 0 | x # _ \<Rightarrow> x))
    \<and> lifo_at_rest g' (drop 1 xs) \<and> lnext g' = lnext g"
proof (cases xs)
  case Nil
  then show ?thesis using assms
    by (simp add: eval_nat_numeral lifo_at_rest_def read_root_def)
next
  case (Cons x ys)
  have x: "root_ptr (mRoot g) = x" "x \<noteq> 0" and l: "wlist (lnext g) (lnext g x) ys"
    and ok: "list_all node_addr ys" using assms Cons by (auto simp: lifo_at_rest_def)
  have fx: "fits MPMC_PTR_MASK (lnext g x)" using l ok by (cases ys) (auto simp: node_addr_def)
  show ?thesis using x l ok
    by (simp add: eval_nat_numeral AtomicCompareAndSwap_if Let_def lifo_at_rest_def read_root_def
        root_word [OF fx] Cons)
qed

lemma destroy_at_rest:
  "lifo_at_rest (queue_list g) xs \<Longrightarrow> \<exists>g'. MPMCLifoQueue_destroy g = Some g' \<and>
     node_storage g' = (\<lambda>a. if a \<in> set xs then None else node_storage g a)"
proof (induction xs arbitrary: g)
  case Nil
  then obtain m where "run_to_end Lifo_Pop_step 3 (queue_list g, PopLoad) = Some (m, PopDone 0)"
    using lifo_pop_at_rest [OF Nil] by auto
  then show ?case by (subst MPMCLifoQueue_destroy.simps) simp
next
  case (Cons x xs)
  then have x: "x \<noteq> 0" by (simp add: lifo_at_rest_def)
  obtain m where m: "run_to_end Lifo_Pop_step 3 (queue_list g, PopLoad) = Some (m, PopDone x)" "lifo_at_rest m xs"
    using lifo_pop_at_rest [OF Cons.prems] by auto
  let ?g = "(with_queue_list g m)\<lparr>node_storage := (node_storage (with_queue_list g m))(x := None)\<rparr>"
  have "lifo_at_rest (queue_list ?g) xs" using m(2) by simp
  from Cons.IH [OF this] obtain g' where g': "MPMCLifoQueue_destroy ?g = Some g'"
      "node_storage g' = (\<lambda>a. if a \<in> set xs then None else node_storage ?g a)" by blast
  have "MPMCLifoQueue_destroy g = Some g'"
    using m(1) x g'(1) by (subst MPMCLifoQueue_destroy.simps) (simp add: Let_def)
  then show ?case using g'(2) by (auto simp: fun_upd_apply fun_eq_iff)
qed

text \<open>Claim C29.
  Any threads push and try to pop, with fewer than \<open>2 ^ 16\<close> calls in all, in any interleaving of the
  accesses of the two lists, whose nodes wander between them.  Either list is a stack all the time, the
  links from its root visit its nodes, no node is in both or twice in one, the nodes of the queue hold
  constructed values and the free ones none; every value pushed is still to be pushed, stored or popped, as
  often as it was pushed.  When no call is running, what is stored is what the queue holds, and the destructor
  ends and has destroyed all of it.\<close>

theorem lifo_queue_conserves:
  assumes "new_nodes alloc" and "sum_list (map length scripts) < 2 ^ 16"
    and "executes (MPMCLifoQueue_step alloc) (MPMCLifoQueue_init nx, map lq_thread_init scripts) (g, ts)"
  shows "\<exists>queue free. replay (queue_history g) = Some queue \<and> wlist (node_next g) (root_ptr (mQueueNodes g)) queue
    \<and> replay (free_history g) = Some free \<and> wlist (node_next g) (root_ptr (mFreeNodes g)) free
    \<and> distinct (queue @ free)
    \<and> list_all (\<lambda>n. node_storage g n \<noteq> None) queue \<and> list_all (\<lambda>n. node_storage g n = None) free
    \<and> (\<forall>v. values_in alloc v g + sum_list (map (\<lambda>t. to_push v t + pc_value v (qpc t) + taken v t) ts) = pushed v scripts)
    \<and> (at_rest ts \<longrightarrow> (\<forall>v. values_in alloc v g = length (filter (\<lambda>n. node_storage g n = Some v) queue))
         \<and> (\<exists>g'. MPMCLifoQueue_destroy g = Some g' \<and> (\<forall>n. node_storage g' n = None)))"
proof -
  note inv = lq_executes [OF assms]
  let ?q = "stack_of (queue_list g)" and ?f = "stack_of (free_list g)"
  note gi = lq_giD [OF inv(1)]
  have "count_list (?q @ ?f) a \<le> 1" for a using inv(3) [of a] unfolding count_list_append by linarith
  then have d: "distinct (?q @ ?f)" by (rule distinct_if_counts)
  have lists: "replay (queue_history g) = Some ?q" "wlist (node_next g) (root_ptr (mQueueNodes g)) ?q"
      "replay (free_history g) = Some ?f" "wlist (node_next g) (root_ptr (mFreeNodes g)) ?f"
    using gi(1,2) by (simp_all add: lifo_gi_def queue_list_def free_list_def)
  have rest: "(\<forall>v. values_in alloc v g = length (filter (\<lambda>n. node_storage g n = Some v) ?q))
      \<and> (\<exists>g'. MPMCLifoQueue_destroy g = Some g' \<and> (\<forall>n. node_storage g' n = None))" if "at_rest ts"
  proof -
    have z: "sum_list (map (\<lambda>t. pc_node a (qpc t)) ts) = 0" for a
      using that by (simp add: at_rest_def list_all_iff sum_list_eq_0_iff)
    have nodes: "count_list ?q a + count_list ?f a + of_bool (a \<notin> set (nodes_upto alloc (allocated g))) = 1" for a
      using inv(3) [of a] z [of a] by linarith
    note st = stored_at_rest [OF inv(1) assms(1) inv(2) nodes]
    have "lifo_at_rest (queue_list g) ?q" using gi(1) by (simp add: lifo_gi_def lifo_at_rest_def)
    from destroy_at_rest [OF this] show ?thesis using st by fastforce
  qed
  show ?thesis
    by (rule exI [of _ ?q], rule exI [of _ ?f], intro conjI impI)
      (use lists d gi(3,4) inv(4) rest in \<open>simp_all add: list_all_iff\<close>)
qed

text \<open>Two pushes, of which one uses the node of a pop again.\<close>

definition spaced :: "nat \<Rightarrow> addr" where
  "spaced i = of_nat (16 * (i + 1))"

lemma fits_small: "unat p < 2 ^ 48 \<Longrightarrow> fits MPMC_PTR_MASK p"
proof -
  assume "unat p < 2 ^ 48"
  then have "take_bit 48 p = p" by (simp add: word_unat_eq_iff unsigned_take_bit_eq take_bit_nat_eq_self)
  then have "bit p k \<Longrightarrow> k < 48" for k by (metis bit_take_bit_iff)
  moreover have m: "MPMC_PTR_MASK = mask 48" by (simp add: MPMC_PTR_MASK_def mask_eq_exp_minus_1)
  ultimately show ?thesis unfolding fits_bit m by (auto simp: bit_mask_iff)
qed

lemma unat_of_small_nat: "n < 2 ^ 64 \<Longrightarrow> unat (of_nat n :: u64) = n"
  by (simp add: unat_of_nat)

lemma spaced_nodes: "new_nodes spaced"
proof -
  have u: "unat (spaced i) = 16 * (i + 1)" if "i < 2 ^ 16" for i
  proof -
    have "16 * (i + 1) < 2 ^ 64" using that by simp
    then show ?thesis unfolding spaced_def by (rule unat_of_small_nat)
  qed
  have "inj_on spaced {..<2 ^ 16}"
  proof (rule inj_onI)
    fix i j :: nat
    assume a: "i \<in> {..<2 ^ 16}" "j \<in> {..<2 ^ 16}" "spaced i = spaced j"
    then have "16 * (i + 1) = 16 * (j + 1)" using u [of i] u [of j] by (metis lessThan_iff)
    then show "i = j" by simp
  qed
  moreover have "node_addr (spaced i)" if "i < 2 ^ 16" for i
  proof -
    have "unat (spaced i) < 2 ^ 48" "unat (spaced i) \<noteq> 0" using u [OF that] that by simp_all
    then show ?thesis using fits_small by (auto simp: node_addr_def)
  qed
  ultimately show ?thesis by (simp add: new_nodes_def)
qed

lemmas lq_eval = MPMCLifoQueue_step_def MPMCLifoQueue_init_def lq_thread_init_def in_list_def queue_list_def
  free_list_def with_queue_list_def with_free_list_def spaced_def

theorem lifo_queue_conserves_witness:
  "\<exists>g ts g'. run_sched (MPMCLifoQueue_step spaced) ([0,0,0,0,0,0,0,0,0,0,0] @ [1,1,1,1,1,1,1,1,1,1] @ [0,0,0,0,0,0,0,0,0,0,0])
       (MPMCLifoQueue_init (\<lambda>_. 0), map lq_thread_init [[QPush (7 :: nat), QPush 8], [QTryPop]]) = Some (g, ts)
     \<and> values_in spaced 8 g = 1 \<and> map qresults ts = [[], [(None, Some 7)]]
     \<and> MPMCLifoQueue_destroy g = Some g' \<and> node_storage g' 16 = None"
proof -
  let ?ops = "[[QPush (7 :: nat), QPush 8], [QTryPop]]"
  obtain g ts where run: "run_sched (MPMCLifoQueue_step spaced) ([0,0,0,0,0,0,0,0,0,0,0] @ [1,1,1,1,1,1,1,1,1,1] @ [0,0,0,0,0,0,0,0,0,0,0])
      (MPMCLifoQueue_init (\<lambda>_. 0), map lq_thread_init ?ops) = Some (g, ts)"
    and r: "queue_history g = [Pushed 16, Popped 16, Pushed 16]" "node_storage g 16 = Some 8" "map qpc ts = [QIdle, QIdle]"
      "map qresults ts = [[], [(None, Some 7)]]"
    by (simp add: lq_eval AtomicCompareAndSwap_if read_root_def mpmc_layout_defs Let_def)
  have "sum_list (map length ?ops) < 2 ^ 16" by simp
  from lifo_queue_conserves [OF spaced_nodes this run_sched_executes [OF run]] obtain queue g' where
    q: "replay (queue_history g) = Some queue" and
    rest: "at_rest ts \<longrightarrow> (\<forall>v. values_in spaced v g = length (filter (\<lambda>n. node_storage g n = Some v) queue))
         \<and> (\<exists>g'. MPMCLifoQueue_destroy g = Some g' \<and> (\<forall>n. node_storage g' n = None))" by blast
  have "queue = [16]" using q r(1) by simp
  moreover have "at_rest ts" using r(3) by (auto simp: at_rest_def list_all_iff map_eq_Cons_conv)
  ultimately show ?thesis using rest run r(2,4) by auto
qed

text \<open>No call of \<^verbatim>\<open>TryPop\<close> ever returns true: it returns false when it finds the queue empty, and control
  runs off its end when it has taken a value.\<close>

definition never_true :: "'a lq_thread \<Rightarrow> bool" where
  "never_true t \<longleftrightarrow> (\<forall>r \<in> set (qresults t). r = (Some False, None) \<or> fst r = None)"

lemma Queue_TryPop_results:
  "Queue_TryPop_step g t pc = Some (g', t') \<Longrightarrow> never_true t \<Longrightarrow> never_true t'"
  by (cases "(g, t, pc)" rule: Queue_TryPop_step.cases)
    (auto simp: never_true_def in_list_def split: option.splits if_splits simp del: Lifo_Pop_step.simps Lifo_Push_step.simps)

lemma Queue_Push_results:
  "Queue_Push_step alloc g t pc = Some (g', t') \<Longrightarrow> never_true t \<Longrightarrow> never_true t'"
  by (cases "(alloc, g, t, pc)" rule: Queue_Push_step.cases)
    (auto simp: never_true_def in_list_def Let_def simp del: Lifo_Pop_step.simps Lifo_Push_step.simps)

lemma lq_step_results: "never_true t \<Longrightarrow> MPMCLifoQueue_step alloc g t = Some (g', t') \<Longrightarrow> never_true t'"
proof -
  assume n: "never_true t" and st: "MPMCLifoQueue_step alloc g t = Some (g', t')"
  show ?thesis
  proof (cases "qpc t")
    case QIdle
    then show ?thesis using n st by (auto simp: MPMCLifoQueue_step_def never_true_def split: list.splits lq_op.splits)
  qed (use n st Queue_TryPop_results Queue_Push_results in
      \<open>simp add: MPMCLifoQueue_step_def del: Queue_TryPop_step.simps Queue_Push_step.simps; blast\<close>)+
qed

theorem lifo_queue_never_true:
  "\<not> (\<exists>scripts nx g ts. executes (MPMCLifoQueue_step alloc) (MPMCLifoQueue_init nx, map lq_thread_init scripts) (g, ts)
        \<and> (\<exists>t \<in> set ts. \<exists>r \<in> set (qresults t). fst r = Some True \<or> fst r = Some False \<and> snd r \<noteq> None))"
proof clarify
  fix scripts :: "'a lq_op list list" and nx and g :: "'a lq_mem" and ts t r v
  assume ex: "executes (MPMCLifoQueue_step alloc) (MPMCLifoQueue_init nx, map lq_thread_init scripts) (g, ts)"
    and t: "t \<in> set ts" and r: "(r, v) \<in> set (qresults t)"
    and bad: "fst (r, v) = Some True \<or> fst (r, v) = Some False \<and> snd (r, v) \<noteq> None"
  obtain i where i: "i < length ts" "ts ! i = t" using t by (auto simp: in_set_conv_nth)
  have len: "length ts = length scripts" using executes_length [OF ex] by simp
  have "never_true (ts ! i)"
    using executes_thread_invariant [of never_true, OF lq_step_results ex] i(1) len
    by (simp add: lq_thread_init_def never_true_def)
  then show False using i r bad by (auto simp: never_true_def)
qed

end
