(* ===== verification/Meta_Context.thy ===== *)
theory Meta_Context
  imports Wait_Functions Processors
begin

text \<open>
  The context of a thread in the meta scheduler (\<^verbatim>\<open>ContextImpl\<close> in meta_scheduler.cpp), where it joins
  other parts: its \<^verbatim>\<open>WaitFor\<close>, which uses one waiter and one semaphore for every wait of the thread, the
  choice of the global \<^verbatim>\<open>WaitFor\<close> between it and a semaphore of the call's own, and the processor affinity
  that \<^verbatim>\<open>Run\<close> gives the thread while it runs.
\<close>

section \<open>Waiting with the waiter of the context\<close>

text \<open>The constructor's semaphore and waiter, which has index 0.  A call starts with the waiter unused;
  after a refused \<^verbatim>\<open>AddWaiter\<close> the waiter is with no waitable, which is \<open>Destroyed\<close> here as for
  \<^verbatim>\<open>WaitForImpl\<close>, but it is kept for the next call.\<close>

definition ContextImpl_init :: wait_mem where
  "ContextImpl_init = \<lparr>status = (\<lambda>_. Unused), posts = 0\<rparr>"

definition Context_WaitFor_step :: "bool \<Rightarrow> wait_mem \<Rightarrow> for_pc \<Rightarrow> (wait_mem \<times> for_pc) option" where
  "Context_WaitFor_step accepted m pc =
     (if pc = ForReturn then Some (set_status 0 Unused m, ForAdd) else WaitFor_step accepted m pc)"

text \<open>Where a call of the global \<^verbatim>\<open>WaitFor\<close> starts.\<close>

definition WaitFor_start :: "wait_mem option \<Rightarrow> wait_mem \<times> for_pc" where
  "WaitFor_start tCurrentContext =
     (case tCurrentContext of Some m \<Rightarrow> (set_status 0 Unused m, ForAdd) | None \<Rightarrow> (for_init, ForAdd))"

interpretation wc: wait_function Context_WaitFor_step for_inv
proof unfold_locales
  fix m pc accepted m' pc'
  assume "for_inv m pc" "Context_WaitFor_step accepted m pc = Some (m', pc')"
  then show "for_inv m' pc'"
    using wf.own_inv [of m pc accepted m' pc'] by (auto simp: Context_WaitFor_step_def fun_upd_apply split: if_splits)
next
  fix m pc i
  assume "for_inv m pc" "status m i = Registered"
  then show "for_inv (set_status i InFlight m) pc" by (rule wf.signal_inv)
next
  fix m pc i
  assume "for_inv m pc" "status m i = InFlight"
  then show "for_inv (poster (set_status i Called m)) pc" by (rule wf.callback_inv)
qed

text \<open>A context can wait any number of times with its one waiter and one semaphore: whenever a call starts,
  the waiter is with no waitable, nobody is about to call it and the semaphore is at 0, as it would be
  for a call with a semaphore of its own; whenever a call returns, its waitable refused the waiter or
  has called it; and a call that has not returned can go on or waits for its waitable.\<close>

theorem context_waits_again:
  assumes "rtranclp (wait_step Context_WaitFor_step) (ContextImpl_init, ForAdd) (m, pc)"
  shows "(pc = ForAdd \<longrightarrow> (m, pc) = WaitFor_start None)
    \<and> (pc = ForReturn \<longrightarrow> posts m = 0 \<and> (status m 0 = Destroyed \<or> status m 0 = Called)
         \<and> WaitFor_start (Some m) = WaitFor_start None)
    \<and> (Context_WaitFor_step accepted m pc \<noteq> None \<or> status m 0 = Registered \<or> status m 0 = InFlight)"
proof -
  have inv: "for_inv m pc" by (rule wc.reachable [OF assms]) (simp add: ContextImpl_init_def)
  show ?thesis
  proof (cases pc)
    case ForAdd
    thus ?thesis using inv
      by (cases m) (auto simp: WaitFor_start_def for_init_def Context_WaitFor_step_def)
  next
    case ForSpin
    thus ?thesis using inv by (auto simp: Context_WaitFor_step_def live_def Linux_Sem_Wait_def)
  next
    case ForReturn
    have "(status m)(0 := Unused) = (\<lambda>_. Unused)" using inv ForReturn by (auto simp: fun_eq_iff fun_upd_apply)
    thus ?thesis using inv ForReturn
      by (cases m) (auto simp: WaitFor_start_def for_init_def Context_WaitFor_step_def)
  qed
qed

text \<open>One wait that is called back and one that is refused.\<close>

theorem context_waits_again_witness:
  "\<exists>m. rtranclp (wait_step Context_WaitFor_step) (ContextImpl_init, ForAdd) (m, ForReturn)
     \<and> posts m = 0 \<and> status m 0 = Destroyed \<and> WaitFor_start (Some m) = WaitFor_start None"
proof -
  obtain m where run: "run_wait Context_WaitFor_step [Inl True, Inr 0, Inr 0, Inl True, Inl True, Inl False]
      (ContextImpl_init, ForAdd) = Some (m, ForReturn)" and s: "status m 0 = Destroyed"
    by (simp add: ContextImpl_init_def Context_WaitFor_step_def waitable_next_def poster_def Linux_Sem_Wait_def
          Linux_Sem_Post_def)
  note r = run_wait_reaches [OF run]
  show ?thesis using context_waits_again [OF r] r s by blast
qed

section \<open>The affinity of a running meta thread\<close>

text \<open>The empty affinity of a meta thread leaves the thread as it is; \<open>oldAffinity\<close> stays empty then.\<close>

definition Run_enter_affinity :: "sched \<Rightarrow> affinity \<Rightarrow> cpu_set \<Rightarrow> affinity_error + affinity \<times> cpu_set" where
  "Run_enter_affinity sched metaAffinity s =
     (if \<not> Affinity_IsEmpty metaAffinity then SetThreadAffinity sched metaAffinity s else Inr (0, s))"

definition Run_leave_affinity :: "sched \<Rightarrow> affinity \<Rightarrow> cpu_set \<Rightarrow> affinity_error + cpu_set" where
  "Run_leave_affinity sched oldAffinity s =
     (if \<not> Affinity_IsEmpty oldAffinity
      then (case SetThreadAffinity sched oldAffinity s of Inl e \<Rightarrow> Inl e | Inr (_, s') \<Rightarrow> Inr s') else Inr s)"

lemma CreateCpuSet_high: "drop_bit 32 (CreateCpuSet a AND online) = 0"
  by (rule bit_eqI) (auto simp: bit_drop_bit_eq bit_and_iff bit_CreateCpuSet dest: u32_bit_less)

lemma SetThreadAffinity_kernel:
  assumes "drop_bit 32 s = 0" "s \<noteq> 0" "CreateCpuSet a AND online \<noteq> 0"
  shows "SetThreadAffinity (kernel_sched online) a s = Inr (ucast s, CreateCpuSet a AND online)"
  using assms(3)
  by (simp add: SetThreadAffinity_def GetProcessAffinity_def SetProcessAffinity_def kernel_sched_def
        CreateCpuSet_ucast [OF assms(1,2)])

text \<open>A thread that runs as a meta thread gets its affinity back: if the meta thread's affinity is empty or
  names some processor that is online, \<^verbatim>\<open>Run\<close> binds the thread to those of them that are, and its end
  restores the mask that the thread had.\<close>

theorem run_restores_affinity:
  assumes mask: "drop_bit 32 s = 0" "s AND online = s" "s \<noteq> 0"
    and runnable: "metaAffinity = 0 \<or> CreateCpuSet metaAffinity AND online \<noteq> 0"
  shows "\<exists>old s1. Run_enter_affinity (kernel_sched online) metaAffinity s = Inr (old, s1)
     \<and> s1 = (if metaAffinity = 0 then s else CreateCpuSet metaAffinity AND online)
     \<and> Run_leave_affinity (kernel_sched online) old s1 = Inr s"
proof (cases "metaAffinity = 0")
  case True
  thus ?thesis by (simp add: Run_enter_affinity_def Run_leave_affinity_def Affinity_IsEmpty_def)
next
  case False
  let ?s1 = "CreateCpuSet metaAffinity AND online"
  have ne: "?s1 \<noteq> 0" using runnable False by simp
  have again: "CreateCpuSet (ucast s) AND online = s" by (simp add: CreateCpuSet_ucast [OF mask(1,3)] mask(2))
  have old: "ucast s \<noteq> (0 :: u32)"
  proof
    assume z: "ucast s = (0 :: u32)"
    have "s = CreateCpuSet 0" using CreateCpuSet_ucast(1) [OF mask(1,3)] z by simp
    hence "bit s 0" by (simp add: bit_CreateCpuSet)
    hence "bit (ucast s :: u32) 0" by (simp add: bit_ucast_iff)
    thus False using z by simp
  qed
  show ?thesis
    using SetThreadAffinity_kernel [OF mask(1,3) ne] SetThreadAffinity_kernel [OF CreateCpuSet_high ne, of "ucast s"]
    by (simp add: Run_enter_affinity_def Run_leave_affinity_def Affinity_IsEmpty_def False old again mask(3))
qed

theorem run_restores_affinity_witness:
  "\<exists>old s1. Run_enter_affinity (kernel_sched 15) 2 3 = Inr (old, s1)
     \<and> s1 = CreateCpuSet 2 AND 15 \<and> Run_leave_affinity (kernel_sched 15) old s1 = Inr 3"
proof -
  have "CreateCpuSet 2 AND 15 \<noteq> 0"
  proof
    assume "CreateCpuSet 2 AND 15 = 0"
    hence "\<not> bit (CreateCpuSet 2 AND 15) 1" by simp
    thus False by (simp add: bit_and_iff bit_CreateCpuSet)
  qed
  thus ?thesis using run_restores_affinity [of 3 15 2] by (simp add: drop_bit_eq_div)
qed

end
