(* ===== verification/Future_Event.thy ===== *)
theory Future_Event
  imports Event Future
begin

text \<open>
  The shared data of a future over the event it inherits (detail/future_data.hpp, event.cpp,
  waitable.hpp): the calls of theory Future, with \<^verbatim>\<open>Event::Set\<close>, \<^verbatim>\<open>Event::AddWaiter\<close> and the waiter
  list run one shared access at a time by the machines of theory Event.

  A thread that waits creates a waiter whose callback posts the semaphore of that wait; the waiter is
  destroyed by whoever notifies it (\<^verbatim>\<open>destroyOnNotify\<close>), or by its owner when \<^verbatim>\<open>AddWaiter\<close> refuses.
  Destroying it puts its block on the free list of the thread that does, which overwrites \<^verbatim>\<open>next\<close>.
  The event of a future is never reset, so a thread waits at most once and one block per thread,
  \<open>block\<close>, is enough.
\<close>

section \<open>Threads\<close>

record fe_mem =
  fe_data :: fut_mem \<comment> \<open>reference count, result and exception; its flag is not used\<close>
  fe_event :: event_mem

text \<open>The data as theory Future sees it: ready when the event is set.\<close>

definition fe_view :: "fe_mem \<Rightarrow> fut_mem" where
  "fe_view g = (fe_data g)\<lparr>eventSet := Event_IsSet (fe_event g)\<rparr>"

datatype fe_pc =
    FeIdle
  | FeDestroy
  | FeSet event_set_pc
  | FeFree addr addr \<comment> \<open>inside \<^verbatim>\<open>Notify\<close>: the callback was called, \<^verbatim>\<open>Destroy\<close> comes\<close>
  | FeAdd event_add_pc
  | FeSleep \<comment> \<open>\<^verbatim>\<open>waitSemaphore.SpinWait\<close>\<close>
  | FeRead
  | FeAssert

record fe_thread =
  fepc :: fe_pc
  fescript :: "fut_op list"
  feheld :: nat
  feresults :: "(nat + nat) list"
  block :: addr
  freeList :: addr \<comment> \<open>\<^verbatim>\<open>tWaiterFreeList\<close>\<close>

text \<open>\<^verbatim>\<open>Waiter::Free\<close>, of the waiter \<open>w\<close> by the thread \<open>t\<close>.\<close>

definition fe_free :: "addr \<Rightarrow> fe_mem \<Rightarrow> fe_thread \<Rightarrow> fe_mem \<times> fe_thread" where
  "fe_free w g t =
     (g\<lparr>fe_event := (fe_event g)\<lparr>wnext := (wnext (fe_event g))(w := freeList t)\<rparr>\<rparr>, t\<lparr>freeList := w\<rparr>)"

definition fe_set :: "fut_mem option \<Rightarrow> fe_mem \<Rightarrow> fe_thread \<Rightarrow> fe_mem \<times> fe_thread" where
  "fe_set r g t =
     (case r of None \<Rightarrow> (g, t\<lparr>fepc := FeAssert\<rparr>)
      | Some d \<Rightarrow> (g\<lparr>fe_data := d\<lparr>eventSet := eventSet (fe_data g)\<rparr>\<rparr>, t\<lparr>fepc := FeSet SetEntry\<rparr>))"

fun fe_begin :: "fut_op \<Rightarrow> fe_mem \<Rightarrow> fe_thread \<Rightarrow> fe_mem \<times> fe_thread" where
  "fe_begin CopyRef g t = (g\<lparr>fe_data := FutureData_AddRef (fe_data g)\<rparr>, t\<lparr>feheld := feheld t + 1\<rparr>)"
| "fe_begin DropRef g t =
     (case FutureData_Release (fe_data g) of
        None \<Rightarrow> (g, t\<lparr>fepc := FeAssert\<rparr>)
      | Some (d, lastRef) \<Rightarrow>
          (g\<lparr>fe_data := d\<rparr>, t\<lparr>feheld := feheld t - 1, fepc := if lastRef then FeDestroy else FeIdle\<rparr>))"
| "fe_begin (SetV v) g t = fe_set (FutureData_Set v (fe_view g)) g t"
| "fe_begin (SetE e) g t = fe_set (FutureData_SetException e (fe_view g)) g t"
| "fe_begin GetR g t = (g, t\<lparr>fepc := if Event_IsSet (fe_event g) then FeRead else FeAdd EvAddEntry\<rparr>)"

definition fe_step :: "fe_mem \<Rightarrow> fe_thread \<Rightarrow> (fe_mem \<times> fe_thread) option" where
  "fe_step g t = (case fepc t of
     FeIdle \<Rightarrow>
       (case fescript t of
          [] \<Rightarrow> None
        | op # ops \<Rightarrow> if feheld t = 0 then None else Some (fe_begin op g (t\<lparr>fescript := ops\<rparr>)))
   | FeDestroy \<Rightarrow>
       Some (g\<lparr>fe_data := (fe_data g)\<lparr>destroyed := destroyed (fe_data g) + 1\<rparr>\<rparr>, t\<lparr>fepc := FeIdle\<rparr>)
   | FeSet SetDone \<Rightarrow> Some (g, t\<lparr>fepc := FeIdle\<rparr>)
   | FeSet (SetCall current nxt) \<Rightarrow>
       map_option (\<lambda>(ev, _). (g\<lparr>fe_event := ev\<rparr>, t\<lparr>fepc := FeFree current nxt\<rparr>))
         (Event_Set_step (fe_event g) (SetCall current nxt))
   | FeSet pc \<Rightarrow>
       map_option (\<lambda>(ev, pc'). (g\<lparr>fe_event := ev\<rparr>, t\<lparr>fepc := FeSet pc'\<rparr>)) (Event_Set_step (fe_event g) pc)
   | FeFree current nxt \<Rightarrow> Some (fe_free current g (t\<lparr>fepc := FeSet (SetNotify nxt)\<rparr>))
   | FeAdd (EvAddDone added) \<Rightarrow>
       Some (if added then (g, t\<lparr>fepc := FeSleep\<rparr>) else fe_free (block t) g (t\<lparr>fepc := FeRead\<rparr>))
   | FeAdd pc \<Rightarrow>
       map_option (\<lambda>(ev, pc'). (g\<lparr>fe_event := ev\<rparr>, t\<lparr>fepc := FeAdd pc'\<rparr>))
         (Event_AddWaiter_step (block t) (fe_event g) pc)
   | FeSleep \<Rightarrow> if block t \<in> set (notified (fe_event g)) then Some (g, t\<lparr>fepc := FeRead\<rparr>) else None
   | FeRead \<Rightarrow>
       (case FutureData_Get (fe_view g) of
          None \<Rightarrow> Some (g, t\<lparr>fepc := FeAssert\<rparr>)
        | Some r \<Rightarrow> Some (g, t\<lparr>fepc := FeIdle, feresults := feresults t @ [r]\<rparr>))
   | FeAssert \<Rightarrow> None)"

text \<open>A thread with its script, the pointers it starts with and its block.\<close>

definition fe_thread_init :: "(fut_op list \<times> nat) \<times> addr \<Rightarrow> fe_thread" where
  "fe_thread_init p = \<lparr>fepc = FeIdle, fescript = fst (fst p), feheld = snd (fst p), feresults = [],
     block = snd p, freeList = 0\<rparr>"

definition fe_init :: "nat \<Rightarrow> (addr \<Rightarrow> addr) \<Rightarrow> fe_mem" where
  "fe_init refCount nx = \<lparr>fe_data = FutureData_init refCount, fe_event = Event_init False nx\<rparr>"

definition fe_runs :: "((fut_op list \<times> nat) \<times> addr) list \<Rightarrow> fe_mem \<Rightarrow> fe_thread list \<Rightarrow> bool" where
  "fe_runs ps g ts \<longleftrightarrow>
     (\<exists>nx. executes fe_step (fe_init (sum_list (map (snd \<circ> fst) ps)) nx, map fe_thread_init ps) (g, ts))"

section \<open>The event as one step\<close>

text \<open>The thread of theory Future that a thread stands for.  \<^verbatim>\<open>Set\<close> takes effect where it writes the
  flag.\<close>

fun fe_abs_pc :: "fe_pc \<Rightarrow> fut_pc" where
  "fe_abs_pc FeIdle = FIdle"
| "fe_abs_pc FeDestroy = FDestroy"
| "fe_abs_pc (FeSet SetEntry) = FSetEvent"
| "fe_abs_pc (FeSet (SetTest _)) = FSetEvent"
| "fe_abs_pc (FeSet _) = FIdle"
| "fe_abs_pc (FeFree _ _) = FIdle"
| "fe_abs_pc (FeAdd _) = FGetWait"
| "fe_abs_pc FeSleep = FGetWait"
| "fe_abs_pc FeRead = FGetRead"
| "fe_abs_pc FeAssert = FAssert"

definition fe_abs :: "fe_thread \<Rightarrow> fut_thread" where
  "fe_abs t = \<lparr>fpc = fe_abs_pc (fepc t), fscript = fescript t, held = feheld t, results = feresults t\<rparr>"

abbreviation ready :: "fe_mem \<Rightarrow> bool" where
  "ready g \<equiv> user_set (mWaiters (fe_event g))"

text \<open>Nobody is notified, and the list is not locked, before the flag is set.\<close>

definition fe_gi :: "fe_mem \<Rightarrow> bool" where
  "fe_gi g \<longleftrightarrow> \<not> eventSet (fe_data g) \<and>
     (notified (fe_event g) \<noteq> [] \<longrightarrow> ready g) \<and> (lock_set (mWaiters (fe_event g)) \<longrightarrow> ready g)"

text \<open>What a thread has seen of the flag; \<open>r\<close> is the flag now.\<close>

fun fe_seen :: "bool \<Rightarrow> fe_pc \<Rightarrow> bool" where
  "fe_seen r (FeSet SetEntry) \<longleftrightarrow> True"
| "fe_seen r (FeSet (SetTest head)) \<longleftrightarrow> (user_set head \<longrightarrow> r) \<and> (lock_set head \<longrightarrow> user_set head)"
| "fe_seen r (FeSet _) \<longleftrightarrow> r"
| "fe_seen r (FeFree _ _) \<longleftrightarrow> r"
| "fe_seen r (FeAdd (EvAddTest head)) \<longleftrightarrow> (user_set head \<longrightarrow> r)"
| "fe_seen r (FeAdd (EvAddPush head)) \<longleftrightarrow> \<not> user_set head"
| "fe_seen r (FeAdd (EvAddDone added)) \<longleftrightarrow> added \<or> r"
| "fe_seen r _ \<longleftrightarrow> True"

text \<open>Inside \<^verbatim>\<open>Set\<close> and \<^verbatim>\<open>Get\<close> a thread holds a pointer.\<close>

definition fe_ti :: "fe_mem \<Rightarrow> fe_thread \<Rightarrow> bool" where
  "fe_ti g t \<longleftrightarrow> fe_seen (ready g) (fepc t) \<and> waiter_addr (block t) \<and>
     (fepc t \<notin> {FeIdle, FeDestroy, FeAssert} \<longrightarrow> 0 < feheld t) \<and> fepc t \<noteq> FeAdd EvAddAssert"

lemma fe_seen_mono: "fe_seen r pc \<Longrightarrow> r \<longrightarrow> r' \<Longrightarrow> fe_seen r' pc"
  by (cases "(r, pc)" rule: fe_seen.cases) auto

text \<open>The flag is monotone: the machines of \<^verbatim>\<open>Set\<close> and \<^verbatim>\<open>AddWaiter\<close> never clear it.\<close>

lemma Event_Set_step_flag:
  assumes "Event_Set_step ev pc = Some (ev', pc')"
  shows "user_set (mWaiters ev') \<longleftrightarrow> user_set (mWaiters ev) \<or>
      (\<exists>head. pc = SetTest head \<and> \<not> user_set head \<and> mWaiters ev = head \<and> \<not> lock_set head)"
    and "lock_set (mWaiters ev') \<longrightarrow> lock_set (mWaiters ev) \<or> user_set (mWaiters ev')"
    and "notified ev' \<noteq> [] \<longrightarrow> notified ev \<noteq> [] \<or> (\<exists>c n. pc = SetCall c n)"
  using assms by (cases pc; force simp: cas_head_if word_packing step_simps split: if_splits)+

lemma Event_AddWaiter_step_flag:
  assumes "Event_AddWaiter_step w ev pc = Some (ev', pc')"
  shows "user_set (mWaiters ev') = user_set (mWaiters ev) \<and> lock_set (mWaiters ev') = lock_set (mWaiters ev) \<and>
    notified ev' = notified ev"
  using assms by (cases pc) (auto simp: cas_head_if word_packing split: if_splits)

lemma fe_view_simps [simp]:
  "fe_view (g\<lparr>fe_data := d\<rparr>) = d\<lparr>eventSet := Event_IsSet (fe_event g)\<rparr>"
  "mRefCount (fe_view g) = mRefCount (fe_data g)" "eventSet (fe_view g) = Event_IsSet (fe_event g)"
  "storage (fe_view g) = storage (fe_data g)" "mException (fe_view g) = mException (fe_data g)"
  "destroyed (fe_view g) = destroyed (fe_data g)" "drops (fe_view g) = drops (fe_data g)"
  by (simp_all add: fe_view_def)

lemma fe_begin_event:
  assumes "fe_begin op g t = (g', t')"
  shows "fe_event g' = fe_event g" and "block t' = block t" and "eventSet (fe_data g') = eventSet (fe_data g)"
  using assms
  by (cases op; auto simp: fe_set_def FutureData_AddRef_def FutureData_Release_def Let_def AtomicDecrement_def
      sync_fetch_and_def split: option.splits if_splits)+

lemma fe_begin_seen:
  assumes "fe_begin op g t = (g', t')" and "fepc t = FeIdle" and "0 < feheld t"
  shows "fe_seen r (fepc t')" and "fepc t' \<noteq> FeAdd EvAddAssert"
    and "fepc t' \<notin> {FeIdle, FeDestroy, FeAssert} \<longrightarrow> 0 < feheld t'"
  using assms by (cases op; auto simp: fe_set_def split: option.splits if_splits)+

text \<open>Starting a call.\<close>

lemma fe_begin_simulates:
  assumes "fe_begin op g t = (g', t')" and "fepc t = FeIdle"
  shows "fut_begin op (fe_view g) (fe_abs t) = (fe_view g', fe_abs t')"
  using assms
  by (cases op)
    (auto simp: fe_set_def set_or_assert_def fe_abs_def fut_defs fe_view_def split: option.splits if_splits)

text \<open>The kinds of steps.\<close>

lemma fe_step_cases:
  assumes "fe_step g t = Some (g', t')"
  obtains
    (start) op ops where "fepc t = FeIdle" "fescript t = op # ops" "0 < feheld t"
      "fe_begin op g (t\<lparr>fescript := ops\<rparr>) = (g', t')"
  | (destroy) "fepc t = FeDestroy" "t' = t\<lparr>fepc := FeIdle\<rparr>"
      "g' = g\<lparr>fe_data := (fe_data g)\<lparr>destroyed := destroyed (fe_data g) + 1\<rparr>\<rparr>"
  | (set_step) pc ev pc' where "fepc t = FeSet pc" "\<And>c n. pc \<noteq> SetCall c n"
      "Event_Set_step (fe_event g) pc = Some (ev, pc')" "g' = g\<lparr>fe_event := ev\<rparr>" "t' = t\<lparr>fepc := FeSet pc'\<rparr>"
  | (set_call) c n where "fepc t = FeSet (SetCall c n)" "t' = t\<lparr>fepc := FeFree c n\<rparr>"
      "g' = g\<lparr>fe_event := (fe_event g)\<lparr>notified := c # notified (fe_event g)\<rparr>\<rparr>"
  | (set_done) "fepc t = FeSet SetDone" "g' = g" "t' = t\<lparr>fepc := FeIdle\<rparr>"
  | (free) c n where "fepc t = FeFree c n" "t' = t\<lparr>fepc := FeSet (SetNotify n), freeList := c\<rparr>"
      "g' = g\<lparr>fe_event := (fe_event g)\<lparr>wnext := (wnext (fe_event g))(c := freeList t)\<rparr>\<rparr>"
  | (add_step) pc ev pc' where "fepc t = FeAdd pc" "\<And>b. pc \<noteq> EvAddDone b"
      "Event_AddWaiter_step (block t) (fe_event g) pc = Some (ev, pc')"
      "g' = g\<lparr>fe_event := ev\<rparr>" "t' = t\<lparr>fepc := FeAdd pc'\<rparr>"
  | (added) "fepc t = FeAdd (EvAddDone True)" "g' = g" "t' = t\<lparr>fepc := FeSleep\<rparr>"
  | (refused) "fepc t = FeAdd (EvAddDone False)" "t' = t\<lparr>fepc := FeRead, freeList := block t\<rparr>"
      "g' = g\<lparr>fe_event := (fe_event g)\<lparr>wnext := (wnext (fe_event g))(block t := freeList t)\<rparr>\<rparr>"
  | (wake) "fepc t = FeSleep" "block t \<in> set (notified (fe_event g))" "g' = g" "t' = t\<lparr>fepc := FeRead\<rparr>"
  | (read) r where "fepc t = FeRead" "FutureData_Get (fe_view g) = Some r" "g' = g"
      "t' = t\<lparr>fepc := FeIdle, feresults := feresults t @ [r]\<rparr>"
  | (bad) "fepc t = FeRead" "FutureData_Get (fe_view g) = None" "g' = g" "t' = t\<lparr>fepc := FeAssert\<rparr>"
proof (cases "fepc t")
  case FeIdle
  with assms start show ?thesis by (auto simp: fe_step_def split: list.splits if_splits)
next
  case (FeSet pc)
  show ?thesis
  proof (cases pc)
    case SetDone
    then show ?thesis using assms FeSet set_done by (simp add: fe_step_def)
  next
    case (SetCall c n)
    then show ?thesis using assms FeSet set_call by (simp add: fe_step_def)
  qed (use assms FeSet set_step [of pc] in \<open>auto simp: fe_step_def simp del: Event_Set_step.simps\<close>)
next
  case (FeAdd pc)
  show ?thesis
  proof (cases pc)
    case (EvAddDone b)
    then show ?thesis using assms FeAdd added refused by (cases b) (simp_all add: fe_step_def fe_free_def)
  qed (use assms FeAdd add_step [of pc] in \<open>auto simp: fe_step_def simp del: Event_AddWaiter_step.simps\<close>)
next
  case FeDestroy
  then show ?thesis using assms destroy by (simp add: fe_step_def)
next
  case (FeFree c n)
  then show ?thesis using assms free by (simp add: fe_step_def fe_free_def)
next
  case FeSleep
  then show ?thesis using assms wake by (auto simp: fe_step_def split: if_splits)
next
  case FeRead
  then show ?thesis using assms read bad by (auto simp: fe_step_def split: option.splits)
qed (use assms in \<open>simp add: fe_step_def\<close>)

lemma fe_step_ready: "fe_step g t = Some (g', t') \<Longrightarrow> ready g \<Longrightarrow> ready g'"
  by (erule fe_step_cases)
    (auto dest: fe_begin_event Event_Set_step_flag(1) Event_AddWaiter_step_flag)

lemma fe_set_seen:
  assumes "Event_Set_step (fe_event g) pc = Some (ev, pc')" and "fe_gi g" and "fe_seen (ready g) (FeSet pc)"
  shows "fe_seen (user_set (mWaiters ev)) (FeSet pc')"
  using assms by (cases pc) (auto simp: fe_gi_def cas_head_if word_packing step_simps split: if_splits)

lemma fe_add_seen:
  assumes "Event_AddWaiter_step w (fe_event g) pc = Some (ev, pc')" and "fe_seen (ready g) (FeAdd pc)"
    and "waiter_addr w"
  shows "fe_seen (user_set (mWaiters ev)) (FeAdd pc') \<and> pc' \<noteq> EvAddAssert"
  using assms by (cases pc) (auto simp: cas_head_if word_packing waiter_addr_def split: if_splits)

lemma fe_step_keeps:
  assumes gi: "fe_gi g" and ti: "fe_ti g t" and st: "fe_step g t = Some (g', t')"
  shows "fe_gi g' \<and> fe_ti g' t'"
  using st
proof (cases rule: fe_step_cases)
  case (start op ops)
  then show ?thesis
    using gi ti fe_begin_event [OF start(4)] fe_begin_seen [OF start(4)] by (simp add: fe_gi_def fe_ti_def)
next
  case (set_step pc ev pc')
  then show ?thesis
    using gi ti fe_set_seen [OF set_step(3) gi] Event_Set_step_flag [OF set_step(3)]
    by (auto simp: fe_gi_def fe_ti_def)
next
  case (add_step pc ev pc')
  then show ?thesis
    using gi ti fe_add_seen [OF add_step(3)] Event_AddWaiter_step_flag [OF add_step(3)]
    by (auto simp: fe_gi_def fe_ti_def)
qed (use gi ti in \<open>auto simp: fe_gi_def fe_ti_def\<close>)

lemma fe_step_frame: "fe_ti g m \<Longrightarrow> fe_step g t = Some (g', t') \<Longrightarrow> fe_ti g' m"
  using fe_step_ready [of g t g' t'] fe_seen_mono [of "ready g" "fepc m" "ready g'"] by (auto simp: fe_ti_def)

lemma fe_step_simulates:
  assumes gi: "fe_gi g" and ti: "fe_ti g t" and st: "fe_step g t = Some (g', t')"
  shows "fe_view g' = fe_view g \<and> fe_abs t' = fe_abs t \<or>
    fut_step (fe_view g) (fe_abs t) = Some (fe_view g', fe_abs t')"
  using st
proof (cases rule: fe_step_cases)
  case (start op ops)
  have "fe_abs (t\<lparr>fescript := ops\<rparr>) = (fe_abs t)\<lparr>fscript := ops\<rparr>" by (simp add: fe_abs_def)
  then show ?thesis using start fe_begin_simulates [OF start(4)] by (simp add: fut_step_def fe_abs_def)
next
  case (set_step pc ev pc')
  then show ?thesis using gi ti
    by (cases pc) (auto simp: fe_ti_def fe_abs_def fut_step_def fe_view_def Event_IsSet_eq cas_head_if
        word_packing step_simps split: if_splits)
next
  case (add_step pc ev pc')
  then show ?thesis using Event_AddWaiter_step_flag [OF add_step(3)]
    by (simp add: fe_view_def fe_abs_def Event_IsSet_eq)
next
  case wake
  then show ?thesis using gi by (auto simp: fe_gi_def fut_step_def fe_abs_def Event_IsSet_eq)
qed (use ti in \<open>simp_all add: fe_ti_def fe_view_def fe_abs_def fut_step_def Event_IsSet_eq\<close>)

interpretation fev: thread_simulation fe_step fut_step fe_view fe_abs fe_gi fe_ti
  by unfold_locales (fact fe_step_keeps, erule (1) fe_step_frame, fact fe_step_simulates)

lemma fe_start:
  assumes "list_all (waiter_addr \<circ> snd) ps"
  shows "fe_gi (fe_init n nx)" and "\<forall>t \<in> set (map fe_thread_init ps). fe_ti (fe_init n nx) t"
  using assms by (auto simp: fe_gi_def fe_ti_def fe_init_def fe_thread_init_def Event_init_def
      FutureData_init_def list_all_iff)

lemma fe_runs_inv:
  assumes "fe_runs ps g ts" and "list_all (waiter_addr \<circ> snd) ps"
  shows "fe_gi g" and "\<forall>t \<in> set ts. fe_ti g t" and "fut_runs (map fst ps) (fe_view g) (map fe_abs ts)"
proof -
  obtain nx where ex: "executes fe_step (fe_init (sum_list (map (snd \<circ> fst) ps)) nx, map fe_thread_init ps) (g, ts)"
    using assms(1) by (auto simp: fe_runs_def)
  show "fe_gi g" "\<forall>t \<in> set ts. fe_ti g t"
    using fev.executes_keeps [OF ex fe_start(1) fe_start(2)] assms(2) by blast+
  have "fe_view (fe_init n nx) = FutureData_init n" for n
    by (simp add: fe_init_def fe_view_def FutureData_init_def Event_init_def Event_IsSet_eq)
  moreover have "fe_abs \<circ> fe_thread_init = fut_thread_init \<circ> fst"
    by (rule ext) (simp add: fe_abs_def fe_thread_init_def fut_thread_init_def)
  ultimately show "fut_runs (map fst ps) (fe_view g) (map fe_abs ts)"
    using fev.executes_simulates [OF ex fe_start(1) fe_start(2)] assms(2) by (simp add: fut_runs_def)
qed

section \<open>No lost wake-up\<close>

text \<open>
  The waiters between \<^verbatim>\<open>AddWaiter\<close> and \<^verbatim>\<open>Notify\<close>: \<open>xs\<close> in the list of the event, \<open>ys\<close> taken out by
  \<^verbatim>\<open>Set\<close> and not yet notified.  Of the threads at most one is walking down \<open>ys\<close>.
\<close>

fun walks :: "fe_pc \<Rightarrow> nat" where
  "walks (FeSet (SetNotify _)) = 1"
| "walks (FeSet (SetCall _ _)) = 1"
| "walks (FeFree _ _) = 1"
| "walks _ = 0"

fun chain_pc :: "addr list \<Rightarrow> addr list \<Rightarrow> event_mem \<Rightarrow> addr \<Rightarrow> fe_pc \<Rightarrow> bool" where
  "chain_pc xs ys ev w (FeAdd (EvAddDone True)) \<longleftrightarrow> w \<in> set (xs @ ys @ notified ev)"
| "chain_pc xs ys ev w FeSleep \<longleftrightarrow> w \<in> set (xs @ ys @ notified ev)"
| "chain_pc xs ys ev w (FeAdd (EvAddPush head)) \<longleftrightarrow>
     w \<notin> set (xs @ ys @ notified ev) \<and> wnext ev w = GetPointer head"
| "chain_pc xs ys ev w (FeAdd _) \<longleftrightarrow> w \<notin> set (xs @ ys @ notified ev)"
| "chain_pc xs ys ev w (FeSet (SetNotify c)) \<longleftrightarrow> w \<notin> set xs \<and> wlist (wnext ev) c ys"
| "chain_pc xs ys ev w (FeSet (SetCall c n)) \<longleftrightarrow> w \<notin> set xs \<and> ys \<noteq> [] \<and> hd ys = c \<and> wlist (wnext ev) n (tl ys)"
| "chain_pc xs ys ev w (FeFree c n) \<longleftrightarrow> w \<notin> set xs \<and> c \<in> set (notified ev) \<and> wlist (wnext ev) n ys"
| "chain_pc xs ys ev w _ \<longleftrightarrow> w \<notin> set xs"

definition chain_ok :: "addr list \<Rightarrow> addr list \<Rightarrow> event_mem \<Rightarrow> bool" where
  "chain_ok xs ys ev \<longleftrightarrow> distinct (xs @ ys @ notified ev) \<and> holds_list ev xs \<and>
     (if user_set (mWaiters ev) then xs = [] else ys = [] \<and> notified ev = [])"

text \<open>What one step does to the chain: for its own thread, for any other one, and for the walk.\<close>

definition chain_moves ::
  "addr list \<Rightarrow> addr list \<Rightarrow> fe_mem \<Rightarrow> fe_thread \<Rightarrow> addr list \<Rightarrow> addr list \<Rightarrow> fe_mem \<Rightarrow> fe_thread \<Rightarrow> bool" where
  "chain_moves xs ys g t xs' ys' g' t' \<longleftrightarrow>
     chain_ok xs' ys' (fe_event g') \<and> block t' = block t \<and>
     chain_pc xs' ys' (fe_event g') (block t) (fepc t') \<and>
     (\<forall>w pc. w \<noteq> block t \<longrightarrow> walks (fepc t) + walks pc \<le> of_bool (ready g) \<longrightarrow>
        chain_pc xs ys (fe_event g) w pc \<longrightarrow> chain_pc xs' ys' (fe_event g') w pc) \<and>
     walks (fepc t') + of_bool (ready g) \<le> walks (fepc t) + of_bool (ready g') \<and>
     (walks (fepc t') = 0 \<longrightarrow> ys' = [] \<or> walks (fepc t) = 0 \<and> ys' = ys)"

text \<open>Changes of the memory that other threads do not notice.\<close>

lemma chain_pc_write:
  assumes "chain_pc xs ys ev w pc" and "v \<notin> set ys" and "v \<noteq> w \<or> v \<in> set (notified ev)"
  shows "chain_pc xs ys (ev\<lparr>wnext := (wnext ev)(v := a)\<rparr>) w pc"
proof -
  have "v \<notin> set (tl ys)" using assms(2) by (cases ys) auto
  then show ?thesis using assms
    by (cases "(xs, ys, ev, w, pc)" rule: chain_pc.cases) (auto simp: fun_upd_apply)
qed

lemma chain_pc_push:
  "chain_pc xs ys ev w pc \<Longrightarrow> w \<noteq> v \<Longrightarrow> wnext ev' = wnext ev \<Longrightarrow> notified ev' = notified ev \<Longrightarrow>
   chain_pc (v # xs) ys ev' w pc"
  by (cases "(xs, ys, ev, w, pc)" rule: chain_pc.cases) auto

lemma chain_pc_frame:
  "chain_pc xs ys ev w pc \<Longrightarrow> wnext ev' = wnext ev \<Longrightarrow> notified ev' = notified ev \<Longrightarrow> chain_pc xs ys ev' w pc"
  by (cases "(xs, ys, ev, w, pc)" rule: chain_pc.cases) auto

lemma chain_pc_take:
  "chain_pc xs [] ev w pc \<Longrightarrow> walks pc = 0 \<Longrightarrow> wnext ev' = wnext ev \<Longrightarrow> notified ev' = notified ev \<Longrightarrow>
   chain_pc [] xs ev' w pc"
  by (cases "(xs, [] :: addr list, ev, w, pc)" rule: chain_pc.cases) auto

lemma chain_pc_notify:
  "chain_pc xs (c # ys) ev w pc \<Longrightarrow> walks pc = 0 \<Longrightarrow> wnext ev' = wnext ev \<Longrightarrow>
   notified ev' = c # notified ev \<Longrightarrow> chain_pc xs ys ev' w pc"
  by (cases "(xs, c # ys, ev, w, pc)" rule: chain_pc.cases) auto

lemma chain_ok_frame:
  "chain_ok xs ys ev \<Longrightarrow> wnext ev' = wnext ev \<Longrightarrow> notified ev' = notified ev \<Longrightarrow>
   GetPointer (mWaiters ev') = GetPointer (mWaiters ev) \<Longrightarrow>
   user_set (mWaiters ev') = user_set (mWaiters ev) \<Longrightarrow> chain_ok xs ys ev'"
  by (simp add: chain_ok_def holds_list_def)

lemma chain_ok_write:
  "chain_ok xs ys ev \<Longrightarrow> v \<notin> set xs \<Longrightarrow> chain_ok xs ys (ev\<lparr>wnext := (wnext ev)(v := a)\<rparr>)"
  by (simp add: chain_ok_def holds_list_def)

lemma chain_moves_still:
  assumes "chain_ok xs ys (fe_event g)" and "fe_event g' = fe_event g" and "block t' = block t"
    and "chain_pc xs ys (fe_event g) (block t) (fepc t')" and "walks (fepc t') = walks (fepc t)"
  shows "chain_moves xs ys g t xs ys g' t'"
  using assms by (simp add: chain_moves_def)

lemma chain_set_step:
  assumes st: "Event_Set_step (fe_event g) pc = Some (ev, pc')" and call: "\<And>c n. pc \<noteq> SetCall c n"
    and t: "fepc t = FeSet pc" and gi: "fe_gi g" and ti: "fe_ti g t"
    and ok: "chain_ok xs ys (fe_event g)" and own: "chain_pc xs ys (fe_event g) (block t) (fepc t)"
  shows "\<exists>xs' ys'. chain_moves xs ys g t xs' ys' (g\<lparr>fe_event := ev\<rparr>) (t\<lparr>fepc := FeSet pc'\<rparr>)"
proof (cases pc)
  case SetEntry
  then show ?thesis using st t ok own by (intro exI [of _ xs] exI [of _ ys] chain_moves_still) auto
next
  case (SetTest head)
  show ?thesis
  proof (cases "user_set head \<or> lock_set head \<or> mWaiters (fe_event g) \<noteq> head")
    case True
    then have "ev = fe_event g" "\<exists>h. pc' = SetTest h \<or> pc' = SetDone"
      using st SetTest by (auto simp: cas_head_if split: if_splits)
    then show ?thesis using st t ok own SetTest by (intro exI [of _ xs] exI [of _ ys] chain_moves_still) auto
  next
    case False
    then have h: "\<not> ready g" "\<not> lock_set head" "mWaiters (fe_event g) = head" by auto
    then have ys: "ys = []" "notified (fe_event g) = []" and l: "wlist (wnext (fe_event g)) (GetPointer head) xs"
      and d: "distinct xs" using ok by (auto simp: chain_ok_def holds_list_def)
    show ?thesis
    proof (cases "GetPointer head = 0")
      case True
      then have "xs = []" "pc' = SetDone" "ev = (fe_event g)\<lparr>mWaiters := Event_set_word head\<rparr>"
        using l st SetTest h by (auto simp: cas_head_if)
      then show ?thesis using h ys True t own SetTest
        by (intro exI [of _ "[]"]) (auto simp: chain_moves_def chain_ok_def holds_list_def word_packing
            intro: chain_pc_frame)
    next
      case False
      then have "pc' = SetNotify (GetPointer head)" and ev: "ev = (fe_event g)\<lparr>mWaiters := Event_locked_word head\<rparr>"
        using st SetTest h by (auto simp: cas_head_if)
      moreover have "chain_ok [] xs ev" using ys d by (simp add: ev chain_ok_def holds_list_def word_packing)
      ultimately show ?thesis using h ys t l
        by (intro exI [of _ "[]"] exI [of _ xs]) (auto simp: chain_moves_def word_packing intro: chain_pc_take)
    qed
  qed
next
  case (SetNotify c)
  then have ev: "ev = fe_event g" and r: "ready g" and l: "wlist (wnext (fe_event g)) c ys" "block t \<notin> set xs"
    using st t ti own by (auto simp: fe_ti_def split: if_splits)
  show ?thesis
  proof (cases "c = 0")
    case True
    then have "ys = []" "pc' = SetUnlock" using l st SetNotify by auto
    then show ?thesis using ok l t SetNotify r
      by (intro exI [of _ xs] exI [of _ "[]"]) (simp add: chain_moves_def ev)
  next
    case False
    then have "pc' = SetCall c (wnext (fe_event g) c)" using st SetNotify by auto
    moreover obtain us where "ys = c # us" "wlist (wnext (fe_event g)) (wnext (fe_event g) c) us"
      using l False by (auto simp: wlist_nonnull)
    ultimately show ?thesis using ok l t SetNotify by (intro exI [of _ xs] exI [of _ ys] chain_moves_still) (auto simp: ev)
  qed
next
  case SetUnlock
  then have ev: "ev = WaiterList_Unlock (fe_event g)" "pc' = SetDone" using st by auto
  have "chain_ok xs ys ev" using ok by (rule chain_ok_frame) (simp_all add: ev step_simps word_packing)
  then show ?thesis using t own SetUnlock ti
    by (intro exI [of _ xs] exI [of _ ys])
      (auto simp: chain_moves_def ev step_simps word_packing intro: chain_pc_frame)
qed (use st call in auto)

lemma chain_add_step:
  assumes st: "Event_AddWaiter_step (block t) (fe_event g) pc = Some (ev, pc')"
    and t: "fepc t = FeAdd pc" and gi: "fe_gi g" and ti: "fe_ti g t"
    and ok: "chain_ok xs ys (fe_event g)" and own: "chain_pc xs ys (fe_event g) (block t) (fepc t)"
  shows "\<exists>xs' ys'. chain_moves xs ys g t xs' ys' (g\<lparr>fe_event := ev\<rparr>) (t\<lparr>fepc := FeAdd pc'\<rparr>)"
proof (cases pc)
  case EvAddEntry
  then show ?thesis using st t ok own by (intro exI [of _ xs] exI [of _ ys] chain_moves_still) auto
next
  case (EvAddTest head)
  then have w: "block t \<notin> set (xs @ ys @ notified (fe_event g))" using own t by simp
  show ?thesis
  proof (cases "user_set head")
    case True
    then show ?thesis using st t ok w EvAddTest by (intro exI [of _ xs] exI [of _ ys] chain_moves_still) auto
  next
    case False
    then have ev: "ev = (fe_event g)\<lparr>wnext := (wnext (fe_event g))(block t := GetPointer head)\<rparr>" "pc' = EvAddPush head"
      using st EvAddTest by auto
    have "chain_ok xs ys ev" unfolding ev using ok w by (intro chain_ok_write) simp_all
    moreover have "chain_pc xs ys ev v p" if "chain_pc xs ys (fe_event g) v p" "v \<noteq> block t" for v p
      unfolding ev using that w by (intro chain_pc_write) auto
    ultimately show ?thesis using w t EvAddTest
      by (intro exI [of _ xs] exI [of _ ys]) (simp add: chain_moves_def ev)
  qed
next
  case (EvAddPush head)
  then have w: "block t \<notin> set (xs @ ys @ notified (fe_event g))" "wnext (fe_event g) (block t) = GetPointer head"
    "\<not> user_set head" "waiter_addr (block t)" using own t ti by (simp_all add: fe_ti_def)
  show ?thesis
  proof (cases "mWaiters (fe_event g) = head")
    case False
    then show ?thesis using st t ok w EvAddPush
      by (intro exI [of _ xs] exI [of _ ys] chain_moves_still) (auto simp: cas_head_if waiter_addr_def)
  next
    case True
    then have ev: "ev = (fe_event g)\<lparr>mWaiters := SetPointer head (block t) + ABA_ADDEND\<rparr>" "pc' = EvAddDone True"
      using st EvAddPush w by (auto simp: cas_head_if waiter_addr_def)
    have v: "GetPointer (mWaiters ev) = block t" "user_set (mWaiters ev) = user_set head"
      using w(4) by (simp_all add: ev word_packing waiter_addr_def)
    have "chain_ok (block t # xs) ys ev"
      using ok w v True by (simp add: chain_ok_def holds_list_def ev waiter_addr_def)
    moreover have "chain_pc (block t # xs) ys ev v p" if "chain_pc xs ys (fe_event g) v p" "v \<noteq> block t" for v p
      using that by (rule chain_pc_push) (simp_all add: ev)
    ultimately show ?thesis using t EvAddPush v True
      by (intro exI [of _ "block t # xs"] exI [of _ ys]) (simp add: chain_moves_def ev)
  qed
qed (use st in auto)

lemma chain_step:
  assumes gi: "fe_gi g" and ti: "fe_ti g t" and st: "fe_step g t = Some (g', t')"
    and ok: "chain_ok xs ys (fe_event g)" and own: "chain_pc xs ys (fe_event g) (block t) (fepc t)"
  shows "\<exists>xs' ys'. chain_moves xs ys g t xs' ys' g' t'"
  using st
proof (cases rule: fe_step_cases)
  case (start op ops)
  have e: "fe_event g' = fe_event g" "block t' = block t" using fe_begin_event [OF start(4)] by simp_all
  have "fepc t' \<in> {FeIdle, FeDestroy, FeAssert, FeRead, FeSet SetEntry} \<or> fepc t' = FeAdd EvAddEntry \<and> \<not> ready g"
    using start(1,4) by (cases op) (auto simp: fe_set_def Event_IsSet_eq split: option.splits if_splits)
  then have "chain_pc xs ys (fe_event g) (block t) (fepc t')" "walks (fepc t') = 0"
    using own start(1) ok by (auto simp: chain_ok_def)
  then show ?thesis using ok e start(1) by (intro exI [of _ xs] exI [of _ ys] chain_moves_still) auto
next
  case (set_step pc ev pc')
  show ?thesis unfolding set_step(4,5)
    by (rule chain_set_step [OF set_step(3,2,1) gi ti ok own])
next
  case (add_step pc ev pc')
  show ?thesis unfolding add_step(4,5)
    by (rule chain_add_step [OF add_step(3,1) gi ti ok own])
next
  case (set_call c n)
  obtain us where ys: "ys = c # us" and l: "wlist (wnext (fe_event g)) n us" and b: "block t \<notin> set xs"
    using own set_call(1) by (cases ys) auto
  have r: "ready g" using ti set_call(1) by (simp add: fe_ti_def)
  have "chain_ok xs us (fe_event g')" using ok r by (auto simp: chain_ok_def holds_list_def ys set_call)
  moreover have "chain_pc xs us (fe_event g') v p" if "chain_pc xs ys (fe_event g) v p" "walks p = 0" for v p
    using that unfolding ys by (rule chain_pc_notify) (simp_all add: set_call)
  ultimately show ?thesis using l r b
    by (intro exI [of _ xs] exI [of _ us]) (auto simp: chain_moves_def set_call)
next
  case (free c n)
  then have c: "c \<in> set (notified (fe_event g))" and l: "wlist (wnext (fe_event g)) n ys" and b: "block t \<notin> set xs"
    using own by simp_all
  then have n: "c \<notin> set xs" "c \<notin> set ys" using ok by (auto simp: chain_ok_def)
  have "chain_ok xs ys (fe_event g')" unfolding free by simp (rule chain_ok_write [OF ok n(1)])
  moreover have "chain_pc xs ys (fe_event g') v p" if "chain_pc xs ys (fe_event g) v p" for v p
    unfolding free using chain_pc_write [OF that n(2)] c by simp
  ultimately show ?thesis using l n b
    by (intro exI [of _ xs] exI [of _ ys]) (simp add: chain_moves_def free)
next
  case refused
  then have b: "block t \<notin> set xs" "block t \<notin> set ys" using own by simp_all
  have "chain_ok xs ys (fe_event g')" unfolding refused by simp (rule chain_ok_write [OF ok b(1)])
  moreover have "chain_pc xs ys (fe_event g') v p" if "chain_pc xs ys (fe_event g) v p" "v \<noteq> block t" for v p
    unfolding refused using chain_pc_write [OF that(1) b(2)] that(2) by auto
  ultimately show ?thesis using b by (intro exI [of _ xs] exI [of _ ys]) (simp add: chain_moves_def refused)
next
  case wake
  then have "xs = []" using gi ok by (auto simp: fe_gi_def chain_ok_def)
  then show ?thesis using ok wake by (intro exI [of _ xs] exI [of _ ys] chain_moves_still) auto
qed (use ok own in \<open>intro exI [of _ xs] exI [of _ ys] chain_moves_still; auto\<close>)+

definition fe_chain :: "addr list \<Rightarrow> addr list \<Rightarrow> fe_mem \<Rightarrow> fe_thread list \<Rightarrow> bool" where
  "fe_chain xs ys g ts \<longleftrightarrow> chain_ok xs ys (fe_event g) \<and> distinct (map block ts) \<and>
     (\<forall>t \<in> set ts. chain_pc xs ys (fe_event g) (block t) (fepc t)) \<and>
     sum_list (map (walks \<circ> fepc) ts) \<le> of_bool (ready g) \<and>
     (sum_list (map (walks \<circ> fepc) ts) = 0 \<longrightarrow> ys = [])"

lemma fe_chain_step:
  assumes chain: "fe_chain xs ys g ts" and gi: "fe_gi g" and ti: "\<forall>t \<in> set ts. fe_ti g t"
    and st: "interleave fe_step (g, ts) (g', ts')"
  shows "\<exists>xs' ys'. fe_chain xs' ys' g' ts'"
proof -
  from st obtain i t' where i: "i < length ts" and st: "fe_step g (ts ! i) = Some (g', t')"
    and ts': "ts' = ts[i := t']" by (auto elim: interleave_cases)
  let ?W = "\<lambda>ts. sum_list (map (walks \<circ> fepc) ts)"
  have d: "distinct (map block ts)" and pcs: "\<And>t. t \<in> set ts \<Longrightarrow> chain_pc xs ys (fe_event g) (block t) (fepc t)"
    and W: "?W ts \<le> of_bool (ready g)" "?W ts = 0 \<longrightarrow> ys = []" and ok: "chain_ok xs ys (fe_event g)"
    using chain by (auto simp: fe_chain_def)
  obtain xs' ys' where m: "chain_moves xs ys g (ts ! i) xs' ys' g' t'"
    using chain_step [OF gi _ st ok pcs] ti i by auto
  have "block t' = map block ts ! i" using m i by (simp add: chain_moves_def)
  then have b: "map block ts' = map block ts" by (metis ts' map_update list_update_id)
  have "chain_pc xs' ys' (fe_event g') (block (ts' ! j)) (fepc (ts' ! j))" if j: "j < length ts'" for j
  proof (cases "j = i")
    case True
    then show ?thesis using m i by (simp add: ts' chain_moves_def)
  next
    case False
    then have "block (ts ! j) \<noteq> block (ts ! i)" using d i j by (auto simp: ts' distinct_conv_nth)
    moreover have "walks (fepc (ts ! i)) + walks (fepc (ts ! j)) \<le> of_bool (ready g)"
      using sum_list_map_two_le [OF i, of j "walks \<circ> fepc"] False j W(1) by (simp add: ts')
    ultimately show ?thesis using m False pcs [of "ts ! j"] j by (simp add: ts' chain_moves_def)
  qed
  then have "\<forall>t \<in> set ts'. chain_pc xs' ys' (fe_event g') (block t) (fepc t)" by (auto simp: in_set_conv_nth)
  moreover have s: "?W ts' + walks (fepc (ts ! i)) = ?W ts + walks (fepc t')"
    unfolding ts' using sum_list_map_update [OF i, of "walks \<circ> fepc" t'] by simp
  have mv: "walks (fepc t') + of_bool (ready g) \<le> walks (fepc (ts ! i)) + of_bool (ready g')"
    "walks (fepc t') = 0 \<longrightarrow> ys' = [] \<or> walks (fepc (ts ! i)) = 0 \<and> ys' = ys"
    "chain_ok xs' ys' (fe_event g')" using m by (auto simp: chain_moves_def)
  have "?W ts' \<le> of_bool (ready g')" using s mv(1) W(1) by linarith
  moreover have "ys' = []" if z: "?W ts' = 0"
  proof -
    have "walks (fepc t') = 0" using s z mv(1) W(1) sum_list_map_nth_le [OF i, of "walks \<circ> fepc"] by simp
    then show ?thesis using mv(2) s z W(2) by auto
  qed
  ultimately show ?thesis using mv(3) d b unfolding fe_chain_def by metis
qed

lemma fe_runs_chain:
  assumes "fe_runs ps g ts" and "list_all (waiter_addr \<circ> snd) ps" and "distinct (map snd ps)"
  shows "\<exists>xs ys. fe_chain xs ys g ts"
proof -
  obtain nx where "executes fe_step (fe_init (sum_list (map (snd \<circ> fst) ps)) nx, map fe_thread_init ps) (g, ts)"
    using assms(1) by (auto simp: fe_runs_def)
  then show ?thesis
  proof (induction "(g, ts)" arbitrary: g ts rule: rtranclp_induct)
    case base
    have "block \<circ> fe_thread_init = snd" "walks \<circ> fepc \<circ> fe_thread_init = (\<lambda>_. 0)"
      by (auto simp: fe_thread_init_def)
    then show ?case using assms(3)
      by (intro exI [of _ "[]"])
        (auto simp: fe_chain_def chain_ok_def holds_list_def fe_init_def Event_init_def fe_thread_init_def)
  next
    case (step y)
    obtain g1 ts1 where y: "y = (g1, ts1)" by (cases y)
    have "fe_gi g1" "\<forall>t \<in> set ts1. fe_ti g1 t"
      using fev.executes_keeps [OF step.hyps(1) [unfolded y] fe_start(1) fe_start(2)] assms(2) by blast+
    then show ?case using step.hyps(3) [OF y] fe_chain_step step.hyps(2) [unfolded y] by blast
  qed
qed

section \<open>Properties\<close>

lemma Event_Set_step_None: "Event_Set_step ev pc = None \<Longrightarrow> pc = SetDone"
  by (cases pc) (auto simp: cas_head_if split: if_splits)

lemma Event_AddWaiter_step_None:
  "Event_AddWaiter_step w ev pc = None \<Longrightarrow> pc = EvAddAssert \<or> (\<exists>r. pc = EvAddDone r)"
  by (cases pc) (auto simp: cas_head_if split: if_splits)

text \<open>A thread that cannot move is done, or sleeps.\<close>

lemma fe_blocked:
  assumes "fe_step g t = None" and "fe_ti g t" and "fepc t \<noteq> FeAssert"
  shows "fepc t = FeIdle \<and> (fescript t = [] \<or> feheld t = 0) \<or>
    fepc t = FeSleep \<and> block t \<notin> set (notified (fe_event g))"
  using assms
  by (auto simp: fe_step_def fe_ti_def split: fe_pc.splits event_set_pc.splits event_add_pc.splits
      list.splits if_splits option.splits simp del: Event_Set_step.simps Event_AddWaiter_step.simps
      dest: Event_Set_step_None Event_AddWaiter_step_None)

lemma results_abs: "results (fe_abs t) = feresults t"
  by (simp add: fe_abs_def)

text \<open>The event of a future can be taken for one step: every execution over the event's own machines, down
  to the single accesses to the word of its waiter list and to the waiters, is an execution of
  theory Future, in which \<^verbatim>\<open>Event::Set\<close> is one step and a waiting \<^verbatim>\<open>Get\<close> passes once the flag is set; for
  any scripts of any number of threads, each with a block for its waiter.\<close>

theorem future_event_refines:
  assumes "fe_runs ps g ts" and "list_all (waiter_addr \<circ> snd) ps"
  shows "fut_runs (map fst ps) (fe_view g) (map fe_abs ts)"
  by (rule fe_runs_inv(3) [OF assms])

text \<open>Claim C16.
  A future delivers what its promise was given, over the event's own machines.  With one call of
  \<^verbatim>\<open>SetValue\<close> or \<^verbatim>\<open>SetException\<close> at most and fewer than \<open>2^32\<close> pointers, in any interleaving: no assertion
  fails; every \<^verbatim>\<open>Get\<close> that returns gives the value or exception of that call; no waiter is notified twice; the
  data is not destroyed while a thread is inside \<^verbatim>\<open>Set\<close> or \<^verbatim>\<open>Get\<close>, the walk over the waiters included; and
  \<^verbatim>\<open>Set\<close> never enters its endless loop on a locked list.\<close>

theorem future_event_delivers:
  assumes "fe_runs ps g ts" and "list_all (waiter_addr \<circ> snd) ps" and "distinct (map snd ps)"
    and "0 < sum_list (map (snd \<circ> fst) ps)" and "pointers (map fst ps) < 2 ^ 32"
    and "count_ops is_set (concat (map (fst \<circ> fst) ps)) \<le> 1"
  shows "distinct (notified (fe_event g)) \<and>
    (\<forall>t \<in> set ts. fepc t \<noteq> FeAssert \<and> fepc t \<noteq> FeAdd EvAddAssert \<and>
      (\<forall>r \<in> set (feresults t). FutureData_Get (fe_view g) = Some r \<and>
        (case r of Inl e \<Rightarrow> SetE e \<in> set (concat (map (fst \<circ> fst) ps))
         | Inr v \<Rightarrow> SetV v \<in> set (concat (map (fst \<circ> fst) ps)))) \<and>
      (fepc t \<notin> {FeIdle, FeDestroy} \<longrightarrow> destroyed (fe_data g) = 0) \<and>
      (\<forall>head. fepc t = FeSet (SetTest head) \<longrightarrow> lock_set head \<longrightarrow> user_set head))"
proof -
  note inv = fe_runs_inv [OF assms(1,2)]
  have hyps: "0 < sum_list (map snd (map fst ps))" "count_ops is_set (concat (map fst (map fst ps))) \<le> 1"
    using assms(4,6) by (simp_all add: comp_def)
  note del = future_runs_no_assert [OF inv(3) hyps(1) assms(5) hyps(2)]
  note refs = fut_runs_refs(3) [OF inv(3) hyps(1) assms(5) hyps(2)]
  have "distinct (notified (fe_event g))"
    using fe_runs_chain [OF assms(1-3)] by (auto simp: fe_chain_def chain_ok_def)
  moreover have "fepc t \<noteq> FeAssert \<and> fepc t \<noteq> FeAdd EvAddAssert \<and>
      (\<forall>r \<in> set (feresults t). FutureData_Get (fe_view g) = Some r \<and>
        (case r of Inl e \<Rightarrow> SetE e \<in> set (concat (map (fst \<circ> fst) ps))
         | Inr v \<Rightarrow> SetV v \<in> set (concat (map (fst \<circ> fst) ps)))) \<and>
      (fepc t \<notin> {FeIdle, FeDestroy} \<longrightarrow> destroyed (fe_data g) = 0) \<and>
      (\<forall>head. fepc t = FeSet (SetTest head) \<longrightarrow> lock_set head \<longrightarrow> user_set head)"
    if t: "t \<in> set ts" for t
  proof -
    have a: "fe_abs t \<in> set (map fe_abs ts)" using t by simp
    have ti: "fe_ti g t" using inv(2) t by blast
    have "fpc (fe_abs t) \<noteq> FAssert" by (rule del(1) [OF a])
    then have f: "fepc t \<noteq> FeAssert" by (auto simp: fe_abs_def)
    moreover have "\<forall>r \<in> set (feresults t). FutureData_Get (fe_view g) = Some r \<and>
        (case r of Inl e \<Rightarrow> SetE e \<in> set (concat (map (fst \<circ> fst) ps))
         | Inr v \<Rightarrow> SetV v \<in> set (concat (map (fst \<circ> fst) ps)))"
      using del(2,3) [OF a] unfolding map_map results_abs by blast
    moreover have "destroyed (fe_data g) = 0" if "fepc t \<notin> {FeIdle, FeDestroy}"
      using refs [OF a] ti f that by (auto simp: fe_ti_def fe_abs_def)
    ultimately show ?thesis using ti by (auto simp: fe_ti_def)
  qed
  ultimately show ?thesis by blast
qed

text \<open>Claim C19.
  No lost wake-up: when no thread can move, every call has returned, except a \<^verbatim>\<open>Get\<close> whose promise was
  never set.  In such a state each thread has finished its script, or holds no pointer to go on with, or
  sleeps in a \<^verbatim>\<open>Get\<close>; and if one sleeps, the event is not set and the call of \<^verbatim>\<open>SetValue\<close> or
  \<^verbatim>\<open>SetException\<close>, if there is one, was not begun.\<close>

theorem future_event_no_hang:
  assumes "fe_runs ps g ts" and "list_all (waiter_addr \<circ> snd) ps" and "distinct (map snd ps)"
    and "0 < sum_list (map (snd \<circ> fst) ps)" and "pointers (map fst ps) < 2 ^ 32"
    and "count_ops is_set (concat (map (fst \<circ> fst) ps)) \<le> 1"
    and "\<forall>t \<in> set ts. fe_step g t = None"
  shows "\<forall>t \<in> set ts. fepc t = FeIdle \<and> (fescript t = [] \<or> feheld t = 0) \<or>
    fepc t = FeSleep \<and> \<not> Event_IsSet (fe_event g) \<and>
      sum_list (map (count_ops is_set \<circ> fescript) ts) = count_ops is_set (concat (map (fst \<circ> fst) ps))"
proof
  fix t assume t: "t \<in> set ts"
  note inv = fe_runs_inv [OF assms(1,2)]
  have hyps: "0 < sum_list (map snd (map fst ps))" "count_ops is_set (concat (map fst (map fst ps))) \<le> 1"
    using assms(4,6) by (simp_all add: comp_def)
  have no_assert: "fepc u \<noteq> FeAssert" if "u \<in> set ts" for u
    using future_runs_no_assert(1) [OF inv(3) hyps(1) assms(5) hyps(2), of "fe_abs u"] that
    by (auto simp: fe_abs_def)
  have bl: "fepc u = FeIdle \<and> (fescript u = [] \<or> feheld u = 0) \<or>
      fepc u = FeSleep \<and> block u \<notin> set (notified (fe_event g))" if "u \<in> set ts" for u
    by (rule fe_blocked [OF bspec [OF assms(7) that] bspec [OF inv(2) that] no_assert [OF that]])
  obtain xs ys where c: "fe_chain xs ys g ts" using fe_runs_chain [OF assms(1-3)] by blast
  have "walks (fepc u) = 0" if "u \<in> set ts" for u using bl [OF that] by auto
  then have "sum_list (map (walks \<circ> fepc) ts) = 0" by simp
  then have ys: "ys = []" using c by (simp add: fe_chain_def)
  show "fepc t = FeIdle \<and> (fescript t = [] \<or> feheld t = 0) \<or>
    fepc t = FeSleep \<and> \<not> Event_IsSet (fe_event g) \<and>
      sum_list (map (count_ops is_set \<circ> fescript) ts) = count_ops is_set (concat (map (fst \<circ> fst) ps))"
  proof (cases "fepc t = FeSleep")
    case True
    then have "chain_pc xs ys (fe_event g) (block t) FeSleep" using c t unfolding fe_chain_def by metis
    then have "xs \<noteq> []" using bl [OF t] True ys by auto
    then have "\<not> ready g" using c by (auto simp: fe_chain_def chain_ok_def)
    then have e: "\<not> Event_IsSet (fe_event g)" by (simp add: Event_IsSet_eq)
    have "fut_ltok Setter (fe_abs u) = (count_ops is_set \<circ> fescript) u" if "u \<in> set ts" for u
      using bl [OF that] by (auto simp: fe_abs_def)
    then have m: "map (fut_ltok Setter) (map fe_abs ts) = map (count_ops is_set \<circ> fescript) ts"
      by (simp del: fut_ltok.simps)
    have "sum_list (map (fut_ltok Setter) (map fe_abs ts)) = count_ops is_set (concat (map fst (map fst ps)))"
      using future_setters [OF inv(3) hyps(1) assms(5) hyps(2)] e by (simp del: fut_ltok.simps)
    then have "sum_list (map (count_ops is_set \<circ> fescript) ts) = count_ops is_set (concat (map (fst \<circ> fst) ps))"
      unfolding m by simp
    then show ?thesis using True e by simp
  qed (use bl [OF t] in auto)
qed

text \<open>A promise and a future in two threads, with the blocks 8 and 16: the getter registers its waiter, then
  the value is set.\<close>

definition fe_demo :: "((fut_op list \<times> nat) \<times> addr) list" where
  "fe_demo = [(([SetV 42, DropRef], 1), 8), (([GetR, DropRef], 1), 16)]"

lemmas fe_eval = fe_demo_def fe_init_def FutureData_init_def Event_init_def fe_thread_init_def fe_step_def
  fe_set_def fe_free_def fut_defs Event_IsSet_eq cas_head_if Event_locked_word_def EVENT_SET_BIT_def step_simps
  fe_view_def view_eval

lemma fe_demo_hyps:
  "list_all (waiter_addr \<circ> snd) fe_demo" "distinct (map snd fe_demo)" "0 < sum_list (map (snd \<circ> fst) fe_demo)"
  "pointers (map fst fe_demo) < 2 ^ 32" "count_ops is_set (concat (map (fst \<circ> fst) fe_demo)) \<le> 1"
  by (simp_all add: fe_demo_def waiter_addr_def pointers_def view_eval)

lemma fe_demo_asleep:
  "\<exists>g ts. fe_runs fe_demo g ts \<and> fepc (ts ! 1) = FeSleep \<and> fepc (ts ! 0) = FeSet SetUnlock \<and>
     notified (fe_event g) = [16] \<and> length ts = 2"
proof -
  obtain g ts where run: "run_sched fe_step [1,1,1,1,1, 0,0,0,0,0,0,0]
      (fe_init (sum_list (map (snd \<circ> fst) fe_demo)) (\<lambda>_. 0), map fe_thread_init fe_demo) = Some (g, ts)"
    and r: "fepc (ts ! 1) = FeSleep" "fepc (ts ! 0) = FeSet SetUnlock" "notified (fe_event g) = [16]" "length ts = 2"
    by (simp add: fe_eval)
  have "fe_runs fe_demo g ts" unfolding fe_runs_def by (intro exI [of _ "\<lambda>_. 0"]) (rule run_sched_executes [OF run])
  then show ?thesis by (intro exI [of _ g] exI [of _ ts] conjI) (use r in simp_all)
qed

lemma fe_demo_end:
  "\<exists>g ts. fe_runs fe_demo g ts \<and> map feresults ts = [[], [Inr 42]] \<and> map (fe_step g) ts = [None, None] \<and>
     length ts = 2 \<and> Event_IsSet (fe_event g)"
proof -
  obtain g ts where run: "run_sched fe_step [1,1,1,1,1, 0,0,0,0,0,0,0,0,0,0, 1,1,1,1]
      (fe_init (sum_list (map (snd \<circ> fst) fe_demo)) (\<lambda>_. 0), map fe_thread_init fe_demo) = Some (g, ts)"
    and r: "map feresults ts = [[], [Inr 42]]" "map (fe_step g) ts = [None, None]" "length ts = 2"
      "Event_IsSet (fe_event g)"
    by (simp add: fe_eval)
  have "fe_runs fe_demo g ts" unfolding fe_runs_def by (intro exI [of _ "\<lambda>_. 0"]) (rule run_sched_executes [OF run])
  then show ?thesis by (intro exI [of _ g] exI [of _ ts] conjI) (use r in simp_all)
qed

theorem future_event_refines_witness:
  "\<exists>g ts. fe_runs fe_demo g ts \<and> fut_runs (map fst fe_demo) (fe_view g) (map fe_abs ts) \<and>
     map results (map fe_abs ts) = [[], [Inr 42]]"
proof -
  obtain g ts where r: "fe_runs fe_demo g ts" "map feresults ts = [[], [Inr 42]]"
    using fe_demo_end by (elim exE conjE)
  have "map results (map fe_abs ts) = map feresults ts" by (simp add: results_abs)
  then show ?thesis using future_event_refines [OF r(1) fe_demo_hyps(1)] r by metis
qed

theorem future_event_delivers_witness:
  "\<exists>g ts. fe_runs fe_demo g ts \<and> fepc (ts ! 0) = FeSet SetUnlock \<and> destroyed (fe_data g) = 0 \<and>
     distinct (notified (fe_event g))"
proof -
  obtain g ts where r: "fe_runs fe_demo g ts" "fepc (ts ! 0) = FeSet SetUnlock" "length ts = 2"
    using fe_demo_asleep by (elim exE conjE)
  have "ts ! 0 \<in> set ts" using r(3) by simp
  then have "destroyed (fe_data g) = 0 \<and> distinct (notified (fe_event g))"
    using future_event_delivers [OF r(1) fe_demo_hyps] r(2) by auto
  then show ?thesis using r by blast
qed

theorem future_event_no_hang_witness:
  "\<exists>g ts. fe_runs fe_demo g ts \<and> map feresults ts = [[], [Inr 42]] \<and> fepc (ts ! 1) = FeIdle"
proof -
  obtain g ts where r: "fe_runs fe_demo g ts" "map feresults ts = [[], [Inr 42]]" "map (fe_step g) ts = [None, None]"
    "length ts = 2" "Event_IsSet (fe_event g)" using fe_demo_end by (elim exE conjE)
  obtain a b where ts: "ts = [a, b]" using r(4) by (auto simp: length_Suc_conv numeral_2_eq_2)
  have "Event_IsSet (fe_event g)" using r(5) .
  moreover have "\<forall>t \<in> set ts. fe_step g t = None" using r(3) ts by simp
  ultimately have "fepc b = FeIdle" using future_event_no_hang [OF r(1) fe_demo_hyps] ts by auto
  then show ?thesis using r ts by (intro exI [of _ g] exI [of _ ts]) simp
qed

end
