(* ===== verification/Threads.thy ===== *)
theory Threads
  imports Crunch_Prelude
begin

text \<open>
  \<^verbatim>\<open>Thread\<close> (thread.hpp, thread.cpp, thread_data.hpp, thread_data.cpp and the Linux thread.cpp): the life
  of one thread and of the \<^verbatim>\<open>Data\<close> that its handle and the thread share, with cancellation.

  The references to \<^verbatim>\<open>Data\<close> are the handle's \<^verbatim>\<open>mData\<close>, the reference \<^verbatim>\<open>self\<close> that keeps it for the new
  thread, and the local one of \<^verbatim>\<open>EntryPoint\<close>; it is deleted with the last of them.  The thread that
  uses the handle is not one of the library's own, so that the cancellation point of \<^verbatim>\<open>Join\<close> does nothing
  to it.
\<close>

section \<open>Cancellation\<close>

record thread_flags =
  cancellationRequested :: bool
  cancellationEnabled :: bool
  canceled :: bool

definition Data_flags_init :: thread_flags where
  "Data_flags_init = \<lparr>cancellationRequested = False, cancellationEnabled = True, canceled = False\<rparr>"

text \<open>The functions on \<^verbatim>\<open>tCurrent\<close>, which is null outside the library's threads.\<close>

definition SetThreadCancellationPolicy :: "bool \<Rightarrow> thread_flags option \<Rightarrow> thread_flags option" where
  "SetThreadCancellationPolicy enableCancellation tCurrent =
     map_option (\<lambda>f. f\<lparr>cancellationEnabled := enableCancellation\<rparr>) tCurrent"

definition IsThreadCancellationEnabled :: "thread_flags option \<Rightarrow> bool" where
  "IsThreadCancellationEnabled tCurrent = (case tCurrent of None \<Rightarrow> False | Some f \<Rightarrow> cancellationEnabled f)"

definition IsThreadCancellationRequested :: "thread_flags option \<Rightarrow> bool" where
  "IsThreadCancellationRequested tCurrent = (case tCurrent of None \<Rightarrow> False | Some f \<Rightarrow> cancellationRequested f)"

datatype thread_exception = ThreadCanceled | ThreadResourceError

definition ThreadCancellationPoint ::
  "thread_flags option \<Rightarrow> (thread_exception + unit) \<times> thread_flags option" where
  "ThreadCancellationPoint tCurrent =
     (case tCurrent of None \<Rightarrow> (Inr (), None)
      | Some f \<Rightarrow> if cancellationRequested f \<and> \<not> canceled f
                  then (Inl ThreadCanceled, Some (f\<lparr>canceled := True\<rparr>)) else (Inr (), Some f))"

text \<open>\<^verbatim>\<open>ScopedThreadCancellationPolicy\<close>: what the constructor remembers, and the destructor.\<close>

definition ScopedPolicy_enter :: "bool \<Rightarrow> thread_flags option \<Rightarrow> bool \<times> thread_flags option" where
  "ScopedPolicy_enter enable tCurrent =
     (IsThreadCancellationEnabled tCurrent, SetThreadCancellationPolicy enable tCurrent)"

definition ScopedPolicy_leave :: "bool \<Rightarrow> thread_flags option \<Rightarrow> thread_flags option" where
  "ScopedPolicy_leave mPreviousState tCurrent = SetThreadCancellationPolicy mPreviousState tCurrent"

section \<open>Handle and thread\<close>

text \<open>What the function of a thread does: a cancellation point, one whose exception it catches to return
  early, a change of policy, an exception of its own.\<close>

datatype user_op = Point | PointCaught | Policy bool | Throw

datatype os_thread = NoThread | Ready "user_op list" | Running "user_op list" | Exited

datatype native = Unclaimed | Joined | Detached

record thread_sys =
  mData :: bool
  self_ref :: bool
  entry_ref :: bool
  deleted :: nat
  flags :: thread_flags
  has_id :: bool
  os :: os_thread
  native_thread :: native
  terminated :: bool

definition Thread_init :: thread_sys where
  "Thread_init = \<lparr>mData = False, self_ref = False, entry_ref = False, deleted = 0, flags = Data_flags_init,
     has_id = False, os = NoThread, native_thread = Unclaimed, terminated = False\<rparr>"

text \<open>The end of a reference.\<close>

definition dropped :: "'a thread_sys_scheme \<Rightarrow> 'a thread_sys_scheme" where
  "dropped s = (if mData s \<or> self_ref s \<or> entry_ref s then s else s\<lparr>deleted := Suc (deleted s)\<rparr>)"

text \<open>\<^verbatim>\<open>Create\<close>, until \<^verbatim>\<open>pthread_create\<close> has returned with success or failure, and its last line.\<close>

definition Thread_Create :: "bool \<Rightarrow> user_op list \<Rightarrow> thread_sys \<Rightarrow> (thread_exception + unit) \<times> thread_sys" where
  "Thread_Create ok ops s =
     (let s1 = s\<lparr>mData := True, self_ref := True, flags := Data_flags_init, has_id := False\<rparr>
      in if ok then (Inr (), s1\<lparr>os := Ready ops\<rparr>)
         else (Inl ThreadResourceError, dropped (dropped (s1\<lparr>self_ref := False\<rparr>)\<lparr>mData := False\<rparr>)))"

definition Thread_SetId :: "'a thread_sys_scheme \<Rightarrow> 'a thread_sys_scheme" where
  "Thread_SetId s = s\<lparr>has_id := True\<rparr>"

definition Thread_GetId :: "thread_sys \<Rightarrow> bool" where
  "Thread_GetId s = (mData s \<and> has_id s)"

definition Thread_IsJoinable :: "'a thread_sys_scheme \<Rightarrow> bool" where
  "Thread_IsJoinable s = mData s"

definition Thread_Cancel :: "'a thread_sys_scheme \<Rightarrow> 'a thread_sys_scheme" where
  "Thread_Cancel s = (if mData s then s\<lparr>flags := (flags s)\<lparr>cancellationRequested := True\<rparr>\<rparr> else s)"

definition Thread_IsCancellationRequested :: "thread_sys \<Rightarrow> bool" where
  "Thread_IsCancellationRequested s \<longleftrightarrow> mData s \<and> cancellationRequested (flags s) \<and> \<not> canceled (flags s)"

definition Thread_Detach :: "thread_sys \<Rightarrow> thread_sys" where
  "Thread_Detach s = (if mData s then dropped (s\<lparr>native_thread := Detached, mData := False\<rparr>) else s)"

text \<open>\<^verbatim>\<open>pthread_join\<close> blocks until the thread has ended.\<close>

definition Thread_Join :: "thread_sys \<Rightarrow> thread_sys option" where
  "Thread_Join s =
     (if \<not> mData s then Some s
      else if os s = Exited then Some (dropped (s\<lparr>native_thread := Joined, mData := False\<rparr>)) else None)"

definition Thread_destroy :: "thread_sys \<Rightarrow> thread_sys" where
  "Thread_destroy s = (if Thread_IsJoinable s then Thread_Detach (Thread_Cancel s) else s)"

text \<open>\<^verbatim>\<open>EntryPoint\<close>: taking over the reference, then the steps of the user's function, whose exceptions
  end the program.\<close>

definition EntryPoint_step :: "'a thread_sys_scheme \<Rightarrow> 'a thread_sys_scheme option" where
  "EntryPoint_step s =
     (case os s of
        NoThread \<Rightarrow> None
      | Exited \<Rightarrow> None
      | Ready ops \<Rightarrow> Some (s\<lparr>entry_ref := True, self_ref := False, os := Running ops\<rparr>)
      | Running [] \<Rightarrow> Some (dropped (s\<lparr>entry_ref := False, os := Exited\<rparr>))
      | Running (Policy b # ops) \<Rightarrow>
          Some (s\<lparr>flags := the (SetThreadCancellationPolicy b (Some (flags s))), os := Running ops\<rparr>)
      | Running (Throw # ops) \<Rightarrow> Some (s\<lparr>terminated := True\<rparr>)
      | Running (Point # ops) \<Rightarrow>
          (case ThreadCancellationPoint (Some (flags s)) of
             (Inl e, f) \<Rightarrow> Some (s\<lparr>flags := the f, terminated := True\<rparr>)
           | (Inr u, f) \<Rightarrow> Some (s\<lparr>os := Running ops\<rparr>))
      | Running (PointCaught # ops) \<Rightarrow>
          (case ThreadCancellationPoint (Some (flags s)) of
             (Inl e, f) \<Rightarrow> Some (s\<lparr>flags := the f, os := Running []\<rparr>)
           | (Inr u, f) \<Rightarrow> Some (s\<lparr>os := Running ops\<rparr>)))"

datatype thread_act = ACreate bool "user_op list" | ASetId | ACancel | AJoin | ADetach | ADestroy | AThread

text \<open>One handle is created once; nothing happens after \<^verbatim>\<open>std::terminate\<close>.\<close>

definition thread_next :: "thread_act \<Rightarrow> thread_sys \<Rightarrow> thread_sys option" where
  "thread_next a s =
     (if terminated s then None else case a of
        ACreate ok ops \<Rightarrow>
          if os s = NoThread \<and> \<not> mData s \<and> deleted s = 0 then Some (snd (Thread_Create ok ops s)) else None
      | ASetId \<Rightarrow> if os s \<noteq> NoThread \<and> mData s \<and> \<not> has_id s then Some (Thread_SetId s) else None
      | ACancel \<Rightarrow> if mData s \<longrightarrow> has_id s then Some (Thread_Cancel s) else None
      | AJoin \<Rightarrow> if mData s \<longrightarrow> has_id s then Thread_Join s else None
      | ADetach \<Rightarrow> if mData s \<longrightarrow> has_id s then Some (Thread_Detach s) else None
      | ADestroy \<Rightarrow> if mData s \<longrightarrow> has_id s then Some (Thread_destroy s) else None
      | AThread \<Rightarrow> EntryPoint_step s)"

section \<open>The life of the data\<close>

text \<open>Who holds the data in each state of the thread.\<close>

definition thread_inv :: "thread_sys \<Rightarrow> bool" where
  "thread_inv s \<longleftrightarrow>
     (case os s of
        NoThread \<Rightarrow> \<not> mData s \<and> \<not> self_ref s \<and> \<not> entry_ref s \<and> deleted s \<le> 1
      | Ready ops \<Rightarrow> self_ref s \<and> \<not> entry_ref s \<and> deleted s = 0
      | Running ops \<Rightarrow> \<not> self_ref s \<and> entry_ref s \<and> deleted s = 0
      | Exited \<Rightarrow> \<not> self_ref s \<and> \<not> entry_ref s \<and> deleted s = (if mData s then 0 else 1))
     \<and> (os s \<noteq> NoThread \<longrightarrow> (native_thread s = Unclaimed) = mData s)
     \<and> (os s = NoThread \<longrightarrow> native_thread s = Unclaimed)
     \<and> (native_thread s = Joined \<longrightarrow> os s = Exited)"

lemmas thread_defs = Thread_Create_def Thread_SetId_def Thread_Cancel_def Thread_Join_def Thread_Detach_def
  Thread_destroy_def Thread_IsJoinable_def dropped_def

lemma entry_point_inv: "thread_inv s \<Longrightarrow> EntryPoint_step s = Some s' \<Longrightarrow> thread_inv s'"
  by (cases "os s")
    (auto simp: thread_inv_def EntryPoint_step_def dropped_def ThreadCancellationPoint_def
       split: list.splits user_op.splits if_splits)

lemma detach_inv: "thread_inv s \<Longrightarrow> thread_inv (Thread_Detach s)"
  by (cases "os s") (auto simp: thread_inv_def Thread_Detach_def dropped_def)

lemma cancel_keeps: "thread_inv (Thread_Cancel s) = thread_inv s"
  by (cases "os s") (simp_all add: thread_inv_def Thread_Cancel_def)

lemma set_id_keeps: "thread_inv (Thread_SetId s) = thread_inv s"
  by (cases "os s") (simp_all add: thread_inv_def Thread_SetId_def)

lemma join_inv: "thread_inv s \<Longrightarrow> Thread_Join s = Some s' \<Longrightarrow> thread_inv s'"
  by (cases "os s"; cases "mData s") (auto simp: thread_inv_def Thread_Join_def dropped_def)

lemma thread_create_inv:
  "thread_inv s \<Longrightarrow> os s = NoThread \<Longrightarrow> deleted s = 0 \<Longrightarrow> thread_inv (snd (Thread_Create ok ops s))"
  by (cases ok) (simp_all add: thread_inv_def Thread_Create_def dropped_def Let_def)

lemma thread_inv_step:
  assumes "thread_inv s" "thread_next a s = Some s'"
  shows "thread_inv s'"
proof (cases a)
  case (ACreate ok ops)
  thus ?thesis using assms thread_create_inv [of s ok ops] by (simp add: thread_next_def split: if_split_asm)
next
  case AThread
  thus ?thesis using assms entry_point_inv by (auto simp: thread_next_def split: if_splits)
next
  case ADestroy
  thus ?thesis using assms detach_inv [of "Thread_Cancel s"]
    by (simp add: thread_next_def Thread_destroy_def cancel_keeps split: if_split_asm)
qed (use assms detach_inv join_inv in \<open>auto simp: thread_next_def cancel_keeps set_id_keeps split: if_split_asm\<close>)

interpretation thread: labelled_invariant thread_next thread_inv
  by unfold_locales (rule thread_inv_step)

lemma thread_inv_init: "thread_inv Thread_init"
  by (simp add: thread_inv_def Thread_init_def)

text \<open>What is left of a thread's work.\<close>

fun remaining :: "os_thread \<Rightarrow> nat" where
  "remaining (Ready ops) = length ops + 2"
| "remaining (Running ops) = length ops + 1"
| "remaining _ = 0"

lemma entry_point_progress:
  "0 < remaining (os s) \<Longrightarrow> \<exists>s'. EntryPoint_step s = Some s' \<and> (terminated s' \<or> remaining (os s') < remaining (os s))"
  by (cases "os s")
    (auto simp: EntryPoint_step_def dropped_def ThreadCancellationPoint_def split: list.splits user_op.splits)

text \<open>The data of a thread is deleted once: not while the handle or the thread can use it, and not later than
  when the thread has ended and the handle was joined, detached or destroyed.  \<^verbatim>\<open>Join\<close> lets the caller
  through only after the thread, and a thread that has not ended can take a step that brings it nearer
  to its end, or ends the program.\<close>

theorem thread_data_lifetime:
  assumes "reaches thread_next Thread_init s"
  shows "deleted s \<le> 1 \<and> (mData s \<or> 0 < remaining (os s) \<longrightarrow> deleted s = 0)
    \<and> (os s = Exited \<and> \<not> mData s \<longrightarrow> deleted s = 1) \<and> (native_thread s = Joined \<longrightarrow> os s = Exited)
    \<and> (0 < remaining (os s) \<longrightarrow>
         (\<exists>s'. EntryPoint_step s = Some s' \<and> (terminated s' \<or> remaining (os s') < remaining (os s))))"
  using thread.reachable [OF assms thread_inv_init] entry_point_progress [of s]
  by (cases "os s") (auto simp: thread_inv_def)

lemmas thread_eval = thread_next_def thread_defs Thread_init_def Data_flags_init_def EntryPoint_step_def
  ThreadCancellationPoint_def SetThreadCancellationPolicy_def Let_def

theorem thread_data_lifetime_witness:
  "\<exists>s. run_acts thread_next [ACreate True [PointCaught], ASetId, AThread, ACancel, AThread, AThread, AJoin] Thread_init = Some s
     \<and> os s = Exited \<and> native_thread s = Joined \<and> \<not> terminated s \<and> deleted s = 1"
proof -
  obtain s where s: "run_acts thread_next [ACreate True [PointCaught], ASetId, AThread, ACancel, AThread, AThread, AJoin]
      Thread_init = Some s" "os s = Exited" "\<not> mData s" "native_thread s = Joined" "\<not> terminated s"
    by (simp add: thread_eval)
  have "deleted s = 1" using thread_data_lifetime [OF run_acts_reaches [OF s(1)]] s(2,3) by blast
  with s show ?thesis by blast
qed

section \<open>Cancellation ends the program\<close>

definition cancel_inv :: "thread_sys \<Rightarrow> bool" where
  "cancel_inv s \<longleftrightarrow> (terminated s \<longrightarrow>
       (\<exists>ops. os s = Running (Throw # ops))
     \<or> (\<exists>ops. os s = Running (Point # ops)) \<and> canceled (flags s) \<and> cancellationRequested (flags s))
   \<and> (canceled (flags s) \<longrightarrow> terminated s \<or> os s = Running [] \<or> os s = Exited)"

lemma cancel_inv_step: "cancel_inv s \<Longrightarrow> thread_next a s = Some s' \<Longrightarrow> cancel_inv s'"
  by (cases a; cases "os s")
    (auto simp: cancel_inv_def thread_next_def thread_defs Data_flags_init_def EntryPoint_step_def
       ThreadCancellationPoint_def SetThreadCancellationPolicy_def Let_def
       split: if_splits list.splits user_op.splits)

interpretation cancel: labelled_invariant thread_next cancel_inv
  by unfold_locales (rule cancel_inv_step)

lemma cancel_inv_init: "cancel_inv Thread_init"
  by (simp add: cancel_inv_def Thread_init_def Data_flags_init_def)

text \<open>A thread that is to be cancelled, and that only sets its policy before it comes to a cancellation
  point.\<close>

definition to_be_cancelled :: "thread_sys \<Rightarrow> bool" where
  "to_be_cancelled s \<longleftrightarrow> (\<exists>bs ops. os s = Running (map Policy bs @ Point # ops))
     \<and> (terminated s \<or> cancellationRequested (flags s) \<and> \<not> canceled (flags s))"

lemma to_be_cancelled_step: "to_be_cancelled s \<Longrightarrow> thread_next a s = Some s' \<Longrightarrow> to_be_cancelled s'"
proof -
  assume t: "to_be_cancelled s" and st: "thread_next a s = Some s'"
  then obtain bs ops where os: "os s = Running (map Policy bs @ Point # ops)"
    and f: "cancellationRequested (flags s)" "\<not> canceled (flags s)"
    unfolding to_be_cancelled_def by (auto simp: thread_next_def split: if_splits)
  have same: "to_be_cancelled s'" if "os s' = os s" "cancellationRequested (flags s')" "\<not> canceled (flags s')"
    using that os unfolding to_be_cancelled_def by metis
  show ?thesis
  proof (cases "a = AThread")
    case True
    show ?thesis
    proof (cases bs)
      case Nil
      then have "os s' = Running (map Policy [] @ Point # ops)" "terminated s'"
        using st os f True by (auto simp: thread_next_def EntryPoint_step_def ThreadCancellationPoint_def
          split: if_splits)
      then show ?thesis unfolding to_be_cancelled_def by metis
    next
      case (Cons b bs')
      then have "os s' = Running (map Policy bs' @ Point # ops)" "cancellationRequested (flags s')" "\<not> canceled (flags s')"
        using st os f True by (auto simp: thread_next_def EntryPoint_step_def SetThreadCancellationPolicy_def
          split: if_splits)
      then show ?thesis unfolding to_be_cancelled_def by metis
    qed
  next
    case False
    then show ?thesis using st os f
      by (cases a; intro same) (auto simp: thread_next_def thread_defs split: if_splits)
  qed
qed

interpretation cancelled: labelled_invariant thread_next to_be_cancelled
  by unfold_locales (rule to_be_cancelled_step)

lemma cancelled_thread_terminates:
  "os s = Running (map Policy bs @ Point # ops) \<Longrightarrow> cancellationRequested (flags s) \<Longrightarrow> \<not> canceled (flags s)
     \<Longrightarrow> \<not> terminated s \<Longrightarrow> \<exists>s'. run_acts thread_next (replicate (length bs + 1) AThread) s = Some s' \<and> terminated s'"
  by (induction bs arbitrary: s)
    (auto simp: thread_next_def EntryPoint_step_def ThreadCancellationPoint_def SetThreadCancellationPolicy_def)

text \<open>Claim C39.
  The program is terminated only by an exception of the thread's function or at a cancellation point of
  a thread that was asked to cancel.  And that a thread disables cancellation does not help: if the owner
  of the handle cancels or destroys it while the thread, whatever its policy is, has nothing but changes of
  its policy before its next cancellation point, whose exception it does not catch, then the thread never
  ends in any continuation, and its steps end the program as soon as it is at that point.\<close>

theorem cancellation_terminates:
  assumes "reaches thread_next Thread_init s"
  shows "(terminated s \<longrightarrow> (\<exists>ops. os s = Running (Throw # ops))
            \<or> (\<exists>ops. os s = Running (Point # ops)) \<and> cancellationRequested (flags s))
   \<and> (\<forall>a bs ops. (a = ACancel \<or> a = ADestroy) \<and> mData s \<and> has_id s \<and> \<not> terminated s
        \<and> os s = Running (map Policy bs @ Point # ops) \<longrightarrow>
      (\<exists>s1. thread_next a s = Some s1
        \<and> (\<forall>s2. reaches thread_next s1 s2 \<longrightarrow> os s2 \<noteq> Exited)
        \<and> (\<exists>s2. run_acts thread_next (replicate (length bs + 1) AThread) s1 = Some s2 \<and> terminated s2)))"
proof (intro conjI allI impI)
  have inv: "cancel_inv s" using cancel.reachable [OF assms cancel_inv_init] .
  then show "(\<exists>ops. os s = Running (Throw # ops))
      \<or> (\<exists>ops. os s = Running (Point # ops)) \<and> cancellationRequested (flags s)" if "terminated s"
    using that unfolding cancel_inv_def by blast
  fix a bs ops
  assume a: "(a = ACancel \<or> a = ADestroy) \<and> mData s \<and> has_id s \<and> \<not> terminated s
      \<and> os s = Running (map Policy bs @ Point # ops)"
  then have c: "\<not> canceled (flags s)" using inv by (auto simp: cancel_inv_def)
  obtain s1 where s1: "thread_next a s = Some s1" "os s1 = Running (map Policy bs @ Point # ops)"
      "cancellationRequested (flags s1)" "\<not> canceled (flags s1)" "\<not> terminated s1"
    using a c by (auto simp: thread_next_def thread_defs)
  have "to_be_cancelled s1" using s1 unfolding to_be_cancelled_def by blast
  then have "os s2 \<noteq> Exited" if "reaches thread_next s1 s2" for s2
    using cancelled.reachable [OF that] by (auto simp: to_be_cancelled_def)
  then show "\<exists>s1. thread_next a s = Some s1
      \<and> (\<forall>s2. reaches thread_next s1 s2 \<longrightarrow> os s2 \<noteq> Exited)
      \<and> (\<exists>s2. run_acts thread_next (replicate (length bs + 1) AThread) s1 = Some s2 \<and> terminated s2)"
    using s1 cancelled_thread_terminates by blast
qed

text \<open>A thread that has disabled cancellation, and disables it again, and the destructor of its handle.\<close>

theorem cancellation_terminates_witness:
  "\<exists>s s1 s2. run_acts thread_next [ACreate True [Policy False, Policy False, Point], ASetId, AThread, AThread] Thread_init = Some s
     \<and> \<not> cancellationEnabled (flags s) \<and> thread_next ADestroy s = Some s1
     \<and> run_acts thread_next [AThread, AThread] s1 = Some s2 \<and> terminated s2"
proof -
  obtain s where s: "run_acts thread_next [ACreate True [Policy False, Policy False, Point], ASetId, AThread, AThread]
      Thread_init = Some s" "\<not> cancellationEnabled (flags s)" "mData s" "has_id s" "\<not> terminated s"
      "os s = Running (map Policy [False] @ Point # [])"
    by (simp add: thread_eval)
  have "\<exists>s1. thread_next ADestroy s = Some s1
      \<and> (\<exists>s2. run_acts thread_next (replicate (length [False] + 1) AThread) s1 = Some s2 \<and> terminated s2)"
    using cancellation_terminates [OF run_acts_reaches [OF s(1)]] s(3-6) by blast
  then obtain s1 s2 where "thread_next ADestroy s = Some s1"
      "run_acts thread_next [AThread, AThread] s1 = Some s2" "terminated s2"
    by (auto simp: numeral_2_eq_2)
  with s(1,2) show ?thesis by blast
qed

text \<open>A scope gives back the policy that it found, and no cancellation point throws twice.\<close>

lemma scoped_policy_roundtrip:
  "ScopedPolicy_enter b c = (p, c1) \<Longrightarrow> ScopedPolicy_leave p c1 = c"
  by (cases c) (auto simp: ScopedPolicy_enter_def ScopedPolicy_leave_def SetThreadCancellationPolicy_def
      IsThreadCancellationEnabled_def)

lemma cancellation_point_once:
  "ThreadCancellationPoint c = (Inl e, c1) \<Longrightarrow> ThreadCancellationPoint c1 = (Inr (), c1) \<and> IsThreadCancellationRequested c1"
  by (cases c) (auto simp: ThreadCancellationPoint_def IsThreadCancellationRequested_def split: if_splits)

end
