(* ===== verification/Thread_Handles.thy ===== *)
theory Thread_Handles
  imports Threads
begin

text \<open>
  Many threads and many handles (thread.hpp, thread.cpp, the Linux and the Windows thread.cpp): the
  operations of theory Threads on the thread that a handle owns, moves of handles, \<^verbatim>\<open>Join\<close> with the
  cancellation point of its caller, the Windows versions of the operations, and \<^verbatim>\<open>ThreadId\<close>.

  \<^verbatim>\<open>mData\<close> of a handle is an index into the list of all \<^verbatim>\<open>Data\<close> objects made so far.
\<close>

section \<open>ThreadId\<close>

text \<open>The POSIX version.  \<^verbatim>\<open>mId\<close> of a default constructed id has no value yet: what is found there is a
  parameter.  \<^verbatim>\<open>pthread_equal\<close> compares ids for equality.\<close>

record thread_id =
  mId :: nat
  mSet :: bool

definition ThreadId_none :: "nat \<Rightarrow> thread_id" where
  "ThreadId_none found = \<lparr>mId = found, mSet = False\<rparr>"

definition ThreadId_of :: "nat \<Rightarrow> thread_id" where
  "ThreadId_of i = \<lparr>mId = i, mSet = True\<rparr>"

definition ThreadId_eq :: "thread_id \<Rightarrow> thread_id \<Rightarrow> bool" where
  "ThreadId_eq a b = (if \<not> mSet a then \<not> mSet b else mId a = mId b)"

definition ThreadId_neq :: "thread_id \<Rightarrow> thread_id \<Rightarrow> bool" where
  "ThreadId_neq a b = (\<not> ThreadId_eq a b)"

definition ThreadId_GetNative :: "thread_id \<Rightarrow> nat" where
  "ThreadId_GetNative a = mId a"

text \<open>Two ids that are set, or neither, compare as they should; whether the id of a thread equals the id
  of no thread depends on what the latter's memory held, and on the side it stands on.\<close>

theorem thread_id_comparison:
  "ThreadId_eq (ThreadId_of i) (ThreadId_of j) = (i = j) \<and> ThreadId_eq (ThreadId_none m) (ThreadId_none n) \<and>
   \<not> ThreadId_eq (ThreadId_none m) (ThreadId_of i) \<and>
   ThreadId_eq (ThreadId_of i) (ThreadId_none n) = (n = i)"
  by (auto simp: ThreadId_eq_def ThreadId_of_def ThreadId_none_def)

text \<open>The Windows version is the number alone, which is 0 for no thread; the ids of threads are not 0.\<close>

definition ThreadId_none_win32 :: u32 where
  "ThreadId_none_win32 = 0"

definition ThreadId_of_win32 :: "u32 \<Rightarrow> u32" where
  "ThreadId_of_win32 i = i"

definition ThreadId_eq_win32 :: "u32 \<Rightarrow> u32 \<Rightarrow> bool" where
  "ThreadId_eq_win32 a b = (a = b)"

definition ThreadId_neq_win32 :: "u32 \<Rightarrow> u32 \<Rightarrow> bool" where
  "ThreadId_neq_win32 a b = (a \<noteq> b)"

theorem thread_id_comparison_win32:
  assumes "i \<noteq> 0"
  shows "ThreadId_eq_win32 (ThreadId_of_win32 i) (ThreadId_of_win32 j) = (i = j) \<and>
    \<not> ThreadId_eq_win32 ThreadId_none_win32 (ThreadId_of_win32 i) \<and>
    \<not> ThreadId_eq_win32 (ThreadId_of_win32 i) ThreadId_none_win32 \<and>
    (\<forall>a b. ThreadId_neq_win32 a b = (\<not> ThreadId_eq_win32 a b))"
  using assms by (simp add: ThreadId_eq_win32_def ThreadId_neq_win32_def ThreadId_of_win32_def ThreadId_none_win32_def)

section \<open>Handles\<close>

record th_sys =
  objs :: "thread_sys list"
  handles :: "nat \<Rightarrow> nat option"

definition th_init :: th_sys where
  "th_init = \<lparr>objs = [], handles = (\<lambda>_. None)\<rparr>"

text \<open>An operation on the data of a handle; the handle is null afterwards if it let go.\<close>

definition put_handle :: "nat \<Rightarrow> nat \<Rightarrow> thread_sys \<Rightarrow> th_sys \<Rightarrow> th_sys" where
  "put_handle h d x s =
     s\<lparr>objs := (objs s)[d := x], handles := (handles s)(h := if mData x then Some d else None)\<rparr>"

definition on_handle :: "(thread_sys \<Rightarrow> thread_sys) \<Rightarrow> nat \<Rightarrow> th_sys \<Rightarrow> th_sys" where
  "on_handle f h s = (case handles s h of None \<Rightarrow> s | Some d \<Rightarrow> put_handle h d (f (objs s ! d)) s)"

text \<open>\<^verbatim>\<open>Join\<close> by a thread with \<^verbatim>\<open>tCurrent\<close>: the outcome, its flags, and the data.\<close>

definition Thread_Join_call ::
  "thread_flags option \<Rightarrow> thread_sys \<Rightarrow> ((thread_exception + unit) \<times> thread_flags option \<times> thread_sys) option" where
  "Thread_Join_call tCurrent s =
     (case ThreadCancellationPoint tCurrent of
        (Inl e, cur) \<Rightarrow> Some (Inl e, cur, s)
      | (Inr u, cur) \<Rightarrow> map_option (\<lambda>s'. (Inr (), cur, s')) (Thread_Join s))"

definition Thread_construct :: "nat \<Rightarrow> bool \<Rightarrow> user_op list \<Rightarrow> th_sys \<Rightarrow> th_sys" where
  "Thread_construct h ok ops s =
     (let x = snd (Thread_Create ok ops Thread_init)
      in s\<lparr>objs := objs s @ [x], handles := (handles s)(h := if mData x then Some (length (objs s)) else None)\<rparr>)"

text \<open>The move constructor, into a handle that does not exist yet, and the move assignment.\<close>

definition Thread_move :: "nat \<Rightarrow> nat \<Rightarrow> th_sys \<Rightarrow> th_sys" where
  "Thread_move this rhs s = s\<lparr>handles := (handles s)(this := handles s rhs, rhs := None)\<rparr>"

definition Thread_assign :: "nat \<Rightarrow> nat \<Rightarrow> th_sys \<Rightarrow> th_sys" where
  "Thread_assign this rhs s =
     (if this = rhs then s
      else Thread_move this rhs
        (case handles s this of None \<Rightarrow> s
         | Some d \<Rightarrow> s\<lparr>objs := (objs s)[d := dropped ((objs s ! d)\<lparr>mData := False\<rparr>)]\<rparr>))"

datatype th_act =
    HCreate nat bool "user_op list"
  | HSetId nat
  | HCancel nat
  | HJoin nat "thread_flags option"
  | HDetach nat
  | HDestroy nat
  | HMove nat nat
  | HAssign nat nat
  | HThread nat \<comment> \<open>a step of the thread with that data\<close>

text \<open>Nobody else has the handle while its constructor has not returned.\<close>

definition usable :: "nat \<Rightarrow> th_sys \<Rightarrow> bool" where
  "usable h s = (case handles s h of None \<Rightarrow> True | Some d \<Rightarrow> has_id (objs s ! d))"

fun th_do :: "th_act \<Rightarrow> th_sys \<Rightarrow> th_sys option" where
  "th_do (HCreate h ok ops) s = (if handles s h = None then Some (Thread_construct h ok ops s) else None)"
| "th_do (HSetId h) s = (if \<not> usable h s then Some (on_handle Thread_SetId h s) else None)"
| "th_do (HCancel h) s = (if usable h s then Some (on_handle Thread_Cancel h s) else None)"
| "th_do (HJoin h cur) s =
     (if usable h s
      then (case handles s h of
              None \<Rightarrow> Some s
            | Some d \<Rightarrow> map_option (\<lambda>(r, cur', x). put_handle h d x s) (Thread_Join_call cur (objs s ! d)))
      else None)"
| "th_do (HDetach h) s = (if usable h s then Some (on_handle Thread_Detach h s) else None)"
| "th_do (HDestroy h) s = (if usable h s then Some (on_handle Thread_destroy h s) else None)"
| "th_do (HMove this rhs) s =
     (if handles s this = None \<and> this \<noteq> rhs \<and> usable rhs s then Some (Thread_move this rhs s) else None)"
| "th_do (HAssign this rhs) s =
     (if usable this s \<and> usable rhs s then Some (Thread_assign this rhs s) else None)"
| "th_do (HThread d) s =
     (if d < length (objs s)
      then map_option (\<lambda>x. s\<lparr>objs := (objs s)[d := x]\<rparr>) (EntryPoint_step (objs s ! d)) else None)"

text \<open>Nothing happens after \<^verbatim>\<open>std::terminate\<close>.\<close>

definition th_next :: "th_act \<Rightarrow> th_sys \<Rightarrow> th_sys option" where
  "th_next a s = (if list_ex terminated (objs s) then None else th_do a s)"

section \<open>Ownership\<close>

text \<open>One object: who holds it, and what became of the native thread.\<close>

definition obj_inv :: "thread_sys \<Rightarrow> bool" where
  "obj_inv x \<longleftrightarrow>
     (case os x of
        NoThread \<Rightarrow> \<not> mData x \<and> \<not> self_ref x \<and> \<not> entry_ref x \<and> deleted x = 1
      | Ready ops \<Rightarrow> self_ref x \<and> \<not> entry_ref x \<and> deleted x = 0
      | Running ops \<Rightarrow> \<not> self_ref x \<and> entry_ref x \<and> deleted x = 0
      | Exited \<Rightarrow> \<not> self_ref x \<and> \<not> entry_ref x \<and> deleted x = (if mData x then 0 else 1))
     \<and> (mData x \<longrightarrow> native_thread x = Unclaimed) \<and> (native_thread x = Joined \<longrightarrow> os x = Exited)"

text \<open>One handle for each object that has any.\<close>

definition th_inv :: "th_sys \<Rightarrow> bool" where
  "th_inv s \<longleftrightarrow> list_all obj_inv (objs s) \<and>
     (\<forall>h d. handles s h = Some d \<longrightarrow> d < length (objs s) \<and> mData (objs s ! d)) \<and>
     (\<forall>h k d. handles s h = Some d \<longrightarrow> handles s k = Some d \<longrightarrow> h = k) \<and>
     (\<forall>d < length (objs s). mData (objs s ! d) \<longrightarrow> (\<exists>h. handles s h = Some d))"

lemma obj_inv_entry: "obj_inv x \<Longrightarrow> EntryPoint_step x = Some y \<Longrightarrow> obj_inv y"
  by (cases "os x")
    (auto simp: obj_inv_def EntryPoint_step_def dropped_def ThreadCancellationPoint_def
       split: list.splits user_op.splits if_splits)

lemma obj_inv_detach: "obj_inv x \<Longrightarrow> obj_inv (Thread_Detach x)"
  by (cases "os x") (auto simp: obj_inv_def Thread_Detach_def dropped_def)

lemma obj_inv_let_go: "obj_inv x \<Longrightarrow> mData x \<Longrightarrow> obj_inv (dropped (x\<lparr>mData := False\<rparr>))"
  by (cases "os x") (auto simp: obj_inv_def dropped_def)

lemma obj_inv_cancel [simp]: "obj_inv (Thread_Cancel x) = obj_inv x"
  by (cases "os x") (simp_all add: obj_inv_def Thread_Cancel_def)

lemma obj_inv_set_id [simp]: "obj_inv (Thread_SetId x) = obj_inv x"
  by (cases "os x") (simp_all add: obj_inv_def Thread_SetId_def)

lemma obj_inv_join: "obj_inv x \<Longrightarrow> Thread_Join x = Some y \<Longrightarrow> obj_inv y"
  by (cases "os x"; cases "mData x") (auto simp: obj_inv_def Thread_Join_def dropped_def)

lemma obj_inv_destroy: "obj_inv x \<Longrightarrow> obj_inv (Thread_destroy x)"
  by (simp add: Thread_destroy_def obj_inv_detach)

lemma obj_inv_create: "obj_inv (snd (Thread_Create ok ops Thread_init))"
  by (cases ok) (simp_all add: obj_inv_def Thread_Create_def Thread_init_def dropped_def Let_def)

lemma mData_dropped [simp]: "mData (dropped x) = mData x"
  by (simp add: dropped_def)

lemma entry_keeps_handle: "EntryPoint_step x = Some y \<Longrightarrow> mData y = mData x"
  by (cases "os x")
    (auto simp: EntryPoint_step_def ThreadCancellationPoint_def split: list.splits user_op.splits if_splits)

text \<open>A change of the object of a handle, one of an object that keeps its handle, and a move.\<close>

lemma th_invD:
  assumes "th_inv s"
  shows "d < length (objs s) \<Longrightarrow> obj_inv (objs s ! d)"
    and "handles s h = Some d \<Longrightarrow> d < length (objs s) \<and> mData (objs s ! d)"
    and "handles s h = Some d \<Longrightarrow> handles s k = Some d \<Longrightarrow> h = k"
    and "d < length (objs s) \<Longrightarrow> mData (objs s ! d) \<Longrightarrow> \<exists>h. handles s h = Some d"
  using assms by (auto simp: th_inv_def list_all_length)

lemma th_invI:
  assumes "\<And>d. d < length (objs s) \<Longrightarrow> obj_inv (objs s ! d)"
    and "\<And>h d. handles s h = Some d \<Longrightarrow> d < length (objs s) \<and> mData (objs s ! d)"
    and "\<And>h k d. handles s h = Some d \<Longrightarrow> handles s k = Some d \<Longrightarrow> h = k"
    and "\<And>d. d < length (objs s) \<Longrightarrow> mData (objs s ! d) \<Longrightarrow> \<exists>h. handles s h = Some d"
  shows "th_inv s"
  using assms unfolding th_inv_def by (auto simp: list_all_length)

lemma th_inv_put:
  assumes inv: "th_inv s" and h: "handles s h = Some d" and x: "obj_inv x"
  shows "th_inv (put_handle h d x s)"
proof (rule th_invI)
  fix e assume e: "e < length (objs (put_handle h d x s))" "mData (objs (put_handle h d x s) ! e)"
  show "\<exists>k. handles (put_handle h d x s) k = Some e"
  proof (cases "e = d")
    case True
    then show ?thesis using e by (intro exI [of _ h]) (simp add: put_handle_def)
  next
    case False
    then obtain k where k: "handles s k = Some e" using th_invD(4) [OF inv, of e] e by (auto simp: put_handle_def)
    then have "k \<noteq> h" using h False by auto
    then show ?thesis using k by (intro exI [of _ k]) (simp add: put_handle_def)
  qed
next
  fix k e assume "handles (put_handle h d x s) k = Some e"
  then show "e < length (objs (put_handle h d x s)) \<and> mData (objs (put_handle h d x s) ! e)"
    using th_invD(2,3) [OF inv] h
    by (cases "k = h"; cases "e = d") (auto simp: put_handle_def split: if_splits)
next
  fix k l e assume "handles (put_handle h d x s) k = Some e" "handles (put_handle h d x s) l = Some e"
  then show "k = l" using th_invD(3) [OF inv] h
    by (cases "k = h"; cases "l = h") (auto simp: put_handle_def split: if_splits)
qed (use th_invD(1) [OF inv] th_invD(2) [OF inv h] x in \<open>auto simp: put_handle_def nth_list_update\<close>)

lemma th_inv_on_handle:
  assumes "th_inv s" and "\<And>x. obj_inv x \<Longrightarrow> obj_inv (f x)"
  shows "th_inv (on_handle f h s)"
proof (cases "handles s h")
  case (Some d)
  then have "obj_inv (objs s ! d)" using assms(1) by (auto simp: th_inv_def list_all_length)
  then show ?thesis using th_inv_put [OF assms(1) Some assms(2)] Some by (simp add: on_handle_def)
qed (use assms(1) in \<open>simp add: on_handle_def\<close>)

lemma th_inv_obj:
  assumes "th_inv s" and "obj_inv x" and "d < length (objs s)" and "mData x = mData (objs s ! d)"
  shows "th_inv (s\<lparr>objs := (objs s)[d := x]\<rparr>)"
  using assms unfolding th_inv_def by (auto simp: list_all_update nth_list_update)

lemma th_inv_move:
  assumes inv: "th_inv s" and "handles s this = None" and "this \<noteq> rhs"
  shows "th_inv (Thread_move this rhs s)"
proof (rule th_invI)
  fix d assume "d < length (objs (Thread_move this rhs s))" "mData (objs (Thread_move this rhs s) ! d)"
  then obtain k where k: "handles s k = Some d" using th_invD(4) [OF inv, of d] by (auto simp: Thread_move_def)
  then have "k \<noteq> this" using assms(2) by auto
  then show "\<exists>k. handles (Thread_move this rhs s) k = Some d" using k assms(3)
    by (intro exI [of _ "if k = rhs then this else k"]) (auto simp: Thread_move_def)
next
  fix k d assume "handles (Thread_move this rhs s) k = Some d"
  then show "d < length (objs (Thread_move this rhs s)) \<and> mData (objs (Thread_move this rhs s) ! d)"
    using th_invD(2) [OF inv] by (auto simp: Thread_move_def fun_upd_apply split: if_splits)
next
  fix k l d assume "handles (Thread_move this rhs s) k = Some d" "handles (Thread_move this rhs s) l = Some d"
  then show "k = l" using th_invD(3) [OF inv] by (auto simp: Thread_move_def fun_upd_apply split: if_splits)
qed (use th_invD(1) [OF inv] in \<open>simp add: Thread_move_def\<close>)

text \<open>Letting go of an object, as a null handle, without claiming its thread.\<close>

definition let_go :: "nat \<Rightarrow> th_sys \<Rightarrow> th_sys" where
  "let_go h s = on_handle (\<lambda>x. dropped (x\<lparr>mData := False\<rparr>)) h s"

lemma th_inv_let_go:
  assumes "th_inv s"
  shows "th_inv (let_go h s)" and "handles (let_go h s) h = None"
proof -
  show "th_inv (let_go h s)"
  proof (cases "handles s h")
    case (Some d)
    then have "obj_inv (dropped ((objs s ! d)\<lparr>mData := False\<rparr>))"
      using th_invD(1,2) [OF assms] by (blast intro: obj_inv_let_go)
    from th_inv_put [OF assms Some this] show ?thesis using Some by (simp add: let_go_def on_handle_def)
  qed (use assms in \<open>simp add: let_go_def on_handle_def\<close>)
  show "handles (let_go h s) h = None"
    by (simp add: let_go_def on_handle_def put_handle_def split: option.split)
qed

lemma Thread_assign_let_go:
  "this \<noteq> rhs \<Longrightarrow> Thread_assign this rhs s = Thread_move this rhs (let_go this s)"
  by (simp add: Thread_assign_def let_go_def on_handle_def put_handle_def Thread_move_def split: option.split)

lemma th_inv_construct:
  assumes inv: "th_inv s" and n: "handles s h = None"
  shows "th_inv (Thread_construct h ok ops s)"
proof -
  define x where "x = snd (Thread_Create ok ops Thread_init)"
  define s' where "s' = s\<lparr>objs := objs s @ [x]\<rparr>"
  have x: "obj_inv x" unfolding x_def by (rule obj_inv_create)
  have c: "Thread_construct h ok ops s =
      s'\<lparr>handles := (handles s)(h := if mData x then Some (length (objs s)) else None)\<rparr>"
    by (simp add: Thread_construct_def x_def s'_def Let_def)
  show ?thesis unfolding c
  proof (rule th_invI)
    fix d
    assume d: "d < length (objs (s'\<lparr>handles := (handles s)(h := if mData x then Some (length (objs s)) else None)\<rparr>))"
      "mData (objs (s'\<lparr>handles := (handles s)(h := if mData x then Some (length (objs s)) else None)\<rparr>) ! d)"
    show "\<exists>k. handles (s'\<lparr>handles := (handles s)(h := if mData x then Some (length (objs s)) else None)\<rparr>) k = Some d"
    proof (cases "d = length (objs s)")
      case True
      then show ?thesis using d by (intro exI [of _ h]) (simp add: s'_def)
    next
      case False
      then obtain k where "handles s k = Some d"
        using d th_invD(4) [OF inv, of d] by (auto simp: s'_def nth_append)
      then show ?thesis using n by (intro exI [of _ k]) (auto simp: fun_upd_apply)
    qed
  qed (use th_invD [OF inv] x in \<open>auto simp: s'_def nth_append fun_upd_apply less_Suc_eq split: if_splits\<close>)
qed

lemma th_inv_step:
  assumes inv: "th_inv s" and st: "th_next a s = Some s'"
  shows "th_inv s'"
proof (cases a)
  case (HCreate h ok ops)
  then show ?thesis using st th_inv_construct [OF inv] by (auto simp: th_next_def split: if_splits)
next
  case (HSetId h)
  then show ?thesis using st th_inv_on_handle [OF inv, of Thread_SetId h] by (simp add: th_next_def split: if_splits)
next
  case (HCancel h)
  then show ?thesis using st th_inv_on_handle [OF inv, of Thread_Cancel h] by (simp add: th_next_def split: if_splits)
next
  case (HDetach h)
  then show ?thesis using st th_inv_on_handle [OF inv, of Thread_Detach h] obj_inv_detach by (simp add: th_next_def split: if_splits)
next
  case (HDestroy h)
  then show ?thesis using st th_inv_on_handle [OF inv, of Thread_destroy h] obj_inv_destroy by (simp add: th_next_def split: if_splits)
next
  case (HMove this rhs)
  then show ?thesis using st th_inv_move [OF inv, of this rhs] by (simp add: th_next_def split: if_splits)
next
  case (HAssign this rhs)
  then have s': "s' = Thread_assign this rhs s" using st by (simp add: th_next_def split: if_splits)
  show ?thesis
  proof (cases "this = rhs")
    case False
    then show ?thesis unfolding s' Thread_assign_let_go [OF False]
      by (intro th_inv_move th_inv_let_go [OF inv])
  qed (use inv s' in \<open>simp add: Thread_assign_def\<close>)
next
  case (HJoin h cur)
  then consider "s' = s"
    | d r cur' x where "handles s h = Some d" "Thread_Join_call cur (objs s ! d) = Some (r, cur', x)"
        "s' = put_handle h d x s"
    using st by (auto simp: th_next_def split: if_splits option.splits)
  then show ?thesis
  proof cases
    case (2 d r cur' x)
    have "obj_inv (objs s ! d)" using th_invD(1,2) [OF inv] 2(1) by blast
    then have "obj_inv x" using 2(2) obj_inv_join by (auto simp: Thread_Join_call_def split: prod.splits sum.splits)
    then show ?thesis unfolding 2(3) by (rule th_inv_put [OF inv 2(1)])
  qed (use inv in simp)
next
  case (HThread d)
  then obtain x where "d < length (objs s)" "EntryPoint_step (objs s ! d) = Some x"
    and "s' = s\<lparr>objs := (objs s)[d := x]\<rparr>" using st by (auto simp: th_next_def split: if_splits)
  then show ?thesis using th_inv_obj [OF inv _ _ entry_keeps_handle] th_invD(1) [OF inv] obj_inv_entry by blast
qed

interpretation handles: labelled_invariant th_next th_inv
  by unfold_locales (rule th_inv_step)

lemma th_inv_init: "th_inv th_init"
  by (simp add: th_inv_def th_init_def)

lemma obj_inv_facts:
  assumes "obj_inv x"
  shows "deleted x \<le> 1 \<and> (os x = Exited \<and> \<not> mData x \<longrightarrow> deleted x = 1) \<and>
      (native_thread x = Joined \<longrightarrow> os x = Exited) \<and> (0 < remaining (os x) \<longrightarrow> deleted x = 0)"
    and "mData x \<Longrightarrow> native_thread x = Unclaimed \<and> deleted x = 0"
  using assms by (cases "os x"; auto simp: obj_inv_def)+

text \<open>Claim C27.
  Any number of handles and threads, made, cancelled, joined, detached, moved, assigned and destroyed in any
  order: no two handles own the same thread; the data of a handle exists, and its native thread is neither
  joined nor detached yet, so that none is joined or detached twice; each object is deleted once, not
  while its thread has steps to make, and not later than when the thread has ended and no handle owns
  it; a joined thread has ended; and a thread that has not ended can take a step that brings it nearer to
  its end, or ends the program.\<close>

theorem thread_handles_own:
  assumes "reaches th_next th_init s"
  shows "(\<forall>h d. handles s h = Some d \<longrightarrow>
      d < length (objs s) \<and> deleted (objs s ! d) = 0 \<and> native_thread (objs s ! d) = Unclaimed \<and>
      (\<forall>k. handles s k = Some d \<longrightarrow> k = h)) \<and>
    (\<forall>x \<in> set (objs s). deleted x \<le> 1 \<and> (os x = Exited \<and> \<not> mData x \<longrightarrow> deleted x = 1) \<and>
      (native_thread x = Joined \<longrightarrow> os x = Exited) \<and>
      (0 < remaining (os x) \<longrightarrow> deleted x = 0 \<and>
        (\<exists>y. EntryPoint_step x = Some y \<and> (terminated y \<or> remaining (os y) < remaining (os x)))))"
proof -
  have inv: "th_inv s" by (rule handles.reachable [OF assms th_inv_init])
  have x: "obj_inv x" if "x \<in> set (objs s)" for x using inv that by (simp add: th_inv_def list_all_iff)
  have "d < length (objs s) \<and> deleted (objs s ! d) = 0 \<and> native_thread (objs s ! d) = Unclaimed \<and>
      (\<forall>k. handles s k = Some d \<longrightarrow> k = h)" if "handles s h = Some d" for h d
    using th_invD(1-3) [OF inv] that obj_inv_facts(2) by metis
  then show ?thesis using obj_inv_facts(1) [OF x] entry_point_progress by blast
qed

text \<open>Two threads, one of which runs and is joined, and the handle of the other is moved.\<close>

lemmas th_eval = th_next_def th_init_def Thread_construct_def on_handle_def put_handle_def usable_def
  Thread_assign_def Thread_move_def Thread_Join_call_def thread_defs Thread_init_def Data_flags_init_def
  EntryPoint_step_def ThreadCancellationPoint_def Let_def

theorem thread_handles_own_witness:
  "\<exists>s. run_acts th_next [HCreate 0 True [], HCreate 1 True [], HSetId 0, HSetId 1, HThread 1, HThread 1, HJoin 1 None,
       HMove 1 0] th_init = Some s \<and> handles s 1 = Some 0 \<and> handles s 0 = None \<and>
     deleted (objs s ! 0) = 0 \<and> deleted (objs s ! 1) = 1"
proof -
  obtain s where s: "run_acts th_next [HCreate 0 True [], HCreate 1 True [], HSetId 0, HSetId 1, HThread 1, HThread 1,
      HJoin 1 None, HMove 1 0] th_init = Some s" "handles s 1 = Some 0" "handles s 0 = None"
      "os (objs s ! 1) = Exited" "\<not> mData (objs s ! 1)" "length (objs s) = 2"
    by (simp add: th_eval)
  have "objs s ! 1 \<in> set (objs s)" using s(6) by simp
  then have "deleted (objs s ! 0) = 0 \<and> deleted (objs s ! 1) = 1"
    using thread_handles_own [OF run_acts_reaches [OF s(1)]] s(2,4,5) by blast
  with s show ?thesis by blast
qed

section \<open>Assigning over a thread\<close>

definition th_careful :: "th_act \<Rightarrow> th_sys \<Rightarrow> th_sys option" where
  "th_careful a s =
     (case a of HAssign this rhs \<Rightarrow> if this = rhs \<or> handles s this = None then th_next a s else None
      | _ \<Rightarrow> th_next a s)"

definition claimed :: "thread_sys \<Rightarrow> bool" where
  "claimed x \<longleftrightarrow> os x \<noteq> NoThread \<and> \<not> mData x \<longrightarrow> native_thread x \<noteq> Unclaimed"

lemma claimed_ops:
  "claimed (Thread_Detach x) \<longleftrightarrow> mData x \<or> claimed x" "claimed (Thread_Cancel x) = claimed x"
  "claimed (Thread_SetId x) = claimed x" "Thread_Join x = Some y \<Longrightarrow> claimed x \<Longrightarrow> claimed y"
  "claimed (snd (Thread_Create ok ops Thread_init))"
  by (auto simp: claimed_def thread_defs Let_def Thread_init_def split: if_splits)

lemma claimed_destroy: "claimed x \<Longrightarrow> claimed (Thread_destroy x)"
  by (simp add: Thread_destroy_def claimed_ops)

lemma claimed_entry: "EntryPoint_step x = Some y \<Longrightarrow> claimed x \<Longrightarrow> claimed y"
  by (cases "os x")
    (auto simp: claimed_def EntryPoint_step_def ThreadCancellationPoint_def dropped_def
       split: list.splits user_op.splits if_splits)

lemma claimed_on_handle:
  "list_all claimed (objs s) \<Longrightarrow> th_inv s \<Longrightarrow> (\<And>x. claimed x \<Longrightarrow> claimed (f x)) \<Longrightarrow>
   list_all claimed (objs (on_handle f h s))"
  using th_invD(2) [of s h]
  by (auto simp: on_handle_def put_handle_def list_all_length nth_list_update split: option.split)

definition careful_inv :: "th_sys \<Rightarrow> bool" where
  "careful_inv s \<longleftrightarrow> th_inv s \<and> list_all claimed (objs s)"

lemma careful_next: "th_careful a s = Some s' \<Longrightarrow> th_next a s = Some s'"
  by (auto simp: th_careful_def split: th_act.splits if_splits)

lemma careful_step:
  assumes "careful_inv s" and st: "th_careful a s = Some s'"
  shows "careful_inv s'"
proof -
  have inv: "th_inv s" and c: "list_all claimed (objs s)" using assms(1) by (simp_all add: careful_inv_def)
  have nx: "th_do a s = Some s'" using careful_next [OF st] by (simp add: th_next_def split: if_splits)
  have "list_all claimed (objs s')"
  proof (cases a)
    case (HCreate h ok ops)
    then show ?thesis using nx c claimed_ops(5) by (auto simp: Thread_construct_def Let_def split: if_splits)
  next
    case (HSetId h)
    then show ?thesis using nx claimed_on_handle [OF c inv, of Thread_SetId] by (auto simp: claimed_ops split: if_splits)
  next
    case (HCancel h)
    then show ?thesis using nx claimed_on_handle [OF c inv, of Thread_Cancel] by (auto simp: claimed_ops split: if_splits)
  next
    case (HDetach h)
    then show ?thesis using nx claimed_on_handle [OF c inv, of Thread_Detach] by (auto simp: claimed_ops split: if_splits)
  next
    case (HDestroy h)
    then show ?thesis using nx claimed_on_handle [OF c inv, of Thread_destroy] claimed_destroy by (auto split: if_splits)
  next
    case (HMove this rhs)
    then show ?thesis using nx c by (auto simp: Thread_move_def split: if_splits)
  next
    case (HAssign this rhs)
    then have "this = rhs \<or> handles s this = None" using st by (auto simp: th_careful_def split: if_splits)
    then show ?thesis using nx c HAssign by (auto simp: Thread_assign_def Thread_move_def split: if_splits)
  next
    case (HJoin h cur)
    then show ?thesis using nx c claimed_ops(4)
      by (auto simp: put_handle_def Thread_Join_call_def list_all_length nth_list_update
          split: if_splits option.splits prod.splits sum.splits dest!: th_invD(2) [OF inv])
  next
    case (HThread d)
    then show ?thesis using nx c claimed_entry by (auto simp: list_all_length nth_list_update split: if_splits)
  qed
  then show ?thesis using th_inv_step [OF inv careful_next [OF st]] by (simp add: careful_inv_def)
qed

interpretation careful: labelled_invariant th_careful careful_inv
  by unfold_locales (rule careful_step)

lemma careful_reachable: "reaches th_careful th_init s \<Longrightarrow> careful_inv s"
  by (erule careful.reachable) (simp add: careful_inv_def th_inv_def th_init_def)

text \<open>An object that has lost its handle is out of reach of all operations.\<close>

definition orphan :: "th_sys \<Rightarrow> bool" where
  "orphan s \<longleftrightarrow> th_inv s \<and> 0 < length (objs s) \<and> os (objs s ! 0) = Exited \<and> \<not> mData (objs s ! 0) \<and>
     native_thread (objs s ! 0) = Unclaimed"

lemma orphan_on_handle:
  assumes "orphan s" and "handles s h = Some d"
  shows "(objs s)[d := x] ! 0 = objs s ! 0" and "0 < length (objs s)"
  using th_invD(2) [of s h d] assms by (cases d; auto simp: orphan_def)+

lemma orphan_step:
  assumes o: "orphan s" and st: "th_next a s = Some s'"
  shows "orphan s'"
proof -
  have inv: "th_inv s" using o by (simp add: orphan_def)
  have nx: "th_do a s = Some s'" using st by (simp add: th_next_def split: if_splits)
  have "0 < length (objs s') \<and> objs s' ! 0 = objs s ! 0"
  proof (cases a)
    case (HCreate h ok ops)
    then show ?thesis using nx o by (auto simp: Thread_construct_def Let_def orphan_def nth_append split: if_splits)
  next
    case (HThread d)
    then show ?thesis using nx o
      by (cases d) (auto simp: orphan_def EntryPoint_step_def split: if_splits)
  qed (use nx orphan_on_handle [OF o] o in \<open>auto simp: on_handle_def put_handle_def Thread_move_def Thread_assign_def
      orphan_def split: if_splits option.splits\<close>)
  then show ?thesis using o th_inv_step [OF inv st] by (simp add: orphan_def)
qed

interpretation orphans: labelled_invariant th_next orphan
  by unfold_locales (rule orphan_step)

text \<open>Claim C40.
  As long as no handle that owns a thread is assigned over, every thread that was created and has no handle
  any more was joined or detached.  Assigning over such a handle, on the other hand, loses the thread: the
  assignment neither joins nor detaches it, and nothing that happens afterwards ever does.\<close>

theorem assigned_over_thread_lost:
  "\<not> (\<exists>s x. reaches th_careful th_init s \<and> x \<in> set (objs s) \<and> os x \<noteq> NoThread \<and> \<not> mData x \<and>
      native_thread x = Unclaimed) \<and>
   (\<exists>s. reaches th_next th_init s \<and> os (objs s ! 0) = Exited \<and> handles s 0 = None \<and>
      \<not> (\<exists>s'. reaches th_next s s' \<and> native_thread (objs s' ! 0) \<noteq> Unclaimed))"
proof
  show "\<not> (\<exists>s x. reaches th_careful th_init s \<and> x \<in> set (objs s) \<and> os x \<noteq> NoThread \<and> \<not> mData x \<and>
      native_thread x = Unclaimed)"
    using careful_reachable by (fastforce simp: careful_inv_def list_all_iff claimed_def)
next
  obtain s where s: "run_acts th_next [HCreate 0 True [], HSetId 0, HThread 0, HThread 0, HAssign 0 1] th_init = Some s"
      "os (objs s ! 0) = Exited" "handles s 0 = None" "length (objs s) = 1" "\<not> mData (objs s ! 0)"
      "native_thread (objs s ! 0) = Unclaimed"
    by (simp add: th_eval)
  have "th_inv s" by (rule handles.reachable [OF run_acts_reaches [OF s(1)] th_inv_init])
  then have "orphan s" using s by (simp add: orphan_def)
  then have "\<not> (\<exists>s'. reaches th_next s s' \<and> native_thread (objs s' ! 0) \<noteq> Unclaimed)"
    using orphans.reachable by (fastforce simp: orphan_def)
  then show "\<exists>s. reaches th_next th_init s \<and> os (objs s ! 0) = Exited \<and> handles s 0 = None \<and>
      \<not> (\<exists>s'. reaches th_next s s' \<and> native_thread (objs s' ! 0) \<noteq> Unclaimed)"
    using run_acts_reaches [OF s(1)] s(2,3) by blast
qed

section \<open>Windows\<close>

text \<open>The Windows versions of the operations, which own the handle of the thread.  Closing it twice, or
  when it was never opened, is \<open>BadClose\<close>.\<close>

datatype win_handle = NullHandle | OpenHandle | ClosedHandle | BadClose

record win_thread = thread_sys +
  handle :: win_handle

definition CloseHandle :: "win_handle \<Rightarrow> win_handle" where
  "CloseHandle h = (if h = OpenHandle then ClosedHandle else BadClose)"

definition Win_init :: win_thread where
  "Win_init = thread_sys.extend Thread_init \<lparr>handle = NullHandle\<rparr>"

definition Thread_Create_win32 :: "bool \<Rightarrow> user_op list \<Rightarrow> win_thread \<Rightarrow> (thread_exception + unit) \<times> win_thread" where
  "Thread_Create_win32 ok ops w =
     (let w1 = w\<lparr>mData := True, self_ref := True, flags := Data_flags_init, has_id := False, handle := NullHandle\<rparr>;
          w2 = w1\<lparr>handle := if ok then OpenHandle else NullHandle\<rparr>
      in if handle w2 = NullHandle
         then (Inl ThreadResourceError, dropped (dropped (w2\<lparr>self_ref := False\<rparr>)\<lparr>mData := False\<rparr>))
         else (Inr (), w2\<lparr>os := Ready ops\<rparr>))"

definition Thread_Detach_win32 :: "win_thread \<Rightarrow> win_thread" where
  "Thread_Detach_win32 w =
     (if mData w then dropped (w\<lparr>handle := CloseHandle (handle w), mData := False\<rparr>) else w)"

definition Thread_Join_win32 :: "win_thread \<Rightarrow> win_thread option" where
  "Thread_Join_win32 w =
     (if \<not> mData w then Some w
      else if os w = Exited then Some (dropped (w\<lparr>handle := CloseHandle (handle w), mData := False\<rparr>)) else None)"

definition Thread_destroy_win32 :: "win_thread \<Rightarrow> win_thread" where
  "Thread_destroy_win32 w = (if Thread_IsJoinable w then Thread_Detach_win32 (Thread_Cancel w) else w)"

definition win_next :: "thread_act \<Rightarrow> win_thread \<Rightarrow> win_thread option" where
  "win_next a w =
     (if terminated w then None else case a of
        ACreate ok ops \<Rightarrow>
          if os w = NoThread \<and> \<not> mData w \<and> deleted w = 0 then Some (snd (Thread_Create_win32 ok ops w)) else None
      | ASetId \<Rightarrow> if os w \<noteq> NoThread \<and> mData w \<and> \<not> has_id w then Some (Thread_SetId w) else None
      | ACancel \<Rightarrow> if mData w \<longrightarrow> has_id w then Some (Thread_Cancel w) else None
      | AJoin \<Rightarrow> if mData w \<longrightarrow> has_id w then Thread_Join_win32 w else None
      | ADetach \<Rightarrow> if mData w \<longrightarrow> has_id w then Some (Thread_Detach_win32 w) else None
      | ADestroy \<Rightarrow> if mData w \<longrightarrow> has_id w then Some (Thread_destroy_win32 w) else None
      | AThread \<Rightarrow> EntryPoint_step w)"

text \<open>The handle against what became of the POSIX thread.\<close>

definition win_eq :: "win_thread \<Rightarrow> thread_sys \<Rightarrow> bool" where
  "win_eq w s \<longleftrightarrow>
     thread_sys.truncate w = s\<lparr>native_thread := Unclaimed\<rparr> \<and>
     handle w = (if os s = NoThread then NullHandle else if native_thread s = Unclaimed then OpenHandle else ClosedHandle)"

definition win_rel :: "win_thread \<Rightarrow> thread_sys \<Rightarrow> bool" where
  "win_rel w s \<longleftrightarrow> thread_inv s \<and> win_eq w s"

lemma win_eq_entry: "win_eq w s \<Longrightarrow> rel_option win_eq (EntryPoint_step w) (EntryPoint_step s)"
  by (cases w; cases s) (auto simp: win_eq_def thread_sys.defs EntryPoint_step_def ThreadCancellationPoint_def
     dropped_def split: os_thread.splits list.splits user_op.splits if_splits)

lemma win_eq_ops:
  assumes "win_eq w s"
  shows "win_eq (Thread_SetId w) (Thread_SetId s)" and "win_eq (Thread_Cancel w) (Thread_Cancel s)"
    and "(mData s \<longrightarrow> os s \<noteq> NoThread \<and> native_thread s = Unclaimed) \<Longrightarrow>
      win_eq (Thread_Detach_win32 w) (Thread_Detach s) \<and> rel_option win_eq (Thread_Join_win32 w) (Thread_Join s)"
    and "os s = NoThread \<Longrightarrow> native_thread s = Unclaimed \<Longrightarrow>
      win_eq (snd (Thread_Create_win32 ok ops w)) (snd (Thread_Create ok ops s))"
proof -
  show "win_eq (Thread_SetId w) (Thread_SetId s)" using assms
    by (cases w; cases s) (simp add: win_eq_def thread_sys.defs Thread_SetId_def)
  show "win_eq (Thread_Cancel w) (Thread_Cancel s)" using assms
    by (cases w; cases s) (simp add: win_eq_def thread_sys.defs Thread_Cancel_def)
  show "(mData s \<longrightarrow> os s \<noteq> NoThread \<and> native_thread s = Unclaimed) \<Longrightarrow>
      win_eq (Thread_Detach_win32 w) (Thread_Detach s) \<and> rel_option win_eq (Thread_Join_win32 w) (Thread_Join s)"
    using assms by (cases w; cases s) (auto simp: win_eq_def thread_sys.defs Thread_Detach_def
      Thread_Detach_win32_def Thread_Join_def Thread_Join_win32_def CloseHandle_def dropped_def)
  show "os s = NoThread \<Longrightarrow> native_thread s = Unclaimed \<Longrightarrow>
      win_eq (snd (Thread_Create_win32 ok ops w)) (snd (Thread_Create ok ops s))"
    using assms by (cases w; cases s; cases ok) (simp_all add: win_eq_def thread_sys.defs Thread_Create_def
      Thread_Create_win32_def dropped_def Let_def)
qed

lemma thread_inv_owned:
  assumes "thread_inv s"
  shows "mData s \<longrightarrow> os s \<noteq> NoThread \<and> native_thread s = Unclaimed" and "os s = NoThread \<longrightarrow> native_thread s = Unclaimed"
  using assms by (auto simp: thread_inv_def)

lemma win_rel_fields:
  "win_eq w s \<Longrightarrow> os w = os s \<and> mData w = mData s \<and> deleted w = deleted s \<and> has_id w = has_id s \<and>
     terminated w = terminated s"
  by (cases w; cases s) (auto simp: win_eq_def thread_sys.defs)

lemma win_eq_step:
  assumes "win_eq w s" and inv: "thread_inv s"
  shows "rel_option win_eq (win_next a w) (thread_next a s)"
proof -
  have c: "thread_inv (Thread_Cancel s)" using inv by (simp add: cancel_keeps)
  note ops = win_eq_ops [OF assms(1)] win_eq_ops(3) [OF win_eq_ops(2) [OF assms(1)]]
  show ?thesis
    using ops(1,2,4) ops(3) [OF thread_inv_owned(1) [OF inv]] ops(5) [OF thread_inv_owned(1) [OF c]]
      thread_inv_owned(2) [OF inv] win_rel_fields [OF assms(1)] win_eq_entry [OF assms(1)] assms(1)
    by (cases a) (simp_all add: win_next_def thread_next_def Thread_destroy_def Thread_destroy_win32_def
      Thread_IsJoinable_def)
qed

lemma win_rel_step:
  assumes "win_rel w s"
  shows "rel_option win_rel (win_next a w) (thread_next a s)"
proof -
  have "thread_inv s'" if "thread_next a s = Some s'" for s'
    using thread_inv_step that assms by (auto simp: win_rel_def)
  then show ?thesis using win_eq_step [of w s a] assms
    by (cases "win_next a w"; cases "thread_next a s") (auto simp: win_rel_def)
qed

text \<open>The Windows operations are the POSIX ones: on every sequence of operations on a handle and steps of its
  thread, either can go on exactly when the other can, with the same handle, data, flags and thread; the
  Windows handle of the thread is open exactly until the thread was joined or detached, and no handle is
  closed twice.\<close>

theorem win32_threads_equal_posix:
  "rel_option (\<lambda>w s. thread_sys.truncate w = s\<lparr>native_thread := Unclaimed\<rparr> \<and>
       handle w = (if os s = NoThread then NullHandle
         else if native_thread s = Unclaimed then OpenHandle else ClosedHandle))
     (run_acts win_next as Win_init) (run_acts thread_next as Thread_init)"
proof -
  have run: "win_rel w s \<Longrightarrow> rel_option win_rel (run_acts win_next as w) (run_acts thread_next as s)" for w s
  proof (induction "as" arbitrary: w s)
    case (Cons a "as")
    have "rel_option win_rel (win_next a w) (thread_next a s)" by (rule win_rel_step [OF Cons.prems])
    then show ?case by (cases rule: option.rel_cases) (simp_all add: Cons.IH)
  qed simp
  have "win_rel Win_init Thread_init"
    using thread_inv_init by (simp add: win_rel_def win_eq_def Win_init_def Thread_init_def thread_sys.defs)
  from run [OF this] show ?thesis by (rule option.rel_mono_strong) (simp add: win_rel_def win_eq_def)
qed

end
