(* ===== verification/System_Mutex.thy ===== *)
theory System_Mutex
  imports System_Sync
begin

text \<open>
  \<^verbatim>\<open>SystemMutex\<close> and \<^verbatim>\<open>LockGuard\<close> (detail/system_mutex.hpp, lock_guard.hpp and the system_mutex.cpp of each
  platform) and the Windows \<^verbatim>\<open>SystemEvent\<close>.

  The mutex of pthreads is its owner; a lock that is not free blocks (\<open>None\<close>), for its owner too.  A
  Windows critical section counts the entries of its owner.  Unlocking a mutex that one does not own is
  undefined (\<open>None\<close>).
\<close>

section \<open>The mutex of Linux and Darwin\<close>

definition SystemMutex_init :: "'t option" where
  "SystemMutex_init = None"

definition SystemMutex_Lock :: "'t \<Rightarrow> 't option \<Rightarrow> 't option option" where
  "SystemMutex_Lock t m = (if m = None then Some (Some t) else None)"

definition SystemMutex_TryLock :: "'t \<Rightarrow> 't option \<Rightarrow> bool \<times> 't option" where
  "SystemMutex_TryLock t m = (if m = None then (True, Some t) else (False, m))"

definition SystemMutex_Unlock :: "'t \<Rightarrow> 't option \<Rightarrow> 't option option" where
  "SystemMutex_Unlock t m = (if m = Some t then Some None else None)"

text \<open>The constructor and the destructor of \<^verbatim>\<open>LockGuard\<close>.\<close>

definition LockGuard_enter :: "'t \<Rightarrow> 't option \<Rightarrow> 't option option" where
  "LockGuard_enter t mLockable = SystemMutex_Lock t mLockable"

definition LockGuard_leave :: "'t \<Rightarrow> 't option \<Rightarrow> 't option option" where
  "LockGuard_leave t mLockable = SystemMutex_Unlock t mLockable"

section \<open>The mutex of Windows\<close>

record 't critical_section =
  cs_owner :: "'t option"
  cs_count :: nat

definition SystemMutex_init_win32 :: "'t critical_section" where
  "SystemMutex_init_win32 = \<lparr>cs_owner = None, cs_count = 0\<rparr>"

definition SystemMutex_TryLock_win32 :: "'t \<Rightarrow> 't critical_section \<Rightarrow> bool \<times> 't critical_section" where
  "SystemMutex_TryLock_win32 t m =
     (if cs_owner m = None \<or> cs_owner m = Some t
      then (True, m\<lparr>cs_owner := Some t, cs_count := cs_count m + 1\<rparr>) else (False, m))"

definition SystemMutex_Lock_win32 :: "'t \<Rightarrow> 't critical_section \<Rightarrow> 't critical_section option" where
  "SystemMutex_Lock_win32 t m =
     (if cs_owner m = None \<or> cs_owner m = Some t
      then Some (m\<lparr>cs_owner := Some t, cs_count := cs_count m + 1\<rparr>) else None)"

definition SystemMutex_Unlock_win32 :: "'t \<Rightarrow> 't critical_section \<Rightarrow> 't critical_section option" where
  "SystemMutex_Unlock_win32 t m =
     (if cs_owner m = Some t
      then Some (m\<lparr>cs_owner := if cs_count m = 1 then None else Some t, cs_count := cs_count m - 1\<rparr>) else None)"

text \<open>Calls by any threads, with the answers of \<^verbatim>\<open>TryLock\<close>.\<close>

datatype 't mutex_act = MLock 't | MTryLock 't | MUnlock 't

fun mutex_do :: "'t mutex_act \<Rightarrow> 't option \<times> bool list \<Rightarrow> ('t option \<times> bool list) option" where
  "mutex_do (MLock t) (m, rs) = map_option (\<lambda>m'. (m', rs)) (SystemMutex_Lock t m)"
| "mutex_do (MTryLock t) (m, rs) = (let (r, m') = SystemMutex_TryLock t m in Some (m', rs @ [r]))"
| "mutex_do (MUnlock t) (m, rs) = map_option (\<lambda>m'. (m', rs)) (SystemMutex_Unlock t m)"

fun mutex_do_win32 ::
  "'t mutex_act \<Rightarrow> 't critical_section \<times> bool list \<Rightarrow> ('t critical_section \<times> bool list) option" where
  "mutex_do_win32 (MLock t) (m, rs) = map_option (\<lambda>m'. (m', rs)) (SystemMutex_Lock_win32 t m)"
| "mutex_do_win32 (MTryLock t) (m, rs) = (let (r, m') = SystemMutex_TryLock_win32 t m in Some (m', rs @ [r]))"
| "mutex_do_win32 (MUnlock t) (m, rs) = map_option (\<lambda>m'. (m', rs)) (SystemMutex_Unlock_win32 t m)"

text \<open>Nobody locks the mutex while owning it.\<close>

fun not_nested :: "'t option \<Rightarrow> 't mutex_act \<Rightarrow> bool" where
  "not_nested m (MLock t) \<longleftrightarrow> m \<noteq> Some t"
| "not_nested m (MTryLock t) \<longleftrightarrow> m \<noteq> Some t"
| "not_nested m (MUnlock t) \<longleftrightarrow> True"

definition mutex_next :: "'t mutex_act \<Rightarrow> 't option \<times> bool list \<Rightarrow> ('t option \<times> bool list) option" where
  "mutex_next a s = (if not_nested (fst s) a then mutex_do a s else None)"

definition mutex_next_win32 ::
  "'t mutex_act \<Rightarrow> 't critical_section \<times> bool list \<Rightarrow> ('t critical_section \<times> bool list) option" where
  "mutex_next_win32 a s = (if not_nested (cs_owner (fst s)) a then mutex_do_win32 a s else None)"

definition same_mutex :: "'t option \<times> bool list \<Rightarrow> 't critical_section \<times> bool list \<Rightarrow> bool" where
  "same_mutex s w \<longleftrightarrow> snd w = snd s \<and> cs_owner (fst w) = fst s \<and> cs_count (fst w) = of_bool (fst s \<noteq> None)"

lemmas mutex_defs = SystemMutex_Lock_def SystemMutex_TryLock_def SystemMutex_Unlock_def
  SystemMutex_Lock_win32_def SystemMutex_TryLock_win32_def SystemMutex_Unlock_win32_def

lemma same_mutex_step:
  assumes "same_mutex s w"
  shows "rel_option same_mutex (mutex_next a s) (mutex_next_win32 a w)"
  using assms
  by (cases a; cases s; cases w)
    (auto simp: same_mutex_def mutex_next_def mutex_next_win32_def mutex_defs split: option.splits)

text \<open>The mutexes of the platforms agree as long as no thread locks one that it owns: on every such sequence of
  calls by any threads, a call of \<^verbatim>\<open>Lock\<close> returns on either platform or on neither, \<^verbatim>\<open>TryLock\<close> gives the same
  answers, and the same thread owns the mutex.  (They differ otherwise: a second \<^verbatim>\<open>Lock\<close> by the owner
  blocks for ever on Linux and is counted on Windows.)\<close>

theorem system_mutex_platforms_agree:
  "rel_option (\<lambda>s w. snd w = snd s \<and> cs_owner (fst w) = fst s)
     (run_acts mutex_next as (SystemMutex_init, [])) (run_acts mutex_next_win32 as (SystemMutex_init_win32, [])) \<and>
   SystemMutex_Lock t (Some t) = None \<and> (\<exists>m. SystemMutex_Lock_win32 t \<lparr>cs_owner = Some t, cs_count = 1\<rparr> = Some m)"
proof (intro conjI)
  have run: "same_mutex s w \<Longrightarrow> rel_option same_mutex (run_acts mutex_next as s) (run_acts mutex_next_win32 as w)" for s w
  proof (induction "as" arbitrary: s w)
    case (Cons a "as")
    have "rel_option same_mutex (mutex_next a s) (mutex_next_win32 a w)" by (rule same_mutex_step [OF Cons.prems])
    then show ?case by (cases rule: option.rel_cases) (simp_all add: Cons.IH)
  qed simp
  have "same_mutex (SystemMutex_init, []) (SystemMutex_init_win32, [])"
    by (simp add: same_mutex_def SystemMutex_init_def SystemMutex_init_win32_def)
  from run [OF this] show "rel_option (\<lambda>s w. snd w = snd s \<and> cs_owner (fst w) = fst s)
     (run_acts mutex_next as (SystemMutex_init, [])) (run_acts mutex_next_win32 as (SystemMutex_init_win32, []))"
    by (rule option.rel_mono_strong) (simp add: same_mutex_def)
qed (simp_all add: mutex_defs)

section \<open>The events of Linux and of Windows\<close>

text \<open>A Windows event: a flag of the kernel, which \<^verbatim>\<open>SetEvent\<close> and \<^verbatim>\<open>ResetEvent\<close> write and
  \<^verbatim>\<open>WaitForSingleObject\<close> blocks on; it is a manual-reset event, so that a wait leaves it set.\<close>

definition SystemEvent_Set_win32 :: "bool \<Rightarrow> bool" where
  "SystemEvent_Set_win32 mEvent = True"

definition SystemEvent_Reset_win32 :: "bool \<Rightarrow> bool" where
  "SystemEvent_Reset_win32 mEvent = False"

definition SystemEvent_Wait_win32 :: "bool \<Rightarrow> bool option" where
  "SystemEvent_Wait_win32 mEvent = (if mEvent then Some mEvent else None)"

datatype winev_pc = WeIdle | WeSetting | WeWaiting | WeReturned

record winev_thread =
  wepc :: winev_pc
  wescript :: "sysev_op list"

definition winev_step :: "bool \<Rightarrow> winev_thread \<Rightarrow> (bool \<times> winev_thread) option" where
  "winev_step g t = (case wepc t of
     WeIdle \<Rightarrow>
       (case wescript t of
          [] \<Rightarrow> None
        | SeSet # ops \<Rightarrow> Some (g, \<lparr>wepc = WeSetting, wescript = ops\<rparr>)
        | SeWait # ops \<Rightarrow> Some (g, \<lparr>wepc = WeWaiting, wescript = ops\<rparr>)
        | SeReset # ops \<Rightarrow> Some (SystemEvent_Reset_win32 g, \<lparr>wepc = WeIdle, wescript = ops\<rparr>))
   | WeSetting \<Rightarrow> Some (SystemEvent_Set_win32 g, t\<lparr>wepc := WeIdle\<rparr>)
   | WeWaiting \<Rightarrow> map_option (\<lambda>g'. (g', t\<lparr>wepc := WeReturned\<rparr>)) (SystemEvent_Wait_win32 g)
   | WeReturned \<Rightarrow> Some (g, t\<lparr>wepc := WeIdle\<rparr>))"

fun winev_at :: "sysev_pc \<Rightarrow> winev_pc" where
  "winev_at SeIdle = WeIdle"
| "winev_at SeSetEntry = WeSetting"
| "winev_at SeSetLock = WeSetting"
| "winev_at SeSetTest = WeSetting"
| "winev_at SeSetBroadcast = WeIdle"
| "winev_at SeSetUnlock = WeIdle"
| "winev_at SeWaitUnlock = WeReturned"
| "winev_at SeWaitReturned = WeReturned"
| "winev_at _ = WeWaiting"

definition winev_abs :: "sysev_thread \<Rightarrow> winev_thread" where
  "winev_abs t = \<lparr>wepc = winev_at (sepc t), wescript = sescript t\<rparr>"

lemma sysev_step_simulates:
  assumes "sysev_step g t = Some (g', t')"
  shows "mState g' = mState g \<and> winev_abs t' = winev_abs t \<or>
    winev_step (mState g) (winev_abs t) = Some (mState g', winev_abs t')"
  using assms
  by (cases "sepc t")
    (auto simp: sysev_step_def winev_step_def winev_abs_def SystemEvent_Set_win32_def SystemEvent_Reset_win32_def
       SystemEvent_Wait_win32_def split: list.splits sysev_op.splits if_splits)

interpretation winev: thread_simulation sysev_step winev_step mState winev_abs "\<lambda>_. True" "\<lambda>_ _. True"
  by unfold_locales (simp_all add: sysev_step_simulates)

text \<open>Claim C33.
  The event of Linux and Darwin, over a mutex and a condition variable, behaves as that of Windows, a
  flag of the kernel: every execution of any calls of \<^verbatim>\<open>Set\<close>, \<^verbatim>\<open>Reset\<close> and \<^verbatim>\<open>Wait\<close> by any number of
  threads, with spurious wake-ups, is one of the Windows event, with \<^verbatim>\<open>mState\<close> for the flag.  In
  particular a \<^verbatim>\<open>Wait\<close> returns only after it has seen the event set.\<close>

theorem linux_event_refines_windows:
  assumes "executes sysev_step (g, ts) (g', ts')"
  shows "executes winev_step (mState g, map winev_abs ts) (mState g', map winev_abs ts')"
  by (rule winev.executes_simulates [OF assms]) simp_all

theorem linux_event_refines_windows_witness:
  "\<exists>g' ts'. executes sysev_step
       (\<lparr>mState = False, locked = False, broadcasts = 0\<rparr>,
        [\<lparr>sepc = SeIdle, sescript = [SeWait], spurious = 1\<rparr>, \<lparr>sepc = SeIdle, sescript = [SeSet], spurious = 0\<rparr>])
       (g', ts') \<and> sepc (ts' ! 0) = SeWaitReturned \<and>
     executes winev_step (False, [\<lparr>wepc = WeIdle, wescript = [SeWait]\<rparr>, \<lparr>wepc = WeIdle, wescript = [SeSet]\<rparr>])
       (True, map winev_abs ts')"
proof -
  let ?g = "\<lparr>mState = False, locked = False, broadcasts = 0\<rparr>"
  let ?ts = "[\<lparr>sepc = SeIdle, sescript = [SeWait], spurious = 1\<rparr>, \<lparr>sepc = SeIdle, sescript = [SeSet], spurious = 0\<rparr>]"
  obtain g' ts' where run: "run_sched sysev_step [0,0,0,0, 0,0,0, 1,1,1,1,1,1, 0,0,0,0] (?g, ?ts) = Some (g', ts')"
    and r: "sepc (ts' ! 0) = SeWaitReturned" "mState g'"
    by (simp add: sysev_step_def)
  show ?thesis
    using linux_event_refines_windows [OF run_sched_executes [OF run]] run_sched_executes [OF run] r
    by (auto simp: winev_abs_def)
qed

end
