(* ===== verification/System_Condition.thy ===== *)
theory System_Condition
  imports System_Mutex
begin

text \<open>
  \<^verbatim>\<open>SystemCondition\<close> (detail/system_condition.hpp and the system_condition.cpp of each platform), with the
  \<^verbatim>\<open>SystemMutex\<close> it is used with.

  The sleepers on a condition variable are in a list of threads of any kind: \<open>asleep\<close> tells who sleeps,
  \<open>wake\<close> wakes one.  \<^verbatim>\<open>WakeOne\<close> chooses a sleeper, if there is one.  \<^verbatim>\<open>Wait\<close> gives up the mutex and sleeps
  in one step; awake, it locks again before it returns.
\<close>

section \<open>Linux and Darwin\<close>

definition SystemCondition_WakeOne :: "('w \<Rightarrow> bool) \<Rightarrow> ('w \<Rightarrow> 'w) \<Rightarrow> nat \<Rightarrow> 'w list \<Rightarrow> 'w list option" where
  "SystemCondition_WakeOne asleep wake j ws =
     (if \<not> list_ex asleep ws then Some ws
      else if j < length ws \<and> asleep (ws ! j) then Some (ws[j := wake (ws ! j)]) else None)"

definition SystemCondition_WakeAll :: "('w \<Rightarrow> bool) \<Rightarrow> ('w \<Rightarrow> 'w) \<Rightarrow> 'w list \<Rightarrow> 'w list" where
  "SystemCondition_WakeAll asleep wake ws = map (\<lambda>w. if asleep w then wake w else w) ws"

definition SystemCondition_Wait_enter :: "'t \<Rightarrow> 't option \<Rightarrow> 't option option" where
  "SystemCondition_Wait_enter t lock = SystemMutex_Unlock t lock"

definition SystemCondition_Wait_leave :: "'t \<Rightarrow> 't option \<Rightarrow> 't option option" where
  "SystemCondition_Wait_leave t lock = SystemMutex_Lock t lock"

section \<open>Windows\<close>

text \<open>\<^verbatim>\<open>SleepConditionVariableCS\<close> requires that the caller has entered the critical section exactly once.  The
  two calls that wake are \<^verbatim>\<open>WakeConditionVariable\<close> and \<^verbatim>\<open>WakeAllConditionVariable\<close>.\<close>

definition SystemCondition_Wait_enter_win32 :: "'t \<Rightarrow> 't critical_section \<Rightarrow> 't critical_section option" where
  "SystemCondition_Wait_enter_win32 t lock =
     (if cs_owner lock = Some t \<and> cs_count lock = 1 then SystemMutex_Unlock_win32 t lock else None)"

definition SystemCondition_Wait_leave_win32 :: "'t \<Rightarrow> 't critical_section \<Rightarrow> 't critical_section option" where
  "SystemCondition_Wait_leave_win32 t lock = SystemMutex_Lock_win32 t lock"

definition SystemCondition_WakeOne_win32 :: "('w \<Rightarrow> bool) \<Rightarrow> ('w \<Rightarrow> 'w) \<Rightarrow> nat \<Rightarrow> 'w list \<Rightarrow> 'w list option" where
  "SystemCondition_WakeOne_win32 asleep wake j ws = (case filter (\<lambda>i. asleep (ws ! i)) [0..<length ws] of
     [] \<Rightarrow> Some ws | is \<Rightarrow> if j \<in> set is then Some (ws[j := wake (ws ! j)]) else None)"

definition SystemCondition_WakeAll_win32 :: "('w \<Rightarrow> bool) \<Rightarrow> ('w \<Rightarrow> 'w) \<Rightarrow> 'w list \<Rightarrow> 'w list" where
  "SystemCondition_WakeAll_win32 asleep wake ws = map (\<lambda>w. if asleep w then wake w else w) ws"

section \<open>A mutex with a condition variable\<close>

text \<open>Any threads, each of which is between two calls or in a \<^verbatim>\<open>Wait\<close>; of the latter, \<open>(t, woken)\<close> is in the list.
  \<open>Wakes\<close>: a sleeper wakes for no reason, as both systems allow.\<close>

datatype 't monitor_act =
    OnMutex "'t mutex_act" | WaitOn 't | WaitReturns nat | SignalOne nat | SignalAll | Wakes nat

fun mutex_caller :: "'t mutex_act \<Rightarrow> 't" where
  "mutex_caller (MLock t) = t"
| "mutex_caller (MTryLock t) = t"
| "mutex_caller (MUnlock t) = t"

definition waiting :: "'t \<Rightarrow> ('t \<times> bool) list \<Rightarrow> bool" where
  "waiting t ws \<longleftrightarrow> t \<in> set (map fst ws)"

abbreviation sleeping :: "'t \<times> bool \<Rightarrow> bool" where
  "sleeping w \<equiv> \<not> snd w"

definition woken_up :: "'t \<times> bool \<Rightarrow> 't \<times> bool" where
  "woken_up w = (fst w, True)"

definition without :: "nat \<Rightarrow> 'w list \<Rightarrow> 'w list" where
  "without i ws = take i ws @ drop (Suc i) ws"

fun monitor_next :: "'t monitor_act \<Rightarrow> ('t option \<times> bool list) \<times> ('t \<times> bool) list \<Rightarrow>
    (('t option \<times> bool list) \<times> ('t \<times> bool) list) option" where
  "monitor_next (OnMutex a) (s, ws) =
     (if waiting (mutex_caller a) ws then None else map_option (\<lambda>s'. (s', ws)) (mutex_next a s))"
| "monitor_next (WaitOn t) ((m, rs), ws) =
     (if waiting t ws then None
      else map_option (\<lambda>m'. ((m', rs), ws @ [(t, False)])) (SystemCondition_Wait_enter t m))"
| "monitor_next (WaitReturns i) ((m, rs), ws) =
     (if i < length ws \<and> snd (ws ! i)
      then map_option (\<lambda>m'. ((m', rs), without i ws)) (SystemCondition_Wait_leave (fst (ws ! i)) m) else None)"
| "monitor_next (SignalOne j) (s, ws) = map_option (Pair s) (SystemCondition_WakeOne sleeping woken_up j ws)"
| "monitor_next SignalAll (s, ws) = Some (s, SystemCondition_WakeAll sleeping woken_up ws)"
| "monitor_next (Wakes i) (s, ws) = (if i < length ws then Some (s, ws[i := woken_up (ws ! i)]) else None)"

fun monitor_next_win32 :: "'t monitor_act \<Rightarrow> ('t critical_section \<times> bool list) \<times> ('t \<times> bool) list \<Rightarrow>
    (('t critical_section \<times> bool list) \<times> ('t \<times> bool) list) option" where
  "monitor_next_win32 (OnMutex a) (s, ws) =
     (if waiting (mutex_caller a) ws then None else map_option (\<lambda>s'. (s', ws)) (mutex_next_win32 a s))"
| "monitor_next_win32 (WaitOn t) ((m, rs), ws) =
     (if waiting t ws then None
      else map_option (\<lambda>m'. ((m', rs), ws @ [(t, False)])) (SystemCondition_Wait_enter_win32 t m))"
| "monitor_next_win32 (WaitReturns i) ((m, rs), ws) =
     (if i < length ws \<and> snd (ws ! i)
      then map_option (\<lambda>m'. ((m', rs), without i ws)) (SystemCondition_Wait_leave_win32 (fst (ws ! i)) m) else None)"
| "monitor_next_win32 (SignalOne j) (s, ws) = map_option (Pair s) (SystemCondition_WakeOne_win32 sleeping woken_up j ws)"
| "monitor_next_win32 SignalAll (s, ws) = Some (s, SystemCondition_WakeAll_win32 sleeping woken_up ws)"
| "monitor_next_win32 (Wakes i) (s, ws) = (if i < length ws then Some (s, ws[i := woken_up (ws ! i)]) else None)"

section \<open>The platforms agree\<close>

lemma wake_one_agrees: "SystemCondition_WakeOne_win32 asleep wake j ws = SystemCondition_WakeOne asleep wake j ws"
proof -
  let ?is = "filter (\<lambda>i. asleep (ws ! i)) [0..<length ws]"
  have "?is = [] \<longleftrightarrow> \<not> list_ex asleep ws" by (auto simp: filter_empty_conv list_ex_length)
  moreover have "j \<in> set ?is \<longleftrightarrow> j < length ws \<and> asleep (ws ! j)" by auto
  ultimately show ?thesis
    by (cases ?is) (auto simp: SystemCondition_WakeOne_win32_def SystemCondition_WakeOne_def split: list.splits)
qed

lemma wake_all_agrees: "SystemCondition_WakeAll_win32 = SystemCondition_WakeAll"
  by (simp add: fun_eq_iff SystemCondition_WakeAll_win32_def SystemCondition_WakeAll_def)

definition same_monitor ::
  "('t option \<times> bool list) \<times> ('t \<times> bool) list \<Rightarrow> ('t critical_section \<times> bool list) \<times> ('t \<times> bool) list \<Rightarrow> bool" where
  "same_monitor s w \<longleftrightarrow> same_mutex (fst s) (fst w) \<and> snd w = snd s \<and>
     (\<forall>t. waiting t (snd s) \<longrightarrow> fst (fst s) \<noteq> Some t) \<and> distinct (map fst (snd s))"

lemma waiting_update [simp]: "i < length ws \<Longrightarrow> map fst (ws[i := woken_up (ws ! i)]) = map fst ws"
  by (rule nth_equalityI) (auto simp: nth_list_update woken_up_def)

lemma waiting_wake_one: "SystemCondition_WakeOne sleeping woken_up j ws = Some ws' \<Longrightarrow> map fst ws' = map fst ws"
  by (auto simp: SystemCondition_WakeOne_def split: if_splits)

lemma waiting_wake_all: "map fst (SystemCondition_WakeAll sleeping woken_up ws) = map fst ws"
  by (simp add: SystemCondition_WakeAll_def woken_up_def)

lemma waiting_without:
  assumes "i < length ws" "distinct (map fst ws)"
  shows "distinct (map fst (without i ws))" "waiting t (without i ws) \<longleftrightarrow> waiting t ws \<and> t \<noteq> fst (ws ! i)"
proof -
  have split: "ws = take i ws @ ws ! i # drop (Suc i) ws" using assms(1) by (rule id_take_nth_drop)
  have d: "distinct (map fst (take i ws @ ws ! i # drop (Suc i) ws))" using assms(2) split by simp
  have "set (map fst ws) = set (map fst (take i ws @ ws ! i # drop (Suc i) ws))" using split by simp
  then have eq: "set (map fst ws) = insert (fst (ws ! i)) (set (map fst (without i ws)))"
    unfolding without_def by auto
  show "distinct (map fst (without i ws))" using d by (simp add: without_def)
  have "fst (ws ! i) \<notin> set (map fst (without i ws))" using d by (auto simp: without_def)
  then show "waiting t (without i ws) \<longleftrightarrow> waiting t ws \<and> t \<noteq> fst (ws ! i)"
    unfolding waiting_def eq by blast
qed

lemma same_monitor_step:
  assumes same: "same_monitor s w"
  shows "rel_option same_monitor (monitor_next a s) (monitor_next_win32 a w)"
proof -
  obtain m rs ws where s: "s = ((m, rs), ws)" by (metis prod.collapse)
  obtain cs where w: "w = ((cs, rs), ws)" and cs: "cs_owner cs = m" "cs_count cs = of_bool (m \<noteq> None)"
    using same s by (cases w) (auto simp: same_monitor_def same_mutex_def)
  have mutex: "same_mutex (m, rs) (cs, rs)" using cs by (simp add: same_mutex_def)
  have not_owner: "\<And>t. waiting t ws \<Longrightarrow> m \<noteq> Some t" and dist: "distinct (map fst ws)"
    using same s by (auto simp: same_monitor_def)
  show ?thesis
  proof (cases a)
    case (OnMutex b)
    have own: "t = mutex_caller b \<or> m = Some t" if "mutex_next b (m, rs) = Some (Some t, rs')" for t rs'
      using that by (cases b) (auto simp: mutex_next_def mutex_defs split: if_splits)
    show ?thesis
    proof (cases "waiting (mutex_caller b) ws")
      case False
      have "rel_option (\<lambda>x y. same_monitor (x, ws) (y, ws)) (mutex_next b (m, rs)) (mutex_next_win32 b (cs, rs))"
        using same_mutex_step [OF mutex, of b]
      proof (cases rule: option.rel_cases)
        case (Some x y)
        have "fst x \<noteq> Some t" if "waiting t ws" for t
          using own [of t "snd x"] Some(1) not_owner [OF that] that False by (cases x) auto
        then show ?thesis using Some dist by (simp add: same_monitor_def)
      qed simp
      then show ?thesis using OnMutex s w False by (simp add: option.rel_map)
    qed (simp add: OnMutex s w)
  next
    case (WaitOn t)
    then show ?thesis using cs not_owner dist unfolding s w
      by (auto simp: SystemCondition_Wait_enter_def SystemCondition_Wait_enter_win32_def mutex_defs same_monitor_def
        same_mutex_def waiting_def)
  next
    case (WaitReturns i)
    show ?thesis
    proof (cases "i < length ws \<and> snd (ws ! i)")
      case True
      then have "waiting (fst (ws ! i)) ws" by (auto simp: waiting_def)
      then show ?thesis using True WaitReturns cs not_owner waiting_without [OF _ dist, of i] unfolding s w
        by (auto simp: SystemCondition_Wait_leave_def SystemCondition_Wait_leave_win32_def mutex_defs same_monitor_def
          same_mutex_def)
    qed (use WaitReturns s w in auto)
  next
    case (SignalOne j)
    show ?thesis
    proof (cases "SystemCondition_WakeOne sleeping woken_up j ws")
      case (Some ws')
      then show ?thesis using SignalOne same waiting_wake_one [OF Some] unfolding s w
        by (simp add: wake_one_agrees same_monitor_def waiting_def)
    qed (simp add: SignalOne s w wake_one_agrees)
  next
    case SignalAll
    then show ?thesis using same unfolding s w
      by (simp add: same_monitor_def waiting_def wake_all_agrees waiting_wake_all flip: set_map)
  next
    case (Wakes i)
    then show ?thesis using same unfolding s w
      by (auto simp: same_monitor_def waiting_def)
  qed
qed

text \<open>A mutex and a condition variable behave the same on both platforms, as long as no thread locks a mutex that it
  owns: for every sequence of calls, wake-ups for no reason included, the same ones return, with the same answers, the same
  thread owns the mutex and the same ones wait; and no thread owns the mutex while it waits.\<close>

theorem conditions_agree:
  "rel_option (\<lambda>s w. snd (fst w) = snd (fst s) \<and> cs_owner (fst (fst w)) = fst (fst s) \<and> snd w = snd s \<and>
       (\<forall>(t, woken) \<in> set (snd s). fst (fst s) \<noteq> Some t))
     (run_acts monitor_next as ((SystemMutex_init, []), [])) (run_acts monitor_next_win32 as ((SystemMutex_init_win32, []), []))"
proof -
  have run: "same_monitor s w \<Longrightarrow> rel_option same_monitor (run_acts monitor_next as s) (run_acts monitor_next_win32 as w)" for s w
  proof (induction "as" arbitrary: s w)
    case (Cons a "as")
    have "rel_option same_monitor (monitor_next a s) (monitor_next_win32 a w)" by (rule same_monitor_step [OF Cons.prems])
    then show ?case by (cases rule: option.rel_cases) (simp_all add: Cons.IH)
  qed simp
  have "same_monitor ((SystemMutex_init, []), []) ((SystemMutex_init_win32, []), [])"
    by (simp add: same_monitor_def same_mutex_def SystemMutex_init_def SystemMutex_init_win32_def waiting_def)
  from run [OF this] show ?thesis
    by (rule option.rel_mono_strong) (force simp: same_monitor_def same_mutex_def waiting_def)
qed

end
