(* ===== verification/Pool_Locks.thy ===== *)
theory Pool_Locks
  imports Thread_Pool System_Condition
begin

text \<open>
  The thread pool over its \<^verbatim>\<open>SystemMutex\<close> and \<^verbatim>\<open>SystemCondition\<close> (thread_pool.cpp, lock_guard.hpp,
  system_condition.cpp): every access of \<^verbatim>\<open>AddWorkItem\<close>, of the worker loop and of the destructor is a step,
  and these interleave.  It is shown to implement theory Thread\_Pool, in which each critical section is
  one step.
\<close>

section \<open>Workers, posters and the destructor\<close>

text \<open>Inside the critical section of a worker.\<close>

datatype wsec =
    SInc \<comment> \<open>\<^verbatim>\<open>mIdleThreadCount++\<close>\<close>
  | STest \<comment> \<open>\<^verbatim>\<open>while (mWork.empty())\<close>, and \<^verbatim>\<open>Wait\<close>\<close>
  | SStop \<comment> \<open>back from \<^verbatim>\<open>Wait\<close>: \<^verbatim>\<open>if (mStop)\<close>\<close>
  | SPop \<comment> \<open>\<^verbatim>\<open>mWork.pop_front()\<close>\<close>
  | SDec nat
  | SLeave nat
  | SStopDec
  | SStopLeave

text \<open>\<open>FwIn fresh s\<close>: \<open>fresh\<close> until the first \<^verbatim>\<open>Wait\<close> of this turn of the loop.\<close>

datatype fworker = FwTop | FwLock | FwIn bool wsec | FwSleep bool | FwRun nat | FwExit

datatype fposter = PoIdle | PoEnter nat | PoPush nat | PoBranch nat | PoLeave

datatype fdtor_pc = DcNone | DcEnter | DcStop | DcWake | DcLeave | DcJoin nat | DcRest | DcDone

datatype lock_holder = HWorker nat | HPoster nat | HDtor

record fpool =
  fmax :: nat
  fstop :: bool
  fworkers :: "fworker list"
  fidle :: int
  fwork :: "nat list"
  fowner :: "lock_holder option" \<comment> \<open>\<^verbatim>\<open>mLock\<close>\<close>
  fposters :: "fposter list"
  fdtor :: fdtor_pc
  fposted :: "nat list"
  fstarted :: "nat list"
  ffinished :: "nat list"

definition asleep :: "fworker \<Rightarrow> bool" where
  "asleep w \<longleftrightarrow> w = FwSleep False"

definition awaken :: "fworker \<Rightarrow> fworker" where
  "awaken w = FwSleep True"

definition fpool_init :: "nat \<Rightarrow> nat \<Rightarrow> fpool" where
  "fpool_init maxThreadCount clients =
     \<lparr>fmax = maxThreadCount, fstop = False, fworkers = [], fidle = 0, fwork = [], fowner = SystemMutex_init,
      fposters = replicate clients PoIdle, fdtor = DcNone, fposted = [], fstarted = [], ffinished = []\<rparr>"

text \<open>Locking and unlocking by a step.\<close>

definition with_lock :: "lock_holder option option \<Rightarrow> fpool \<Rightarrow> 'w \<Rightarrow> (fpool \<times> 'w) option" where
  "with_lock m p w = map_option (\<lambda>o'. (p\<lparr>fowner := o'\<rparr>, w)) m"

fun FWorker_step :: "nat \<Rightarrow> fpool \<Rightarrow> fworker \<Rightarrow> (fpool \<times> fworker) option" where
  "FWorker_step i p FwTop = Some (p, if \<not> fstop p then FwLock else FwExit)"
| "FWorker_step i p FwLock = with_lock (SystemMutex_Lock (HWorker i) (fowner p)) p (FwIn True SInc)"
| "FWorker_step i p (FwIn fresh SInc) = Some (p\<lparr>fidle := fidle p + 1\<rparr>, FwIn fresh STest)"
| "FWorker_step i p (FwIn fresh STest) =
     (if fwork p = [] then with_lock (SystemCondition_Wait_enter (HWorker i) (fowner p)) p (FwSleep False)
      else Some (p, FwIn fresh SPop))"
| "FWorker_step i p (FwSleep woken) =
     (if \<not> woken then None
      else with_lock (SystemCondition_Wait_leave (HWorker i) (fowner p)) p (FwIn False SStop))"
| "FWorker_step i p (FwIn fresh SStop) = Some (p, FwIn fresh (if fstop p then SStopDec else STest))"
| "FWorker_step i p (FwIn fresh SStopDec) = Some (p\<lparr>fidle := fidle p - 1\<rparr>, FwIn fresh SStopLeave)"
| "FWorker_step i p (FwIn fresh SStopLeave) = with_lock (SystemMutex_Unlock (HWorker i) (fowner p)) p FwExit"
| "FWorker_step i p (FwIn fresh SPop) =
     (case fwork p of [] \<Rightarrow> None | item # rest \<Rightarrow> Some (p\<lparr>fwork := rest\<rparr>, FwIn fresh (SDec item)))"
| "FWorker_step i p (FwIn fresh (SDec item)) = Some (p\<lparr>fidle := fidle p - 1\<rparr>, FwIn fresh (SLeave item))"
| "FWorker_step i p (FwIn fresh (SLeave item)) =
     with_lock (SystemMutex_Unlock (HWorker i) (fowner p)) (p\<lparr>fstarted := fstarted p @ [item]\<rparr>) (FwRun item)"
| "FWorker_step i p (FwRun item) = Some (p\<lparr>ffinished := ffinished p @ [item]\<rparr>, FwTop)"
| "FWorker_step i p FwExit = None"

text \<open>\<^verbatim>\<open>AddWorkItem\<close>; \<open>j\<close> is the sleeper that \<^verbatim>\<open>WakeOne\<close> chooses.\<close>

fun FPoster_step :: "nat \<Rightarrow> nat \<Rightarrow> fpool \<Rightarrow> fposter \<Rightarrow> (fpool \<times> fposter) option" where
  "FPoster_step k j p PoIdle = None"
| "FPoster_step k j p (PoEnter work) = with_lock (LockGuard_enter (HPoster k) (fowner p)) p (PoPush work)"
| "FPoster_step k j p (PoPush work) = Some (p\<lparr>fwork := fwork p @ [work]\<rparr>, PoBranch work)"
| "FPoster_step k j p (PoBranch work) =
     (let p' = p\<lparr>fposted := fposted p @ [work]\<rparr>
      in if fidle p = 0 \<and> length (fworkers p) < fmax p
         then Some (p'\<lparr>fworkers := fworkers p @ [FwTop]\<rparr>, PoLeave)
         else map_option (\<lambda>ws. (p'\<lparr>fworkers := ws\<rparr>, PoLeave))
                (SystemCondition_WakeOne asleep awaken j (fworkers p)))"
| "FPoster_step k j p PoLeave = with_lock (LockGuard_leave (HPoster k) (fowner p)) p PoIdle"

fun FDtor_step :: "fpool \<Rightarrow> fdtor_pc \<Rightarrow> (fpool \<times> fdtor_pc) option" where
  "FDtor_step p DcNone = None"
| "FDtor_step p DcEnter = with_lock (LockGuard_enter HDtor (fowner p)) p DcStop"
| "FDtor_step p DcStop = Some (p\<lparr>fstop := True\<rparr>, DcWake)"
| "FDtor_step p DcWake =
     Some (p\<lparr>fworkers := SystemCondition_WakeAll asleep awaken (fworkers p)\<rparr>, DcLeave)"
| "FDtor_step p DcLeave = with_lock (LockGuard_leave HDtor (fowner p)) p (DcJoin 0)"
| "FDtor_step p (DcJoin k) =
     (if k < length (fworkers p)
      then if fworkers p ! k = FwExit then Some (p, DcJoin (k + 1)) else None
      else Some (p, DcRest))"
| "FDtor_step p DcRest = (case fwork p of
     [] \<Rightarrow> Some (p, DcDone)
   | item # rest \<Rightarrow>
       Some (p\<lparr>fwork := rest, fstarted := fstarted p @ [item], ffinished := ffinished p @ [item]\<rparr>, DcRest))"
| "FDtor_step p DcDone = None"

text \<open>Clients call \<^verbatim>\<open>AddWorkItem\<close> while the pool is not being destroyed, and destroy it when their calls have
  returned.\<close>

datatype fp_act = FCall nat nat | FPoster nat nat | FWorker nat | FSpurious nat | FDestroy | FDtor

fun fp_next :: "fp_act \<Rightarrow> fpool \<Rightarrow> fpool option" where
  "fp_next (FCall k work) p =
     (if k < length (fposters p) \<and> fposters p ! k = PoIdle \<and> fdtor p = DcNone
      then Some (p\<lparr>fposters := (fposters p)[k := PoEnter work]\<rparr>) else None)"
| "fp_next (FPoster k j) p =
     (if k < length (fposters p)
      then map_option (\<lambda>(p', s). p'\<lparr>fposters := (fposters p)[k := s]\<rparr>) (FPoster_step k j p (fposters p ! k))
      else None)"
| "fp_next (FWorker i) p =
     (if i < length (fworkers p)
      then map_option (\<lambda>(p', w). p'\<lparr>fworkers := (fworkers p)[i := w]\<rparr>) (FWorker_step i p (fworkers p ! i))
      else None)"
| "fp_next (FSpurious i) p =
     (if i < length (fworkers p) \<and> asleep (fworkers p ! i)
      then Some (p\<lparr>fworkers := (fworkers p)[i := awaken (fworkers p ! i)]\<rparr>) else None)"
| "fp_next FDestroy p =
     (if fdtor p = DcNone \<and> list_all (\<lambda>s. s = PoIdle) (fposters p) then Some (p\<lparr>fdtor := DcEnter\<rparr>) else None)"
| "fp_next FDtor p = map_option (\<lambda>(p', d). p'\<lparr>fdtor := d\<rparr>) (FDtor_step p (fdtor p))"

section \<open>The mutex\<close>

fun winside :: "fworker \<Rightarrow> bool" where
  "winside (FwIn fresh s) \<longleftrightarrow> True"
| "winside _ \<longleftrightarrow> False"

fun pinside :: "fposter \<Rightarrow> bool" where
  "pinside (PoPush work) \<longleftrightarrow> True"
| "pinside (PoBranch work) \<longleftrightarrow> True"
| "pinside PoLeave \<longleftrightarrow> True"
| "pinside _ \<longleftrightarrow> False"

fun dinside :: "fdtor_pc \<Rightarrow> bool" where
  "dinside DcStop \<longleftrightarrow> True"
| "dinside DcWake \<longleftrightarrow> True"
| "dinside DcLeave \<longleftrightarrow> True"
| "dinside _ \<longleftrightarrow> False"

text \<open>Who is inside a critical section owns the mutex.  The first turn of a worker's section starts with
  the increment, the later ones with the test of \<^verbatim>\<open>mStop\<close>.\<close>

fun wsec_ok :: "fpool \<Rightarrow> fworker \<Rightarrow> bool" where
  "wsec_ok p (FwIn fresh SInc) \<longleftrightarrow> fresh"
| "wsec_ok p (FwIn fresh SStop) \<longleftrightarrow> \<not> fresh"
| "wsec_ok p (FwIn fresh STest) \<longleftrightarrow> fresh \<or> \<not> fstop p"
| "wsec_ok p (FwIn fresh SPop) \<longleftrightarrow> fresh \<or> \<not> fstop p"
| "wsec_ok p (FwIn fresh (SDec item)) \<longleftrightarrow> fresh \<or> \<not> fstop p"
| "wsec_ok p (FwIn fresh (SLeave item)) \<longleftrightarrow> fresh \<or> \<not> fstop p"
| "wsec_ok p (FwIn fresh SStopDec) \<longleftrightarrow> \<not> fresh \<and> fstop p"
| "wsec_ok p (FwIn fresh SStopLeave) \<longleftrightarrow> \<not> fresh \<and> fstop p"
| "wsec_ok p _ \<longleftrightarrow> True"

definition fp_inv :: "fpool \<Rightarrow> bool" where
  "fp_inv p \<longleftrightarrow>
     (\<forall>i < length (fworkers p). winside (fworkers p ! i) \<longleftrightarrow> fowner p = Some (HWorker i)) \<and>
     (\<forall>k < length (fposters p). pinside (fposters p ! k) \<longleftrightarrow> fowner p = Some (HPoster k)) \<and>
     (\<forall>i. fowner p = Some (HWorker i) \<longrightarrow> i < length (fworkers p)) \<and>
     (\<forall>k. fowner p = Some (HPoster k) \<longrightarrow> k < length (fposters p)) \<and>
     (dinside (fdtor p) \<longleftrightarrow> fowner p = Some HDtor) \<and>
     (fdtor p \<noteq> DcNone \<longrightarrow> list_all (\<lambda>s. s = PoIdle) (fposters p)) \<and>
     (\<forall>i < length (fworkers p). wsec_ok p (fworkers p ! i)) \<and>
     (\<forall>k < length (fposters p). \<forall>work. fposters p ! k = PoBranch work \<longrightarrow>
        fwork p \<noteq> [] \<and> last (fwork p) = work)"

section \<open>Critical sections as steps\<close>

text \<open>A worker's section takes effect when it gives the mutex up, a post when it makes or wakes a thread,
  the destructor's when it sets \<^verbatim>\<open>mStop\<close>.  Until then, what the owner did so far is undone.\<close>

fun abs_worker :: "fdtor_pc \<Rightarrow> fworker \<Rightarrow> worker" where
  "abs_worker d FwTop = WTop"
| "abs_worker d FwLock = WLock"
| "abs_worker d (FwIn fresh s) = (if fresh then WLock else WSleep True)"
| "abs_worker d (FwSleep woken) = WSleep (woken \<or> d = DcWake)"
| "abs_worker d (FwRun item) = WRun item"
| "abs_worker d FwExit = WExit"

fun abs_dtor :: "fdtor_pc \<Rightarrow> dtor_pc" where
  "abs_dtor DcNone = DNone"
| "abs_dtor DcEnter = DNone"
| "abs_dtor DcStop = DNone"
| "abs_dtor DcWake = DJoin 0"
| "abs_dtor DcLeave = DJoin 0"
| "abs_dtor (DcJoin k) = DJoin k"
| "abs_dtor DcRest = DRest"
| "abs_dtor DcDone = DDone"

fun undo_idle :: "fworker \<Rightarrow> int" where
  "undo_idle (FwIn fresh SInc) = 0"
| "undo_idle (FwIn fresh (SLeave item)) = (if fresh then 0 else 1)"
| "undo_idle (FwIn fresh SStopLeave) = 1"
| "undo_idle (FwIn fresh s) = (if fresh then -1 else 0)"
| "undo_idle _ = 0"

fun undo_pop :: "fworker \<Rightarrow> nat list" where
  "undo_pop (FwIn fresh (SDec item)) = [item]"
| "undo_pop (FwIn fresh (SLeave item)) = [item]"
| "undo_pop _ = []"

fun undo_push :: "fposter \<Rightarrow> nat list \<Rightarrow> nat list" where
  "undo_push (PoBranch work) xs = butlast xs"
| "undo_push _ xs = xs"

definition abs_idle :: "fpool \<Rightarrow> int" where
  "abs_idle p = fidle p + (case fowner p of Some (HWorker i) \<Rightarrow> undo_idle (fworkers p ! i) | _ \<Rightarrow> 0)"

definition abs_work :: "fpool \<Rightarrow> nat list" where
  "abs_work p = (case fowner p of
     Some (HWorker i) \<Rightarrow> undo_pop (fworkers p ! i) @ fwork p
   | Some (HPoster k) \<Rightarrow> undo_push (fposters p ! k) (fwork p)
   | _ \<Rightarrow> fwork p)"

definition fp_abs :: "fpool \<Rightarrow> thread_pool" where
  "fp_abs p = \<lparr>mMaxThreadCount = fmax p, mStop = fstop p, mThreads = map (abs_worker (fdtor p)) (fworkers p),
     mIdleThreadCount = abs_idle p, mWork = abs_work p, dtor = abs_dtor (fdtor p),
     posted = fposted p, started = fstarted p, finished = ffinished p\<rparr>"

lemma with_lock_Some: "with_lock m p w = Some (p', w') \<longleftrightarrow> (\<exists>o'. m = Some o' \<and> p' = p\<lparr>fowner := o'\<rparr> \<and> w' = w)"
  by (auto simp: with_lock_def)

lemmas lock_defs = with_lock_Some SystemMutex_Lock_def SystemMutex_Unlock_def LockGuard_enter_def LockGuard_leave_def
  SystemCondition_Wait_enter_def SystemCondition_Wait_leave_def

lemma fp_invD:
  assumes "fp_inv p"
  shows "i < length (fworkers p) \<Longrightarrow> winside (fworkers p ! i) \<longleftrightarrow> fowner p = Some (HWorker i)"
    and "k < length (fposters p) \<Longrightarrow> pinside (fposters p ! k) \<longleftrightarrow> fowner p = Some (HPoster k)"
    and "fowner p = Some (HWorker i) \<Longrightarrow> i < length (fworkers p)"
    and "fowner p = Some (HPoster k) \<Longrightarrow> k < length (fposters p)"
    and "dinside (fdtor p) \<longleftrightarrow> fowner p = Some HDtor"
    and "fdtor p \<noteq> DcNone \<Longrightarrow> k < length (fposters p) \<Longrightarrow> fposters p ! k = PoIdle"
    and "i < length (fworkers p) \<Longrightarrow> wsec_ok p (fworkers p ! i)"
    and "k < length (fposters p) \<Longrightarrow> fposters p ! k = PoBranch work \<Longrightarrow> fwork p \<noteq> [] \<and> last (fwork p) = work"
  using assms unfolding fp_inv_def list_all_length by blast+

text \<open>What a step of a worker does to the rest.\<close>

lemma worker_step_frame:
  assumes "FWorker_step i p w = Some (p', w')"
  shows "fstop p' = fstop p" and "fmax p' = fmax p" and "fposters p' = fposters p" and "fdtor p' = fdtor p"
    and "fworkers p' = fworkers p" and "fposted p' = fposted p"
    and "winside w \<or> fwork p' = fwork p \<and> fidle p' = fidle p"
    and "wsec_ok p w \<Longrightarrow> wsec_ok p w'"
    and "winside w = (fowner p = Some (HWorker i)) \<Longrightarrow>
      fowner p' = (if winside w' then Some (HWorker i) else if winside w then None else fowner p) \<and>
      (winside w' \<longrightarrow> \<not> winside w \<longrightarrow> fowner p = None)"
  using assms by (cases "(i, p, w)" rule: FWorker_step.cases;
    auto simp: lock_defs split: if_splits list.splits)+

lemma wsec_ok_frame: "fstop p' = fstop p \<Longrightarrow> wsec_ok p' w = wsec_ok p w"
  by (cases "(p, w)" rule: wsec_ok.cases) simp_all

lemma fp_inv_worker:
  assumes inv: "fp_inv p" and i: "i < length (fworkers p)"
    and st: "FWorker_step i p (fworkers p ! i) = Some (p', w)"
  shows "fp_inv (p'\<lparr>fworkers := (fworkers p)[i := w]\<rparr>)"
proof -
  note f = worker_step_frame [OF st]
  note o = f(9) [OF fp_invD(1) [OF inv i]]
  have ok: "wsec_ok p w" by (rule f(8) [OF fp_invD(7) [OF inv i]])
  let ?q = "p'\<lparr>fworkers := (fworkers p)[i := w]\<rparr>"
  have w: "winside ((fworkers p)[i := w] ! j) \<longleftrightarrow> fowner p' = Some (HWorker j)" if "j < length (fworkers p)" for j
    using o fp_invD(1) [OF inv that] fp_invD(1) [OF inv i] that by (cases "j = i") auto
  have po: "pinside (fposters p ! k) \<longleftrightarrow> fowner p' = Some (HPoster k)" if "k < length (fposters p)" for k
    using o fp_invD(2) [OF inv that] fp_invD(1) [OF inv i] by auto
  have d: "dinside (fdtor p) \<longleftrightarrow> fowner p' = Some HDtor"
    using o fp_invD(5) [OF inv] fp_invD(1) [OF inv i] by auto
  have br: "fwork p' \<noteq> [] \<and> last (fwork p') = work" if "k < length (fposters p)" "fposters p ! k = PoBranch work" for k work
  proof -
    have "fowner p = Some (HPoster k)" using fp_invD(2) [OF inv that(1)] that(2) by simp
    then have "\<not> winside (fworkers p ! i)" using fp_invD(1) [OF inv i] by simp
    then have "fwork p' = fwork p" using f(7) by blast
    then show ?thesis using fp_invD(8) [OF inv that] by simp
  qed
  have own: "fowner p' = Some (HWorker j) \<Longrightarrow> j < length (fworkers p)"
    "fowner p' = Some (HPoster k) \<Longrightarrow> k < length (fposters p)" for j k
    using o i fp_invD(3,4) [OF inv] by (auto split: if_splits)
  have s: "wsec_ok ?q ((fworkers p)[i := w] ! j)" if "j < length (fworkers p)" for j
    using ok fp_invD(7) [OF inv that] that by (cases "j = i") (simp_all add: wsec_ok_frame [of ?q p] f(1))
  show ?thesis unfolding fp_inv_def list_all_length
    using w po d br own s fp_invD(6) [OF inv] by (simp add: f)
qed

text \<open>What a step of a post does.\<close>

lemma poster_step_frame:
  assumes "FPoster_step k j p s = Some (p', s')"
  shows "fstop p' = fstop p" and "fposters p' = fposters p" and "fdtor p' = fdtor p"
    and "pinside s \<or> fwork p' = fwork p \<and> fworkers p' = fworkers p"
    and "pinside s = (fowner p = Some (HPoster k)) \<Longrightarrow>
      fowner p' = (if pinside s' then Some (HPoster k) else if pinside s then None else fowner p) \<and>
      (pinside s' \<longrightarrow> \<not> pinside s \<longrightarrow> fowner p = None)"
    and "s \<noteq> PoIdle" and "s' = PoBranch work \<Longrightarrow> fwork p' \<noteq> [] \<and> last (fwork p') = work"
  using assms by (cases "(k, j, p, s)" rule: FPoster_step.cases;
    auto simp: lock_defs Let_def split: if_splits)+

lemma cond_wake_one:
  assumes "SystemCondition_WakeOne asleep awaken j ws = Some ws'"
  shows "length ws' = length ws" and "\<And>i. i < length ws \<Longrightarrow> ws' ! i = ws ! i \<or> ws ! i = FwSleep False \<and> ws' ! i = FwSleep True"
  using assms by (auto simp: SystemCondition_WakeOne_def asleep_def awaken_def nth_list_update split: if_splits)

text \<open>New and woken workers are outside.\<close>

lemma poster_workers:
  assumes "FPoster_step k j p s = Some (p', s')" and "i < length (fworkers p')"
  shows "\<not> winside (fworkers p' ! i) \<and> wsec_ok p' (fworkers p' ! i) \<or>
    i < length (fworkers p) \<and> fworkers p' ! i = fworkers p ! i"
proof (cases "\<exists>work. s = PoBranch work")
  case True
  then obtain work where s: "s = PoBranch work" by blast
  show ?thesis
  proof (cases "fidle p = 0 \<and> length (fworkers p) < fmax p")
    case True
    then show ?thesis using assms s by (auto simp: Let_def nth_append less_Suc_eq split: if_splits)
  next
    case False
    then obtain ws where "SystemCondition_WakeOne asleep awaken j (fworkers p) = Some ws" "fworkers p' = ws"
      using assms(1) s by (auto simp: Let_def)
    then show ?thesis using cond_wake_one [of j "fworkers p" ws] assms(2) by force
  qed
qed (use assms in \<open>cases s; auto simp: lock_defs\<close>)

lemma poster_length: "FPoster_step k j p s = Some (p', s') \<Longrightarrow> length (fworkers p) \<le> length (fworkers p')"
  using cond_wake_one(1) [of j "fworkers p"]
  by (cases "(k, j, p, s)" rule: FPoster_step.cases) (auto simp: lock_defs Let_def split: if_splits)

lemma fp_inv_poster:
  assumes inv: "fp_inv p" and k: "k < length (fposters p)"
    and st: "FPoster_step k j p (fposters p ! k) = Some (p', s)"
  shows "fp_inv (p'\<lparr>fposters := (fposters p)[k := s]\<rparr>)"
proof -
  note f = poster_step_frame [OF st]
  note o = f(5) [OF fp_invD(2) [OF inv k]]
  note l = poster_length [OF st]
  let ?q = "p'\<lparr>fposters := (fposters p)[k := s]\<rparr>"
  have po: "pinside ((fposters p)[k := s] ! m) \<longleftrightarrow> fowner p' = Some (HPoster m)" if "m < length (fposters p)" for m
    using o fp_invD(2) [OF inv that] fp_invD(2) [OF inv k] that by (cases "m = k") auto
  have w: "winside (fworkers p' ! i) \<longleftrightarrow> fowner p' = Some (HWorker i)" if i: "i < length (fworkers p')" for i
  proof -
    have eq: "fowner p' = Some (HWorker i) \<longleftrightarrow> fowner p = Some (HWorker i)"
      using o fp_invD(2) [OF inv k] by auto
    show ?thesis
    proof (cases "i < length (fworkers p) \<and> fworkers p' ! i = fworkers p ! i")
      case True
      then show ?thesis using fp_invD(1) [OF inv, of i] eq by simp
    next
      case False
      then have "pinside (fposters p ! k)" "\<not> winside (fworkers p' ! i)"
        using f(4) poster_workers [OF st i] i by auto
      then show ?thesis using fp_invD(2) [OF inv k] eq by simp
    qed
  qed
  have d: "dinside (fdtor p) \<longleftrightarrow> fowner p' = Some HDtor"
    using o fp_invD(5) [OF inv] fp_invD(2) [OF inv k] by auto
  have own: "fowner p' = Some (HWorker i) \<Longrightarrow> i < length (fworkers p')"
    "fowner p' = Some (HPoster m) \<Longrightarrow> m < length (fposters p)" for i m
    using o k fp_invD(3,4) [OF inv] l by (force split: if_splits)+
  have s: "wsec_ok ?q (fworkers p' ! i)" if i: "i < length (fworkers p')" for i
    using poster_workers [OF st i] fp_invD(7) [OF inv, of i]
    by (auto simp: wsec_ok_frame [of ?q p] wsec_ok_frame [of p' p] f(1))
  have idle: "fdtor p = DcNone" using fp_invD(6) [OF inv _ k] f(6) by blast
  have br: "fwork p' \<noteq> [] \<and> last (fwork p') = work"
    if "m < length (fposters p)" "(fposters p)[k := s] ! m = PoBranch work" for m work
  proof (cases "m = k")
    case True
    then show ?thesis using f(7) that k by simp
  next
    case False
    then have "fowner p = Some (HPoster m)" using fp_invD(2) [OF inv that(1)] that by simp
    then have "\<not> pinside (fposters p ! k)" using fp_invD(2) [OF inv k] False by simp
    then show ?thesis using f(4) fp_invD(8) [OF inv that(1)] that False by simp
  qed
  show ?thesis unfolding fp_inv_def list_all_length
    using w po d br own s idle by (simp add: f)
qed

lemma fp_inv_dtor:
  assumes inv: "fp_inv p" and st: "FDtor_step p (fdtor p) = Some (p', d)"
  shows "fp_inv (p'\<lparr>fdtor := d\<rparr>)"
proof -
  have n: "fdtor p \<noteq> DcNone" using st by auto
  have idle: "fposters p ! k = PoIdle" if "k < length (fposters p)" for k
    using fp_invD(6) [OF inv n that] .
  have f: "fposters p' = fposters p" "length (fworkers p') = length (fworkers p)" "fdtor p' = fdtor p" "d \<noteq> DcNone"
    using st by (cases "(p, fdtor p)" rule: FDtor_step.cases;
      auto simp: lock_defs SystemCondition_WakeAll_def split: if_splits list.splits)+
  have o: "fowner p' = (if dinside d then Some HDtor else if dinside (fdtor p) then None else fowner p) \<and>
      (dinside d \<longrightarrow> \<not> dinside (fdtor p) \<longrightarrow> fowner p = None)"
    using st fp_invD(5) [OF inv] by (cases "(p, fdtor p)" rule: FDtor_step.cases)
      (auto simp: lock_defs split: if_splits list.splits)
  have ws: "fworkers p' ! i = fworkers p ! i \<and> (fstop p' = fstop p \<or> dinside (fdtor p)) \<or>
      \<not> winside (fworkers p' ! i) \<and> \<not> winside (fworkers p ! i) \<and> wsec_ok p' (fworkers p' ! i)"
    if "i < length (fworkers p)" for i
    using st that by (cases "(p, fdtor p)" rule: FDtor_step.cases)
      (auto simp: lock_defs SystemCondition_WakeAll_def asleep_def awaken_def split: if_splits list.splits)
  have w: "winside (fworkers p' ! i) \<longleftrightarrow> fowner p' = Some (HWorker i)" if i: "i < length (fworkers p)" for i
    using ws [OF i] o fp_invD(1) [OF inv i] fp_invD(5) [OF inv] by auto
  have out: "wsec_ok q v" if "\<not> winside v" for q v using that by (cases "(q, v)" rule: wsec_ok.cases) simp_all
  have s: "wsec_ok (p'\<lparr>fdtor := d\<rparr>) (fworkers p' ! i)" if i: "i < length (fworkers p)" for i
  proof (cases "winside (fworkers p' ! i)")
    case True
    then have "winside (fworkers p ! i)" "fworkers p' ! i = fworkers p ! i" "fstop p' = fstop p \<or> dinside (fdtor p)"
      using ws [OF i] by auto
    moreover then have "fstop p' = fstop p" using fp_invD(1) [OF inv i] fp_invD(5) [OF inv] by auto
    ultimately show ?thesis using fp_invD(7) [OF inv i] by (simp add: wsec_ok_frame [of "p'\<lparr>fdtor := d\<rparr>" p])
  qed (rule out)
  have po: "pinside (fposters p ! k) \<longleftrightarrow> fowner p' = Some (HPoster k)" if k: "k < length (fposters p)" for k
    using o fp_invD(2) [OF inv k] fp_invD(5) [OF inv] by auto
  have own: "fowner p' = Some (HWorker i) \<Longrightarrow> i < length (fworkers p)"
    "fowner p' = Some (HPoster k) \<Longrightarrow> k < length (fposters p)" for i k
    using o fp_invD(3,4) [OF inv] by (auto split: if_splits)
  show ?thesis unfolding fp_inv_def list_all_length
    using w po own s idle o fp_invD(5) [OF inv] by (auto simp: f)
qed

lemma fp_inv_step:
  assumes inv: "fp_inv p" and st: "fp_next a p = Some p'"
  shows "fp_inv p'"
proof (cases a)
  case (FWorker i)
  then show ?thesis using st fp_inv_worker [OF inv, of i] by (auto split: if_splits)
next
  case (FPoster k j)
  then show ?thesis using st fp_inv_poster [OF inv, of k j] by (auto split: if_splits)
next
  case FDtor
  then show ?thesis using st fp_inv_dtor [OF inv] by auto
next
  case (FCall k work)
  then have k: "k < length (fposters p)" "fposters p ! k = PoIdle" "fdtor p = DcNone"
    and p': "p' = p\<lparr>fposters := (fposters p)[k := PoEnter work]\<rparr>" using st by (simp_all split: if_splits)
  have po: "pinside ((fposters p)[k := PoEnter work] ! m) \<longleftrightarrow> fowner p = Some (HPoster m)"
    if "m < length (fposters p)" for m
    using fp_invD(2) [OF inv that] fp_invD(2) [OF inv k(1)] k that by (cases "m = k") auto
  have br: "fwork p \<noteq> [] \<and> last (fwork p) = v"
    if "m < length (fposters p)" "(fposters p)[k := PoEnter work] ! m = PoBranch v" for m v
    using fp_invD(8) [OF inv that(1)] that by (cases "m = k") auto
  have s: "wsec_ok p' v = wsec_ok p v" for v by (rule wsec_ok_frame) (simp add: p')
  have q: "fworkers p' = fworkers p" "fowner p' = fowner p" "fdtor p' = fdtor p" "fwork p' = fwork p"
    "fposters p' = (fposters p)[k := PoEnter work]" by (simp_all add: p')
  have "\<forall>i < length (fworkers p). winside (fworkers p ! i) \<longleftrightarrow> fowner p = Some (HWorker i)"
    "\<forall>i. fowner p = Some (HWorker i) \<longrightarrow> i < length (fworkers p)"
    "\<forall>k. fowner p = Some (HPoster k) \<longrightarrow> k < length (fposters p)"
    "dinside (fdtor p) \<longleftrightarrow> fowner p = Some HDtor" "\<forall>i < length (fworkers p). wsec_ok p (fworkers p ! i)"
    using inv unfolding fp_inv_def by blast+
  moreover have "\<forall>m < length (fposters p). pinside ((fposters p)[k := PoEnter work] ! m) \<longleftrightarrow> fowner p = Some (HPoster m)"
    using po by blast
  moreover have "\<forall>m < length (fposters p). \<forall>v. (fposters p)[k := PoEnter work] ! m = PoBranch v \<longrightarrow>
      fwork p \<noteq> [] \<and> last (fwork p) = v" using br by blast
  moreover have "fdtor p \<noteq> DcNone \<longrightarrow> list_all (\<lambda>s. s = PoIdle) ((fposters p)[k := PoEnter work])" using k(3) by simp
  ultimately show ?thesis unfolding fp_inv_def s q length_list_update by (intro conjI)
next
  case (FSpurious i)
  then have i: "i < length (fworkers p)" "fworkers p ! i = FwSleep False"
    and p': "p' = p\<lparr>fworkers := (fworkers p)[i := FwSleep True]\<rparr>"
    using st by (simp_all add: asleep_def awaken_def split: if_splits)
  have w: "winside ((fworkers p)[i := FwSleep True] ! m) \<longleftrightarrow> winside (fworkers p ! m)" if "m < length (fworkers p)" for m
    using i that by (cases "m = i") auto
  have s: "wsec_ok p' ((fworkers p)[i := FwSleep True] ! m) \<longleftrightarrow> wsec_ok p (fworkers p ! m)" if "m < length (fworkers p)" for m
    using i that wsec_ok_frame [of p' p "fworkers p ! m"] by (cases "m = i") (simp_all add: p')
  have q: "fworkers p' = (fworkers p)[i := FwSleep True]" "fowner p' = fowner p" "fdtor p' = fdtor p"
    "fwork p' = fwork p" "fposters p' = fposters p" by (simp_all add: p')
  show ?thesis unfolding fp_inv_def q length_list_update using inv w s by (simp add: fp_inv_def)
next
  case FDestroy
  then show ?thesis using st inv
    by (auto simp: fp_inv_def wsec_ok_frame [of "p\<lparr>fdtor := x\<rparr>" p for x] split: if_splits)
qed

text \<open>Who is outside can change without changing what the owner has to undo.\<close>

lemma abs_outside_worker:
  "fowner p \<noteq> Some (HWorker i) \<Longrightarrow> abs_idle (p\<lparr>fworkers := (fworkers p)[i := w]\<rparr>) = abs_idle p"
  "fowner p \<noteq> Some (HWorker i) \<Longrightarrow> abs_work (p\<lparr>fworkers := (fworkers p)[i := w]\<rparr>) = abs_work p"
  by (auto simp: abs_idle_def abs_work_def split: option.split lock_holder.split)

lemma abs_outside_poster:
  "fowner p \<noteq> Some (HPoster k) \<Longrightarrow> abs_work (p\<lparr>fposters := (fposters p)[k := s]\<rparr>) = abs_work p"
  by (auto simp: abs_work_def split: option.split lock_holder.split)

lemma abs_idle_frame [simp]:
  "abs_idle (p\<lparr>fposters := x\<rparr>) = abs_idle p" "abs_idle (p\<lparr>fdtor := d\<rparr>) = abs_idle p"
  "abs_idle (p\<lparr>ffinished := y\<rparr>) = abs_idle p" "abs_idle (p\<lparr>fstop := b\<rparr>) = abs_idle p"
  "abs_work (p\<lparr>fdtor := d\<rparr>) = abs_work p" "abs_work (p\<lparr>ffinished := y\<rparr>) = abs_work p"
  "abs_work (p\<lparr>fstop := b\<rparr>) = abs_work p"
  by (simp_all add: abs_idle_def abs_work_def split: option.split lock_holder.split)

lemma list_update_eqI: "xs ! i = x \<Longrightarrow> xs[i := x] = xs"
  by auto

text \<open>The pool as the owner, or a worker that has just let go, sees it.\<close>

lemma fp_abs_owner:
  assumes "i < length (fworkers p)" and "fworkers q = (fworkers p)[i := w]" and "fdtor q = fdtor p"
    and "fowner q = (if winside w then Some (HWorker i) else None)"
  shows "fp_abs q = \<lparr>mMaxThreadCount = fmax q, mStop = fstop q,
     mThreads = (map (abs_worker (fdtor p)) (fworkers p))[i := abs_worker (fdtor p) w],
     mIdleThreadCount = fidle q + undo_idle w, mWork = undo_pop w @ fwork q, dtor = abs_dtor (fdtor p),
     posted = fposted q, started = fstarted q, finished = ffinished q\<rparr>"
proof -
  have "\<not> winside w \<Longrightarrow> undo_idle w = 0 \<and> undo_pop w = []" by (cases w) simp_all
  then show ?thesis using assms by (simp add: fp_abs_def abs_idle_def abs_work_def map_update)
qed

lemma abs_owner_sim:
  assumes inv: "fp_inv p" and i: "i < length (fworkers p)" and w: "fworkers p ! i = FwIn fresh s"
    and st: "FWorker_step i p (FwIn fresh s) = Some (p', v)"
  shows "fp_abs (p'\<lparr>fworkers := (fworkers p)[i := v]\<rparr>) = fp_abs p \<or>
    tp_next (Worker i) (fp_abs p) = Some (fp_abs (p'\<lparr>fworkers := (fworkers p)[i := v]\<rparr>))"
proof -
  define M where "M = map (abs_worker (fdtor p)) (fworkers p)"
  have o: "fowner p = Some (HWorker i)" using fp_invD(1) [OF inv i] w by simp
  have ok: "wsec_ok p (FwIn fresh s)" using fp_invD(7) [OF inv i] w by simp
  have d: "fdtor p \<noteq> DcWake" using fp_invD(5) [OF inv] o by auto
  have M: "i < length M" "M ! i = (if fresh then WLock else WSleep True)" using i w by (simp_all add: M_def)
  have A: "fp_abs p = \<lparr>mMaxThreadCount = fmax p, mStop = fstop p, mThreads = M,
     mIdleThreadCount = fidle p + undo_idle (FwIn fresh s), mWork = undo_pop (FwIn fresh s) @ fwork p,
     dtor = abs_dtor (fdtor p), posted = fposted p, started = fstarted p, finished = ffinished p\<rparr>"
    using fp_abs_owner [of i p p "FwIn fresh s"] i w o by (simp add: M_def list_update_eqI)
  have f: "fdtor p' = fdtor p" "fworkers p' = fworkers p"
    "fowner p' = (if winside v then Some (HWorker i) else None)"
    using worker_step_frame(4,5,9) [OF st] o by simp_all
  have B: "fp_abs (p'\<lparr>fworkers := (fworkers p)[i := v]\<rparr>) = \<lparr>mMaxThreadCount = fmax p', mStop = fstop p',
     mThreads = M[i := abs_worker (fdtor p) v],
     mIdleThreadCount = fidle p' + undo_idle v, mWork = undo_pop v @ fwork p',
     dtor = abs_dtor (fdtor p), posted = fposted p', started = fstarted p', finished = ffinished p'\<rparr>"
    using fp_abs_owner [OF i, of "p'\<lparr>fworkers := (fworkers p)[i := v]\<rparr>" v] f by (simp add: M_def)
  have same: "M[i := WLock] = M" if fresh using M that by (intro list_update_eqI) simp
  have same': "M[i := WSleep True] = M" if "\<not> fresh" using M that by (intro list_update_eqI) simp
  have dn: "abs_worker (fdtor p) (FwSleep False) = WSleep False" using d by simp
  show ?thesis
  proof (cases s)
    case STest
    show ?thesis
    proof (cases "fwork p")
      case Nil
      then have "p' = p\<lparr>fowner := None\<rparr>" "v = FwSleep False" using st STest o by (auto simp: lock_defs)
      then show ?thesis unfolding A B using Nil STest M ok dn by (cases fresh) (simp_all add: take_work_def)
    next
      case (Cons x xs)
      then have "p' = p" "v = FwIn fresh SPop" using st STest by simp_all
      then show ?thesis unfolding A B using STest same same' by (cases fresh) simp_all
    qed
  next
    case SPop
    then obtain x xs where "fwork p = x # xs" "p' = p\<lparr>fwork := xs\<rparr>" "v = FwIn fresh (SDec x)"
      using st by (auto split: list.splits)
    then show ?thesis unfolding A B using SPop same same' by (cases fresh) simp_all
  next
    case (SLeave x)
    then have "p' = p\<lparr>fstarted := fstarted p @ [x], fowner := None\<rparr>" "v = FwRun x"
      using st o by (auto simp: lock_defs)
    then show ?thesis unfolding A B using SLeave M ok by (cases fresh) (simp_all add: take_work_def)
  next
    case SStopLeave
    then have "p' = p\<lparr>fowner := None\<rparr>" "v = FwExit" using st o by (auto simp: lock_defs)
    then show ?thesis unfolding A B using SStopLeave M ok by (cases fresh) simp_all
  next
    case SInc
    then have "p' = p\<lparr>fidle := fidle p + 1\<rparr>" "v = FwIn fresh STest" using st by simp_all
    then show ?thesis unfolding A B using SInc same ok by simp
  next
    case SStop
    then have "p' = p" "v = FwIn fresh (if fstop p then SStopDec else STest)" using st by auto
    then show ?thesis unfolding A B using SStop same' ok by simp
  next
    case (SDec x)
    then have "p' = p\<lparr>fidle := fidle p - 1\<rparr>" "v = FwIn fresh (SLeave x)" using st by simp_all
    then show ?thesis unfolding A B using SDec same same' by (cases fresh) simp_all
  next
    case SStopDec
    then have "p' = p\<lparr>fidle := fidle p - 1\<rparr>" "v = FwIn fresh SStopLeave" using st by simp_all
    then show ?thesis unfolding A B using SStopDec same' ok by simp
  qed
qed

lemma abs_worker_sim:
  assumes inv: "fp_inv p" and i: "i < length (fworkers p)"
    and st: "FWorker_step i p (fworkers p ! i) = Some (p', w)"
  shows "fp_abs (p'\<lparr>fworkers := (fworkers p)[i := w]\<rparr>) = fp_abs p \<or>
    tp_next (Worker i) (fp_abs p) = Some (fp_abs (p'\<lparr>fworkers := (fworkers p)[i := w]\<rparr>))"
proof (cases "fworkers p ! i")
  case (FwIn fresh s)
  then show ?thesis using abs_owner_sim [OF inv i] st by simp
next
  case FwTop
  then have o: "fowner p \<noteq> Some (HWorker i)" using fp_invD(1) [OF inv i] by simp
  then show ?thesis using st i FwTop by (auto simp: fp_abs_def abs_outside_worker map_update)
next
  case (FwRun item)
  then have o: "fowner p \<noteq> Some (HWorker i)" using fp_invD(1) [OF inv i] by simp
  have p': "p' = p\<lparr>ffinished := ffinished p @ [item]\<rparr>" "w = FwTop" using st FwRun by auto
  show ?thesis unfolding p' using i FwRun abs_outside_worker [of "p\<lparr>ffinished := ffinished p @ [item]\<rparr>" i FwTop] o
    by (simp add: fp_abs_def map_update)
next
  case FwLock
  then have n: "fowner p = None" "w = FwIn True SInc" "p' = p\<lparr>fowner := Some (HWorker i)\<rparr>"
    using st by (auto simp: lock_defs split: if_splits)
  then show ?thesis using i FwLock
    by (simp add: fp_abs_def abs_idle_def abs_work_def map_update list_update_eqI)
next
  case (FwSleep b)
  then have n: "b" "fowner p = None" "w = FwIn False SStop" "p' = p\<lparr>fowner := Some (HWorker i)\<rparr>"
    using st by (auto simp: lock_defs split: if_splits)
  then show ?thesis using i FwSleep
    by (simp add: fp_abs_def abs_idle_def abs_work_def map_update list_update_eqI)
qed (use st in simp)

lemma abs_worker_same: "d \<noteq> DcWake \<Longrightarrow> e \<noteq> DcWake \<Longrightarrow> abs_worker d = abs_worker e"
proof
  show "d \<noteq> DcWake \<Longrightarrow> e \<noteq> DcWake \<Longrightarrow> abs_worker d w = abs_worker e w" for w by (cases w) simp_all
qed

text \<open>\<^verbatim>\<open>WakeOne\<close> on the workers is \<^verbatim>\<open>WakeOne\<close> on what they stand for.\<close>

lemma abs_asleep: "d \<noteq> DcWake \<Longrightarrow> abs_worker d w = WSleep False \<longleftrightarrow> asleep w"
  by (cases w) (auto simp: asleep_def)

lemma abs_WakeOne:
  assumes "d \<noteq> DcWake" and "SystemCondition_WakeOne asleep awaken j ws = Some ws'"
  shows "WakeOne j (map (abs_worker d) ws) = Some (map (abs_worker d) ws')"
proof -
  have "WSleep False \<in> set (map (abs_worker d) ws) \<longleftrightarrow> list_ex asleep ws"
    using abs_asleep [OF assms(1)] by (force simp: list_ex_iff)
  then show ?thesis using assms abs_asleep [OF assms(1), of "ws ! j"]
    by (auto simp: SystemCondition_WakeOne_def WakeOne_def awaken_def map_update split: if_splits)
qed

lemma abs_poster_sim:
  assumes inv: "fp_inv p" and k: "k < length (fposters p)"
    and st: "FPoster_step k j p (fposters p ! k) = Some (p', s)"
  shows "fp_abs (p'\<lparr>fposters := (fposters p)[k := s]\<rparr>) = fp_abs p \<or>
    (\<exists>work. tp_next (AddWork work j) (fp_abs p) = Some (fp_abs (p'\<lparr>fposters := (fposters p)[k := s]\<rparr>)))"
proof (cases "fposters p ! k")
  case PoIdle
  then show ?thesis using st by simp
next
  case (PoEnter work)
  then have "fowner p = None" "s = PoPush work" "p' = p\<lparr>fowner := Some (HPoster k)\<rparr>"
    using st by (auto simp: lock_defs split: if_splits)
  then show ?thesis using k by (simp add: fp_abs_def abs_idle_def abs_work_def)
next
  case (PoPush work)
  then have o: "fowner p = Some (HPoster k)" using fp_invD(2) [OF inv k] by simp
  have "s = PoBranch work" "p' = p\<lparr>fwork := fwork p @ [work]\<rparr>" using st PoPush by simp_all
  then show ?thesis using k o PoPush by (simp add: fp_abs_def abs_idle_def abs_work_def)
next
  case PoLeave
  then have o: "fowner p = Some (HPoster k)" using fp_invD(2) [OF inv k] by simp
  then have "s = PoIdle" "p' = p\<lparr>fowner := None\<rparr>" using st PoLeave by (simp_all add: lock_defs)
  then show ?thesis using k o PoLeave by (simp add: fp_abs_def abs_idle_def abs_work_def)
next
  case (PoBranch work)
  then have o: "fowner p = Some (HPoster k)" using fp_invD(2) [OF inv k] by simp
  have l: "fwork p \<noteq> []" "last (fwork p) = work" using fp_invD(8) [OF inv k PoBranch] by blast+
  have d: "fdtor p = DcNone" using fp_invD(6) [OF inv _ k] PoBranch by auto
  have A: "fp_abs p = \<lparr>mMaxThreadCount = fmax p, mStop = fstop p, mThreads = map (abs_worker DcNone) (fworkers p),
     mIdleThreadCount = fidle p, mWork = butlast (fwork p), dtor = DNone,
     posted = fposted p, started = fstarted p, finished = ffinished p\<rparr>"
    using o PoBranch d by (simp add: fp_abs_def abs_idle_def abs_work_def)
  have B: "fp_abs (q\<lparr>fposters := (fposters p)[k := PoLeave]\<rparr>) = \<lparr>mMaxThreadCount = fmax q, mStop = fstop q,
     mThreads = map (abs_worker DcNone) (fworkers q),
     mIdleThreadCount = fidle q, mWork = fwork q, dtor = DNone,
     posted = fposted q, started = fstarted q, finished = ffinished q\<rparr>"
    if "fowner q = fowner p" "fdtor q = fdtor p" for q
    using that o k d by (simp add: fp_abs_def abs_idle_def abs_work_def)
  have w: "butlast (fwork p) @ [work] = fwork p" using l by auto
  show ?thesis
  proof (cases "fidle p = 0 \<and> length (fworkers p) < fmax p")
    case True
    then have "s = PoLeave" "p' = p\<lparr>fposted := fposted p @ [work], fworkers := fworkers p @ [FwTop]\<rparr>"
      using st PoBranch by (simp_all add: Let_def)
    then have "tp_next (AddWork work j) (fp_abs p) = Some (fp_abs (p'\<lparr>fposters := (fposters p)[k := s]\<rparr>))"
      using True w by (simp add: A B AddWorkItem_def)
    then show ?thesis by blast
  next
    case False
    then obtain ws where ws: "SystemCondition_WakeOne asleep awaken j (fworkers p) = Some ws"
      and "s = PoLeave" "p' = p\<lparr>fposted := fposted p @ [work], fworkers := ws\<rparr>"
      using st PoBranch by (auto simp: Let_def)
    then have "tp_next (AddWork work j) (fp_abs p) = Some (fp_abs (p'\<lparr>fposters := (fposters p)[k := s]\<rparr>))"
      using False w abs_WakeOne [OF _ ws, of DcNone] by (auto simp: A B AddWorkItem_def Let_def)
    then show ?thesis by blast
  qed
qed

lemma abs_dtor_sim:
  assumes inv: "fp_inv p" and tp: "tp_inv n (fp_abs p)"
    and st: "FDtor_step p (fdtor p) = Some (p', d)"
  shows "fp_abs (p'\<lparr>fdtor := d\<rparr>) = fp_abs p \<or> tp_next Dtor (fp_abs p) = Some (fp_abs (p'\<lparr>fdtor := d\<rparr>))"
proof (cases "fdtor p")
  case DcNone
  then show ?thesis using st by simp
next
  case DcEnter
  then have "fowner p = None" "d = DcStop" "p' = p\<lparr>fowner := Some HDtor\<rparr>"
    using st by (auto simp: lock_defs split: if_splits)
  then show ?thesis using DcEnter abs_worker_same [of DcEnter DcStop]
    by (simp add: fp_abs_def abs_idle_def abs_work_def)
next
  case DcStop
  then have "d = DcWake" "p' = p\<lparr>fstop := True\<rparr>" using st by simp_all
  moreover have "abs_worker DcWake w = wake_worker (abs_worker DcStop w)" for w by (cases w) (simp_all add: wake_worker_def)
  ultimately show ?thesis using DcStop by (simp add: fp_abs_def comp_def)
next
  case DcWake
  then have o: "fowner p = Some HDtor" using fp_invD(5) [OF inv] by simp
  have "d = DcLeave" "p' = p\<lparr>fworkers := SystemCondition_WakeAll asleep awaken (fworkers p)\<rparr>"
    using st DcWake by simp_all
  moreover have "abs_worker DcLeave (if asleep w then awaken w else w) = abs_worker DcWake w" for w
    by (cases w) (simp_all add: asleep_def awaken_def)
  ultimately show ?thesis using DcWake o
    by (simp add: fp_abs_def abs_idle_def abs_work_def SystemCondition_WakeAll_def comp_def)
next
  case DcLeave
  then have o: "fowner p = Some HDtor" using fp_invD(5) [OF inv] by simp
  then have "d = DcJoin 0" "p' = p\<lparr>fowner := None\<rparr>" using st DcLeave by (simp_all add: lock_defs)
  then show ?thesis using DcLeave o abs_worker_same [of DcLeave "DcJoin 0"]
    by (simp add: fp_abs_def abs_idle_def abs_work_def)
next
  case (DcJoin k)
  have "abs_worker e w = WExit \<longleftrightarrow> w = FwExit" for e w by (cases w) simp_all
  then show ?thesis using st DcJoin abs_worker_same [of "DcJoin k" "DcJoin (k + 1)"] abs_worker_same [of "DcJoin k" DcRest]
    by (auto simp: fp_abs_def split: if_splits)
next
  case DcRest
  have "winside w \<Longrightarrow> abs_worker e w \<noteq> WExit" for e w by (cases w) simp_all
  then have "\<not> winside (fworkers p ! i)" if "i < length (fworkers p)" for i
  proof -
    have "abs_worker DcRest (fworkers p ! i) = WExit" using tp nth_mem [OF that] DcRest by (simp add: tp_inv_def fp_abs_def)
    then show ?thesis using \<open>\<And>w e. winside w \<Longrightarrow> abs_worker e w \<noteq> WExit\<close> by blast
  qed
  then have "fowner p \<noteq> Some (HWorker i)" for i using fp_invD(1,3) [OF inv, of i] by auto
  moreover have "fowner p \<noteq> Some (HPoster k)" for k
    using fp_invD(2) [OF inv, of k] fp_invD(4) [OF inv, of k] fp_invD(6) [OF inv, of k] DcRest by auto
  moreover have "fowner p \<noteq> Some HDtor" using fp_invD(5) [OF inv] DcRest by simp
  ultimately have o: "fowner p = None" by (metis lock_holder.exhaust option.exhaust)
  show ?thesis using st DcRest o abs_worker_same [of DcRest DcDone]
    by (auto simp: fp_abs_def abs_idle_def abs_work_def split: list.splits)
qed (use st in simp)

lemma fp_next_sim:
  assumes inv: "fp_inv p" and tp: "tp_inv n (fp_abs p)" and st: "fp_next a p = Some p'"
  shows "fp_abs p' = fp_abs p \<or> (\<exists>b. tp_next b (fp_abs p) = Some (fp_abs p'))"
proof (cases a)
  case (FWorker i)
  then obtain q w where "i < length (fworkers p)" "FWorker_step i p (fworkers p ! i) = Some (q, w)"
    "p' = q\<lparr>fworkers := (fworkers p)[i := w]\<rparr>" using st by (auto split: if_splits)
  then show ?thesis using abs_worker_sim [OF inv] by blast
next
  case (FPoster k j)
  then obtain q s where "k < length (fposters p)" "FPoster_step k j p (fposters p ! k) = Some (q, s)"
    "p' = q\<lparr>fposters := (fposters p)[k := s]\<rparr>" using st by (auto split: if_splits)
  then show ?thesis using abs_poster_sim [OF inv] by blast
next
  case FDtor
  then obtain q d where "FDtor_step p (fdtor p) = Some (q, d)" "p' = q\<lparr>fdtor := d\<rparr>" using st by auto
  then show ?thesis using abs_dtor_sim [OF inv tp] by blast
next
  case (FCall k work)
  then have k: "k < length (fposters p)" "fposters p ! k = PoIdle"
    and p': "p' = p\<lparr>fposters := (fposters p)[k := PoEnter work]\<rparr>" using st by (simp_all split: if_splits)
  have "fowner p \<noteq> Some (HPoster k)" using fp_invD(2) [OF inv k(1)] k(2) by auto
  then show ?thesis by (simp add: p' fp_abs_def abs_outside_poster)
next
  case FDestroy
  then have "fdtor p = DcNone" "p' = p\<lparr>fdtor := DcEnter\<rparr>" using st by (simp_all split: if_splits)
  then show ?thesis using abs_worker_same [of DcNone DcEnter] by (simp add: fp_abs_def)
next
  case (FSpurious i)
  then have i: "i < length (fworkers p)" "fworkers p ! i = FwSleep False"
    and p': "p' = p\<lparr>fworkers := (fworkers p)[i := FwSleep True]\<rparr>"
    using st by (simp_all add: asleep_def awaken_def split: if_splits)
  have o: "fowner p \<noteq> Some (HWorker i)" using fp_invD(1) [OF inv i(1)] i(2) by simp
  have "tp_next (Spurious i) (fp_abs p) = Some (fp_abs p')" if "fdtor p \<noteq> DcWake"
    using i that by (simp add: p' fp_abs_def abs_outside_worker [OF o] map_update)
  moreover have "fp_abs p' = fp_abs p" if "fdtor p = DcWake"
    using i that by (simp add: p' fp_abs_def abs_outside_worker [OF o] map_update list_update_eqI)
  ultimately show ?thesis by blast
qed

lemma fp_init_inv: "fp_inv (fpool_init n clients)" "fp_abs (fpool_init n clients) = ThreadPool_init n"
  by (simp_all add: fp_inv_def fpool_init_def SystemMutex_init_def list_all_length fp_abs_def abs_idle_def abs_work_def
      ThreadPool_init_def)

lemma fp_reaches:
  assumes "reaches fp_next (fpool_init n clients) p"
  shows "fp_inv p \<and> tp_reaches n (fp_abs p)"
  using assms
proof (induction rule: rtranclp_induct)
  case base
  then show ?case by (simp add: fp_init_inv)
next
  case (step p p')
  obtain a where st: "fp_next a p = Some p'" using step.hyps(2) by (auto simp: acts_def)
  have inv: "fp_inv p" and r: "tp_reaches n (fp_abs p)" using step.IH by blast+
  have "tp_reaches n (fp_abs p')"
    using fp_next_sim [OF inv tp_reaches_inv [OF r] st]
  proof
    assume "\<exists>b. tp_next b (fp_abs p) = Some (fp_abs p')"
    then have "acts tp_next (fp_abs p) (fp_abs p')" by (simp add: acts_def)
    with r show ?thesis by (rule rtranclp.rtrancl_into_rtrancl)
  qed (use r in simp)
  then show ?case using fp_inv_step [OF inv st] by blast
qed

text \<open>How many are inside a critical section.\<close>

definition inside_count :: "fpool \<Rightarrow> nat" where
  "inside_count p = length (filter winside (fworkers p)) + length (filter pinside (fposters p)) + of_bool (dinside (fdtor p))"

lemma filter_owner:
  assumes "\<And>i. i < length xs \<Longrightarrow> P (xs ! i) \<longleftrightarrow> own = Some (f i)" and "inj f"
  shows "length (filter P xs) \<le> of_bool (\<exists>i. own = Some (f i))"
proof -
  have "{i. i < length xs \<and> P (xs ! i)} \<subseteq> {i. own = Some (f i)}" using assms(1) by auto
  moreover have "{i. own = Some (f i)} \<subseteq> (case own of None \<Rightarrow> {} | Some h \<Rightarrow> {inv f h})"
    using assms(2) by (auto split: option.split)
  ultimately have "{i. i < length xs \<and> P (xs ! i)} \<subseteq> (if \<exists>i. own = Some (f i) then {inv f (the own)} else {})"
    by (auto split: option.splits)
  then have "card {i. i < length xs \<and> P (xs ! i)} \<le> card (if \<exists>i. own = Some (f i) then {inv f (the own)} else {})"
    by (intro card_mono) auto
  then show ?thesis by (auto simp: length_filter_conv_card split: if_splits)
qed

text \<open>Claim C14.
  The thread pool over its mutex and condition variable implements the pool whose critical sections are one
  step: whatever the accesses of any number of calls of \<^verbatim>\<open>AddWorkItem\<close>, of the workers and of the destructor do
  in any interleaving, with spurious wake-ups, the pool with the owner's unfinished section undone is one
  that theory Thread\_Pool reaches.  At most one thread is inside a critical section; and when the destructor is
  done, every item posted was run exactly once.\<close>

theorem pool_over_locks_refines:
  assumes "reaches fp_next (fpool_init n clients) p"
  shows "tp_reaches n (fp_abs p) \<and> inside_count p \<le> 1 \<and> (fdtor p = DcDone \<longrightarrow> mset (ffinished p) = mset (fposted p))"
proof -
  have inv: "fp_inv p" and r: "tp_reaches n (fp_abs p)" using fp_reaches [OF assms] by blast+
  have "length (filter winside (fworkers p)) \<le> of_bool (\<exists>i. fowner p = Some (HWorker i))"
    by (rule filter_owner) (use fp_invD(1) [OF inv] in \<open>auto intro: injI\<close>)
  moreover have "length (filter pinside (fposters p)) \<le> of_bool (\<exists>k. fowner p = Some (HPoster k))"
    by (rule filter_owner) (use fp_invD(2) [OF inv] in \<open>auto intro: injI\<close>)
  moreover have "of_bool (\<exists>i. fowner p = Some (HWorker i)) + of_bool (\<exists>k. fowner p = Some (HPoster k)) +
      of_bool (dinside (fdtor p)) \<le> (1::nat)"
    using fp_invD(5) [OF inv] by auto
  ultimately have "inside_count p \<le> 1" unfolding inside_count_def by linarith
  moreover have "mset (ffinished p) = mset (fposted p)" if "fdtor p = DcDone"
    using tp_finished_all [OF r] that by (simp add: fp_abs_def)
  ultimately show ?thesis using r by blast
qed

text \<open>One client posts twice to a pool of one thread and destroys it.\<close>

lemmas fp_eval = fpool_init_def SystemMutex_init_def lock_defs with_lock_def Let_def asleep_def awaken_def
  SystemCondition_WakeOne_def SystemCondition_WakeAll_def

theorem pool_over_locks_refines_witness:
  "\<exists>p. reaches fp_next (fpool_init 1 1) p \<and> fdtor p = DcDone \<and> fposted p = [5, 6] \<and> mset (ffinished p) = {#5, 6#}"
proof -
  obtain p where run: "run_acts fp_next [FCall 0 5, FPoster 0 0, FPoster 0 0, FPoster 0 0, FWorker 0, FPoster 0 0,
      FWorker 0, FWorker 0, FWorker 0, FWorker 0, FWorker 0, FWorker 0, FCall 0 6, FPoster 0 0, FPoster 0 0,
      FPoster 0 0, FPoster 0 0, FDestroy, FDtor, FDtor, FWorker 0, FWorker 0, FDtor, FDtor, FDtor, FDtor, FDtor, FDtor]
      (fpool_init 1 1) = Some p" and p: "fdtor p = DcDone" "fposted p = [5, 6]"
    by (simp add: fp_eval)
  have r: "reaches fp_next (fpool_init 1 1) p" using run_acts_reaches [OF run] .
  have "mset (ffinished p) = {#5, 6#}" using pool_over_locks_refines [OF r] p by simp
  then show ?thesis using r p by blast
qed

end
