(* ===== verification/Promise_Handles.thy ===== *)
theory Promise_Handles
  imports Future "HOL-Library.Multiset"
begin

text \<open>
  Promises and futures as their users hold them (promise.hpp, future.hpp, detail/future_data.hpp): any
  number of \<^verbatim>\<open>Promise\<close> and \<^verbatim>\<open>Future\<close> objects that share \<^verbatim>\<open>FutureData\<close> through intrusive pointers, are
  made, moved, copied, assigned and destroyed, and deliver values, exceptions or, as \<^verbatim>\<open>Promise<void>\<close>, neither.

  One action is one call, run to its end; the interleaving of calls is the subject of the theories Future and
  Future\_Event.  \<^verbatim>\<open>IntrusivePtr\<close> is part of crunch.base and a parameter here: what its operations leave in
  the pointers, and which calls of \<^verbatim>\<open>AddRef\<close> and \<^verbatim>\<open>Release\<close> they make.  \<open>intrusive_ptr_ok\<close> is what an
  intrusive pointer promises: the calls keep step with the pointers.
\<close>

section \<open>Data without a value\<close>

text \<open>\<^verbatim>\<open>FutureData<void>\<close>: no value is stored, and \<^verbatim>\<open>Get\<close> returns nothing, which is 0 here.\<close>

definition FutureDataVoid_Set :: "fut_mem \<Rightarrow> fut_mem option" where
  "FutureDataVoid_Set g = (if eventSet g then None else Some g)"

definition FutureDataVoid_Get :: "fut_mem \<Rightarrow> (nat + nat) option" where
  "FutureDataVoid_Get g = (case mException g of None \<Rightarrow> Some (Inr 0) | Some e \<Rightarrow> Some (Inl e))"

text \<open>The destructor of \<^verbatim>\<open>FutureData\<close>: whether it destroys a value.\<close>

definition FutureData_destructor :: "bool \<Rightarrow> fut_mem \<Rightarrow> bool" where
  "FutureData_destructor isVoid g = (\<not> isVoid \<and> HasValue g)"

definition IsReady :: "fut_mem \<Rightarrow> bool" where
  "IsReady g = eventSet g"

definition GetRefCount :: "fut_mem \<Rightarrow> u32" where
  "GetRefCount g = mRefCount g"

section \<open>Handles\<close>

text \<open>The objects made so far, by number; a null pointer or a destroyed object is \<open>None\<close>.  \<open>wasSet\<close>
  and \<open>delivered\<close> record the calls of \<^verbatim>\<open>Set\<close> and \<^verbatim>\<open>Get\<close> with the data they were made on.\<close>

record pf_sys =
  datas :: "fut_mem list"
  promises :: "nat option list"
  futures :: "nat option list"
  valueDtors :: "nat list" \<comment> \<open>the data whose value was destroyed\<close>
  wasSet :: "(nat \<times> (nat + nat)) list"
  delivered :: "(nat \<times> (nat + nat)) list"

definition pf_init :: pf_sys where
  "pf_init = \<lparr>datas = [], promises = [], futures = [], valueDtors = [], wasSet = [], delivered = []\<rparr>"

datatype pf_error = NullData | AlreadySet | RefCountZero

text \<open>\<^verbatim>\<open>AddRef\<close> and \<^verbatim>\<open>Release\<close> of a data, the latter with \<^verbatim>\<open>Destroy\<close>.\<close>

definition call_AddRef :: "nat \<Rightarrow> pf_sys \<Rightarrow> pf_sys" where
  "call_AddRef d s = s\<lparr>datas := (datas s)[d := FutureData_AddRef (datas s ! d)]\<rparr>"

definition call_Release :: "bool \<Rightarrow> nat \<Rightarrow> pf_sys \<Rightarrow> pf_error + pf_sys" where
  "call_Release isVoid d s =
     (case FutureData_Release (datas s ! d) of
        None \<Rightarrow> Inl RefCountZero
      | Some (g, isLast) \<Rightarrow>
          Inr (if isLast
               then s\<lparr>datas := (datas s)[d := g\<lparr>destroyed := destroyed g + 1\<rparr>],
                      valueDtors := valueDtors s @ (if FutureData_destructor isVoid g then [d] else [])\<rparr>
               else s\<lparr>datas := (datas s)[d := g]\<rparr>))"

datatype ref_call = AddRef nat | Release nat

fun ref_calls :: "bool \<Rightarrow> ref_call list \<Rightarrow> pf_sys \<Rightarrow> pf_error + pf_sys" where
  "ref_calls isVoid [] s = Inr s"
| "ref_calls isVoid (AddRef d # cs) s = ref_calls isVoid cs (call_AddRef d s)"
| "ref_calls isVoid (Release d # cs) s =
     (case call_Release isVoid d s of Inl e \<Rightarrow> Inl e | Inr s' \<Rightarrow> ref_calls isVoid cs s')"

text \<open>
  The operations of \<^verbatim>\<open>IntrusivePtr\<close>: from a new object, the copy and the move constructor, the copy and the
  move assignment, the destructor.  Each gives the pointers it leaves and the calls it makes: a constructor
  the new pointer (a move, before that, what it leaves in its source); an assignment works on the
  pointers that there are, and gets the places of its target and of its source, which may be the same.
\<close>

record intrusive_ptr =
  ip_make :: "nat \<Rightarrow> nat option \<times> ref_call list"
  ip_copy :: "nat option \<Rightarrow> nat option \<times> ref_call list"
  ip_move :: "nat option \<Rightarrow> nat option \<times> nat option \<times> ref_call list"
  ip_copy_assign :: "nat \<Rightarrow> nat \<Rightarrow> nat option list \<Rightarrow> nat option list \<times> ref_call list"
  ip_move_assign :: "nat \<Rightarrow> nat \<Rightarrow> nat option list \<Rightarrow> nat option list \<times> ref_call list"
  ip_destroy :: "nat option \<Rightarrow> ref_call list"

text \<open>The calls \<open>cs\<close> keep step with the pointers when those go from \<open>ps\<close> to \<open>qs\<close>: the references
  added, one at most and first, to a data that is pointed to, make up with those released for the change in the
  number of pointers to each data.  No pointer comes from nowhere.\<close>

definition balanced :: "nat option list \<Rightarrow> ref_call list \<Rightarrow> nat option list \<Rightarrow> bool" where
  "balanced ps cs qs \<longleftrightarrow>
     (\<exists>as rs. cs = map AddRef as @ map Release rs \<and> length as \<le> 1 \<and> (\<forall>a \<in> set as. Some a \<in> set ps) \<and>
        (\<forall>d. count_list ps (Some d) + count_list as d = count_list qs (Some d) + count_list rs d)) \<and>
     set qs \<subseteq> insert None (set ps)"

text \<open>What \<^verbatim>\<open>IntrusivePtr\<close> promises.  What a move leaves in its source, and what a move of a pointer to
  itself leaves, is open.\<close>

definition intrusive_ptr_ok :: "intrusive_ptr \<Rightarrow> bool" where
  "intrusive_ptr_ok P \<longleftrightarrow>
     (\<forall>d. ip_make P d = (Some d, [AddRef d])) \<and>
     (\<forall>p. case ip_copy P p of (q, cs) \<Rightarrow> q = p \<and> balanced [p] cs [p, q]) \<and>
     (\<forall>p. case ip_move P p of (p', q, cs) \<Rightarrow> q = p \<and> balanced [p] cs [p', q]) \<and>
     (\<forall>i j ps. i < length ps \<and> j < length ps \<longrightarrow>
        (case ip_copy_assign P i j ps of (qs, cs) \<Rightarrow> qs = ps[i := ps ! j] \<and> balanced ps cs qs)) \<and>
     (\<forall>i j ps. i < length ps \<and> j < length ps \<longrightarrow>
        (case ip_move_assign P i j ps of (qs, cs) \<Rightarrow> length qs = length ps \<and> (i \<noteq> j \<longrightarrow> qs ! i = ps ! j) \<and>
           (\<forall>k < length ps. k \<noteq> i \<and> k \<noteq> j \<longrightarrow> qs ! k = ps ! k) \<and> balanced ps cs qs)) \<and>
     (\<forall>p. balanced [p] (ip_destroy P p) [])"

section \<open>Promises and futures\<close>

definition Promise_construct :: "intrusive_ptr \<Rightarrow> bool \<Rightarrow> pf_sys \<Rightarrow> pf_error + pf_sys" where
  "Promise_construct P isVoid s =
     (let (mData, calls) = ip_make P (length (datas s))
      in ref_calls isVoid calls (s\<lparr>datas := datas s @ [FutureData_init 0], promises := promises s @ [mData]\<rparr>))"

definition Promise_move :: "intrusive_ptr \<Rightarrow> bool \<Rightarrow> nat \<Rightarrow> pf_sys \<Rightarrow> pf_error + pf_sys" where
  "Promise_move P isVoid rhs s =
     (let (left, mData, calls) = ip_move P (promises s ! rhs)
      in ref_calls isVoid calls (s\<lparr>promises := (promises s)[rhs := left] @ [mData]\<rparr>))"

definition Promise_assign :: "intrusive_ptr \<Rightarrow> bool \<Rightarrow> nat \<Rightarrow> nat \<Rightarrow> pf_sys \<Rightarrow> pf_error + pf_sys" where
  "Promise_assign P isVoid this rhs s =
     (let (ps, calls) = ip_move_assign P this rhs (promises s)
      in ref_calls isVoid calls (s\<lparr>promises := ps\<rparr>))"

definition Promise_destroy :: "intrusive_ptr \<Rightarrow> bool \<Rightarrow> nat \<Rightarrow> pf_sys \<Rightarrow> pf_error + pf_sys" where
  "Promise_destroy P isVoid p s =
     ref_calls isVoid (ip_destroy P (promises s ! p)) (s\<lparr>promises := (promises s)[p := None]\<rparr>)"

text \<open>A call of \<^verbatim>\<open>Set\<close> through a promise: \<open>f\<close> is what it does to the data, \<open>r\<close> what it stores.\<close>

definition set_through :: "(fut_mem \<Rightarrow> fut_mem option) \<Rightarrow> nat + nat \<Rightarrow> nat option \<Rightarrow> pf_sys \<Rightarrow> pf_error + pf_sys" where
  "set_through f r p s =
     (case p of None \<Rightarrow> Inl NullData
      | Some d \<Rightarrow>
          (case f (datas s ! d) of
             None \<Rightarrow> Inl AlreadySet
           | Some g \<Rightarrow> Inr (s\<lparr>datas := (datas s)[d := g\<lparr>eventSet := True\<rparr>], wasSet := wasSet s @ [(d, r)]\<rparr>)))"

definition Promise_SetValue :: "nat \<Rightarrow> nat \<Rightarrow> pf_sys \<Rightarrow> pf_error + pf_sys" where
  "Promise_SetValue p v s = set_through (FutureData_Set v) (Inr v) (promises s ! p) s"

definition PromiseVoid_SetValue :: "nat \<Rightarrow> pf_sys \<Rightarrow> pf_error + pf_sys" where
  "PromiseVoid_SetValue p s = set_through FutureDataVoid_Set (Inr 0) (promises s ! p) s"

definition Promise_SetException :: "nat \<Rightarrow> nat \<Rightarrow> pf_sys \<Rightarrow> pf_error + pf_sys" where
  "Promise_SetException p e s = set_through (FutureData_SetException e) (Inl e) (promises s ! p) s"

text \<open>\<^verbatim>\<open>GetFuture\<close> and the implicit copy and assignment of futures.\<close>

definition Future_construct :: "intrusive_ptr \<Rightarrow> bool \<Rightarrow> nat option \<Rightarrow> pf_sys \<Rightarrow> pf_error + pf_sys" where
  "Future_construct P isVoid data s =
     (let (mData, calls) = ip_copy P data in ref_calls isVoid calls (s\<lparr>futures := futures s @ [mData]\<rparr>))"

definition Promise_GetFuture :: "intrusive_ptr \<Rightarrow> bool \<Rightarrow> nat \<Rightarrow> pf_sys \<Rightarrow> pf_error + pf_sys" where
  "Promise_GetFuture P isVoid p s = Future_construct P isVoid (promises s ! p) s"

definition Future_assign :: "intrusive_ptr \<Rightarrow> bool \<Rightarrow> nat \<Rightarrow> nat \<Rightarrow> pf_sys \<Rightarrow> pf_error + pf_sys" where
  "Future_assign P isVoid this rhs s =
     (let (fs, calls) = ip_copy_assign P this rhs (futures s)
      in ref_calls isVoid calls (s\<lparr>futures := fs\<rparr>))"

definition Future_destroy :: "intrusive_ptr \<Rightarrow> bool \<Rightarrow> nat \<Rightarrow> pf_sys \<Rightarrow> pf_error + pf_sys" where
  "Future_destroy P isVoid f s =
     ref_calls isVoid (ip_destroy P (futures s ! f)) (s\<lparr>futures := (futures s)[f := None]\<rparr>)"

definition on_future :: "(fut_mem \<Rightarrow> 'a) \<Rightarrow> nat \<Rightarrow> pf_sys \<Rightarrow> pf_error + 'a" where
  "on_future q f s = (case futures s ! f of None \<Rightarrow> Inl NullData | Some d \<Rightarrow> Inr (q (datas s ! d)))"

definition Future_IsReady :: "nat \<Rightarrow> pf_sys \<Rightarrow> pf_error + bool" where
  "Future_IsReady = on_future IsReady"

definition Future_HasValue :: "nat \<Rightarrow> pf_sys \<Rightarrow> pf_error + bool" where
  "Future_HasValue = on_future HasValue"

definition Future_HasException :: "nat \<Rightarrow> pf_sys \<Rightarrow> pf_error + bool" where
  "Future_HasException = on_future HasException"

text \<open>\<^verbatim>\<open>Wait\<close>, which returns when the data is ready, and \<^verbatim>\<open>Get\<close>: \<open>None\<close> while it blocks.\<close>

definition Future_Wait :: "nat \<Rightarrow> pf_sys \<Rightarrow> pf_error + bool" where
  "Future_Wait = on_future (\<lambda>g. eventSet g)"

definition Future_Get :: "bool \<Rightarrow> nat \<Rightarrow> pf_sys \<Rightarrow> pf_error + (nat + nat) option" where
  "Future_Get isVoid =
     on_future (\<lambda>g. if \<not> eventSet g then None else if isVoid then FutureDataVoid_Get g else FutureData_Get g)"

definition Future_IsOrderDependent :: bool where
  "Future_IsOrderDependent = False"

datatype pf_act =
    PNew | PMove nat | PAssign nat nat | PDestroy nat
  | PSet nat nat | PSetE nat nat | PFuture nat
  | FCopy nat | FAssign nat nat | FDrop nat | FGet nat

fun pf_do :: "intrusive_ptr \<Rightarrow> bool \<Rightarrow> pf_act \<Rightarrow> pf_sys \<Rightarrow> pf_error + pf_sys" where
  "pf_do P isVoid PNew s = Promise_construct P isVoid s"
| "pf_do P isVoid (PMove p) s = Promise_move P isVoid p s"
| "pf_do P isVoid (PAssign p q) s = Promise_assign P isVoid p q s"
| "pf_do P isVoid (PDestroy p) s = Promise_destroy P isVoid p s"
| "pf_do P isVoid (PSet p v) s = (if isVoid then PromiseVoid_SetValue p s else Promise_SetValue p v s)"
| "pf_do P isVoid (PSetE p e) s = Promise_SetException p e s"
| "pf_do P isVoid (PFuture p) s = Promise_GetFuture P isVoid p s"
| "pf_do P isVoid (FCopy f) s = Future_construct P isVoid (futures s ! f) s"
| "pf_do P isVoid (FAssign f h) s = Future_assign P isVoid f h s"
| "pf_do P isVoid (FDrop f) s = Future_destroy P isVoid f s"
| "pf_do P isVoid (FGet f) s =
     (case Future_Get isVoid f s of
        Inl e \<Rightarrow> Inl e
      | Inr None \<Rightarrow> Inr s
      | Inr (Some r) \<Rightarrow> Inr (case futures s ! f of None \<Rightarrow> s | Some d \<Rightarrow> s\<lparr>delivered := delivered s @ [(d, r)]\<rparr>))"

text \<open>The objects an action names exist.\<close>

fun pf_names :: "pf_act \<Rightarrow> pf_sys \<Rightarrow> bool" where
  "pf_names PNew s \<longleftrightarrow> True"
| "pf_names (PMove p) s \<longleftrightarrow> p < length (promises s)"
| "pf_names (PAssign p q) s \<longleftrightarrow> p < length (promises s) \<and> q < length (promises s)"
| "pf_names (PDestroy p) s \<longleftrightarrow> p < length (promises s)"
| "pf_names (PSet p v) s \<longleftrightarrow> p < length (promises s)"
| "pf_names (PSetE p e) s \<longleftrightarrow> p < length (promises s)"
| "pf_names (PFuture p) s \<longleftrightarrow> p < length (promises s)"
| "pf_names (FCopy f) s \<longleftrightarrow> f < length (futures s)"
| "pf_names (FAssign f h) s \<longleftrightarrow> f < length (futures s) \<and> h < length (futures s)"
| "pf_names (FDrop f) s \<longleftrightarrow> f < length (futures s)"
| "pf_names (FGet f) s \<longleftrightarrow> f < length (futures s)"

definition pf_next :: "intrusive_ptr \<Rightarrow> bool \<Rightarrow> pf_act \<Rightarrow> pf_sys \<Rightarrow> pf_sys option" where
  "pf_next P isVoid a s =
     (if pf_names a s then (case pf_do P isVoid a s of Inl e \<Rightarrow> None | Inr s' \<Rightarrow> Some s') else None)"


section \<open>Counting pointers\<close>

text \<open>\<open>H\<close> holds the pointers there are.  The count of a data is the number of pointers to it, it is
  destroyed when there is none, and its value with it.\<close>

definition datum_ok :: "bool \<Rightarrow> nat \<Rightarrow> nat \<Rightarrow> fut_mem \<Rightarrow> bool" where
  "datum_ok isVoid n dtors g \<longleftrightarrow>
     mRefCount g = of_nat n \<and> destroyed g = of_bool (n = 0) \<and>
     dtors = of_bool (n = 0 \<and> FutureData_destructor isVoid g)"

definition ptr_inv :: "bool \<Rightarrow> nat option multiset \<Rightarrow> pf_sys \<Rightarrow> bool" where
  "ptr_inv isVoid H s \<longleftrightarrow>
     (\<forall>d. Some d \<in># H \<longrightarrow> d < length (datas s)) \<and> (\<forall>d \<in> set (valueDtors s). d < length (datas s)) \<and>
     (\<forall>d < length (datas s). datum_ok isVoid (count H (Some d)) (count (mset (valueDtors s)) d) (datas s ! d))"

lemma ptr_invD:
  assumes "ptr_inv isVoid H s"
  shows "Some d \<in># H \<Longrightarrow> d < length (datas s)"
    and "d \<in> set (valueDtors s) \<Longrightarrow> d < length (datas s)"
    and "d < length (datas s) \<Longrightarrow> datum_ok isVoid (count H (Some d)) (count (mset (valueDtors s)) d) (datas s ! d)"
  using assms by (auto simp: ptr_inv_def)

lemma ptr_inv_put:
  assumes inv: "ptr_inv isVoid H s" and d: "d < length (datas s)"
    and others: "\<And>e. e \<noteq> d \<Longrightarrow> count H' (Some e) = count H (Some e) \<and> count (mset dt) e = count (mset (valueDtors s)) e"
    and new: "datum_ok isVoid (count H' (Some d)) (count (mset dt) d) g"
  shows "ptr_inv isVoid H' (s\<lparr>datas := (datas s)[d := g], valueDtors := dt\<rparr>)"
proof -
  have "e < length (datas s)" if "Some e \<in># H'" for e
    using that others [of e] d ptr_invD(1) [OF inv, of e] by (cases "e = d") (auto simp flip: count_greater_zero_iff)
  moreover have "e < length (datas s)" if "e \<in> set dt" for e
    using that others [of e] d ptr_invD(2) [OF inv, of e] by (metis count_eq_zero_iff set_mset_mset)
  moreover have "datum_ok isVoid (count H' (Some e)) (count (mset dt) e) ((datas s)[d := g] ! e)"
    if "e < length (datas s)" for e
    using that others [of e] new ptr_invD(3) [OF inv that] by (cases "e = d") auto
  ultimately show ?thesis by (simp add: ptr_inv_def)
qed

lemma ptr_inv_cong:
  assumes "\<And>d. count H (Some d) = count H' (Some d)"
  shows "ptr_inv isVoid H s = ptr_inv isVoid H' s"
proof -
  have "Some d \<in># H \<longleftrightarrow> Some d \<in># H'" for d using assms [of d] by (metis count_greater_zero_iff)
  then show ?thesis by (simp add: ptr_inv_def assms)
qed

lemma FutureData_destructor_upd [simp]:
  "FutureData_destructor isVoid (g\<lparr>mRefCount := c\<rparr>) = FutureData_destructor isVoid g"
  "FutureData_destructor isVoid (g\<lparr>mRefCount := c, drops := k\<rparr>) = FutureData_destructor isVoid g"
  "FutureData_destructor isVoid (g\<lparr>mRefCount := c, drops := k, destroyed := n\<rparr>) = FutureData_destructor isVoid g"
  by (simp_all add: FutureData_destructor_def HasValue_def)

lemma call_AddRef_keeps:
  assumes inv: "ptr_inv isVoid H s" and p: "Some d \<in># H"
  shows "ptr_inv isVoid (add_mset (Some d) H) (call_AddRef d s)"
proof -
  have d: "d < length (datas s)" and c: "0 < count H (Some d)" using p ptr_invD(1) [OF inv, of d] by auto
  have "datum_ok isVoid (count (add_mset (Some d) H) (Some d)) (count (mset (valueDtors s)) d) (FutureData_AddRef (datas s ! d))"
    using ptr_invD(3) [OF inv d] c
    by (simp add: datum_ok_def FutureData_AddRef_def AtomicIncrement_def sync_fetch_and_def)
  then show ?thesis using ptr_inv_put [OF inv d, of "add_mset (Some d) H" "valueDtors s"] by (simp add: call_AddRef_def)
qed

lemma call_AddRefs_keep:
  "ptr_inv isVoid H s \<Longrightarrow> \<forall>a \<in> set as. Some a \<in># H \<Longrightarrow> ptr_inv isVoid (mset (map Some as) + H) (fold call_AddRef as s)"
proof (induction as arbitrary: H s)
  case (Cons a as)
  have "ptr_inv isVoid (add_mset (Some a) H) (call_AddRef a s)" using Cons.prems by (intro call_AddRef_keeps) auto
  from Cons.IH [OF this] show ?case using Cons.prems(2) by simp
qed simp

lemma FutureData_Release_counts:
  "mRefCount g \<noteq> 0 \<Longrightarrow>
   FutureData_Release g = Some (g\<lparr>mRefCount := mRefCount g - 1, drops := drops g + 1\<rparr>, mRefCount g = 1)"
  by (simp add: FutureData_Release_def AtomicDecrement_def sync_fetch_and_def)

lemma call_Release_keeps:
  assumes inv: "ptr_inv isVoid (add_mset (Some d) H) s" and small: "count H (Some d) + 1 < 2 ^ 32"
  shows "\<exists>s'. call_Release isVoid d s = Inr s' \<and> ptr_inv isVoid H s'"
proof -
  let ?g = "datas s ! d"
  define n where "n = count H (Some d)"
  have d: "d < length (datas s)" using ptr_invD(1) [OF inv, of d] by simp
  have n: "n + 1 < 2 ^ 32" using small unfolding n_def .
  have ok: "mRefCount ?g = of_nat (n + 1)" "destroyed ?g = 0" "count (mset (valueDtors s)) d = 0"
    using ptr_invD(3) [OF inv d] by (simp_all add: datum_ok_def n_def)
  have nz: "mRefCount ?g \<noteq> 0" using ok(1) n of_nat_u32_eq [of "n + 1" 0] by simp
  have one: "mRefCount ?g = 1 \<longleftrightarrow> n = 0" using ok(1) n of_nat_u32_eq [of "n + 1" 1] by simp
  have dec: "mRefCount ?g - 1 = of_nat n" using ok(1) by simp
  let ?g1 = "?g\<lparr>mRefCount := of_nat n, drops := drops ?g + 1\<rparr>"
  define g' where "g' = (if n = 0 then ?g1\<lparr>destroyed := destroyed ?g1 + 1\<rparr> else ?g1)"
  define dt where "dt = valueDtors s @ (if n = 0 \<and> FutureData_destructor isVoid ?g then [d] else [])"
  have "call_Release isVoid d s = Inr (s\<lparr>datas := (datas s)[d := g'], valueDtors := dt\<rparr>)"
    using nz one dec by (simp add: call_Release_def FutureData_Release_counts g'_def dt_def)
  moreover have "datum_ok isVoid n (count (mset dt) d) g'"
    using ok by (simp add: dt_def g'_def datum_ok_def)
  then have "ptr_inv isVoid H (s\<lparr>datas := (datas s)[d := g'], valueDtors := dt\<rparr>)"
    by (intro ptr_inv_put [OF inv d]) (auto simp: dt_def n_def)
  ultimately show ?thesis by blast
qed

lemma call_Releases_keep:
  "ptr_inv isVoid (mset (map Some rs) + H) s \<Longrightarrow> (\<And>d. count H (Some d) + count_list rs d < 2 ^ 32) \<Longrightarrow>
   \<exists>s'. ref_calls isVoid (map Release rs) s = Inr s' \<and> ptr_inv isVoid H s'"
proof (induction rs arbitrary: s)
  case (Cons d rs)
  have "count (mset (map Some rs)) (Some d) = count_list rs d" by (induction rs) auto
  then have "count (mset (map Some rs) + H) (Some d) + 1 < 2 ^ 32" using Cons.prems(2) [of d] by simp
  moreover have "ptr_inv isVoid (add_mset (Some d) (mset (map Some rs) + H)) s" using Cons.prems(1) by simp
  ultimately obtain s1 where s1: "call_Release isVoid d s = Inr s1" "ptr_inv isVoid (mset (map Some rs) + H) s1"
    using call_Release_keeps by blast
  have "count H (Some e) + count_list rs e < 2 ^ 32" for e
    using Cons.prems(2) [of e] by (auto split: if_splits)
  from Cons.IH [OF s1(2) this] show ?case using s1(1) by simp
qed simp

lemma ref_calls_adds: "ref_calls isVoid (map AddRef as @ cs) s = ref_calls isVoid cs (fold call_AddRef as s)"
  by (induction as arbitrary: s) simp_all

text \<open>What taking and giving back pointers leaves alone.\<close>

definition ptr_frame :: "pf_sys \<Rightarrow> pf_sys \<Rightarrow> bool" where
  "ptr_frame s s' \<longleftrightarrow>
     promises s' = promises s \<and> futures s' = futures s \<and> wasSet s' = wasSet s \<and> delivered s' = delivered s \<and>
     length (datas s') = length (datas s) \<and>
     (\<forall>d < length (datas s). storage (datas s' ! d) = storage (datas s ! d) \<and>
        mException (datas s' ! d) = mException (datas s ! d) \<and> eventSet (datas s' ! d) = eventSet (datas s ! d))"

lemma ptr_frame_refl [simp]: "ptr_frame s s"
  by (simp add: ptr_frame_def)

lemma nth_update_in: "d < length xs \<Longrightarrow> xs[i := y] ! d = (if d = i then y else xs ! d)"
  by (auto simp: nth_list_update)

lemma ptr_frame_trans: "ptr_frame s s1 \<Longrightarrow> ptr_frame s1 s2 \<Longrightarrow> ptr_frame s s2"
  by (simp add: ptr_frame_def)

lemma call_AddRef_frame: "ptr_frame s (call_AddRef d s)"
  by (simp add: ptr_frame_def call_AddRef_def FutureData_AddRef_def nth_update_in)

lemma call_Release_frame: "call_Release isVoid d s = Inr s' \<Longrightarrow> ptr_frame s s'"
  by (auto simp: ptr_frame_def call_Release_def FutureData_Release_def AtomicDecrement_def sync_fetch_and_def
      nth_update_in split: option.splits if_splits)

lemma ref_calls_frame: "ref_calls isVoid cs s = Inr s' \<Longrightarrow> ptr_frame s s'"
proof (induction isVoid cs s rule: ref_calls.induct)
  case (2 isVoid d cs s)
  then show ?case using ptr_frame_trans [OF call_AddRef_frame] by simp
next
  case (3 isVoid d cs s)
  then show ?case using ptr_frame_trans [OF call_Release_frame] by (auto split: sum.splits)
qed simp

section \<open>Values\<close>

definition stored :: "bool \<Rightarrow> fut_mem \<Rightarrow> (nat + nat) option" where
  "stored isVoid g = (if isVoid then FutureDataVoid_Get g else FutureData_Get g)"

definition val_inv :: "bool \<Rightarrow> pf_sys \<Rightarrow> bool" where
  "val_inv isVoid s \<longleftrightarrow>
     distinct (map fst (wasSet s)) \<and> set (delivered s) \<subseteq> set (wasSet s) \<and>
     (\<forall>(d, r) \<in> set (wasSet s). d < length (datas s) \<and> eventSet (datas s ! d) \<and> stored isVoid (datas s ! d) = Some r) \<and>
     (\<forall>d < length (datas s). (eventSet (datas s ! d) \<longrightarrow> d \<in> fst ` set (wasSet s)) \<and>
        (\<not> eventSet (datas s ! d) \<longrightarrow> mException (datas s ! d) = None))"

lemma val_inv_frame:
  assumes "ptr_frame s s'" and "val_inv isVoid s"
  shows "val_inv isVoid s'"
proof -
  have "stored isVoid (datas s' ! d) = stored isVoid (datas s ! d)" if "d < length (datas s)" for d
    using assms(1) that by (simp add: ptr_frame_def stored_def FutureDataVoid_Get_def FutureData_Get_def split: option.split)
  then show ?thesis using assms by (auto simp: ptr_frame_def val_inv_def)
qed

text \<open>One call of \<^verbatim>\<open>Set\<close>.\<close>

definition stores :: "bool \<Rightarrow> (fut_mem \<Rightarrow> fut_mem option) \<Rightarrow> nat + nat \<Rightarrow> bool" where
  "stores isVoid f r \<longleftrightarrow>
     (\<forall>g. f g = (if eventSet g then None else f g) \<and>
        (\<forall>g'. mException g = None \<longrightarrow> f g = Some g' \<longrightarrow> stored isVoid (g'\<lparr>eventSet := True\<rparr>) = Some r \<and>
          mRefCount g' = mRefCount g \<and> destroyed g' = destroyed g))"

lemma stores_calls:
  "stores False (FutureData_Set v) (Inr v)" "stores True FutureDataVoid_Set (Inr 0)"
  "stores isVoid (FutureData_SetException e) (Inl e)"
  by (auto simp: stores_def stored_def FutureData_Set_def FutureDataVoid_Set_def FutureData_SetException_def
      FutureData_Get_def FutureDataVoid_Get_def)

definition pf_inv :: "bool \<Rightarrow> pf_sys \<Rightarrow> bool" where
  "pf_inv isVoid s \<longleftrightarrow> ptr_inv isVoid (mset (promises s) + mset (futures s)) s \<and> val_inv isVoid s"

lemma set_through_keeps:
  assumes inv: "pf_inv isVoid s" and p: "p < length (promises s)" and f: "stores isVoid f r"
    and st: "set_through f r (promises s ! p) s = Inr s'"
  shows "pf_inv isVoid s'"
proof -
  let ?H = "mset (promises s) + mset (futures s)"
  have ptr: "ptr_inv isVoid ?H s" and val: "val_inv isVoid s" using inv by (simp_all add: pf_inv_def)
  obtain d g where pd: "promises s ! p = Some d" and g: "f (datas s ! d) = Some g"
    and s': "s' = s\<lparr>datas := (datas s)[d := g\<lparr>eventSet := True\<rparr>], wasSet := wasSet s @ [(d, r)]\<rparr>"
    using st by (auto simp: set_through_def split: option.splits)
  have mem: "Some d \<in># ?H" using p pd nth_mem [of p "promises s"] by simp
  then have d: "d < length (datas s)" by (rule ptr_invD(1) [OF ptr])
  have fresh: "\<not> eventSet (datas s ! d)" using f g by (metis option.distinct(1) stores_def)
  then have exc: "mException (datas s ! d) = None" using val d by (simp add: val_inv_def)
  then have g': "stored isVoid (g\<lparr>eventSet := True\<rparr>) = Some r" "mRefCount g = mRefCount (datas s ! d)"
      "destroyed g = destroyed (datas s ! d)"
    using f g unfolding stores_def by blast+
  have "datum_ok isVoid (count ?H (Some d)) (count (mset (valueDtors s)) d) (g\<lparr>eventSet := True\<rparr>)"
    using ptr_invD(3) [OF ptr d] g'(2,3) mem by (auto simp: datum_ok_def)
  then have "ptr_inv isVoid ?H (s\<lparr>datas := (datas s)[d := g\<lparr>eventSet := True\<rparr>], valueDtors := valueDtors s\<rparr>)"
    by (intro ptr_inv_put [OF ptr d]) auto
  then have "ptr_inv isVoid (mset (promises s') + mset (futures s')) s'" by (simp add: s' ptr_inv_def)
  moreover have "d \<notin> fst ` set (wasSet s)" using val fresh by (auto simp: val_inv_def)
  then have "val_inv isVoid s'" using val g'(1) d
    by (auto simp: s' val_inv_def nth_list_update image_iff split: if_splits) blast+
  ultimately show ?thesis by (simp add: pf_inv_def)
qed

text \<open>Operations of pointers that keep step, on some of the pointers there are.\<close>

definition few_handles :: "pf_sys \<Rightarrow> bool" where
  "few_handles s \<longleftrightarrow> length (promises s) + length (futures s) + 1 < 2 ^ 32"

lemma count_map_Some: "count_list (map Some rs) (Some d) = count_list rs d"
  by (induction rs) auto

lemma pf_calls_keep:
  assumes inv: "pf_inv isVoid s" and few: "few_handles s" and bal: "balanced xs cs ys"
    and xs: "set xs \<subseteq> set (promises s) \<union> set (futures s)"
    and counts: "\<And>d. count_list (promises s) (Some d) + count_list (futures s) (Some d) + count_list ys (Some d)
      = count_list ps (Some d) + count_list fs (Some d) + count_list xs (Some d)"
  shows "\<exists>s'. ref_calls isVoid cs (s\<lparr>promises := ps, futures := fs\<rparr>) = Inr s' \<and> pf_inv isVoid s'
      \<and> ptr_frame (s\<lparr>promises := ps, futures := fs\<rparr>) s'"
proof -
  let ?s = "s\<lparr>promises := ps, futures := fs\<rparr>" and ?H = "mset (promises s) + mset (futures s)"
  let ?H' = "mset ps + mset fs"
  have ptr: "ptr_inv isVoid ?H ?s" and val: "val_inv isVoid ?s"
    using inv by (simp_all add: pf_inv_def ptr_inv_def val_inv_def)
  obtain as rs where cs: "cs = map AddRef as @ map Release rs" and one: "length as \<le> 1"
    and mine: "\<forall>a \<in> set as. Some a \<in> set xs"
    and eq: "\<And>d. count_list xs (Some d) + count_list as d = count_list ys (Some d) + count_list rs d"
    using bal by (auto simp: balanced_def)
  have "\<forall>a \<in> set as. Some a \<in># ?H" using mine xs by auto
  from call_AddRefs_keep [OF ptr this] have "ptr_inv isVoid (mset (map Some as) + ?H) (fold call_AddRef as ?s)" .
  moreover have sums: "count (mset (map Some as) + ?H) (Some d) = count (mset (map Some rs) + ?H') (Some d)" for d
    using counts [of d] eq [of d] unfolding count_union count_mset count_map_Some by linarith
  ultimately have added: "ptr_inv isVoid (mset (map Some rs) + ?H') (fold call_AddRef as ?s)"
    using ptr_inv_cong [OF sums] by blast
  have "count ?H' (Some d) + count_list rs d < 2 ^ 32" for d
  proof -
    have "count ?H' (Some d) + count_list rs d = count_list as d + count_list (promises s @ futures s) (Some d)"
      using sums [of d] unfolding count_union count_mset count_map_Some count_list_append by linarith
    moreover have "count_list as d \<le> 1" using one count_le_length [of as d] by linarith
    ultimately show ?thesis
      using few count_le_length [of "promises s @ futures s" "Some d"] unfolding few_handles_def by simp
  qed
  from call_Releases_keep [OF added this] obtain s' where s': "ref_calls isVoid cs ?s = Inr s'" "ptr_inv isVoid ?H' s'"
    unfolding cs ref_calls_adds by blast
  have f: "ptr_frame ?s s'" by (rule ref_calls_frame [OF s'(1)])
  show ?thesis using s' f val_inv_frame [OF f val] by (auto simp: pf_inv_def ptr_frame_def)
qed

lemma count_list_update:
  "i < length xs \<Longrightarrow> count_list (xs[i := v]) a + of_bool (xs ! i = a) = count_list xs a + of_bool (v = a)"
proof (induction xs arbitrary: i)
  case (Cons x xs)
  show ?case
  proof (cases i)
    case (Suc j)
    then show ?thesis using Cons.IH [of j] Cons.prems by simp
  qed auto
qed simp

lemma count_list_few:
  "count_list [x] a = of_bool (x = a)" "count_list [x, y] a = of_bool (x = a) + of_bool (y = a)"
  by simp_all

section \<open>Every call keeps the invariant\<close>

lemma intrusive_ptrD:
  assumes "intrusive_ptr_ok P"
  shows "ip_make P d = (Some d, [AddRef d])"
    and "\<exists>cs. ip_copy P p = (p, cs) \<and> balanced [p] cs [p, p]"
    and "\<exists>p' cs. ip_move P p = (p', p, cs) \<and> balanced [p] cs [p', p]"
    and "i < length ps \<Longrightarrow> j < length ps \<Longrightarrow> \<exists>cs. ip_copy_assign P i j ps = (ps[i := ps ! j], cs) \<and> balanced ps cs (ps[i := ps ! j])"
    and "i < length ps \<Longrightarrow> j < length ps \<Longrightarrow> \<exists>qs cs. ip_move_assign P i j ps = (qs, cs) \<and> length qs = length ps \<and> balanced ps cs qs"
    and "balanced [p] (ip_destroy P p) []"
proof -
  note ok = assms [unfolded intrusive_ptr_ok_def]
  note c1 = ok [THEN conjunct1] and r1 = ok [THEN conjunct2]
  note c2 = r1 [THEN conjunct1] and r2 = r1 [THEN conjunct2]
  note c3 = r2 [THEN conjunct1] and r3 = r2 [THEN conjunct2]
  note c4 = r3 [THEN conjunct1, rule_format] and r4 = r3 [THEN conjunct2]
  note c5 = r4 [THEN conjunct1, rule_format] and c6 = r4 [THEN conjunct2]
  show "ip_make P d = (Some d, [AddRef d])" using c1 by simp
  show "balanced [p] (ip_destroy P p) []" using c6 by simp
  show "\<exists>cs. ip_copy P p = (p, cs) \<and> balanced [p] cs [p, p]"
    using spec [OF c2, of p] by (cases "ip_copy P p") simp
  show "\<exists>p' cs. ip_move P p = (p', p, cs) \<and> balanced [p] cs [p', p]"
    using spec [OF c3, of p] by (cases "ip_move P p") simp
  assume l: "i < length ps" "j < length ps"
  show "\<exists>cs. ip_copy_assign P i j ps = (ps[i := ps ! j], cs) \<and> balanced ps cs (ps[i := ps ! j])"
    using c4 [OF conjI [OF l]] by (cases "ip_copy_assign P i j ps") simp
  show "\<exists>qs cs. ip_move_assign P i j ps = (qs, cs) \<and> length qs = length ps \<and> balanced ps cs qs"
    using c5 [OF conjI [OF l]] by (cases "ip_move_assign P i j ps") simp
qed

lemma pf_construct:
  assumes P: "intrusive_ptr_ok P" and inv: "pf_inv isVoid s"
  shows "\<exists>s'. Promise_construct P isVoid s = Inr s' \<and> pf_inv isVoid s' \<and> promises s' = promises s @ [Some (length (datas s))]
    \<and> futures s' = futures s \<and> wasSet s' = wasSet s
    \<and> datas s' = datas s @ [FutureData_AddRef (FutureData_init 0)]"
proof -
  let ?d = "length (datas s)" and ?H = "mset (promises s) + mset (futures s)"
  let ?s = "s\<lparr>datas := datas s @ [FutureData_AddRef (FutureData_init 0)], promises := promises s @ [Some ?d]\<rparr>"
  have ptr: "ptr_inv isVoid ?H s" and val: "val_inv isVoid s" using inv by (simp_all add: pf_inv_def)
  have c: "Promise_construct P isVoid s = Inr ?s"
    by (simp add: Promise_construct_def intrusive_ptrD(1) [OF P] call_AddRef_def)
  have no: "Some ?d \<notin># ?H" using ptr_invD(1) [OF ptr, of ?d] by blast
  have "?d \<notin> set (valueDtors s)" using ptr_invD(2) [OF ptr, of ?d] by blast
  then have z: "count (mset (promises s)) (Some ?d) = 0" "count (mset (futures s)) (Some ?d) = 0"
      "count (mset (valueDtors s)) ?d = 0" using no by (auto simp flip: count_eq_zero_iff)
  have new: "datum_ok isVoid 1 0 (FutureData_AddRef (FutureData_init 0))"
    by (simp add: datum_ok_def FutureData_AddRef_def FutureData_init_def AtomicIncrement_def sync_fetch_and_def
        FutureData_destructor_def HasValue_def)
  have "datum_ok isVoid (count (mset (promises ?s) + mset (futures ?s)) (Some e)) (count (mset (valueDtors ?s)) e)
      (datas ?s ! e)" if "e < Suc ?d" for e
    using that ptr_invD(3) [OF ptr, of e] new by (cases "e = ?d") (simp_all add: nth_append z)
  then have "ptr_inv isVoid (mset (promises ?s) + mset (futures ?s)) ?s"
    using ptr_invD(1,2) [OF ptr] by (fastforce simp: ptr_inv_def less_Suc_eq)
  moreover have "val_inv isVoid ?s" using val
    by (auto simp: val_inv_def nth_append less_Suc_eq FutureData_AddRef_def FutureData_init_def)
  ultimately show ?thesis unfolding c by (simp add: pf_inv_def)
qed

lemma pf_move:
  assumes P: "intrusive_ptr_ok P" and inv: "pf_inv isVoid s" "few_handles s" and p: "p < length (promises s)"
  shows "\<exists>s'. Promise_move P isVoid p s = Inr s' \<and> pf_inv isVoid s'"
proof -
  obtain p' cs where m: "ip_move P (promises s ! p) = (p', promises s ! p, cs)"
    and bal: "balanced [promises s ! p] cs [p', promises s ! p]" using intrusive_ptrD(3) [OF P] by blast
  have "count_list (promises s) (Some d) + count_list (futures s) (Some d) + count_list [p', promises s ! p] (Some d) =
      count_list ((promises s)[p := p'] @ [promises s ! p]) (Some d) + count_list (futures s) (Some d)
      + count_list [promises s ! p] (Some d)" for d
    using count_list_update [OF p, of p' "Some d"] unfolding count_list_append count_list_few by linarith
  from pf_calls_keep [OF inv bal _ this] p show ?thesis by (auto simp: Promise_move_def m)
qed

lemma pf_assign:
  assumes P: "intrusive_ptr_ok P" and inv: "pf_inv isVoid s" "few_handles s"
    and p: "p < length (promises s)" "q < length (promises s)"
  shows "\<exists>s'. Promise_assign P isVoid p q s = Inr s' \<and> pf_inv isVoid s'"
proof -
  obtain ps cs where m: "ip_move_assign P p q (promises s) = (ps, cs)" and bal: "balanced (promises s) cs ps"
    using intrusive_ptrD(5) [OF P p] by blast
  show ?thesis using pf_calls_keep [OF inv bal, of ps "futures s"] by (auto simp: Promise_assign_def m)
qed

lemma pf_destroy:
  assumes P: "intrusive_ptr_ok P" and inv: "pf_inv isVoid s" "few_handles s" and p: "p < length (promises s)"
  shows "\<exists>s'. Promise_destroy P isVoid p s = Inr s' \<and> pf_inv isVoid s'"
proof -
  have "count_list (promises s) (Some d) + count_list (futures s) (Some d) + count_list [] (Some d) =
      count_list ((promises s)[p := None]) (Some d) + count_list (futures s) (Some d) + count_list [promises s ! p] (Some d)" for d
    using count_list_update [OF p, of None "Some d"] unfolding count_list_few by simp
  from pf_calls_keep [OF inv intrusive_ptrD(6) [OF P] _ this] p show ?thesis by (auto simp: Promise_destroy_def)
qed

lemma pf_future:
  assumes P: "intrusive_ptr_ok P" and inv: "pf_inv isVoid s" "few_handles s"
    and p: "p \<in> set (promises s) \<union> set (futures s)"
  shows "\<exists>s'. Future_construct P isVoid p s = Inr s' \<and> pf_inv isVoid s'"
proof -
  obtain cs where m: "ip_copy P p = (p, cs)" and bal: "balanced [p] cs [p, p]" using intrusive_ptrD(2) [OF P] by blast
  have "count_list (promises s) (Some d) + count_list (futures s) (Some d) + count_list [p, p] (Some d) =
      count_list (promises s) (Some d) + count_list (futures s @ [p]) (Some d) + count_list [p] (Some d)" for d
    unfolding count_list_append count_list_few by linarith
  from pf_calls_keep [OF inv bal _ this] p show ?thesis by (auto simp: Future_construct_def m)
qed

lemma pf_future_assign:
  assumes P: "intrusive_ptr_ok P" and inv: "pf_inv isVoid s" "few_handles s"
    and f: "f < length (futures s)" "h < length (futures s)"
  shows "\<exists>s'. Future_assign P isVoid f h s = Inr s' \<and> pf_inv isVoid s'"
proof -
  obtain fs cs where m: "ip_copy_assign P f h (futures s) = (fs, cs)" and bal: "balanced (futures s) cs fs"
    using intrusive_ptrD(4) [OF P f] by metis
  show ?thesis using pf_calls_keep [OF inv bal, of "promises s" fs] by (auto simp: Future_assign_def m)
qed

lemma pf_future_destroy:
  assumes P: "intrusive_ptr_ok P" and inv: "pf_inv isVoid s" "few_handles s" and f: "f < length (futures s)"
  shows "\<exists>s'. Future_destroy P isVoid f s = Inr s' \<and> pf_inv isVoid s'"
proof -
  have "count_list (promises s) (Some d) + count_list (futures s) (Some d) + count_list [] (Some d) =
      count_list (promises s) (Some d) + count_list ((futures s)[f := None]) (Some d) + count_list [futures s ! f] (Some d)" for d
    using count_list_update [OF f, of None "Some d"] unfolding count_list_few by simp
  from pf_calls_keep [OF inv intrusive_ptrD(6) [OF P] _ this] f show ?thesis by (auto simp: Future_destroy_def)
qed

lemma pf_get:
  assumes inv: "pf_inv isVoid s" and d: "futures s ! f = Some d" "f < length (futures s)"
    and r: "Future_Get isVoid f s = Inr (Some r)"
  shows "pf_inv isVoid (s\<lparr>delivered := delivered s @ [(d, r)]\<rparr>)"
proof -
  have ptr: "ptr_inv isVoid (mset (promises s) + mset (futures s)) s" and val: "val_inv isVoid s"
    using inv by (simp_all add: pf_inv_def)
  have "Some d \<in># mset (promises s) + mset (futures s)" using d nth_mem [of f "futures s"] by simp
  then have "d < length (datas s)" by (rule ptr_invD(1) [OF ptr])
  moreover have "eventSet (datas s ! d)" "stored isVoid (datas s ! d) = Some r"
    using r d by (auto simp: Future_Get_def on_future_def stored_def split: if_splits)
  ultimately obtain r' where "(d, r') \<in> set (wasSet s)" "stored isVoid (datas s ! d) = Some r'"
    using val unfolding val_inv_def by fastforce
  then have "(d, r) \<in> set (wasSet s)" using \<open>stored isVoid (datas s ! d) = Some r\<close> by simp
  then have "val_inv isVoid (s\<lparr>delivered := delivered s @ [(d, r)]\<rparr>)" using val by (simp add: val_inv_def)
  then show ?thesis using ptr by (simp add: pf_inv_def ptr_inv_def)
qed

text \<open>No assertion on the count fails, and what is left holds the invariant.\<close>

lemma pf_do_keeps:
  assumes P: "intrusive_ptr_ok P" and inv: "pf_inv isVoid s" and few: "few_handles s" and names: "pf_names a s"
  shows "pf_do P isVoid a s \<noteq> Inl RefCountZero \<and> (\<forall>s'. pf_do P isVoid a s = Inr s' \<longrightarrow> pf_inv isVoid s')"
proof -
  have set: "set_through f r (promises s ! p) s \<noteq> Inl RefCountZero \<and>
      (\<forall>s'. set_through f r (promises s ! p) s = Inr s' \<longrightarrow> pf_inv isVoid s')"
    if "p < length (promises s)" "stores isVoid f r" for f r p
    using set_through_keeps [OF inv that] by (auto simp: set_through_def split: option.splits)
  show ?thesis
  proof (cases a)
    case PNew
    then show ?thesis using pf_construct [OF P inv] by auto
  next
    case (PMove p)
    then show ?thesis using pf_move [OF P inv few] names by fastforce
  next
    case (PAssign p q)
    then show ?thesis using pf_assign [OF P inv few] names by fastforce
  next
    case (PDestroy p)
    then show ?thesis using pf_destroy [OF P inv few] names by fastforce
  next
    case (PSet p v)
    then show ?thesis using set [of p "FutureData_Set v" "Inr v"] set [of p FutureDataVoid_Set "Inr 0"] stores_calls names
      by (cases isVoid) (auto simp: Promise_SetValue_def PromiseVoid_SetValue_def)
  next
    case (PSetE p e)
    then show ?thesis using set [of p "FutureData_SetException e" "Inl e"] stores_calls(3) names by (simp add: Promise_SetException_def)
  next
    case (PFuture p)
    then have "promises s ! p \<in> set (promises s) \<union> set (futures s)" using names by simp
    then show ?thesis using pf_future [OF P inv few] PFuture by (fastforce simp: Promise_GetFuture_def)
  next
    case (FCopy f)
    then have "futures s ! f \<in> set (promises s) \<union> set (futures s)" using names by simp
    then show ?thesis using pf_future [OF P inv few] FCopy by fastforce
  next
    case (FAssign f h)
    then show ?thesis using pf_future_assign [OF P inv few] names by fastforce
  next
    case (FDrop f)
    then show ?thesis using pf_future_destroy [OF P inv few] names by fastforce
  next
    case (FGet f)
    then show ?thesis using pf_get [OF inv] names inv
      by (auto simp: Future_Get_def on_future_def split: option.splits sum.splits if_splits)
  qed
qed

lemma set_through_lengths:
  "set_through f r p s = Inr s' \<Longrightarrow> promises s' = promises s \<and> futures s' = futures s"
  by (auto simp: set_through_def split: option.splits)

lemma calls_lengths: "ref_calls isVoid cs s = Inr s' \<Longrightarrow> promises s' = promises s \<and> futures s' = futures s"
  using ref_calls_frame by (simp add: ptr_frame_def)

lemmas promise_call_defs = Promise_construct_def Promise_move_def Promise_assign_def Promise_destroy_def
  Promise_SetValue_def PromiseVoid_SetValue_def Promise_SetException_def Promise_GetFuture_def
lemmas future_call_defs = Future_construct_def Future_assign_def Future_destroy_def Future_Get_def

lemma pf_do_lengths:
  assumes P: "intrusive_ptr_ok P" and names: "pf_names a s" and st: "pf_do P isVoid a s = Inr s'"
  shows "length (promises s) \<le> length (promises s') \<and> length (futures s) \<le> length (futures s')"
proof (cases a)
  case (PAssign p q)
  then obtain ps cs where "ip_move_assign P p q (promises s) = (ps, cs)" "length ps = length (promises s)"
    using intrusive_ptrD(5) [OF P, of p "promises s" q] names by auto
  then show ?thesis using st PAssign by (auto simp: Promise_assign_def dest!: calls_lengths)
next
  case (FAssign f h)
  then obtain cs where "ip_copy_assign P f h (futures s) = ((futures s)[f := futures s ! h], cs)"
    using intrusive_ptrD(4) [OF P, of f "futures s" h] names by auto
  then show ?thesis using st FAssign by (auto simp: Future_assign_def dest!: calls_lengths)
qed (use st in \<open>auto simp: promise_call_defs future_call_defs dest!: set_through_lengths calls_lengths
      split: if_splits sum.splits option.splits prod.splits\<close>)

lemma pf_next_few:
  "intrusive_ptr_ok P \<Longrightarrow> pf_next P isVoid a s = Some s' \<Longrightarrow> few_handles s' \<Longrightarrow> few_handles s"
  using pf_do_lengths [of P a s isVoid s'] by (auto simp: pf_next_def few_handles_def split: if_splits sum.splits)

definition pf_ok :: "bool \<Rightarrow> pf_sys \<Rightarrow> bool" where
  "pf_ok isVoid s \<longleftrightarrow> (few_handles s \<longrightarrow> pf_inv isVoid s)"

lemma pf_step: "intrusive_ptr_ok P \<Longrightarrow> pf_ok isVoid s \<Longrightarrow> pf_next P isVoid a s = Some s' \<Longrightarrow> pf_ok isVoid s'"
  using pf_next_few [of P isVoid a s s'] pf_do_keeps [of P isVoid s a]
  by (auto simp: pf_ok_def pf_next_def split: if_splits sum.splits)

text \<open>The invariant, for an intrusive pointer that keeps its promises.\<close>

interpretation pf: labelled_invariant "pf_next P isVoid" "\<lambda>s. intrusive_ptr_ok P \<longrightarrow> pf_ok isVoid s"
  by unfold_locales (use pf_step in blast)

lemma pf_reachable:
  assumes "intrusive_ptr_ok P" and "reaches (pf_next P isVoid) pf_init s" and "few_handles s"
  shows "pf_inv isVoid s"
proof -
  have "pf_ok isVoid pf_init" by (simp add: pf_ok_def pf_inv_def ptr_inv_def val_inv_def pf_init_def)
  then show ?thesis using pf.reachable [OF assms(2)] assms(1,3) by (simp add: pf_ok_def)
qed

text \<open>Claim C18.
  Promises and futures that are made, moved, copied, assigned and destroyed in any order, assignment to
  itself included, with fewer than \<open>2^32 - 1\<close> of them, over any \<^verbatim>\<open>IntrusivePtr\<close> that adds and releases a
  reference for each pointer it makes and gives up: the count of each data is the number of promises and
  futures that point to it; it is destroyed once, when there is none any more, and its value, if it has one,
  is destroyed then and once.  A data is set once at most and ready exactly since then, and every \<^verbatim>\<open>Get\<close> of
  every future, copies included, returned what was set; no call finds the count at 0.  This holds for
  \<^verbatim>\<open>Promise<void>\<close> as well.\<close>

theorem promise_handles_share:
  assumes "intrusive_ptr_ok P" and "reaches (pf_next P isVoid) pf_init s"
    and "length (promises s) + length (futures s) + 1 < 2 ^ 32"
  shows "(\<forall>d < length (datas s).
      let n = count_list (promises s @ futures s) (Some d); g = datas s ! d
      in unat (GetRefCount g) = n \<and> destroyed g = of_bool (n = 0) \<and>
         count_list (valueDtors s) d = of_bool (n = 0 \<and> \<not> isVoid \<and> HasValue g) \<and>
         IsReady g = (d \<in> fst ` set (wasSet s))) \<and>
    distinct (map fst (wasSet s)) \<and> set (delivered s) \<subseteq> set (wasSet s) \<and>
    \<not> (\<exists>a. pf_names a s \<and> pf_do P isVoid a s = Inl RefCountZero)"
proof -
  have few: "few_handles s" using assms(3) by (simp add: few_handles_def)
  have inv: "pf_inv isVoid s" by (rule pf_reachable [OF assms(1,2) few])
  then have ptr: "ptr_inv isVoid (mset (promises s) + mset (futures s)) s" and val: "val_inv isVoid s"
    by (simp_all add: pf_inv_def)
  have "unat (GetRefCount (datas s ! d)) = n \<and> destroyed (datas s ! d) = of_bool (n = 0) \<and>
      count_list (valueDtors s) d = of_bool (n = 0 \<and> \<not> isVoid \<and> HasValue (datas s ! d)) \<and>
      IsReady (datas s ! d) = (d \<in> fst ` set (wasSet s))"
    if d: "d < length (datas s)" and n: "n = count_list (promises s @ futures s) (Some d)" for d n
  proof -
    have ok: "datum_ok isVoid n (count_list (valueDtors s) d) (datas s ! d)"
      using ptr_invD(3) [OF ptr d] by (simp add: n count_mset)
    have "n < 2 ^ 32" using few count_le_length [of "promises s @ futures s" "Some d"]
      by (simp add: n few_handles_def)
    then have "unat (of_nat n :: u32) = n" by (simp add: unat_of_nat)
    moreover have "IsReady (datas s ! d) = (d \<in> fst ` set (wasSet s))"
      using val d by (auto simp: val_inv_def IsReady_def)
    ultimately show ?thesis using ok by (simp add: datum_ok_def GetRefCount_def FutureData_destructor_def)
  qed
  moreover have "pf_do P isVoid a s \<noteq> Inl RefCountZero" if "pf_names a s" for a
    using pf_do_keeps [OF assms(1) inv few that] by blast
  ultimately show ?thesis using val unfolding Let_def val_inv_def by blast
qed

text \<open>One intrusive pointer that keeps its promises: it moves by taking the pointer out of its source, and then
  gives up the one it had.\<close>

definition adds :: "nat option \<Rightarrow> ref_call list" where
  "adds p = (case p of None \<Rightarrow> [] | Some d \<Rightarrow> [AddRef d])"

definition releases :: "nat option \<Rightarrow> ref_call list" where
  "releases p = (case p of None \<Rightarrow> [] | Some d \<Rightarrow> [Release d])"

definition swapping_ptr :: intrusive_ptr where
  "swapping_ptr =
     \<lparr>ip_make = \<lambda>d. (Some d, [AddRef d]), ip_copy = \<lambda>p. (p, adds p), ip_move = \<lambda>p. (None, p, []),
      ip_copy_assign = \<lambda>i j ps. (ps[i := ps ! j], adds (ps ! j) @ releases (ps ! i)),
      ip_move_assign = \<lambda>i j ps. (ps[j := None, i := ps ! j], releases (ps[j := None] ! i)),
      ip_destroy = releases\<rparr>"

lemma balancedI:
  assumes "cs = adds p @ releases q" and "p \<noteq> None \<Longrightarrow> p \<in> set ps" and "set qs \<subseteq> insert None (set ps)"
    and "\<And>d. count_list ps (Some d) + of_bool (p = Some d) = count_list qs (Some d) + of_bool (q = Some d)"
  shows "balanced ps cs qs"
proof -
  define as where "as = (case p of None \<Rightarrow> [] | Some d \<Rightarrow> [d])"
  define rs where "rs = (case q of None \<Rightarrow> [] | Some d \<Rightarrow> [d])"
  have "cs = map AddRef as @ map Release rs" "length as \<le> 1" "\<forall>a \<in> set as. Some a \<in> set ps"
    using assms(1,2) by (auto simp: as_def rs_def adds_def releases_def split: option.splits)
  moreover have "count_list as d = of_bool (p = Some d)" "count_list rs d = of_bool (q = Some d)" for d
    by (auto simp: as_def rs_def split: option.splits)
  ultimately show ?thesis using assms(3,4) unfolding balanced_def by metis
qed

lemma swapping_ptr_ok: "intrusive_ptr_ok swapping_ptr"
proof -
  have copy: "balanced [p] (adds p) [p, p]" for p by (rule balancedI [of _ p None]) (auto simp: releases_def)
  have move: "balanced [p] [] [None, p]" for p
    by (rule balancedI [of _ None None]) (auto simp: releases_def adds_def)
  have destroy: "balanced [p] (releases p) []" for p by (rule balancedI [of _ None p]) (auto simp: adds_def)
  have copy_assign: "balanced ps (adds (ps ! j) @ releases (ps ! i)) (ps[i := ps ! j])"
    if "i < length ps" "j < length ps" for i j and ps :: "nat option list"
  proof (rule balancedI [of _ "ps ! j" "ps ! i"])
    show "set (ps[i := ps ! j]) \<subseteq> insert None (set ps)"
      using set_update_subset_insert [of ps i "ps ! j"] nth_mem [OF that(2)] by blast
    fix d
    show "count_list ps (Some d) + of_bool (ps ! j = Some d) = count_list (ps[i := ps ! j]) (Some d) + of_bool (ps ! i = Some d)"
      using count_list_update [OF that(1), of "ps ! j" "Some d"] by simp
  qed (use that in simp_all)
  have move_assign: "balanced ps (releases (ps[j := None] ! i)) (ps[j := None, i := ps ! j])"
    if "i < length ps" "j < length ps" for i j and ps :: "nat option list"
  proof (rule balancedI [of _ None "ps[j := None] ! i"])
    show "set (ps[j := None, i := ps ! j]) \<subseteq> insert None (set ps)"
      using set_update_subset_insert [of "ps[j := None]" i "ps ! j"] set_update_subset_insert [of ps j None]
        nth_mem [OF that(2)] by blast
    fix d
    show "count_list ps (Some d) + of_bool (None = Some d) =
        count_list (ps[j := None, i := ps ! j]) (Some d) + of_bool (ps[j := None] ! i = Some d)"
      using count_list_update [of i "ps[j := None]" "ps ! j" "Some d"] count_list_update [OF that(2), of None "Some d"] that
      by simp
  qed (simp_all add: adds_def)
  show ?thesis unfolding intrusive_ptr_ok_def swapping_ptr_def
    using copy move destroy copy_assign move_assign by (simp add: nth_list_update)
qed

text \<open>Two futures of one promise, one of them a copy: the promise is assigned to itself and destroyed, both get
  the value, and the last to go destroys the data.\<close>

lemmas pf_eval = pf_next_def pf_init_def promise_call_defs future_call_defs call_AddRef_def call_Release_def
  swapping_ptr_def adds_def releases_def
  set_through_def on_future_def FutureData_init_def FutureData_AddRef_def FutureData_Release_def
  AtomicIncrement_def AtomicDecrement_def sync_fetch_and_def FutureData_Set_def FutureData_Get_def
  FutureData_destructor_def HasValue_def Let_def

theorem promise_handles_share_witness:
  "\<exists>s. run_acts (pf_next swapping_ptr False)
       [PNew, PFuture 0, PSet 0 7, FCopy 0, PAssign 0 0, PDestroy 0, FGet 1, FDrop 0, FDrop 1] pf_init = Some s
     \<and> delivered s = [(0, Inr 7)] \<and> destroyed (datas s ! 0) = 1 \<and> count_list (valueDtors s) 0 = 1"
proof -
  obtain s where s: "run_acts (pf_next swapping_ptr False)
      [PNew, PFuture 0, PSet 0 7, FCopy 0, PAssign 0 0, PDestroy 0, FGet 1, FDrop 0, FDrop 1]
      pf_init = Some s" "delivered s = [(0, Inr 7)]" "promises s = [None]" "futures s = [None, None]" "length (datas s) = 1"
      "HasValue (datas s ! 0)"
    by (simp add: pf_eval)
  have "length (promises s) + length (futures s) + 1 < 2 ^ 32" using s(3,4) by simp
  from promise_handles_share [OF swapping_ptr_ok run_acts_reaches [OF s(1)] this]
  have "\<forall>d < 1. let n = count_list (promises s @ futures s) (Some d); g = datas s ! d
      in unat (GetRefCount g) = n \<and> destroyed g = of_bool (n = 0) \<and>
         count_list (valueDtors s) d = of_bool (n = 0 \<and> \<not> False \<and> HasValue g) \<and>
         IsReady g = (d \<in> fst ` set (wasSet s))" unfolding s(5) by blast
  then have "destroyed (datas s ! 0) = 1 \<and> count_list (valueDtors s) 0 = 1" using s(3,4,6) by (simp add: Let_def)
  with s(1,2) show ?thesis by blast
qed

section \<open>Promises that are never kept\<close>

text \<open>Nobody can set a data that has no promise any more.\<close>

definition abandoned :: "nat \<Rightarrow> pf_sys \<Rightarrow> bool" where
  "abandoned d s \<longleftrightarrow> d < length (datas s) \<and> Some d \<notin> set (promises s) \<and> \<not> eventSet (datas s ! d)"

lemma abandoned_frame:
  "ptr_frame s s' \<Longrightarrow> abandoned d s \<Longrightarrow> abandoned d s'"
  by (simp add: ptr_frame_def abandoned_def)

lemma abandoned_calls: "ref_calls isVoid cs s = Inr s' \<Longrightarrow> abandoned d s \<Longrightarrow> abandoned d s'"
  using ref_calls_frame abandoned_frame by blast

lemma abandoned_set_through:
  assumes "set_through f r (promises s ! p) s = Inr s'" and "p < length (promises s)" and "abandoned d s"
  shows "abandoned d s'"
proof -
  obtain e g where e: "promises s ! p = Some e" "s' = s\<lparr>datas := (datas s)[e := g\<lparr>eventSet := True\<rparr>], wasSet := wasSet s @ [(e, r)]\<rparr>"
    using assms(1) by (auto simp: set_through_def split: option.splits)
  then have "e \<noteq> d" using assms(2,3) nth_mem [of p "promises s"] by (auto simp: abandoned_def)
  then show ?thesis using e assms(3) by (simp add: abandoned_def)
qed

lemma abandoned_handles:
  "set ps \<subseteq> insert None (set (promises s)) \<Longrightarrow> abandoned d s \<Longrightarrow> abandoned d (s\<lparr>promises := ps\<rparr>)"
  "abandoned d (s\<lparr>futures := fs\<rparr>) = abandoned d s" "abandoned d (s\<lparr>delivered := rs\<rparr>) = abandoned d s"
  by (auto simp: abandoned_def)

lemma abandoned_balanced:
  assumes "balanced xs cs ys" and "set xs \<subseteq> set (promises s)" and "set ps \<subseteq> set (promises s) \<union> set ys \<union> {None}"
    and "ref_calls isVoid cs (s\<lparr>promises := ps\<rparr>) = Inr s'" and "abandoned d s"
  shows "abandoned d s'"
proof -
  have "set ys \<subseteq> insert None (set xs)" using assms(1) by (simp add: balanced_def)
  then have "set ps \<subseteq> insert None (set (promises s))" using assms(2,3) by blast
  from abandoned_calls [OF assms(4) abandoned_handles(1) [OF this assms(5)]] show ?thesis .
qed

lemma abandoned_construct:
  assumes P: "intrusive_ptr_ok P" and st: "Promise_construct P isVoid s = Inr s'" and ab: "abandoned d s"
  shows "abandoned d s'"
  using st ab
  by (auto simp: Promise_construct_def intrusive_ptrD(1) [OF P] call_AddRef_def abandoned_def nth_append)

lemma abandoned_step:
  assumes P: "intrusive_ptr_ok P" and ab: "abandoned d s" and st: "pf_next P isVoid a s = Some s'"
  shows "abandoned d s'"
proof -
  have names: "pf_names a s" and nx: "pf_do P isVoid a s = Inr s'"
    using st by (auto simp: pf_next_def split: if_splits sum.splits)
  note fut = abandoned_calls [OF _ abandoned_handles(2) [THEN iffD2, OF ab]]
  show ?thesis
  proof (cases a)
    case PNew
    then show ?thesis using nx abandoned_construct [OF P _ ab] by simp
  next
    case (PMove p)
    then obtain p' cs where m: "ip_move P (promises s ! p) = (p', promises s ! p, cs)"
      and bal: "balanced [promises s ! p] cs [p', promises s ! p]" using intrusive_ptrD(3) [OF P] by blast
    show ?thesis
      by (rule abandoned_balanced [OF bal _ _ _ ab, of "(promises s)[p := p'] @ [promises s ! p]" isVoid])
        (use PMove nx names m set_update_subset_insert [of "promises s" p p'] in \<open>auto simp: Promise_move_def\<close>)
  next
    case (PAssign p q)
    then obtain ps cs where m: "ip_move_assign P p q (promises s) = (ps, cs)" and bal: "balanced (promises s) cs ps"
      using intrusive_ptrD(5) [OF P, of p "promises s" q] names by auto
    show ?thesis by (rule abandoned_balanced [OF bal _ _ _ ab, of ps isVoid]) (use PAssign nx m in \<open>auto simp: Promise_assign_def\<close>)
  next
    case (PDestroy p)
    show ?thesis
      by (rule abandoned_balanced [OF intrusive_ptrD(6) [OF P] _ _ _ ab, of "promises s ! p" "(promises s)[p := None]" isVoid])
        (use PDestroy nx names set_update_subset_insert [of "promises s" p None] in \<open>auto simp: Promise_destroy_def\<close>)
  next
    case (FGet f)
    then show ?thesis using nx ab
      by (auto simp: abandoned_handles split: sum.splits option.splits)
  qed (use nx names ab abandoned_set_through fut in
      \<open>auto simp: promise_call_defs Future_construct_def Future_assign_def Future_destroy_def split: if_splits prod.splits\<close>)
qed

interpretation abandon: labelled_invariant "pf_next P isVoid" "\<lambda>s. intrusive_ptr_ok P \<longrightarrow> abandoned d s"
  by unfold_locales (use abandoned_step in blast)

text \<open>A future whose last promise was destroyed, overwritten or moved away without a value is never ready:
  \<^verbatim>\<open>Promise\<close> has no destructor that would store an exception, so \<^verbatim>\<open>Get\<close> blocks for ever.\<close>

theorem broken_promise_blocks:
  assumes "intrusive_ptr_ok P" and "d < length (datas s)" and "Some d \<notin> set (promises s)" and "\<not> IsReady (datas s ! d)"
    and "reaches (pf_next P isVoid) s s'" and "futures s' ! f = Some d"
  shows "Future_IsReady f s' = Inr False \<and> Future_Get isVoid f s' = Inr None"
proof -
  have "abandoned d s" using assms(2-4) by (simp add: abandoned_def IsReady_def)
  with abandon.reachable [OF assms(5)] have "abandoned d s'" using assms(1) by blast
  then show ?thesis
    using assms(6) by (simp add: abandoned_def Future_IsReady_def Future_Get_def on_future_def IsReady_def)
qed

end
