(* ===== verification/Pool_Futures.thy ===== *)
theory Pool_Futures
  imports Thread_Pool Promise_Handles
begin

text \<open>
  The thread pool with the futures it hands out (thread_pool.hpp, thread_pool.cpp, promise.hpp, future.hpp):
  \<^verbatim>\<open>Post\<close> makes a promise on the heap, its future, and a work item, \<^verbatim>\<open>Runner\<close>, that calls the function,
  sets the promise and deletes it.  The parts are the models of Thread\_Pool and Promise\_Handles; this theory
  puts them together.  \<open>P\<close> is the \<^verbatim>\<open>IntrusivePtr\<close>, as there.

  The function of a work item is its outcome: \<open>Inr\<close> the value it returns, \<open>Inl\<close> an exception.  Work items are
  numbered in the order of their posts, and nobody else makes promises, so the number of an item is that of
  its promise and of its data.
\<close>

section \<open>Posting and running\<close>

record pool_sys =
  pool :: thread_pool
  handles :: pf_sys
  outcomes :: "(nat + nat) list"
  escaped :: bool \<comment> \<open>an exception has left the destructor of the pool\<close>

definition pp_init :: "nat \<Rightarrow> pool_sys" where
  "pp_init maxThreadCount =
     \<lparr>pool = ThreadPool_init maxThreadCount, handles = pf_init, outcomes = [], escaped = False\<rparr>"

text \<open>\<open>j\<close> is the sleeper that \<^verbatim>\<open>AddWorkItem\<close> wakes.\<close>

definition ThreadPool_Post :: "intrusive_ptr \<Rightarrow> bool \<Rightarrow> nat + nat \<Rightarrow> nat \<Rightarrow> pool_sys \<Rightarrow> pool_sys option" where
  "ThreadPool_Post P isVoid f j s =
     (let promise = length (promises (handles s))
      in case Promise_construct P isVoid (handles s) of
           Inl err \<Rightarrow> None
         | Inr h1 \<Rightarrow> (case Promise_GetFuture P isVoid promise h1 of
             Inl err \<Rightarrow> None
           | Inr h2 \<Rightarrow> map_option (\<lambda>p. s\<lparr>pool := p, handles := h2, outcomes := outcomes s @ [f]\<rparr>)
                         (tp_next (AddWork promise j) (pool s))))"

text \<open>\<^verbatim>\<open>Runner::operator()\<close> and the version for functions that return nothing: an exception of the
  function leaves before \<^verbatim>\<open>SetValue\<close> and \<^verbatim>\<open>delete p\<close>.\<close>

definition Runner_call :: "intrusive_ptr \<Rightarrow> nat \<Rightarrow> nat + nat \<Rightarrow> pf_sys \<Rightarrow> pf_error + pf_sys" where
  "Runner_call P p f s = (case f of
     Inl e \<Rightarrow> Inr s
   | Inr v \<Rightarrow> (case Promise_SetValue p v s of Inl err \<Rightarrow> Inl err | Inr s1 \<Rightarrow> Promise_destroy P False p s1))"

definition RunnerVoid_call :: "intrusive_ptr \<Rightarrow> nat \<Rightarrow> nat + nat \<Rightarrow> pf_sys \<Rightarrow> pf_error + pf_sys" where
  "RunnerVoid_call P p f s = (case f of
     Inl e \<Rightarrow> Inr s
   | Inr v \<Rightarrow> (case PromiseVoid_SetValue p s of Inl err \<Rightarrow> Inl err | Inr s1 \<Rightarrow> Promise_destroy P True p s1))"

definition run_item :: "intrusive_ptr \<Rightarrow> bool \<Rightarrow> nat \<Rightarrow> nat + nat \<Rightarrow> pf_sys \<Rightarrow> pf_error + pf_sys" where
  "run_item P isVoid = (if isVoid then RunnerVoid_call P else Runner_call P)"

text \<open>The item whose run a step of the pool ends.\<close>

fun item_run :: "tp_act \<Rightarrow> thread_pool \<Rightarrow> nat option" where
  "item_run (Worker i) p = (case mThreads p ! i of WRun item \<Rightarrow> Some item | _ \<Rightarrow> None)"
| "item_run Dtor p = (if dtor p = DRest then (case mWork p of item # _ \<Rightarrow> Some item | [] \<Rightarrow> None) else None)"
| "item_run _ p = None"

text \<open>A worker catches what its item throws; the destructor does not.\<close>

definition pool_step :: "intrusive_ptr \<Rightarrow> bool \<Rightarrow> tp_act \<Rightarrow> pool_sys \<Rightarrow> pool_sys option" where
  "pool_step P isVoid a s = (case tp_next a (pool s) of
     None \<Rightarrow> None
   | Some p \<Rightarrow> (case item_run a (pool s) of
       None \<Rightarrow> Some (s\<lparr>pool := p\<rparr>)
     | Some item \<Rightarrow>
         if a = Dtor \<and> isl (outcomes s ! item) then Some (s\<lparr>escaped := True\<rparr>)
         else (case run_item P isVoid item (outcomes s ! item) (handles s) of
             Inl err \<Rightarrow> None
           | Inr h \<Rightarrow> Some (s\<lparr>pool := p, handles := h\<rparr>))))"

datatype pp_act = PPost "nat + nat" nat | PPool tp_act | PUser pf_act

text \<open>The users of the futures copy, assign and drop them and get their values.\<close>

fun on_futures :: "pf_act \<Rightarrow> bool" where
  "on_futures (FCopy f) \<longleftrightarrow> True"
| "on_futures (FAssign f h) \<longleftrightarrow> True"
| "on_futures (FDrop f) \<longleftrightarrow> True"
| "on_futures (FGet f) \<longleftrightarrow> True"
| "on_futures _ \<longleftrightarrow> False"

fun pp_do :: "intrusive_ptr \<Rightarrow> bool \<Rightarrow> pp_act \<Rightarrow> pool_sys \<Rightarrow> pool_sys option" where
  "pp_do P isVoid (PPost f j) s = ThreadPool_Post P isVoid f j s"
| "pp_do P isVoid (PPool (AddWork item j)) s = None"
| "pp_do P isVoid (PPool a) s = pool_step P isVoid a s"
| "pp_do P isVoid (PUser a) s =
     (if on_futures a then map_option (\<lambda>h. s\<lparr>handles := h\<rparr>) (pf_next P isVoid a (handles s)) else None)"

definition pp_next :: "intrusive_ptr \<Rightarrow> bool \<Rightarrow> pp_act \<Rightarrow> pool_sys \<Rightarrow> pool_sys option" where
  "pp_next P isVoid a s = (if escaped s then None else pp_do P isVoid a s)"

section \<open>Invariant\<close>

definition valued :: "bool \<Rightarrow> nat \<Rightarrow> nat" where
  "valued isVoid v = (if isVoid then 0 else v)"

text \<open>Item \<open>i\<close>: its promise is kept, or still with the runner.\<close>

definition item_ok :: "bool \<Rightarrow> pool_sys \<Rightarrow> nat \<Rightarrow> bool" where
  "item_ok isVoid s i \<longleftrightarrow> (let h = handles s in
     case outcomes s ! i of
       Inr v \<Rightarrow>
         if i \<in> set (finished (pool s)) then promises h ! i = None \<and> (i, Inr (valued isVoid v)) \<in> set (wasSet h)
         else promises h ! i = Some i \<and> \<not> eventSet (datas h ! i)
     | Inl e \<Rightarrow> promises h ! i = Some i \<and> \<not> eventSet (datas h ! i))"

definition pp_inv :: "nat \<Rightarrow> bool \<Rightarrow> pool_sys \<Rightarrow> bool" where
  "pp_inv n isVoid s \<longleftrightarrow>
     tp_inv n (pool s) \<and> pf_ok isVoid (handles s) \<and> posted (pool s) = [0..<length (outcomes s)] \<and>
     length (promises (handles s)) = length (outcomes s) \<and> length (datas (handles s)) = length (outcomes s) \<and>
     (\<forall>i < length (outcomes s). item_ok isVoid s i)"

section \<open>The parts\<close>

lemma worker_step_lists:
  assumes "Worker_step p w = Some (p', w')"
  shows "finished p' = finished p @ (case w of WRun item \<Rightarrow> [item] | _ \<Rightarrow> [])" and "posted p' = posted p"
  using assms by (cases w; auto simp: take_work_def split: list.splits if_splits)+

lemma tp_next_finished:
  assumes st: "tp_next a p = Some p'"
  shows "finished p' = finished p @ (case item_run a p of None \<Rightarrow> [] | Some item \<Rightarrow> [item])"
    and "posted p' = posted p @ (case a of AddWork item j \<Rightarrow> [item] | _ \<Rightarrow> [])"
proof -
  have "finished p' = finished p @ (case item_run a p of None \<Rightarrow> [] | Some item \<Rightarrow> [item]) \<and>
      posted p' = posted p @ (case a of AddWork item j \<Rightarrow> [item] | _ \<Rightarrow> [])"
  proof (cases a)
    case (AddWork item j)
    then show ?thesis using st by (auto simp: AddWorkItem_def Let_def split: if_splits)
  next
    case (Worker i)
    then obtain p1 w where "Worker_step p (mThreads p ! i) = Some (p1, w)" "p' = p1\<lparr>mThreads := (mThreads p)[i := w]\<rparr>"
      using st by (auto split: if_splits)
    then show ?thesis using Worker worker_step_lists [of p "mThreads p ! i" p1 w]
      by (cases "mThreads p ! i") simp_all
  next
    case (Spurious i)
    then show ?thesis using st by (auto split: if_splits)
  next
    case Dtor
    then show ?thesis using st by (cases "dtor p") (auto split: if_splits list.splits)
  qed
  then show "finished p' = finished p @ (case item_run a p of None \<Rightarrow> [] | Some item \<Rightarrow> [item])"
    and "posted p' = posted p @ (case a of AddWork item j \<Rightarrow> [item] | _ \<Rightarrow> [])" by blast+
qed

text \<open>An item is run only while it has not finished.\<close>

lemma item_run_fresh:
  assumes inv: "tp_inv n p" and d: "distinct (posted p)" and st: "tp_next a p = Some p'"
    and run: "item_run a p = Some item"
  shows "item \<in> set (posted p) \<and> item \<notin> set (finished p)"
proof -
  have items: "started p @ mWork p = posted p" using inv by (simp add: tp_inv_def tp_items_def)
  then have ds: "distinct (started p)" "set (started p) \<inter> set (mWork p) = {}" using d
    by (metis distinct_append)+
  note m = tp_items_mset [OF inv]
  have fin: "set (finished p) \<subseteq> set (started p)"
    using m by (metis mset_subset_eq_add_left set_mset_mono set_mset_mset)
  have disj: "set (finished p) \<inter> set (concat (map running (mThreads p))) = {}"
  proof -
    have "mset (started p) = mset (finished p @ concat (map running (mThreads p)))" using m by simp
    then have "distinct (finished p @ concat (map running (mThreads p)))" using ds(1) mset_eq_imp_distinct_iff by blast
    then show ?thesis by simp
  qed
  show ?thesis
  proof (cases a)
    case (Worker i)
    then have i: "i < length (mThreads p)" "mThreads p ! i = WRun item"
      using st run by (auto split: if_splits worker.splits)
    then have "item \<in> set (concat (map running (mThreads p)))" using nth_mem [OF i(1)] by force
    moreover have "set (concat (map running (mThreads p))) \<subseteq> set (started p)"
      using m by (metis mset_subset_eq_add_right set_mset_mono set_mset_mset mset_concat)
    ultimately show ?thesis using disj items by (metis IntI Un_iff empty_iff in_mono set_append)
  next
    case Dtor
    then have "item \<in> set (mWork p)" using run by (auto split: if_splits list.splits)
    then show ?thesis using ds(2) fin items by (metis IntI Un_iff empty_iff in_mono set_append)
  qed (use run in simp_all)
qed

text \<open>What the calls do to promises and to the flags of the data.\<close>

definition same_promises :: "pf_sys \<Rightarrow> pf_sys \<Rightarrow> bool" where
  "same_promises h h' \<longleftrightarrow> promises h' = promises h \<and> wasSet h' = wasSet h \<and> length (datas h') = length (datas h) \<and>
     (\<forall>d < length (datas h). eventSet (datas h' ! d) = eventSet (datas h ! d))"

lemma same_promises_frame: "ptr_frame h h' \<Longrightarrow> same_promises h h'"
  by (simp add: same_promises_def ptr_frame_def)

lemma same_promises_trans: "same_promises h h1 \<Longrightarrow> same_promises h1 h2 \<Longrightarrow> same_promises h h2"
  by (simp add: same_promises_def)

lemma same_promises_futures [simp]:
  "same_promises h (h\<lparr>futures := fs\<rparr>)" "same_promises h (h\<lparr>delivered := rs\<rparr>)"
  by (simp_all add: same_promises_def)

lemma user_call_promises:
  assumes "on_futures a" and "pf_do P isVoid a h = Inr h'"
  shows "same_promises h h'"
proof (cases a)
  case (FGet f)
  then show ?thesis using assms(2)
    by (auto simp: same_promises_def split: sum.splits option.splits)
qed (use assms in \<open>auto simp: Future_construct_def Future_assign_def Future_destroy_def split: prod.splits
      dest!: ref_calls_frame intro: same_promises_trans [OF same_promises_futures(1)] same_promises_frame\<close>)

lemma post_promises:
  assumes P: "intrusive_ptr_ok P" and h1: "Promise_construct P isVoid h = Inr h1"
    and h2: "Promise_GetFuture P isVoid (length (promises h)) h1 = Inr h2"
  shows "promises h2 = promises h @ [Some (length (datas h))]" and "wasSet h2 = wasSet h"
    and "length (datas h2) = Suc (length (datas h))"
    and "d < length (datas h) \<Longrightarrow> eventSet (datas h2 ! d) = eventSet (datas h ! d)"
    and "\<not> eventSet (datas h2 ! length (datas h))"
proof -
  let ?new = "FutureData_AddRef (FutureData_init 0)"
  have e1: "h1 = h\<lparr>datas := datas h @ [?new], promises := promises h @ [Some (length (datas h))]\<rparr>"
    using h1 by (auto simp: Promise_construct_def intrusive_ptrD(1) [OF P] call_AddRef_def)
  have "same_promises h1 h2" using h2
    by (auto simp: Promise_GetFuture_def Future_construct_def split: prod.splits
      dest!: ref_calls_frame intro: same_promises_trans [OF same_promises_futures(1)] same_promises_frame)
  then have e2: "promises h2 = promises h @ [Some (length (datas h))]" "wasSet h2 = wasSet h"
      "length (datas h2) = Suc (length (datas h))"
      "\<And>d. d < Suc (length (datas h)) \<Longrightarrow> eventSet (datas h2 ! d) = eventSet ((datas h @ [?new]) ! d)"
    by (simp_all add: same_promises_def e1)
  show "promises h2 = promises h @ [Some (length (datas h))]" and "wasSet h2 = wasSet h"
    and "length (datas h2) = Suc (length (datas h))" by (rule e2)+
  show "d < length (datas h) \<Longrightarrow> eventSet (datas h2 ! d) = eventSet (datas h ! d)"
    using e2(4) [of d] by (simp add: nth_append)
  show "\<not> eventSet (datas h2 ! length (datas h))"
    using e2(4) [of "length (datas h)"] by (simp add: FutureData_AddRef_def FutureData_init_def)
qed

lemma run_item_calls:
  "run_item P isVoid i (Inr v) h =
     (case pf_do P isVoid (PSet i v) h of Inl err \<Rightarrow> Inl err | Inr h1 \<Rightarrow> pf_do P isVoid (PDestroy i) h1)"
  "run_item P isVoid i (Inl e) h = Inr h"
  by (simp_all add: run_item_def Runner_call_def RunnerVoid_call_def split: sum.split)

lemma set_call:
  assumes "promises h ! i = Some i" and "\<not> eventSet (datas h ! i)"
  shows "\<exists>g. pf_do P isVoid (PSet i v) h = Inr (h\<lparr>datas := (datas h)[i := g\<lparr>eventSet := True\<rparr>],
      wasSet := wasSet h @ [(i, Inr (valued isVoid v))]\<rparr>)"
  using assms by (intro exI [of _ "if isVoid then datas h ! i else (datas h ! i)\<lparr>storage := Some v\<rparr>"])
    (simp add: Promise_SetValue_def PromiseVoid_SetValue_def set_through_def FutureData_Set_def
      FutureDataVoid_Set_def valued_def)

lemma run_item_value:
  assumes "promises h ! i = Some i" and "\<not> eventSet (datas h ! i)" and "run_item P isVoid i (Inr v) h = Inr h'"
  shows "promises h' = (promises h)[i := None]" and "wasSet h' = wasSet h @ [(i, Inr (valued isVoid v))]"
    and "length (datas h') = length (datas h)"
    and "d < length (datas h) \<Longrightarrow> d \<noteq> i \<Longrightarrow> eventSet (datas h' ! d) = eventSet (datas h ! d)"
proof -
  obtain g where s: "pf_do P isVoid (PSet i v) h = Inr (h\<lparr>datas := (datas h)[i := g\<lparr>eventSet := True\<rparr>],
      wasSet := wasSet h @ [(i, Inr (valued isVoid v))]\<rparr>)"
    using set_call [OF assms(1,2)] by blast
  then have "pf_do P isVoid (PDestroy i) (h\<lparr>datas := (datas h)[i := g\<lparr>eventSet := True\<rparr>],
      wasSet := wasSet h @ [(i, Inr (valued isVoid v))]\<rparr>) = Inr h'"
    using assms(3) by (simp add: run_item_calls del: pf_do.simps)
  then have "ptr_frame (h\<lparr>datas := (datas h)[i := g\<lparr>eventSet := True\<rparr>], wasSet := wasSet h @ [(i, Inr (valued isVoid v))],
      promises := (promises h)[i := None]\<rparr>) h'"
    by (auto simp: Promise_destroy_def dest!: ref_calls_frame)
  then show "promises h' = (promises h)[i := None]" and "wasSet h' = wasSet h @ [(i, Inr (valued isVoid v))]"
    and "length (datas h') = length (datas h)"
    and "d < length (datas h) \<Longrightarrow> d \<noteq> i \<Longrightarrow> eventSet (datas h' ! d) = eventSet (datas h ! d)"
    by (simp_all add: ptr_frame_def)
qed

lemma run_item_ok:
  assumes P: "intrusive_ptr_ok P" and "pf_ok isVoid h" and "i < length (promises h)" and "run_item P isVoid i f h = Inr h'"
  shows "pf_ok isVoid h'"
proof (cases f)
  case (Inr v)
  then obtain h1 where h1: "pf_do P isVoid (PSet i v) h = Inr h1" "pf_do P isVoid (PDestroy i) h1 = Inr h'"
    using assms(4) by (auto simp: run_item_calls [of P] split: sum.splits simp del: pf_do.simps)
  then have n: "pf_next P isVoid (PSet i v) h = Some h1" using assms(3) by (simp add: pf_next_def del: pf_do.simps)
  have ok: "pf_ok isVoid h1" by (rule pf_step [OF P assms(2) n])
  have "pf_names (PSet i v) h" using assms(3) by simp
  from pf_do_lengths [OF P this h1(1)] have "i < length (promises h1)" using assms(3) by simp
  then have "pf_next P isVoid (PDestroy i) h1 = Some h'" using h1(2) by (simp add: pf_next_def del: pf_do.simps)
  then show ?thesis by (rule pf_step [OF P ok])
qed (use assms in \<open>simp add: run_item_calls\<close>)

text \<open>Nothing goes wrong in it.\<close>

lemma run_item_runs:
  assumes P: "intrusive_ptr_ok P" and ok: "pf_ok isVoid h" and few: "few_handles h" and i: "i < length (promises h)"
    and p: "promises h ! i = Some i" "\<not> eventSet (datas h ! i)"
  shows "\<exists>h'. run_item P isVoid i f h = Inr h'"
proof (cases f)
  case (Inr v)
  obtain h1 where h1: "pf_do P isVoid (PSet i v) h = Inr h1" "promises h1 = promises h" "futures h1 = futures h"
    using set_call [OF p, of P isVoid v] by force
  have n: "pf_next P isVoid (PSet i v) h = Some h1" using h1(1) i by (simp add: pf_next_def del: pf_do.simps)
  have "pf_ok isVoid h1" by (rule pf_step [OF P ok n])
  moreover have f1: "few_handles h1" using few h1 by (simp add: few_handles_def)
  ultimately have inv: "pf_inv isVoid h1" by (simp add: pf_ok_def)
  have "i < length (promises h1)" using i h1 by simp
  then obtain h' where "pf_do P isVoid (PDestroy i) h1 = Inr h'" using pf_destroy [OF P inv f1] by fastforce
  then show ?thesis using Inr h1(1) by (simp add: run_item_calls [of P] del: pf_do.simps)
qed (simp add: run_item_calls)

section \<open>Every step keeps the invariant\<close>

lemma pp_invD:
  assumes "pp_inv n isVoid s"
  shows "tp_inv n (pool s)" and "pf_ok isVoid (handles s)" and "posted (pool s) = [0..<length (outcomes s)]"
    and "length (promises (handles s)) = length (outcomes s)" and "length (datas (handles s)) = length (outcomes s)"
    and "i < length (outcomes s) \<Longrightarrow> item_ok isVoid s i"
  using assms by (simp_all add: pp_inv_def)

lemma finished_posted: "tp_inv n p \<Longrightarrow> set (finished p) \<subseteq> set (posted p)"
  by (metis Un_upper1 mset_subset_eq_add_left set_append set_mset_mono set_mset_mset subset_trans tp_inv_def
      tp_items_def tp_items_mset)

lemma item_ok_same:
  assumes "same_promises (handles s) h" and "i < length (datas (handles s))"
    and "set (finished p) = set (finished (pool s))"
  shows "item_ok isVoid (s\<lparr>pool := p, handles := h\<rparr>) i = item_ok isVoid s i"
  using assms by (simp add: item_ok_def same_promises_def Let_def split: sum.split)

lemma post_inv:
  assumes P: "intrusive_ptr_ok P" and inv: "pp_inv n isVoid s" and st: "ThreadPool_Post P isVoid f j s = Some s'"
  shows "pp_inv n isVoid s'"
proof -
  let ?N = "length (outcomes s)" and ?h = "handles s"
  note d = pp_invD [OF inv]
  obtain h1 h p where h1: "Promise_construct P isVoid ?h = Inr h1" and h: "Promise_GetFuture P isVoid ?N h1 = Inr h"
    and p: "tp_next (AddWork ?N j) (pool s) = Some p"
    and s': "s' = s\<lparr>pool := p, handles := h, outcomes := outcomes s @ [f]\<rparr>"
    using st by (auto simp: ThreadPool_Post_def Let_def d simp del: tp_next.simps split: sum.splits)
  note post = post_promises [OF P h1, unfolded d(4) d(5), OF h]
  have fin: "finished p = finished (pool s)" "posted p = posted (pool s) @ [?N]"
    using tp_next_finished [OF p] by simp_all
  have "pf_next P isVoid PNew ?h = Some h1" using h1 by (simp add: pf_next_def)
  from pf_step [OF P d(2) this] have ok1: "pf_ok isVoid h1" .
  have "length (promises h1) = Suc ?N"
    using h1 by (auto simp: Promise_construct_def intrusive_ptrD(1) [OF P] call_AddRef_def d)
  then have "pf_next P isVoid (PFuture ?N) h1 = Some h" using h by (simp add: pf_next_def)
  from pf_step [OF P ok1 this] have "pf_ok isVoid h" .
  moreover have "item_ok isVoid s' i" if "i < Suc ?N" for i
  proof (cases "i = ?N")
    case True
    have "?N \<notin> set (finished (pool s))" using finished_posted [OF d(1)] d(3) by auto
    then show ?thesis using True post fin
      by (simp add: s' item_ok_def Let_def nth_append d split: sum.split)
  next
    case False
    then have i: "i < ?N" using that by simp
    then show ?thesis using d(6) [OF i] post(1,2) post(4) [of i] fin
      by (auto simp: s' item_ok_def Let_def nth_append d split: sum.splits)
  qed
  ultimately show ?thesis using tp.keeps_inv [OF d(1) p] fin post d by (simp add: pp_inv_def s')
qed

lemma pool_step_inv:
  assumes P: "intrusive_ptr_ok P" and inv: "pp_inv n isVoid s" and noadd: "\<not> (\<exists>item j. a = AddWork item j)"
    and st: "pool_step P isVoid a s = Some s'"
  shows "pp_inv n isVoid s'"
proof -
  note d = pp_invD [OF inv]
  obtain p where p: "tp_next a (pool s) = Some p" using st by (auto simp: pool_step_def split: option.splits)
  have tp: "tp_inv n p" by (rule tp.keeps_inv [OF d(1) p])
  have posts: "posted p = posted (pool s)" using tp_next_finished(2) [OF p] noadd by (cases a) auto
  show ?thesis
  proof (cases "item_run a (pool s)")
    case None
    then have s': "s' = s\<lparr>pool := p\<rparr>" "finished p = finished (pool s)"
      using st p tp_next_finished(1) [OF p] by (simp_all add: pool_step_def)
    then have "item_ok isVoid s' i" if "i < length (outcomes s)" for i
      using d(6) [OF that] by (simp add: item_ok_def Let_def split: sum.splits)
    then show ?thesis using tp posts d s' by (simp add: pp_inv_def)
  next
    case (Some i)
    have fresh: "i < length (outcomes s)" "i \<notin> set (finished (pool s))"
      using item_run_fresh [OF d(1) _ p Some] d(3) by simp_all
    have fin: "finished p = finished (pool s) @ [i]" using tp_next_finished(1) [OF p] Some by simp
    have pi: "promises (handles s) ! i = Some i" "\<not> eventSet (datas (handles s) ! i)"
      using d(6) [OF fresh(1)] fresh(2) by (auto simp: item_ok_def Let_def split: sum.splits)
    show ?thesis
    proof (cases "a = Dtor \<and> isl (outcomes s ! i)")
      case True
      then have s': "s' = s\<lparr>escaped := True\<rparr>" using st p Some by (simp add: pool_step_def)
      then have "item_ok isVoid s' k" if "k < length (outcomes s)" for k
        using d(6) [OF that] by (simp add: item_ok_def Let_def split: sum.splits)
      then show ?thesis using d s' by (simp add: pp_inv_def)
    next
      case False
      then obtain h where h: "run_item P isVoid i (outcomes s ! i) (handles s) = Inr h"
        and s': "s' = s\<lparr>pool := p, handles := h\<rparr>"
        using st p Some by (auto simp: pool_step_def split: sum.splits)
      have ok: "pf_ok isVoid h" by (rule run_item_ok [OF P d(2) _ h]) (simp add: d fresh)
      show ?thesis
      proof (cases "outcomes s ! i")
        case (Inl e)
        then have "h = handles s" using h by (simp add: run_item_calls)
        then have "item_ok isVoid s' k" if "k < length (outcomes s)" for k
          using d(6) [OF that] Inl fin by (cases "k = i") (auto simp: s' item_ok_def Let_def split: sum.splits)
        then show ?thesis using tp posts ok d \<open>h = handles s\<close> by (simp add: pp_inv_def s')
      next
        case (Inr v)
        note val = run_item_value [OF pi h [unfolded Inr]]
        have "item_ok isVoid s' k" if "k < length (outcomes s)" for k
        proof (cases "k = i")
          case True
          then show ?thesis using Inr fin val(1,2) fresh(1) d(4) by (simp add: s' item_ok_def Let_def)
        next
          case False
          then show ?thesis using d(6) [OF that] fin val(1,2) val(4) [of k] that d(5)
            by (auto simp: s' item_ok_def Let_def split: sum.splits)
        qed
        then show ?thesis using tp posts ok d val(1,3) by (simp add: pp_inv_def s')
      qed
    qed
  qed
qed

lemma pp_step:
  assumes P: "intrusive_ptr_ok P" and inv: "pp_inv n isVoid s" and st: "pp_next P isVoid a s = Some s'"
  shows "pp_inv n isVoid s'"
proof (cases a)
  case (PPost f j)
  then show ?thesis using post_inv [OF P inv] st by (simp add: pp_next_def split: if_splits)
next
  case (PPool b)
  then show ?thesis using pool_step_inv [OF P inv, of b s'] st by (cases b) (auto simp: pp_next_def split: if_splits)
next
  case (PUser b)
  then obtain h where b: "on_futures b" "pf_next P isVoid b (handles s) = Some h" and s': "s' = s\<lparr>handles := h\<rparr>"
    using st by (auto simp: pp_next_def split: if_splits)
  note d = pp_invD [OF inv]
  have "pf_do P isVoid b (handles s) = Inr h" using b(2) by (auto simp: pf_next_def split: if_splits sum.splits)
  then have same: "same_promises (handles s) h" by (rule user_call_promises [OF b(1)])
  have "item_ok isVoid s' i" if "i < length (outcomes s)" for i
    using item_ok_same [OF same, of i "pool s" isVoid] d(6) [OF that] d(5) that by (simp add: s')
  then show ?thesis using d same pf_step [OF P d(2) b(2)] by (simp add: pp_inv_def s' same_promises_def)
qed

interpretation pp: labelled_invariant "pp_next P isVoid" "\<lambda>s. intrusive_ptr_ok P \<longrightarrow> pp_inv n isVoid s"
  by unfold_locales (use pp_step in blast)

lemma pp_reachable:
  assumes P: "intrusive_ptr_ok P" and "reaches (pp_next P isVoid) (pp_init n) s"
  shows "pp_inv n isVoid s"
proof -
  have "tp_inv n (ThreadPool_init n)" using tp_reaches_inv [of n "ThreadPool_init n"] by simp
  moreover have "pf_ok isVoid pf_init"
    by (simp add: pf_ok_def pf_inv_def ptr_inv_def val_inv_def pf_init_def)
  ultimately have "pp_inv n isVoid (pp_init n)"
    by (simp add: pp_inv_def pp_init_def ThreadPool_init_def pf_init_def)
  then show ?thesis using pp.reachable [OF assms(2)] P by blast
qed

section \<open>What a posted function's future delivers\<close>

lemma item_result:
  assumes inv: "pp_inv n isVoid s" and val: "val_inv isVoid (handles s)" and i: "i < length (outcomes s)"
  shows "(if eventSet (datas (handles s) ! i) then stored isVoid (datas (handles s) ! i) else None) =
    (case outcomes s ! i of
       Inr v \<Rightarrow> if i \<in> set (finished (pool s)) then Some (Inr (valued isVoid v)) else None
     | Inl e \<Rightarrow> None)"
proof -
  have "item_ok isVoid s i" by (rule pp_invD(6) [OF inv i])
  moreover have "eventSet (datas (handles s) ! i) \<and> stored isVoid (datas (handles s) ! i) = Some r"
    if "(i, r) \<in> set (wasSet (handles s))" for r
    using val that by (auto simp: val_inv_def)
  ultimately show ?thesis by (auto simp: item_ok_def Let_def split: sum.splits if_splits)
qed

text \<open>No promise holds up the pool.\<close>

lemma pool_not_held_up:
  assumes P: "intrusive_ptr_ok P" and inv: "pp_inv n isVoid s" and few: "few_handles (handles s)" and st: "tp_next a (pool s) \<noteq> None"
  shows "pool_step P isVoid a s \<noteq> None"
proof (cases "item_run a (pool s)")
  case (Some i)
  note d = pp_invD [OF inv]
  obtain p where p: "tp_next a (pool s) = Some p" using st by blast
  have i: "i < length (outcomes s)" "i \<notin> set (finished (pool s))"
    using item_run_fresh [OF d(1) _ p Some] d(3) by simp_all
  then have "promises (handles s) ! i = Some i" "\<not> eventSet (datas (handles s) ! i)"
    using d(6) [OF i(1)] by (auto simp: item_ok_def Let_def split: sum.splits)
  then obtain h where "run_item P isVoid i (outcomes s ! i) (handles s) = Inr h"
    using run_item_runs [OF P d(2) few] i d(4) by metis
  then show ?thesis using p Some by (simp add: pool_step_def)
qed (use st in \<open>auto simp: pool_step_def\<close>)

text \<open>Claim C15.
  The future of a posted function, for any number of workers and any interleaving of posts, workers, the
  destructor and the users of the futures, with fewer than \<open>2^32 - 1\<close> promises and futures, over any
  \<^verbatim>\<open>IntrusivePtr\<close> that keeps its promises.  A future, copies
  included, is ready exactly when the function has been run and has returned, and gives the value it
  returned; if the function threw, its future is never ready and its promise is never deleted.  When the
  destructor of the pool is done, every function posted was run once, so that the futures of all that
  returned are ready.  The pool is never held up by a promise.\<close>

theorem posted_functions_deliver:
  assumes "intrusive_ptr_ok P" and "reaches (pp_next P isVoid) (pp_init n) s"
    and "length (promises (handles s)) + length (futures (handles s)) + 1 < 2 ^ 32"
  shows "(\<forall>i < length (outcomes s). \<forall>f. futures (handles s) ! f = Some i \<longrightarrow>
      Future_Get isVoid f (handles s) = Inr (case outcomes s ! i of
        Inr v \<Rightarrow> if i \<in> set (finished (pool s)) then Some (Inr (if isVoid then 0 else v)) else None
      | Inl e \<Rightarrow> None)) \<and>
    (\<forall>i < length (outcomes s). isl (outcomes s ! i) \<longrightarrow> promises (handles s) ! i = Some i) \<and>
    (dtor (pool s) = DDone \<longrightarrow> mset (finished (pool s)) = mset [0..<length (outcomes s)]) \<and>
    \<not> (\<exists>a. tp_next a (pool s) \<noteq> None \<and> pool_step P isVoid a s = None)"
proof -
  have inv: "pp_inv n isVoid s" by (rule pp_reachable [OF assms(1,2)])
  note d = pp_invD [OF inv]
  have few: "few_handles (handles s)" using assms(3) by (simp add: few_handles_def)
  then have val: "val_inv isVoid (handles s)" using d(2) by (simp add: pf_ok_def pf_inv_def)
  have "Future_Get isVoid f (handles s) = Inr (case outcomes s ! i of
        Inr v \<Rightarrow> if i \<in> set (finished (pool s)) then Some (Inr (if isVoid then 0 else v)) else None
      | Inl e \<Rightarrow> None)" if "i < length (outcomes s)" "futures (handles s) ! f = Some i" for i f
    using item_result [OF inv val that(1), unfolded stored_def valued_def] that(2)
    by (simp add: Future_Get_def on_future_def split: if_split_asm)
  moreover have "promises (handles s) ! i = Some i" if "i < length (outcomes s)" "isl (outcomes s ! i)" for i
    using d(6) [OF that(1)] that(2) by (auto simp: item_ok_def Let_def split: sum.splits)
  moreover have "mset (finished (pool s)) = mset [0..<length (outcomes s)]" if "dtor (pool s) = DDone"
    using tp_all_done [OF d(1) that] d(3) by simp
  ultimately show ?thesis using pool_not_held_up [OF assms(1) inv few] by blast
qed

text \<open>Two posts, the second of which throws, to a pool of one thread.\<close>

lemmas pp_eval = pp_next_def pp_init_def ThreadPool_Post_def ThreadPool_init_def AddWorkItem_def WakeOne_def
  take_work_def wake_worker_def pool_step_def run_item_def Runner_call_def pf_eval

theorem posted_functions_deliver_witness:
  "\<exists>s. run_acts (pp_next swapping_ptr False) [PPost (Inr 7) 0, PPost (Inl 9) 0, PPool (Worker 0), PPool (Worker 0),
      PUser (FCopy 0), PPool (Worker 0), PPool (Worker 0), PPool (Worker 0), PPool (Worker 0)] (pp_init 1) = Some s
    \<and> Future_Get False 2 (handles s) = Inr (Some (Inr 7)) \<and> Future_Get False 1 (handles s) = Inr None"
proof -
  obtain s where s: "run_acts (pp_next swapping_ptr False) [PPost (Inr 7) 0, PPost (Inl 9) 0, PPool (Worker 0), PPool (Worker 0),
      PUser (FCopy 0), PPool (Worker 0), PPool (Worker 0), PPool (Worker 0), PPool (Worker 0)] (pp_init 1) = Some s"
    and f: "finished (pool s) = [0, 1]" "outcomes s = [Inr 7, Inl 9]" "length (promises (handles s)) = 2"
      "futures (handles s) = [Some 0, Some 1, Some 0]"
    by (simp add: pp_eval)
  have "length (promises (handles s)) + length (futures (handles s)) + 1 < 2 ^ 32" using f by simp
  note del = posted_functions_deliver [OF swapping_ptr_ok run_acts_reaches [OF s] this]
  have "Future_Get False k (handles s) = Inr (case outcomes s ! i of
        Inr v \<Rightarrow> if i \<in> set (finished (pool s)) then Some (Inr (if False then 0 else v)) else None
      | Inl e \<Rightarrow> None)" if "i < length (outcomes s)" "futures (handles s) ! k = Some i" for i k
    using del that by blast
  from this [of 0 2] this [of 1 1] show ?thesis using s f by simp
qed

text \<open>The destructor runs what is left without the handler that the workers have: an exception of such an item
  leaves it, here with a second item that is never run.\<close>

theorem destructor_exception_escapes:
  "\<exists>s. reaches (pp_next swapping_ptr False) (pp_init 1) s \<and> escaped s \<and> outcomes s = [Inl 9, Inr 7] \<and>
     finished (pool s) = [] \<and> \<not> (\<exists>a. pp_next swapping_ptr False a s \<noteq> None)"
proof -
  obtain s where s: "run_acts (pp_next swapping_ptr False) [PPost (Inl 9) 0, PPost (Inr 7) 0, PPool Dtor, PPool (Worker 0),
      PPool Dtor, PPool Dtor, PPool Dtor] (pp_init 1) = Some s"
    and f: "escaped s" "outcomes s = [Inl 9, Inr 7]" "finished (pool s) = []"
    by (simp add: pp_eval)
  have "pp_next swapping_ptr False a s = None" for a using f(1) by (simp add: pp_next_def)
  then show ?thesis using run_acts_reaches [OF s] f by (intro exI [of _ s]) simp
qed

end
