(* ===== verification/Throttlers.thy ===== *)
theory Throttlers
  imports Meta_Scheduler
begin

text \<open>
  How much a scheduler may run in one round of \<^verbatim>\<open>Run\<close> (meta_scheduler.cpp): the throttlers that
  \<^verbatim>\<open>RunAll\<close>, \<^verbatim>\<open>RunSome\<close> and \<^verbatim>\<open>RunTimed\<close> hand to it.  A scheduler asks its throttler before each work item
  (\<^verbatim>\<open>ISchedulerContext::Run\<close>, scheduler.hpp) and stops at the first \<^verbatim>\<open>true\<close>.

  The timer is that of crunch.base: a sample is any value, and \<open>elapsed\<close>, the time between two samples,
  is a parameter.
\<close>

section \<open>Throttlers\<close>

datatype 'sample throttler = ThrottleAll | ThrottleSome u32 | ThrottleTimed 'sample nat | ThrottleNull

text \<open>The constructors: the count and the duration come from the run mode, the start from the timer.\<close>

definition RunAll_throttler :: "'sample throttler" where
  "RunAll_throttler = ThrottleAll"

definition RunSome_throttler :: "RunMode \<Rightarrow> 'sample throttler" where
  "RunSome_throttler runMode = ThrottleSome (mCount runMode)"

definition RunTimed_throttler :: "RunMode \<Rightarrow> 'sample \<Rightarrow> 'sample throttler" where
  "RunTimed_throttler runMode sample = ThrottleTimed sample (mDuration runMode)"

definition NullThrottler_ShouldYield :: bool where
  "NullThrottler_ShouldYield = False"

text \<open>\<^verbatim>\<open>throttler.ShouldYield()\<close>, when \<^verbatim>\<open>stop\<close> reads \<open>stopped\<close> and the timer \<open>now\<close>.\<close>

fun ShouldYield ::
  "('sample \<Rightarrow> 'sample \<Rightarrow> nat) \<Rightarrow> bool \<Rightarrow> 'sample \<Rightarrow> 'sample throttler \<Rightarrow> bool \<times> 'sample throttler" where
  "ShouldYield elapsed stopped now ThrottleAll = (ShouldYield_All stopped, ThrottleAll)"
| "ShouldYield elapsed stopped now (ThrottleSome count) =
     (let (r, count') = ShouldYield_Some stopped count in (r, ThrottleSome count'))"
| "ShouldYield elapsed stopped now (ThrottleTimed start maxDuration) =
     (ShouldYield_Timed stopped (elapsed start now) maxDuration, ThrottleTimed start maxDuration)"
| "ShouldYield elapsed stopped now ThrottleNull = (NullThrottler_ShouldYield, ThrottleNull)"

text \<open>The throttler that the run function of a mode makes; \<open>None\<close> is the exception.\<close>

definition make_throttler :: "RunMode \<Rightarrow> 'sample \<Rightarrow> 'sample throttler option" where
  "make_throttler runMode sample = (case RunFunctionFromRunMode runMode of
     None \<Rightarrow> None
   | Some RunAll \<Rightarrow> Some RunAll_throttler
   | Some RunSome \<Rightarrow> Some (RunSome_throttler runMode)
   | Some RunTimed \<Rightarrow> Some (RunTimed_throttler runMode sample))"

text \<open>The answers to any number of questions, each with what \<^verbatim>\<open>stop\<close> and the timer read then.\<close>

fun answers ::
  "('sample \<Rightarrow> 'sample \<Rightarrow> nat) \<Rightarrow> 'sample throttler \<Rightarrow> (bool \<times> 'sample) list \<Rightarrow> bool list" where
  "answers elapsed t [] = []"
| "answers elapsed t ((stopped, now) # polls) =
     (let (r, t') = ShouldYield elapsed stopped now t in r # answers elapsed t' polls)"

section \<open>What each mode allows\<close>

lemma answers_all: "answers elapsed ThrottleAll polls = map fst polls"
  by (induction polls) (auto simp: ShouldYield_All_def)

lemma answers_timed:
  "answers elapsed (ThrottleTimed start d) polls = map (\<lambda>(stopped, now). stopped \<or> d < elapsed start now) polls"
  by (induction polls) (auto simp: ShouldYield_Timed_def)

text \<open>The answer at \<open>i\<close> of a count \<open>c\<close> is no when \<^verbatim>\<open>stop\<close> is not set and fewer than \<open>c\<close> questions before it
  found \<^verbatim>\<open>stop\<close> not set.\<close>

definition goes_on :: "(bool \<times> 'sample) list \<Rightarrow> nat" where
  "goes_on polls = length (filter (\<lambda>p. \<not> fst p) polls)"

lemma answers_some:
  "answers elapsed (ThrottleSome c) polls =
   map (\<lambda>i. fst (polls ! i) \<or> unat c \<le> goes_on (take i polls)) [0..<length polls]"
proof (induction polls arbitrary: c)
  case (Cons p polls)
  obtain stopped now where p: "p = (stopped, now)" by (cases p)
  define c' where "c' = (if stopped \<or> c = 0 then c else c - 1)"
  have step: "answers elapsed (ThrottleSome c) (p # polls) = (stopped \<or> c = 0) # answers elapsed (ThrottleSome c') polls"
    by (auto simp: p c'_def ShouldYield_Some_def)
  have "unat c \<le> goes_on (take (Suc i) (p # polls)) \<longleftrightarrow> unat c' \<le> goes_on (take i polls)" for i
  proof (cases "stopped \<or> c = 0")
    case True
    then show ?thesis by (auto simp: c'_def p goes_on_def)
  next
    case False
    then have "unat c = Suc (unat (c - 1))" using unat_minus_one [of c] unat_gt_0 [of c] by simp
    then show ?thesis using False by (simp add: c'_def p goes_on_def)
  qed
  then show ?case unfolding step Cons.IH
    by (auto simp: upt_conv_Cons p goes_on_def unat_eq_0 simp del: upt_Suc simp flip: map_Suc_upt)
qed simp

text \<open>What a run mode lets a scheduler do in one round.  Asked before each work item, the throttler of \<^verbatim>\<open>All\<close>
  says to yield exactly while \<^verbatim>\<open>stop\<close> is set; that of \<^verbatim>\<open>Some(count)\<close> lets exactly the first \<^verbatim>\<open>count\<close>
  items through that find \<^verbatim>\<open>stop\<close> not set, and none after them; that of \<^verbatim>\<open>Timed(duration)\<close> lets an item
  through exactly when \<^verbatim>\<open>stop\<close> is not set and no more than the duration has passed since the round began,
  so the last item may take it beyond; and a disabled mode has no run function.\<close>

theorem run_modes_throttle:
  "map_option (\<lambda>t. answers elapsed t polls) (make_throttler runMode start) =
   (case mType runMode of
      TYPE_DISABLED \<Rightarrow> None
    | TYPE_ALL \<Rightarrow> Some (map fst polls)
    | TYPE_SOME \<Rightarrow>
        Some (map (\<lambda>i. fst (polls ! i) \<or>
          unat (mCount runMode) \<le> length (filter (\<lambda>p. \<not> fst p) (take i polls))) [0..<length polls])
    | TYPE_TIMED \<Rightarrow> Some (map (\<lambda>(stopped, now). stopped \<or> mDuration runMode < elapsed start now) polls))"
  by (simp add: make_throttler_def RunFunctionFromRunMode_def RunAll_throttler_def RunSome_throttler_def
      RunTimed_throttler_def answers_all answers_some answers_timed goes_on_def split: mode_type.split)

end
