(* ===== verification/Context_Calls.thy ===== *)
theory Context_Calls
  imports Meta_Context
begin

text \<open>
  All waits of a thread that has a context in the meta scheduler (meta_scheduler.cpp): any sequence of
  \<^verbatim>\<open>WaitFor\<close>, \<^verbatim>\<open>WaitForAll\<close> and \<^verbatim>\<open>WaitForAny\<close>, which the context runs on its one semaphore.

  A call leaves its waiters behind; should one of them still be with its waitable, its callback would post
  the semaphore of a later call.  The model therefore keeps the waiters of all calls that have returned, and
  lets their waitables go on.
\<close>

section \<open>Calls\<close>

text \<open>\<^verbatim>\<open>CallAll k n\<close> has \<open>k\<close> order-dependent waitables, waited for one by one, and hangs \<open>n\<close> waiters then.\<close>

datatype ctx_call = CallFor | CallAll nat nat | CallAny nat

datatype ctx_pc =
    CtxIdle nat \<comment> \<open>between two calls; the semaphore\<close>
  | CtxFor wait_mem for_pc
  | CtxOrdered nat nat wait_mem for_pc \<comment> \<open>the first phase of \<^verbatim>\<open>WaitForAll\<close>: waitables to come\<close>
  | CtxAll nat all_mem all_pc
  | CtxAny nat any_mem any_pc

record ctx_sys =
  current :: ctx_pc
  calls :: "ctx_call list"
  past :: "(nat \<Rightarrow> wstatus) list" \<comment> \<open>the waiters of the calls that have returned\<close>

definition WaitForImpl_start :: "nat \<Rightarrow> wait_mem" where
  "WaitForImpl_start waitSemaphore = for_init\<lparr>posts := waitSemaphore\<rparr>"

definition Context_WaitForAll :: "nat \<Rightarrow> all_mem" where
  "Context_WaitForAll waitSemaphore = all_init\<lparr>posts := waitSemaphore\<rparr>"

definition Context_WaitForAny :: "nat \<Rightarrow> any_mem" where
  "Context_WaitForAny waitSemaphore = any_init\<lparr>posts := waitSemaphore\<rparr>"

text \<open>Where the global functions start: on the semaphore of the context, or on one of their own.\<close>

definition WaitForAll_start :: "nat option \<Rightarrow> all_mem" where
  "WaitForAll_start tCurrentContext =
     (case tCurrentContext of Some p \<Rightarrow> Context_WaitForAll p | None \<Rightarrow> all_init)"

definition WaitForAny_start :: "nat option \<Rightarrow> any_mem" where
  "WaitForAny_start tCurrentContext =
     (case tCurrentContext of Some p \<Rightarrow> Context_WaitForAny p | None \<Rightarrow> any_init)"

definition start_all :: "nat \<Rightarrow> nat \<Rightarrow> nat \<Rightarrow> ctx_pc" where
  "start_all k n p =
     (case k of 0 \<Rightarrow> CtxAll n (WaitForAll_start (Some p)) (AllAdd 0)
      | Suc k' \<Rightarrow> CtxOrdered k' n (WaitForImpl_start p) ForAdd)"

fun start_call :: "ctx_call \<Rightarrow> nat \<Rightarrow> ctx_pc" where
  "start_call CallFor p = CtxFor (fst (WaitFor_start (Some \<lparr>status = (\<lambda>_. Unused), posts = p\<rparr>))) ForAdd"
| "start_call (CallAll k n) p = start_all k n p"
| "start_call (CallAny n) p = CtxAny n (WaitForAny_start (Some p)) (AnyAdd 0)"

text \<open>A step of the thread.\<close>

definition leave :: "(nat \<Rightarrow> wstatus) \<Rightarrow> ctx_pc \<Rightarrow> ctx_sys \<Rightarrow> ctx_sys" where
  "leave st pc s = s\<lparr>current := pc, past := past s @ [st]\<rparr>"

fun ctx_own :: "bool \<Rightarrow> ctx_pc \<Rightarrow> ctx_sys \<Rightarrow> ctx_sys option" where
  "ctx_own accepted (CtxIdle p) s =
     (case calls s of [] \<Rightarrow> None | c # cs \<Rightarrow> Some (s\<lparr>current := start_call c p, calls := cs\<rparr>))"
| "ctx_own accepted (CtxFor m ForReturn) s = Some (leave (status m) (CtxIdle (posts m)) s)"
| "ctx_own accepted (CtxFor m pc) s =
     map_option (\<lambda>(m', pc'). s\<lparr>current := CtxFor m' pc'\<rparr>) (WaitFor_step accepted m pc)"
| "ctx_own accepted (CtxOrdered k n m ForReturn) s = Some (leave (status m) (start_all k n (posts m)) s)"
| "ctx_own accepted (CtxOrdered k n m pc) s =
     map_option (\<lambda>(m', pc'). s\<lparr>current := CtxOrdered k n m' pc'\<rparr>) (WaitFor_step accepted m pc)"
| "ctx_own accepted (CtxAll n m AllReturn) s = Some (leave (status m) (CtxIdle (posts m)) s)"
| "ctx_own accepted (CtxAll n m pc) s =
     map_option (\<lambda>(m', pc'). s\<lparr>current := CtxAll n m' pc'\<rparr>) (WaitForAll_step n accepted m pc)"
| "ctx_own accepted (CtxAny n m AnyReturn) s = Some (leave (status m) (CtxIdle (posts m)) s)"
| "ctx_own accepted (CtxAny n m pc) s =
     map_option (\<lambda>(m', pc'). s\<lparr>current := CtxAny n m' pc'\<rparr>) (WaitForAny_step n accepted m pc)"

text \<open>A step of the waitable that has waiter \<open>i\<close> of the call that runs.\<close>

fun ctx_waitable :: "nat \<Rightarrow> ctx_pc \<Rightarrow> ctx_pc option" where
  "ctx_waitable i (CtxIdle p) = None"
| "ctx_waitable i (CtxFor m pc) = map_option (\<lambda>m'. CtxFor m' pc) (waitable_next i m)"
| "ctx_waitable i (CtxOrdered k n m pc) = map_option (\<lambda>m'. CtxOrdered k n m' pc) (waitable_next i m)"
| "ctx_waitable i (CtxAll n m pc) = map_option (\<lambda>m'. CtxAll n m' pc) (waitable_next i m)"
| "ctx_waitable i (CtxAny n m pc) = map_option (\<lambda>m'. CtxAny n m' pc) (waitable_next i m)"

text \<open>A late callback posts the semaphore of the context.\<close>

fun post_current :: "ctx_pc \<Rightarrow> ctx_pc" where
  "post_current (CtxIdle p) = CtxIdle (Linux_Sem_Post p)"
| "post_current (CtxFor m pc) = CtxFor (poster m) pc"
| "post_current (CtxOrdered k n m pc) = CtxOrdered k n (poster m) pc"
| "post_current (CtxAll n m pc) = CtxAll n (poster m) pc"
| "post_current (CtxAny n m pc) = CtxAny n (poster m) pc"

datatype ctx_act = CtxOwn bool | CtxWaitable nat | CtxLate nat nat

fun ctx_next :: "ctx_act \<Rightarrow> ctx_sys \<Rightarrow> ctx_sys option" where
  "ctx_next (CtxOwn accepted) s = ctx_own accepted (current s) s"
| "ctx_next (CtxWaitable i) s = map_option (\<lambda>pc. s\<lparr>current := pc\<rparr>) (ctx_waitable i (current s))"
| "ctx_next (CtxLate c i) s =
     (if \<not> c < length (past s) then None
      else if (past s ! c) i = Registered
        then Some (s\<lparr>past := (past s)[c := (past s ! c)(i := InFlight)]\<rparr>)
      else if (past s ! c) i = InFlight
        then Some (s\<lparr>past := (past s)[c := (past s ! c)(i := Called)], current := post_current (current s)\<rparr>)
      else None)"

definition ctx_init :: "ctx_call list \<Rightarrow> ctx_sys" where
  "ctx_init cs = \<lparr>current = CtxIdle (posts ContextImpl_init), calls = cs, past = []\<rparr>"

section \<open>No call reaches into another\<close>

definition quiet :: "(nat \<Rightarrow> wstatus) \<Rightarrow> bool" where
  "quiet st \<longleftrightarrow> (\<forall>i. st i \<noteq> Registered \<and> st i \<noteq> InFlight)"

fun pc_inv :: "ctx_pc \<Rightarrow> bool" where
  "pc_inv (CtxIdle p) \<longleftrightarrow> p = 0"
| "pc_inv (CtxFor m pc) \<longleftrightarrow> for_inv m pc"
| "pc_inv (CtxOrdered k n m pc) \<longleftrightarrow> for_inv m pc"
| "pc_inv (CtxAll n m pc) \<longleftrightarrow> all_inv n m pc"
| "pc_inv (CtxAny n m pc) \<longleftrightarrow> any_inv n m pc"

definition ctx_inv :: "ctx_sys \<Rightarrow> bool" where
  "ctx_inv s \<longleftrightarrow> pc_inv (current s) \<and> (\<forall>st \<in> set (past s). quiet st)"

lemma quietI: "(\<And>i. st i \<in> {Unused, Called, Taken, Destroyed}) \<Longrightarrow> quiet st"
  unfolding quiet_def by (metis empty_iff insert_iff wstatus.distinct)

lemma for_returned:
  assumes "for_inv m ForReturn"
  shows "posts m = 0 \<and> quiet (status m)"
proof -
  have "status m i \<in> {Unused, Called, Taken, Destroyed}" for i using assms by (cases "i = 0") auto
  then show ?thesis using assms quietI by simp
qed

lemma all_returned_quiet:
  assumes "all_inv n m AllReturn"
  shows "posts m = 0 \<and> quiet (status m)"
proof -
  have c: "all_counts n (allAdded m) m" using assms by simp
  have "status m i \<in> {Unused, Called, Taken, Destroyed}" for i
    using all_returned [OF c] c by (cases "i < n") (auto simp: all_counts_def)
  then show ?thesis using all_returned [OF c] quietI by blast
qed

lemma any_returned_quiet:
  assumes "any_inv n m AnyReturn"
  shows "posts m = 0 \<and> quiet (status m)"
proof -
  have "status m i \<in> {Unused, Called, Taken, Destroyed}" for i
    using assms by (cases "i < addedCount m") (auto simp: any_inv_def not_less)
  then show ?thesis using assms quietI by (simp add: any_inv_def)
qed

lemmas start_defs = WaitFor_start_def WaitForImpl_start_def WaitForAll_start_def WaitForAny_start_def
  Context_WaitForAll_def Context_WaitForAny_def for_init_def all_init_def any_init_def

lemma start_all_inv: "pc_inv (start_all k n 0)"
  by (cases k) (simp_all add: start_all_def start_defs all_counts_def)

lemma start_call_inv: "pc_inv (start_call c 0)"
  by (cases c) (auto simp: start_all_inv start_defs any_inv_def fun_upd_apply)

lemma leave_inv: "ctx_inv s \<Longrightarrow> quiet st \<Longrightarrow> pc_inv pc \<Longrightarrow> ctx_inv (leave st pc s)"
  by (auto simp: ctx_inv_def leave_def)

lemma moved_inv: "ctx_inv s \<Longrightarrow> pc_inv pc \<Longrightarrow> ctx_inv (s\<lparr>current := pc\<rparr>)"
  by (simp add: ctx_inv_def)

lemma ctx_own_inv:
  assumes inv: "ctx_inv s" and st: "ctx_own accepted (current s) s = Some s'"
  shows "ctx_inv s'"
proof (cases "current s")
  case (CtxIdle p)
  then show ?thesis using inv st start_call_inv
    by (auto simp: ctx_inv_def split: list.splits)
next
  case (CtxFor m pc)
  then have i: "for_inv m pc" using inv by (simp add: ctx_inv_def)
  show ?thesis
  proof (cases "pc = ForReturn")
    case True
    then show ?thesis using st CtxFor leave_inv [OF inv] for_returned [of m] i by auto
  next
    case False
    then obtain m' pc' where "WaitFor_step accepted m pc = Some (m', pc')" "s' = s\<lparr>current := CtxFor m' pc'\<rparr>"
      using st CtxFor by (cases pc) (auto simp del: WaitFor_step.simps)
    then show ?thesis using moved_inv [OF inv] wf.own_inv [OF i] by simp
  qed
next
  case (CtxOrdered k n m pc)
  then have i: "for_inv m pc" using inv by (simp add: ctx_inv_def)
  show ?thesis
  proof (cases "pc = ForReturn")
    case True
    then show ?thesis using st CtxOrdered leave_inv [OF inv] for_returned [of m] i start_all_inv by auto
  next
    case False
    then obtain m' pc' where "WaitFor_step accepted m pc = Some (m', pc')" "s' = s\<lparr>current := CtxOrdered k n m' pc'\<rparr>"
      using st CtxOrdered by (cases pc) (auto simp del: WaitFor_step.simps)
    then show ?thesis using moved_inv [OF inv] wf.own_inv [OF i] by simp
  qed
next
  case (CtxAll n m pc)
  then have i: "all_inv n m pc" using inv by (simp add: ctx_inv_def)
  show ?thesis
  proof (cases "pc = AllReturn")
    case True
    then show ?thesis using st CtxAll leave_inv [OF inv] all_returned_quiet [of n m] i by auto
  next
    case False
    then obtain m' pc' where "WaitForAll_step n accepted m pc = Some (m', pc')" "s' = s\<lparr>current := CtxAll n m' pc'\<rparr>"
      using st CtxAll by (cases pc) (auto simp del: WaitForAll_step.simps)
    then show ?thesis using moved_inv [OF inv] all_own_inv [OF i] by simp
  qed
next
  case (CtxAny n m pc)
  then have i: "any_inv n m pc" using inv by (simp add: ctx_inv_def)
  show ?thesis
  proof (cases "pc = AnyReturn")
    case True
    then show ?thesis using st CtxAny leave_inv [OF inv] any_returned_quiet [of n m] i by auto
  next
    case False
    then obtain m' pc' where "WaitForAny_step n accepted m pc = Some (m', pc')" "s' = s\<lparr>current := CtxAny n m' pc'\<rparr>"
      using st CtxAny by (cases pc) (auto simp del: WaitForAny_step.simps)
    then show ?thesis using moved_inv [OF inv] any_own_inv [OF i] by simp
  qed
qed

lemma waitable_next_inv:
  assumes "waitable_next i m = Some m'"
  shows "for_inv m pc \<Longrightarrow> for_inv m' pc"
  using assms wf.signal_inv [of m pc i] wf.callback_inv [of m pc i]
  by (auto simp: waitable_next_def split: if_splits)

lemma waitable_next_all_inv: "waitable_next i m = Some m' \<Longrightarrow> all_inv n m pc \<Longrightarrow> all_inv n m' pc"
  using all_signal_inv [of n m pc i] all_callback_inv [of n m pc i]
  by (auto simp: waitable_next_def split: if_splits)

lemma waitable_next_any_inv: "waitable_next i m = Some m' \<Longrightarrow> any_inv n m pc \<Longrightarrow> any_inv n m' pc"
  using any_signal_inv [of n m pc i] any_callback_inv [of n m pc i]
  by (auto simp: waitable_next_def split: if_splits)

lemma ctx_waitable_inv: "ctx_waitable i pc = Some pc' \<Longrightarrow> pc_inv pc \<Longrightarrow> pc_inv pc'"
  by (cases pc) (auto simp: waitable_next_inv waitable_next_all_inv waitable_next_any_inv)

lemma ctx_next_inv:
  assumes inv: "ctx_inv s" and st: "ctx_next a s = Some s'"
  shows "ctx_inv s'"
proof (cases a)
  case (CtxOwn accepted)
  then show ?thesis using ctx_own_inv [OF inv] st by simp
next
  case (CtxWaitable i)
  then show ?thesis using moved_inv [OF inv] ctx_waitable_inv inv st by (auto simp: ctx_inv_def)
next
  case (CtxLate c i)
  then show ?thesis using inv st by (auto simp: ctx_inv_def quiet_def split: if_splits)
qed

interpretation cx: labelled_invariant ctx_next ctx_inv
  by unfold_locales (rule ctx_next_inv)

section \<open>Progress\<close>

lemma waitable_enabled: "status m i = Registered \<or> status m i = InFlight \<Longrightarrow> waitable_next i m \<noteq> None"
  by (auto simp: waitable_next_def)

lemma for_blocked:
  "for_inv m pc \<Longrightarrow> pc = ForReturn \<or> WaitFor_step accepted m pc \<noteq> None \<or> waitable_next 0 m \<noteq> None"
  by (cases pc) (auto simp: live_def Linux_Sem_Wait_def waitable_next_def)

lemma ctx_blocked:
  assumes inv: "ctx_inv s"
  shows "current s = CtxIdle 0 \<and> calls s = [] \<or> ctx_own accepted (current s) s \<noteq> None \<or>
    (\<exists>i. ctx_waitable i (current s) \<noteq> None) \<or> (\<exists>m. current s = CtxAny 0 m AnySpin)"
proof (cases "current s")
  case (CtxIdle p)
  then show ?thesis using inv by (cases "calls s") (auto simp: ctx_inv_def)
next
  case (CtxFor m pc)
  then have "pc = ForReturn \<or> WaitFor_step accepted m pc \<noteq> None \<or> waitable_next 0 m \<noteq> None"
    using for_blocked inv by (auto simp: ctx_inv_def)
  then show ?thesis using CtxFor by (cases pc) (auto simp del: WaitFor_step.simps)
next
  case (CtxOrdered k n m pc)
  then have "pc = ForReturn \<or> WaitFor_step accepted m pc \<noteq> None \<or> waitable_next 0 m \<noteq> None"
    using for_blocked inv by (auto simp: ctx_inv_def)
  then show ?thesis using CtxOrdered by (cases pc) (auto simp del: WaitFor_step.simps)
next
  case (CtxAll n m pc)
  have "all_inv n m pc" using inv CtxAll by (simp add: ctx_inv_def)
  then have "pc = AllReturn \<or> WaitForAll_step n accepted m pc \<noteq> None \<or> (\<exists>j. waitable_next j m \<noteq> None)"
    using all_blocked [of n m pc accepted] waitable_enabled [of m] by metis
  then show ?thesis using CtxAll by (cases pc) (auto simp del: WaitForAll_step.simps)
next
  case (CtxAny n m pc)
  have "any_inv n m pc" using inv CtxAny by (simp add: ctx_inv_def)
  then have "pc = AnyReturn \<or> WaitForAny_step n accepted m pc \<noteq> None \<or> (\<exists>j. waitable_next j m \<noteq> None) \<or>
      n = 0 \<and> pc = AnySpin"
    using any_blocked [of n m pc accepted] waitable_enabled [of m] by (metis neq0_conv)
  then show ?thesis using CtxAny by (cases pc) (auto simp del: WaitForAny_step.simps)
qed

text \<open>Claim C12.
  The waits of a thread with a context do not reach into one another, for any sequence of \<^verbatim>\<open>WaitFor\<close>,
  \<^verbatim>\<open>WaitForAll\<close> and \<^verbatim>\<open>WaitForAny\<close> and any interleaving with the waitables.  Between two calls the one
  semaphore is at 0, so that each call starts as it would on a semaphore of its own; no waiter of a call
  that has returned is with a waitable or about to be called; and the thread has made all its calls, or can
  make a step, or waits for a waitable that will call it, unless it called \<^verbatim>\<open>WaitForAny\<close> with nothing.\<close>

theorem context_calls_independent:
  assumes "reaches ctx_next (ctx_init cs) s"
  shows "(\<forall>p. current s = CtxIdle p \<longrightarrow>
      p = 0 \<and> WaitForAll_start (Some p) = WaitForAll_start None \<and> WaitForAny_start (Some p) = WaitForAny_start None \<and>
      WaitFor_start (Some (WaitForImpl_start p)) = WaitFor_start None) \<and>
    (\<forall>st \<in> set (past s). \<forall>i. st i \<noteq> Registered \<and> st i \<noteq> InFlight) \<and>
    (current s = CtxIdle 0 \<and> calls s = [] \<or> ctx_next (CtxOwn accepted) s \<noteq> None \<or>
     (\<exists>i. ctx_next (CtxWaitable i) s \<noteq> None) \<or> (\<exists>m. current s = CtxAny 0 m AnySpin))"
proof -
  have inv: "ctx_inv s"
    by (rule cx.reachable [OF assms]) (simp add: ctx_inv_def ctx_init_def ContextImpl_init_def)
  have "WaitFor_start (Some (WaitForImpl_start 0)) = WaitFor_start None"
    by (simp add: start_defs fun_upd_idem)
  then have "p = 0 \<and> WaitForAll_start (Some p) = WaitForAll_start None \<and>
      WaitForAny_start (Some p) = WaitForAny_start None \<and>
      WaitFor_start (Some (WaitForImpl_start p)) = WaitFor_start None" if "current s = CtxIdle p" for p
    using inv that by (simp add: ctx_inv_def start_defs)
  then show ?thesis using inv ctx_blocked [OF inv, of accepted]
    unfolding ctx_inv_def quiet_def by (auto simp del: ctx_own.simps ctx_waitable.simps)
qed

text \<open>A \<^verbatim>\<open>WaitForAny\<close> of two waitables, the second of which is ready, and a \<^verbatim>\<open>WaitFor\<close> after it.\<close>

theorem context_calls_independent_witness:
  "\<exists>s. run_acts ctx_next ([CtxOwn True, CtxOwn True, CtxOwn False] @ replicate 7 (CtxOwn True) @
      [CtxOwn True, CtxOwn True, CtxWaitable 0, CtxWaitable 0, CtxOwn True, CtxOwn True])
      (ctx_init [CallAny 2, CallFor]) = Some s \<and> current s = CtxIdle 0 \<and> length (past s) = 2"
proof -
  obtain s p where s: "run_acts ctx_next ([CtxOwn True, CtxOwn True, CtxOwn False] @ replicate 7 (CtxOwn True) @
      [CtxOwn True, CtxOwn True, CtxWaitable 0, CtxWaitable 0, CtxOwn True, CtxOwn True])
      (ctx_init [CallAny 2, CallFor]) = Some s" "current s = CtxIdle p" "length (past s) = 2"
    by (simp add: ctx_init_def ContextImpl_init_def start_defs leave_def waitable_next_def poster_def
        Linux_Sem_Wait_def Linux_Sem_Post_def eval_nat_numeral)
  have "p = 0" using context_calls_independent [OF run_acts_reaches [OF s(1)], of True] s(2) by blast
  then show ?thesis using s by blast
qed

end
