(* ===== verification/Affinity_Win32.thy ===== *)
theory Affinity_Win32
  imports Processors
begin

text \<open>
  The affinity calls of Windows (the Windows processor_affinity.cpp).  The system calls are parameters: for
  a thread or process whose mask is \<open>s\<close>, what \<^verbatim>\<open>SetThreadAffinityMask\<close> and \<^verbatim>\<open>SetProcessAffinityMask\<close>
  return and the mask they leave.
\<close>

type_synonym win_set_thread = "u64 \<Rightarrow> u64 \<Rightarrow> u64 \<times> u64"
type_synonym win_set_process = "u64 \<Rightarrow> u64 \<Rightarrow> bool \<times> u64"

text \<open>An exception after the system call leaves the new mask behind, so the mask is part of every result.\<close>

definition SetThreadAffinity_win32 ::
  "win_set_thread \<Rightarrow> affinity \<Rightarrow> u64 \<Rightarrow> (affinity_error + affinity) \<times> u64" where
  "SetThreadAffinity_win32 SetThreadAffinityMask affinity s =
     (let (result, s') = SetThreadAffinityMask (MaskFromAffinity affinity) s
      in (if result = 0 then Inl AssertFailed
          else case AffinityFromMask result of None \<Rightarrow> Inl OutOfRange | Some old \<Rightarrow> Inr old, s'))"

definition SetProcessAffinity_win32 :: "win_set_process \<Rightarrow> affinity \<Rightarrow> u64 \<Rightarrow> (affinity_error + unit) \<times> u64" where
  "SetProcessAffinity_win32 SetProcessAffinityMask affinity s =
     (let (result, s') = SetProcessAffinityMask (MaskFromAffinity affinity) s
      in (if result then Inr () else Inl AssertFailed, s'))"

definition GetProcessAffinity_win32 :: "u64 \<Rightarrow> affinity_error + affinity" where
  "GetProcessAffinity_win32 processMask =
     (case AffinityFromMask processMask of None \<Rightarrow> Inl OutOfRange | Some a \<Rightarrow> Inr a)"

text \<open>What the manual promises: the call succeeds for a non-empty mask within the process mask, returns the
  previous one and installs the new one.\<close>

definition documented :: "u64 \<Rightarrow> win_set_thread \<Rightarrow> bool" where
  "documented processMask setMask \<longleftrightarrow>
     (\<forall>m s. m \<noteq> 0 \<longrightarrow> m AND processMask = m \<longrightarrow> setMask m s = (s, m))"

lemma low_bits:
  assumes "drop_bit 32 m = 0" and "bit (m :: u64) p"
  shows "p < 32"
proof (rule ccontr)
  assume "\<not> p < 32"
  then have "bit (drop_bit 32 m) (p - 32)" using assms(2) by (simp add: bit_drop_bit_eq)
  then show False using assms(1) by simp
qed

lemma AffinityFromMask_low: "drop_bit 32 m = 0 \<Longrightarrow> AffinityFromMask m = Some (ucast m)"
  unfolding AffinityFromMask_def by (rule affinity_below_eq) (auto simp: bit_ucast_iff dest: low_bits)

lemma MaskFromAffinity_ucast: "drop_bit 32 m = 0 \<Longrightarrow> MaskFromAffinity (ucast m) = m"
  by (rule bit_eqI) (auto simp: bit_MaskFromAffinity bit_ucast_iff dest: low_bits)

text \<open>A thread that changes its affinity gets its old one, and gives it back with it, as long as its processors
  are among the first 32.\<close>

theorem win32_affinity_restored:
  assumes doc: "documented processMask setMask"
    and s: "s \<noteq> 0" "s AND processMask = s" "drop_bit 32 s = 0"
    and a: "affinity \<noteq> 0" "MaskFromAffinity affinity AND processMask = MaskFromAffinity affinity"
  shows "SetThreadAffinity_win32 setMask affinity s = (Inr (ucast s), MaskFromAffinity affinity) \<and>
    SetThreadAffinity_win32 setMask (ucast s) (MaskFromAffinity affinity) = (Inr affinity, s)"
proof -
  have nz: "MaskFromAffinity affinity \<noteq> 0"
  proof
    assume "MaskFromAffinity affinity = 0"
    then have "\<not> bit affinity p" for p using bit_MaskFromAffinity [of affinity p] by simp
    then show False using a(1) by (simp add: bit_eq_iff)
  qed
  have again: "AffinityFromMask (MaskFromAffinity affinity) = Some affinity"
    unfolding AffinityFromMask_def by (rule affinity_below_eq) (auto simp: bit_MaskFromAffinity dest: u32_bit_less)
  show ?thesis
    using doc s a nz by (simp add: SetThreadAffinity_win32_def documented_def AffinityFromMask_low again
        MaskFromAffinity_ucast)
qed

text \<open>Otherwise the call changes the mask and throws, so that the old mask is lost.\<close>

theorem win32_affinity_lost:
  assumes doc: "documented processMask setMask" and s: "s \<noteq> 0" "drop_bit 32 s \<noteq> 0"
    and a: "MaskFromAffinity affinity \<noteq> 0" "MaskFromAffinity affinity AND processMask = MaskFromAffinity affinity"
  shows "SetThreadAffinity_win32 setMask affinity s = (Inl OutOfRange, MaskFromAffinity affinity)"
proof -
  have "\<exists>p<64. 32 \<le> p \<and> bit s p"
  proof (rule ccontr)
    assume no: "\<not> ?thesis"
    have "\<not> bit s (p + 32)" for p using no bit_imp_le_length [of s "p + 32"] by auto
    then have "drop_bit 32 s = 0" by (intro bit_eqI) (simp add: bit_drop_bit_eq add.commute)
    then show False using s(2) by contradiction
  qed
  then have "AffinityFromMask s = None" unfolding AffinityFromMask_def affinity_below_None by blast
  then show ?thesis using doc s a by (simp add: SetThreadAffinity_win32_def documented_def)
qed

end
