(* ===== verification/Context_Run.thy ===== *)
theory Context_Run
  imports Meta_Threads Meta_Context
begin

text \<open>
  Whole calls of \<^verbatim>\<open>MetaScheduler::ContextImpl::Run\<close> (meta_scheduler.cpp), any number of them at a time: the
  acquisition of a meta thread step by step (theory Meta\_Threads), its affinity and its run mode overrides,
  the scheduling loop (Meta\_Scheduler), the affinity set back (Meta\_Context) and the release.  Seen from the pool the calls
  are the threads of Meta\_Threads, and each call seen alone is the loop of Meta\_Scheduler.
\<close>

section \<open>Meta threads\<close>

record MetaThread =
  processorAffinity :: affinity
  runModeOverrides :: "u32 \<rightharpoonup> RunMode"

record MetaThreadConfig =
  mProcessorAffinity :: affinity
  mRunModeOverrides :: "u32 \<rightharpoonup> RunMode"

definition SetProcessorAffinity :: "affinity \<Rightarrow> MetaThreadConfig \<Rightarrow> MetaThreadConfig" where
  "SetProcessorAffinity affinity c = c\<lparr>mProcessorAffinity := affinity\<rparr>"

text \<open>What \<^verbatim>\<open>CreateMetaThread\<close> puts into the pool.\<close>

definition MetaThread_new :: "MetaThreadConfig \<Rightarrow> MetaThread" where
  "MetaThread_new c = \<lparr>processorAffinity = mProcessorAffinity c, runModeOverrides = mRunModeOverrides c\<rparr>"

section \<open>A call of Run\<close>

text \<open>The system calls of the kernel, the configurations the meta threads were created with, and the
  schedulers of the meta scheduler.\<close>

record run_setup =
  setaffinity :: sched
  config :: "nat \<Rightarrow> MetaThreadConfig"
  mSchedulers :: "scheduler_info list"

text \<open>\<open>CrBindFailed\<close> and \<open>CrRestoreFailed\<close>: an exception or a failed assertion in
  \<^verbatim>\<open>SetCurrentThreadAffinity\<close> has ended the call.\<close>

datatype cr_pc =
    CrAcquire | CrLoop run_pc | CrBind | CrRestore | CrRelease | CrBindFailed | CrRestoreFailed

record context_run =
  crpc :: cr_pc
  crAcq :: acq_thread \<comment> \<open>\<^verbatim>\<open>AcquireMetaThread\<close>, and then the meta thread\<close>
  crMem :: run_mem \<comment> \<open>the local variables of the loop\<close>
  crMask :: cpu_set \<comment> \<open>the processors of the calling thread\<close>
  oldAffinity :: affinity

definition cr_init :: "cpu_set \<Rightarrow> context_run" where
  "cr_init s = \<lparr>crpc = CrAcquire, crAcq = acq_init, crMem = run_init 1 0, crMask = s, oldAffinity = 0\<rparr>"

definition held :: "run_setup \<Rightarrow> context_run \<Rightarrow> MetaThread" where
  "held S t = MetaThread_new (config S (hd (metaThread (crAcq t))))"

definition enabled_schedulers :: "run_setup \<Rightarrow> MetaThread \<Rightarrow> nat" where
  "enabled_schedulers S mt = length (make_states (runModeOverrides mt) (mSchedulers S))"

text \<open>Between the registration and the loop the affinity is set, after the loop it is set back.\<close>

definition cr_goto :: "run_pc \<Rightarrow> run_pc \<Rightarrow> cr_pc" where
  "cr_goto pc pc' = (if pc = RRegister \<and> pc' = RTop then CrBind else if pc' = RRelease then CrRestore else CrLoop pc')"

text \<open>The steps of the call outside the pool.  The loop starts with the states of the schedulers that the
  meta thread does not disable, and its \<open>metaThreads\<close> is that of a pool with this one meta thread.\<close>

definition ContextImpl_Run_step :: "run_setup \<Rightarrow> sched_state \<Rightarrow> bool \<Rightarrow> context_run \<Rightarrow> context_run option" where
  "ContextImpl_Run_step S st accepted t = (case crpc t of
     CrAcquire \<Rightarrow>
       (if aqpc (crAcq t) \<noteq> AqReturned then None
        else if metaThread (crAcq t) = [] then Some (t\<lparr>crpc := CrLoop RNone\<rparr>)
        else Some (t\<lparr>crpc := CrLoop RRegister, crMem := run_init 0 (enabled_schedulers S (held S t))\<rparr>))
   | CrBind \<Rightarrow> Some (case Run_enter_affinity (setaffinity S) (processorAffinity (held S t)) (crMask t) of
         Inl e \<Rightarrow> t\<lparr>crpc := CrBindFailed\<rparr>
       | Inr (old, s) \<Rightarrow> t\<lparr>oldAffinity := old, crMask := s, crpc := CrLoop RTop\<rparr>)
   | CrLoop pc \<Rightarrow> map_option (\<lambda>(m, pc'). t\<lparr>crMem := m, crpc := cr_goto pc pc'\<rparr>) (Run_step st accepted (crMem t) pc)
   | CrRestore \<Rightarrow> Some (case Run_leave_affinity (setaffinity S) (oldAffinity t) (crMask t) of
         Inl e \<Rightarrow> t\<lparr>crpc := CrRestoreFailed\<rparr>
       | Inr s \<Rightarrow> t\<lparr>crMask := s, crpc := CrRelease\<rparr>)
   | _ \<Rightarrow> None)"

section \<open>Many calls\<close>

text \<open>\<open>InPool\<close>: a step of an acquisition, a callback of its interrupt or the creation of a meta thread; \<open>GiveBack i j\<close>:
  call \<open>i\<close> releases its meta thread and \<^verbatim>\<open>WakeOne\<close> wakes \<open>j\<close>; \<open>Own\<close>: another step of a call;
  \<open>Outside\<close>: a has-work condition or \<^verbatim>\<open>until\<close> moves.\<close>

datatype cr_act = InPool pool_act | GiveBack nat nat | Own nat sched_state bool | Outside nat run_act

fun loop_pc :: "cr_pc \<Rightarrow> run_pc" where
  "loop_pc CrAcquire = RAcquire"
| "loop_pc (CrLoop pc) = pc"
| "loop_pc CrBind = RTop"
| "loop_pc CrBindFailed = RTop"
| "loop_pc _ = RRelease"

definition with_acqs :: "context_run list \<Rightarrow> acq_thread list \<Rightarrow> context_run list" where
  "with_acqs ts as = map2 (\<lambda>t a. t\<lparr>crAcq := a\<rparr>) ts as"

fun pool_turn :: "pool_act \<Rightarrow> context_run list \<Rightarrow> bool" where
  "pool_turn (Acquire i _) ts \<longleftrightarrow> i < length ts \<and> crpc (ts ! i) = CrAcquire"
| "pool_turn (Release i j) ts \<longleftrightarrow> False"
| "pool_turn _ ts \<longleftrightarrow> True"

fun from_outside :: "run_act \<Rightarrow> bool" where
  "from_outside (Loop st accepted) \<longleftrightarrow> False"
| "from_outside _ \<longleftrightarrow> True"

fun cr_next :: "run_setup \<Rightarrow> cr_act \<Rightarrow> pool \<times> context_run list \<Rightarrow> (pool \<times> context_run list) option" where
  "cr_next S (InPool a) (p, ts) =
     (if pool_turn a ts then map_option (\<lambda>(p', as). (p', with_acqs ts as)) (pool_next a (p, map crAcq ts)) else None)"
| "cr_next S (GiveBack i j) (p, ts) =
     (if i < length ts \<and> crpc (ts ! i) = CrRelease
      then (case (pool_next (Release i j) (p, map crAcq ts), Run_step Working True (crMem (ts ! i)) RRelease) of
          (Some (p', as), Some (m, pc)) \<Rightarrow>
            Some (p', (with_acqs ts as)[i := (with_acqs ts as ! i)\<lparr>crMem := m, crpc := CrLoop pc\<rparr>])
        | _ \<Rightarrow> None)
      else None)"
| "cr_next S (Own i st accepted) (p, ts) =
     (if i < length ts then map_option (\<lambda>t. (p, ts[i := t])) (ContextImpl_Run_step S st accepted (ts ! i)) else None)"
| "cr_next S (Outside i a) (p, ts) =
     (if i < length ts \<and> crpc (ts ! i) \<notin> {CrAcquire, CrBindFailed, CrRestoreFailed} \<and> from_outside a
      then map_option (\<lambda>(m, _). (p, ts[i := (ts ! i)\<lparr>crMem := m\<rparr>])) (run_next a (crMem (ts ! i), loop_pc (crpc (ts ! i))))
      else None)"

abbreviation cr_reaches :: "run_setup \<Rightarrow> nat list \<Rightarrow> cpu_set list \<Rightarrow> pool \<Rightarrow> context_run list \<Rightarrow> bool" where
  "cr_reaches S ks ms p ts \<equiv>
     reaches (cr_next S) (\<lparr>poolLocked = False, mIdleMetaThreads = ks\<rparr>, map cr_init ms) (p, ts)"

section \<open>A call and the pool\<close>

lemma length_with_acqs [simp]: "length as = length ts \<Longrightarrow> length (with_acqs ts as) = length ts"
  by (simp add: with_acqs_def)

lemma nth_with_acqs [simp]:
  "length as = length ts \<Longrightarrow> i < length ts \<Longrightarrow> with_acqs ts as ! i = (ts ! i)\<lparr>crAcq := as ! i\<rparr>"
  by (simp add: with_acqs_def)

lemma map_with_acqs [simp]: "length as = length ts \<Longrightarrow> map crAcq (with_acqs ts as) = as"
  by (rule nth_equalityI) simp_all

lemma pool_next_length: "pool_next a (p, ts) = Some (p', ts') \<Longrightarrow> length ts' = length ts"
  by (cases a) (auto simp: Let_def split: if_splits prod.splits)

text \<open>What a thread of the pool holds changes in its own steps only.\<close>

lemma pool_next_others:
  assumes "pool_next a (p, ts) = Some (p', ts')" "i < length ts" "\<And>b. a \<noteq> Acquire i b" "\<And>j. a \<noteq> Release i j"
  shows "metaThread (ts' ! i) = metaThread (ts ! i) \<and> aqpc (ts' ! i) = aqpc (ts ! i)"
proof (cases a)
  case (Release k j)
  then have "k \<noteq> i" using assms(4) by blast
  then show ?thesis using Release assms
    by (auto simp: Let_def ReleaseMetaThread_def nth_list_update split: if_splits)
next
  case (Acquire k b)
  then have "k \<noteq> i" using assms(3) by blast
  then show ?thesis using Acquire assms by (auto simp: nth_list_update split: if_splits)
qed (use assms in \<open>auto simp: nth_list_update split: if_splits\<close>)

lemma pool_next_acquire:
  assumes "pool_next (Acquire i b) (p, ts) = Some (p', ts')" "length (metaThread (ts ! i)) \<le> 1"
  shows "length (metaThread (ts' ! i)) \<le> 1"
proof -
  obtain t' where "AcquireMetaThread_step b p (ts ! i) = Some (p', t')" "ts' = ts[i := t']" "i < length ts"
    using assms(1) by (auto split: if_splits)
  then show ?thesis using assms(2)
    by (cases "aqpc (ts ! i)") (auto simp: AcquireMetaThread_step_def Let_def split: if_splits)
qed

lemma pool_next_release:
  assumes "pool_next (Release i j) (p, ts) = Some (p', ts')" "i < length ts"
  shows "metaThread (ts' ! i) = []"
  using assms by (auto simp: Let_def ReleaseMetaThread_def acq_init_def nth_list_update split: if_splits)

text \<open>Every step of the system is one of the pool, or leaves the pool and all acquisitions as they are.\<close>

lemma cr_next_pool:
  assumes st: "cr_next S a (p, ts) = Some (p', ts')"
  shows "(p', map crAcq ts') = (p, map crAcq ts) \<or> (\<exists>b. pool_next b (p, map crAcq ts) = Some (p', map crAcq ts'))"
proof (cases a)
  case (InPool b)
  then obtain as where as: "pool_next b (p, map crAcq ts) = Some (p', as)" and ts': "ts' = with_acqs ts as"
    using st by (auto split: if_splits)
  then show ?thesis using pool_next_length [OF as] by auto
next
  case (GiveBack i j)
  then obtain as m pc where as: "pool_next (Release i j) (p, map crAcq ts) = Some (p', as)"
    and ts': "ts' = (with_acqs ts as)[i := (with_acqs ts as ! i)\<lparr>crMem := m, crpc := CrLoop pc\<rparr>]" and i: "i < length ts"
    using st by (auto split: if_splits option.splits prod.splits)
  have "map crAcq ts' = as" using pool_next_length [OF as] i
    by (simp add: ts' map_update)
  then have "pool_next (Release i j) (p, map crAcq ts) = Some (p', map crAcq ts')" using as by simp
  then show ?thesis by blast
next
  case (Own i st1 b)
  have "crAcq t' = crAcq t" if "ContextImpl_Run_step S st1 b t = Some t'" for t t'
    using that by (auto simp: ContextImpl_Run_step_def split: cr_pc.splits if_splits sum.splits)
  then show ?thesis using st Own by (auto simp: map_update split: if_splits) (metis list_update_id nth_map)
next
  case (Outside i b)
  then show ?thesis using st by (auto simp: map_update split: if_splits) (metis list_update_id nth_map)
qed

lemma cr_reaches_pool:
  assumes "cr_reaches S ks ms p ts"
  shows "pool_reaches ks (length ms) p (map crAcq ts)"
proof -
  have "pool_reaches ks (length ms) (fst s) (map crAcq (snd s))"
    if "reaches (cr_next S) (\<lparr>poolLocked = False, mIdleMetaThreads = ks\<rparr>, map cr_init ms) s" for s
    using that
  proof (induction rule: rtranclp_induct)
    case base
    have "map crAcq (map cr_init ms) = replicate (length ms) acq_init"
      by (rule nth_equalityI) (simp_all add: cr_init_def)
    then show ?case by simp
  next
    case (step s s')
    obtain a where a: "cr_next S a s = Some s'" using step.hyps(2) by (auto simp: acts_def)
    have "(fst s', map crAcq (snd s')) = (fst s, map crAcq (snd s)) \<or>
        (\<exists>b. pool_next b (fst s, map crAcq (snd s)) = Some (fst s', map crAcq (snd s')))"
      using cr_next_pool [of S a "fst s" "snd s" "fst s'" "snd s'"] a by simp
    then show ?case using step.IH by (auto simp: acts_def intro: rtranclp.rtrancl_into_rtrancl)
  qed
  from this [OF assms] show ?thesis by simp
qed

section \<open>A call alone\<close>

text \<open>When a call has a meta thread, and when the affinity of the meta thread is in force.\<close>

fun holds :: "cr_pc \<Rightarrow> run_mem \<Rightarrow> bool" where
  "holds CrAcquire m \<longleftrightarrow> False"
| "holds (CrLoop pc) m \<longleftrightarrow> pc \<noteq> RNone \<and> pc \<noteq> RDestroy \<and> (pc = RReturn \<longrightarrow> untilWaiter m = Unused)"
| "holds _ m \<longleftrightarrow> True"

fun bound :: "cr_pc \<Rightarrow> bool" where
  "bound (CrLoop pc) \<longleftrightarrow> pc \<notin> {RRegister, RNone, RDestroy, RReturn}"
| "bound CrRestore \<longleftrightarrow> True"
| "bound CrRestoreFailed \<longleftrightarrow> True"
| "bound _ \<longleftrightarrow> False"

abbreviation bind_affinity :: "run_setup \<Rightarrow> MetaThread \<Rightarrow> cpu_set \<Rightarrow> affinity_error + affinity \<times> cpu_set" where
  "bind_affinity S mt s \<equiv> Run_enter_affinity (setaffinity S) (processorAffinity mt) s"

text \<open>The processors of a thread after it was bound for some meta thread and set back.\<close>

definition rebound :: "run_setup \<Rightarrow> cpu_set \<Rightarrow> cpu_set \<Rightarrow> bool" where
  "rebound S s0 s \<longleftrightarrow> (\<exists>k old s1. bind_affinity S (MetaThread_new (config S k)) s0 = Inr (old, s1) \<and>
     Run_leave_affinity (setaffinity S) old s1 = Inr s)"

definition cr_ok :: "run_setup \<Rightarrow> cpu_set \<Rightarrow> context_run \<Rightarrow> bool" where
  "cr_ok S s0 t \<longleftrightarrow>
     (\<exists>n. run_reaches 1 n (crMem t) (loop_pc (crpc t)) \<and>
        (holds (crpc t) (crMem t) \<longrightarrow> n = enabled_schedulers S (held S t))) \<and>
     (crpc t = CrAcquire \<longrightarrow> crMem t = run_init 1 0) \<and>
     length (metaThread (crAcq t)) \<le> 1 \<and>
     (holds (crpc t) (crMem t) \<longrightarrow> metaThread (crAcq t) \<noteq> [] \<and> aqpc (crAcq t) = AqReturned) \<and>
     (crpc t \<noteq> CrAcquire \<and> \<not> holds (crpc t) (crMem t) \<longrightarrow> metaThread (crAcq t) = []) \<and>
     crpc t \<notin> {CrLoop RAcquire, CrLoop RRelease} \<and>
     (bound (crpc t) \<longrightarrow> bind_affinity S (held S t) s0 = Inr (oldAffinity t, crMask t)) \<and>
     (\<not> bound (crpc t) \<longrightarrow> crMask t = s0 \<or> rebound S s0 (crMask t)) \<and>
     (crpc t \<in> {CrAcquire, CrLoop RRegister, CrBind, CrBindFailed} \<longrightarrow> crMask t = s0) \<and>
     (crpc t = CrBindFailed \<longrightarrow> (\<exists>e. bind_affinity S (held S t) s0 = Inl e)) \<and>
     (crpc t = CrRestoreFailed \<longrightarrow> (\<exists>e. Run_leave_affinity (setaffinity S) (oldAffinity t) (crMask t) = Inl e))"

lemma cr_okI:
  assumes "run_reaches 1 n (crMem t) (loop_pc (crpc t))"
    and "holds (crpc t) (crMem t) \<Longrightarrow> n = enabled_schedulers S (held S t)"
    and "crpc t = CrAcquire \<Longrightarrow> crMem t = run_init 1 0"
    and "length (metaThread (crAcq t)) \<le> 1"
    and "holds (crpc t) (crMem t) \<Longrightarrow> metaThread (crAcq t) \<noteq> [] \<and> aqpc (crAcq t) = AqReturned"
    and "crpc t \<noteq> CrAcquire \<Longrightarrow> \<not> holds (crpc t) (crMem t) \<Longrightarrow> metaThread (crAcq t) = []"
    and "crpc t \<notin> {CrLoop RAcquire, CrLoop RRelease}"
    and "bound (crpc t) \<Longrightarrow> bind_affinity S (held S t) s0 = Inr (oldAffinity t, crMask t)"
    and "\<not> bound (crpc t) \<Longrightarrow> crMask t = s0 \<or> rebound S s0 (crMask t)"
    and "crpc t \<in> {CrAcquire, CrLoop RRegister, CrBind, CrBindFailed} \<Longrightarrow> crMask t = s0"
    and "crpc t = CrBindFailed \<Longrightarrow> \<exists>e. bind_affinity S (held S t) s0 = Inl e"
    and "crpc t = CrRestoreFailed \<Longrightarrow> \<exists>e. Run_leave_affinity (setaffinity S) (oldAffinity t) (crMask t) = Inl e"
  shows "cr_ok S s0 t"
  unfolding cr_ok_def using assms by blast

lemma cr_ok_reach:
  assumes "cr_ok S s0 t"
  obtains n where "run_reaches 1 n (crMem t) (loop_pc (crpc t))"
    and "holds (crpc t) (crMem t) \<longrightarrow> n = enabled_schedulers S (held S t)"
  using assms unfolding cr_ok_def by blast

text \<open>The other facts of the invariant.\<close>

lemma cr_ok_facts:
  assumes "cr_ok S s0 t"
  shows "crpc t = CrAcquire \<Longrightarrow> crMem t = run_init 1 0"
    and "length (metaThread (crAcq t)) \<le> 1"
    and "holds (crpc t) (crMem t) \<Longrightarrow> metaThread (crAcq t) \<noteq> [] \<and> aqpc (crAcq t) = AqReturned"
    and "crpc t \<noteq> CrAcquire \<Longrightarrow> \<not> holds (crpc t) (crMem t) \<Longrightarrow> metaThread (crAcq t) = []"
    and "crpc t \<notin> {CrLoop RAcquire, CrLoop RRelease}"
    and "bound (crpc t) \<Longrightarrow> bind_affinity S (held S t) s0 = Inr (oldAffinity t, crMask t)"
    and "\<not> bound (crpc t) \<Longrightarrow> crMask t = s0 \<or> rebound S s0 (crMask t)"
    and "crpc t \<in> {CrAcquire, CrLoop RRegister, CrBind, CrBindFailed} \<Longrightarrow> crMask t = s0"
    and "crpc t = CrBindFailed \<Longrightarrow> \<exists>e. bind_affinity S (held S t) s0 = Inl e"
    and "crpc t = CrRestoreFailed \<Longrightarrow> \<exists>e. Run_leave_affinity (setaffinity S) (oldAffinity t) (crMask t) = Inl e"
  using assms unfolding cr_ok_def by blast+

text \<open>The steps of the loop end in it or at the release.\<close>

lemma Run_step_stays:
  assumes "Run_step st accepted m pc = Some (m', pc')" "pc \<notin> {RAcquire, RRegister, RRelease, RDestroy}"
  shows "pc' \<notin> {RAcquire, RRegister, RDestroy, RReturn, RNone}"
proof (cases pc)
  case (RStop rs)
  then show ?thesis using assms by (cases rs) (auto split: if_splits)
qed (use assms in \<open>auto simp: go_idle_def Let_def split: if_splits\<close>)

lemma run_init_acquired: "run_reaches 1 n (run_init 0 n) RRegister"
  by (rule run_acts_reaches [of _ "[Loop Working True]"]) (simp add: run_init_def)

lemma cr_ok_loop:
  assumes ok: "cr_ok S s0 t" and pc: "crpc t = CrLoop pc" and st: "Run_step st accepted (crMem t) pc = Some (m, pc')"
  shows "cr_ok S s0 (t\<lparr>crMem := m, crpc := cr_goto pc pc'\<rparr>)"
proof -
  let ?t = "t\<lparr>crMem := m, crpc := cr_goto pc pc'\<rparr>"
  obtain n where r: "run_reaches 1 n (crMem t) pc" and n: "holds (crpc t) (crMem t) \<longrightarrow> n = enabled_schedulers S (held S t)"
    using cr_ok_reach [OF ok, unfolded pc loop_pc.simps, folded pc] by blast
  note facts = cr_ok_facts [OF ok]
  have nxt: "run_next (Loop st accepted) (crMem t, pc) = Some (m, pc')" using st by simp
  have r': "run_reaches 1 n m pc'" by (rule reaches_step [OF r nxt])
  have held: "held S ?t = held S t" by (simp add: held_def)
  have not: "pc \<notin> {RAcquire, RRelease}" using facts(5) pc by auto
  show ?thesis
  proof (cases "pc \<in> {RRegister, RDestroy}")
    case False
    then have in_loop: "pc \<notin> {RAcquire, RRegister, RRelease, RDestroy}" using not by blast
    then have pc': "pc' \<notin> {RAcquire, RRegister, RDestroy, RReturn, RNone}" using Run_step_stays [OF st] by blast
    have "pc \<notin> {RNone, RReturn}" using st by auto
    then show ?thesis using facts n in_loop pc' pc held r'
      by (cases "pc' = RRelease"; intro cr_okI [of n]) (auto simp: cr_goto_def)
  next
    case True
    have inv: "run_inv 1 n (crMem t, pc)" by (rule run_reaches_inv [OF r])
    then show ?thesis using facts st n pc held True r'
      by (intro cr_okI [of n]) (auto simp: cr_goto_def run_inv_def split: if_splits)
  qed
qed

lemma cr_ok_own:
  assumes ok: "cr_ok S s0 t" and st: "ContextImpl_Run_step S st accepted t = Some t'"
  shows "cr_ok S s0 t'"
proof (cases "crpc t")
  case (CrLoop pc)
  then show ?thesis using st cr_ok_loop [OF ok CrLoop] by (auto simp: ContextImpl_Run_step_def)
next
  case CrAcquire
  have mem: "crMem t = run_init 1 0" using ok CrAcquire by (simp add: cr_ok_def)
  have none: "run_reaches 1 0 (run_init 1 0) RNone"
    by (rule run_acts_reaches [of _ "[Loop Working False]"]) (simp add: run_init_def)
  have u: "untilWaiter (run_init b k) = Unused" for b k by (simp add: run_init_def)
  show ?thesis
  proof (cases "metaThread (crAcq t) = []")
    case True
    then have "t' = t\<lparr>crpc := CrLoop RNone\<rparr>" using st CrAcquire by (auto simp: ContextImpl_Run_step_def split: if_splits)
    then show ?thesis using ok none CrAcquire mem True by (intro cr_okI [of 0]) (auto simp: cr_ok_def)
  next
    case False
    let ?n = "enabled_schedulers S (held S t)"
    have "t' = t\<lparr>crpc := CrLoop RRegister, crMem := run_init 0 ?n\<rparr>" "aqpc (crAcq t) = AqReturned"
      using st CrAcquire False by (auto simp: ContextImpl_Run_step_def split: if_splits)
    then show ?thesis using ok run_init_acquired [of ?n] CrAcquire False
      by (intro cr_okI [of ?n]) (auto simp: cr_ok_def held_def)
  qed
next
  case CrBind
  then show ?thesis using ok st
    by (cases "bind_affinity S (held S t) (crMask t)") (auto simp: ContextImpl_Run_step_def cr_ok_def held_def)
next
  case CrRestore
  then have b: "bind_affinity S (held S t) s0 = Inr (oldAffinity t, crMask t)" using ok by (simp add: cr_ok_def)
  show ?thesis
  proof (cases "Run_leave_affinity (setaffinity S) (oldAffinity t) (crMask t)")
    case (Inl e)
    then show ?thesis using ok st CrRestore by (auto simp: ContextImpl_Run_step_def cr_ok_def held_def)
  next
    case (Inr s)
    then have "rebound S s0 s" using b unfolding rebound_def held_def by blast
    then show ?thesis using ok st CrRestore Inr by (auto simp: ContextImpl_Run_step_def cr_ok_def held_def)
  qed
qed (use st in \<open>simp_all add: ContextImpl_Run_step_def\<close>)

lemma cr_ok_outside:
  assumes ok: "cr_ok S s0 t" and a: "from_outside a" "crpc t \<noteq> CrAcquire"
    and st: "run_next a (crMem t, loop_pc (crpc t)) = Some (m, pc')"
  shows "cr_ok S s0 (t\<lparr>crMem := m\<rparr>)"
proof -
  obtain n where r: "run_reaches 1 n (crMem t) (loop_pc (crpc t))"
    and n: "holds (crpc t) (crMem t) \<longrightarrow> n = enabled_schedulers S (held S t)"
    using cr_ok_reach [OF ok] by blast
  have same: "pc' = loop_pc (crpc t)" using a(1) st by (cases a) (auto split: if_splits)
  have r': "run_reaches 1 n m (loop_pc (crpc t))" using reaches_step [OF r st] same by simp
  have "holds (crpc t) m = holds (crpc t) (crMem t)"
  proof (cases "crpc t = CrLoop RReturn")
    case True
    have "until_ok 1 (crMem t) RReturn" using run_reaches_inv [OF r] True by (simp add: run_inv_def)
    then have "untilWaiter m = untilWaiter (crMem t)"
      using a(1) st by (cases a) (auto simp: notifyReady_def split: if_splits)
    then show ?thesis using True by simp
  next
    case False
    then show ?thesis by (cases "crpc t") auto
  qed
  then show ?thesis using cr_ok_facts [OF ok] r' n a(2)
    by (intro cr_okI [of n]) (auto simp: held_def)
qed

text \<open>A step of the pool that is not the call's own release.\<close>

lemma cr_ok_acq:
  assumes ok: "cr_ok S s0 t" and len: "length (metaThread a) \<le> 1"
    and same: "crpc t \<noteq> CrAcquire \<Longrightarrow> metaThread a = metaThread (crAcq t) \<and> aqpc a = aqpc (crAcq t)"
  shows "cr_ok S s0 (t\<lparr>crAcq := a\<rparr>)"
  using assms by (cases "crpc t = CrAcquire") (auto simp: cr_ok_def held_def)

section \<open>Every call, in every interleaving\<close>

definition cr_inv :: "run_setup \<Rightarrow> cpu_set list \<Rightarrow> pool \<times> context_run list \<Rightarrow> bool" where
  "cr_inv S ms s \<longleftrightarrow> length (snd s) = length ms \<and> (\<forall>i < length ms. cr_ok S (ms ! i) (snd s ! i))"

lemma cr_inv_update:
  assumes "cr_inv S ms (p, ts)" "i < length ts" "cr_ok S (ms ! i) t"
  shows "cr_inv S ms (p', ts[i := t])"
  using assms by (auto simp: cr_inv_def nth_list_update)

lemma cr_inv_acqs:
  assumes inv: "cr_inv S ms (p, ts)" and st: "pool_next a (p, map crAcq ts) = Some (p', as)"
    and i: "i < length ts" and own: "\<And>b. a = Acquire i b \<Longrightarrow> crpc (ts ! i) = CrAcquire" "\<And>j. a \<noteq> Release i j"
  shows "cr_ok S (ms ! i) ((ts ! i)\<lparr>crAcq := as ! i\<rparr>)"
proof -
  have ok: "cr_ok S (ms ! i) (ts ! i)" using inv i by (simp add: cr_inv_def)
  have len: "length (metaThread (crAcq (ts ! i))) \<le> 1" by (rule cr_ok_facts(2) [OF ok])
  have nth: "map crAcq ts ! i = crAcq (ts ! i)" using i by simp
  show ?thesis
  proof (cases "\<exists>b. a = Acquire i b")
    case True
    then obtain b where b: "a = Acquire i b" by blast
    have "length (metaThread (as ! i)) \<le> 1"
      using pool_next_acquire [OF st [unfolded b], unfolded nth, OF len] .
    then show ?thesis using cr_ok_acq [OF ok] own(1) [OF b] by blast
  next
    case False
    then have "metaThread (as ! i) = metaThread (crAcq (ts ! i)) \<and> aqpc (as ! i) = aqpc (crAcq (ts ! i))"
      using pool_next_others [OF st, of i] i own(2) by simp
    then show ?thesis using cr_ok_acq [OF ok, of "as ! i"] len by simp
  qed
qed

lemma cr_ok_given_back:
  assumes ok: "cr_ok S s0 t" and pc: "crpc t = CrRelease"
    and st: "Run_step Working True (crMem t) RRelease = Some (m, pc')" and a: "metaThread a = []"
  shows "cr_ok S s0 (t\<lparr>crAcq := a, crMem := m, crpc := CrLoop pc'\<rparr>)"
proof -
  obtain n where "run_reaches 1 n (crMem t) (loop_pc (crpc t))" by (rule cr_ok_reach [OF ok])
  then have r: "run_reaches 1 n (crMem t) RRelease" by (simp add: pc)
  have "run_next (Loop Working True) (crMem t, RRelease) = Some (m, pc')" using st by simp
  then have "run_reaches 1 n m pc'" by (rule reaches_step [OF r])
  moreover have "pc' = RDestroy" using st by simp
  ultimately show ?thesis using cr_ok_facts(7) [OF ok] pc a by (intro cr_okI [of n]) auto
qed

interpretation cr: labelled_invariant "cr_next S" "cr_inv S ms"
proof
  fix s s' a assume inv: "cr_inv S ms s" and st: "cr_next S a s = Some s'"
  obtain p ts where s: "s = (p, ts)" by (cases s)
  note inv' = inv [unfolded s]
  have len: "length ts = length ms" using inv s by (simp add: cr_inv_def)
  show "cr_inv S ms s'"
  proof (cases a)
    case (InPool b)
    then obtain p' as where as: "pool_next b (p, map crAcq ts) = Some (p', as)"
      and s': "s' = (p', with_acqs ts as)" and turn: "pool_turn b ts"
      using st s by (auto split: if_splits)
    have l: "length as = length ts" using pool_next_length [OF as] by simp
    have "cr_ok S (ms ! i) (with_acqs ts as ! i)" if "i < length ms" for i
    proof -
      have "cr_ok S (ms ! i) ((ts ! i)\<lparr>crAcq := as ! i\<rparr>)"
        by (rule cr_inv_acqs [OF inv' as]) (use that turn len in auto)
      then show ?thesis using that l len by simp
    qed
    then show ?thesis using l len by (simp add: cr_inv_def s')
  next
    case (GiveBack i j)
    then obtain p' as m pc where i: "i < length ts" "crpc (ts ! i) = CrRelease"
      and as: "pool_next (Release i j) (p, map crAcq ts) = Some (p', as)"
      and m: "Run_step Working True (crMem (ts ! i)) RRelease = Some (m, pc)"
      and s': "s' = (p', (with_acqs ts as)[i := (with_acqs ts as ! i)\<lparr>crMem := m, crpc := CrLoop pc\<rparr>])"
      using st s by (auto simp del: Run_step.simps pool_next.simps split: if_splits option.splits prod.splits)
    have l: "length as = length ts" using pool_next_length [OF as] by simp
    have "cr_ok S (ms ! i) ((ts ! i)\<lparr>crAcq := as ! i, crMem := m, crpc := CrLoop pc\<rparr>)"
      using pool_next_release [OF as] i inv' len by (intro cr_ok_given_back [OF _ i(2) m]) (auto simp: cr_inv_def)
    moreover have "cr_ok S (ms ! k) ((ts ! k)\<lparr>crAcq := as ! k\<rparr>)" if "k < length ms" "k \<noteq> i" for k
      using cr_inv_acqs [OF inv' as, of k] that len by auto
    ultimately show ?thesis using l len i(1) by (auto simp: cr_inv_def s' nth_list_update)
  next
    case (Own i st1 b)
    then obtain t' where i: "i < length ts" and t': "ContextImpl_Run_step S st1 b (ts ! i) = Some t'"
      and s': "s' = (p, ts[i := t'])" using st s by (auto split: if_splits)
    have "cr_ok S (ms ! i) t'" using cr_ok_own [OF _ t'] inv' i len by (simp add: cr_inv_def)
    then show ?thesis unfolding s' by (rule cr_inv_update [OF inv' i])
  next
    case (Outside i b)
    then obtain m pc where i: "i < length ts" "crpc (ts ! i) \<noteq> CrAcquire" "from_outside b"
      and m: "run_next b (crMem (ts ! i), loop_pc (crpc (ts ! i))) = Some (m, pc)"
      and s': "s' = (p, ts[i := (ts ! i)\<lparr>crMem := m\<rparr>])" using st s by (auto split: if_splits)
    have "cr_ok S (ms ! i) ((ts ! i)\<lparr>crMem := m\<rparr>)"
      using cr_ok_outside [OF _ i(3,2) m] inv' i(1) len by (simp add: cr_inv_def)
    then show ?thesis unfolding s' by (rule cr_inv_update [OF inv' i(1)])
  qed
qed

lemma cr_init_ok: "cr_ok S s (cr_init s)"
  by (rule cr_okI [of 0]) (auto simp: cr_init_def acq_init_def)

lemma cr_reaches_ok:
  assumes "cr_reaches S ks ms p ts"
  shows "length ts = length ms" and "i < length ms \<Longrightarrow> cr_ok S (ms ! i) (ts ! i)"
proof -
  have "cr_inv S ms (p, ts)"
    by (rule cr.reachable [OF assms]) (simp add: cr_inv_def cr_init_ok)
  then show "length ts = length ms" and "i < length ms \<Longrightarrow> cr_ok S (ms ! i) (ts ! i)"
    by (simp_all add: cr_inv_def)
qed

text \<open>Claim C10.
  The parts of \<^verbatim>\<open>Run\<close> fit together.  Take any number of calls, with any interleaving of their steps, of the callbacks
  and of the creation of meta threads.  Seen from the pool, the calls are threads of theory Meta\_Threads that
  acquire and release; and what each call does with its schedulers is an execution of the loop of
  Meta\_Scheduler alone, with one meta thread and as many schedulers as this meta thread does
  not disable.  So all that is proved of these two holds of the calls together.\<close>

theorem context_runs_refine:
  assumes "cr_reaches S ks ms p ts"
  shows "pool_reaches ks (length ms) p (map crAcq ts) \<and>
    (\<forall>t \<in> set ts. \<exists>n. run_reaches 1 n (crMem t) (loop_pc (crpc t)) \<and>
       (holds (crpc t) (crMem t) \<longrightarrow> (\<exists>k. metaThread (crAcq t) = [k] \<and>
          n = length (make_states (mRunModeOverrides (config S k)) (mSchedulers S)))))"
proof -
  have "\<exists>n. run_reaches 1 n (crMem t) (loop_pc (crpc t)) \<and> (holds (crpc t) (crMem t) \<longrightarrow>
      (\<exists>k. metaThread (crAcq t) = [k] \<and> n = length (make_states (mRunModeOverrides (config S k)) (mSchedulers S))))"
    if mem: "t \<in> set ts" for t
  proof -
    obtain i where "i < length ms" "t = ts ! i"
      using mem cr_reaches_ok(1) [OF assms] by (metis in_set_conv_nth)
    then have ok: "cr_ok S (ms ! i) t" using cr_reaches_ok(2) [OF assms] by blast
    obtain n where r: "run_reaches 1 n (crMem t) (loop_pc (crpc t))"
      and n: "holds (crpc t) (crMem t) \<longrightarrow> n = enabled_schedulers S (held S t)" using cr_ok_reach [OF ok] by blast
    have "metaThread (crAcq t) = [hd (metaThread (crAcq t))]" if "holds (crpc t) (crMem t)"
      using cr_ok_facts(2,3) [OF ok] that by (cases "metaThread (crAcq t)") auto
    then show ?thesis using r n
      by (intro exI [of _ n]) (auto simp: enabled_schedulers_def held_def MetaThread_new_def)
  qed
  then show ?thesis using cr_reaches_pool [OF assms] by blast
qed

lemma rebound_same:
  assumes "setaffinity S = kernel_sched online" and "drop_bit 32 s = 0" "s AND online = s" "s \<noteq> 0"
    and "\<And>k. mProcessorAffinity (config S k) = 0 \<or> CreateCpuSet (mProcessorAffinity (config S k)) AND online \<noteq> 0"
    and "rebound S s s'"
  shows "s' = s"
proof -
  obtain k old s1 where a: "Run_enter_affinity (kernel_sched online) (mProcessorAffinity (config S k)) s = Inr (old, s1)"
    "Run_leave_affinity (kernel_sched online) old s1 = Inr s'"
    using assms(1,6) by (auto simp: rebound_def MetaThread_new_def)
  then show ?thesis using run_restores_affinity [OF assms(2-4) assms(5) [of k]] by auto
qed

text \<open>Claim C9.
  Calls of \<^verbatim>\<open>Run\<close> on a kernel whose processors \<open>online\<close> include those of each calling thread and, for each
  meta thread with an affinity, one of its processors.  At every moment the idle meta threads and those
  that the calls have are pairwise distinct and none of those there were is missing.  No call fails; one that is in
  its scheduling loop has one meta thread and runs on the processors of that; one that has returned has
  left its thread the processors it came with, and has no meta thread any more, unless \<^verbatim>\<open>until\<close> refused
  its waiter: that call returns with the meta thread, which is lost to the pool.\<close>

theorem context_runs_exact:
  assumes "cr_reaches S ks ms p ts" and "distinct ks" and "setaffinity S = kernel_sched online"
    and "\<forall>s \<in> set ms. drop_bit 32 s = 0 \<and> s AND online = s \<and> s \<noteq> 0"
    and "\<forall>k. mProcessorAffinity (config S k) = 0 \<or> CreateCpuSet (mProcessorAffinity (config S k)) AND online \<noteq> 0"
  shows "distinct (mIdleMetaThreads p @ concat (map (\<lambda>t. metaThread (crAcq t)) ts)) \<and>
    set ks \<subseteq> set (mIdleMetaThreads p @ concat (map (\<lambda>t. metaThread (crAcq t)) ts)) \<and> length ts = length ms \<and>
    (\<forall>i < length ms. crpc (ts ! i) \<noteq> CrBindFailed \<and> crpc (ts ! i) \<noteq> CrRestoreFailed \<and>
       (\<forall>pc. crpc (ts ! i) = CrLoop pc \<and> pc \<notin> {RRegister, RDestroy, RReturn, RNone} \<longrightarrow>
          (\<exists>k. metaThread (crAcq (ts ! i)) = [k] \<and> crMask (ts ! i) =
             (if mProcessorAffinity (config S k) = 0 then ms ! i else CreateCpuSet (mProcessorAffinity (config S k)) AND online))) \<and>
       (crpc (ts ! i) \<in> {CrLoop RReturn, CrLoop RNone} \<longrightarrow> crMask (ts ! i) = ms ! i) \<and>
       (crpc (ts ! i) = CrLoop RNone \<longrightarrow> metaThread (crAcq (ts ! i)) = []) \<and>
       (crpc (ts ! i) = CrLoop RReturn \<longrightarrow>
          (untilWaiter (crMem (ts ! i)) = Called \<and> metaThread (crAcq (ts ! i)) = []) \<or>
          (untilWaiter (crMem (ts ! i)) = Unused \<and> metaThread (crAcq (ts ! i)) \<noteq> [])))"
proof (intro conjI allI impI)
  have eq: "concat (map metaThread (map crAcq ts)) = concat (map (\<lambda>t. metaThread (crAcq t)) ts)" by (simp add: comp_def)
  note placed = meta_threads_placed [OF cr_reaches_pool [OF assms(1)] assms(2), unfolded eq]
  show "distinct (mIdleMetaThreads p @ concat (map (\<lambda>t. metaThread (crAcq t)) ts))" by (rule placed(1))
  show "set ks \<subseteq> set (mIdleMetaThreads p @ concat (map (\<lambda>t. metaThread (crAcq t)) ts))" by (rule placed(2))
  show "length ts = length ms" by (rule cr_reaches_ok(1) [OF assms(1)])
next
  fix i assume i: "i < length ms"
  let ?t = "ts ! i" let ?s = "ms ! i"
  have ok: "cr_ok S ?s ?t" by (rule cr_reaches_ok(2) [OF assms(1) i])
  note facts = cr_ok_facts [OF ok]
  have mask: "drop_bit 32 ?s = 0" "?s AND online = ?s" "?s \<noteq> 0" using assms(4) i by auto
  have ride: "\<exists>old s1. bind_affinity S (MetaThread_new (config S k)) ?s = Inr (old, s1) \<and>
      s1 = (if mProcessorAffinity (config S k) = 0 then ?s else CreateCpuSet (mProcessorAffinity (config S k)) AND online) \<and>
      Run_leave_affinity (setaffinity S) old s1 = Inr ?s" for k
    using run_restores_affinity [OF mask, of "mProcessorAffinity (config S k)"] assms(3,5) by (simp add: MetaThread_new_def)
  obtain old s1 where r: "bind_affinity S (held S ?t) ?s = Inr (old, s1)" "Run_leave_affinity (setaffinity S) old s1 = Inr ?s"
    using ride [of "hd (metaThread (crAcq ?t))"] unfolding held_def by blast
  show "crpc ?t \<noteq> CrBindFailed" using facts(9) r(1) by auto
  show "crpc ?t \<noteq> CrRestoreFailed" using facts(6,10) r by fastforce
  show "crMask ?t = ?s" if "crpc ?t \<in> {CrLoop RReturn, CrLoop RNone}"
  proof -
    have "\<not> bound (crpc ?t)" using that by auto
    then show ?thesis using facts(7) rebound_same [OF assms(3) mask] assms(5) by blast
  qed
  show "metaThread (crAcq ?t) = []" if "crpc ?t = CrLoop RNone" using facts(4) that by simp
  show "(untilWaiter (crMem ?t) = Called \<and> metaThread (crAcq ?t) = []) \<or>
      (untilWaiter (crMem ?t) = Unused \<and> metaThread (crAcq ?t) \<noteq> [])" if pc: "crpc ?t = CrLoop RReturn"
  proof -
    obtain n where "run_reaches 1 n (crMem ?t) (loop_pc (crpc ?t))" by (rule cr_ok_reach [OF ok])
    then have "until_ok 1 (crMem ?t) RReturn" using run_reaches_inv pc by (fastforce simp: run_inv_def)
    then show ?thesis using facts(3,4) pc by auto
  qed
  show "\<exists>k. metaThread (crAcq ?t) = [k] \<and> crMask ?t =
      (if mProcessorAffinity (config S k) = 0 then ?s else CreateCpuSet (mProcessorAffinity (config S k)) AND online)"
    if pc: "crpc ?t = CrLoop pc \<and> pc \<notin> {RRegister, RDestroy, RReturn, RNone}" for pc
  proof -
    have "metaThread (crAcq ?t) = [hd (metaThread (crAcq ?t))]"
      using facts(2,3) pc by (cases "metaThread (crAcq ?t)") auto
    moreover have "bind_affinity S (held S ?t) ?s = Inr (oldAffinity ?t, crMask ?t)" using facts(6) pc by auto
    ultimately show ?thesis using ride [of "hd (metaThread (crAcq ?t))"] unfolding held_def by auto
  qed
qed

section \<open>Calls in sequence, and a call that fails\<close>

text \<open>One meta thread with processor 1, for two calls from threads that run on the processors 0 and 1.\<close>

definition example_setup :: run_setup where
  "example_setup = \<lparr>setaffinity = kernel_sched 15,
     config = (\<lambda>_. SetProcessorAffinity 2 \<lparr>mProcessorAffinity = 0, mRunModeOverrides = (\<lambda>_. None)\<rparr>),
     mSchedulers = [(1, RunMode_All)]\<rparr>"

lemma cpu_set_2: "CreateCpuSet 2 AND 15 \<noteq> 0"
proof
  assume "CreateCpuSet 2 AND 15 = 0"
  hence "\<not> bit (CreateCpuSet 2 AND 15) 1" by simp
  thus False by (simp add: bit_and_iff bit_CreateCpuSet)
qed

lemma example_masks:
  "Run_enter_affinity (kernel_sched 15) 2 3 = Inr (3, CreateCpuSet 2 AND 15)"
  "Run_leave_affinity (kernel_sched 15) 3 (CreateCpuSet 2 AND 15) = Inr 3"
proof -
  show e: "Run_enter_affinity (kernel_sched 15) 2 3 = Inr (3, CreateCpuSet 2 AND 15)"
    using SetThreadAffinity_kernel [of 3 2 15] cpu_set_2
    by (simp add: Run_enter_affinity_def Affinity_IsEmpty_def drop_bit_eq_div)
  show "Run_leave_affinity (kernel_sched 15) 3 (CreateCpuSet 2 AND 15) = Inr 3"
    using run_restores_affinity [of 3 15 2] cpu_set_2 e by (simp add: drop_bit_eq_div)
qed

abbreviation (input) own :: "nat \<Rightarrow> cr_act" where
  "own i \<equiv> Own i Working True"

abbreviation (input) ask :: "nat \<Rightarrow> cr_act" where
  "ask i \<equiv> InPool (Acquire i True)"

text \<open>The first call gets the meta thread while the second one waits for it; it is stopped, sets its thread's
  processors back and gives the meta thread to the other.\<close>

lemma example_run:
  "\<exists>p ts. cr_reaches example_setup [7] [3, 3] p ts \<and> crpc (ts ! 0) = CrLoop RReturn \<and> crMask (ts ! 0) = 3 \<and>
     untilWaiter (crMem (ts ! 0)) = Called \<and> crpc (ts ! 1) = CrLoop RTop \<and> metaThread (crAcq (ts ! 1)) = [7]"
proof -
  let ?s0 = "(\<lparr>poolLocked = False, mIdleMetaThreads = [7]\<rparr>, map cr_init [3, 3])"
  obtain p1 ts1 where 1: "run_acts (cr_next example_setup)
      ([ask 0, ask 0, ask 0, ask 0, ask 0, ask 0, own 0, own 0, own 0, ask 1, ask 1, ask 1, ask 1, own 0, own 0, own 0])
      ?s0 = Some (p1, ts1)"
    and s1: "p1 = \<lparr>poolLocked = False, mIdleMetaThreads = []\<rparr>"
    "ts1 = [\<lparr>crpc = CrLoop (RRunner 0), crAcq = acq_init\<lparr>aqpc := AqReturned, aqWaiter := Taken, metaThread := [7]\<rparr>,
        crMem = (run_init 0 1)\<lparr>untilWaiter := Registered\<rparr>, crMask = CreateCpuSet 2 AND 15, oldAffinity = 3\<rparr>,
      (cr_init 3)\<lparr>crAcq := acq_init\<lparr>aqpc := AqSleep, aqWaiter := Registered\<rparr>\<rparr>]"
    by (simp add: example_setup_def cr_init_def acq_init_def AcquireMetaThread_step_def with_acqs_def
        ContextImpl_Run_step_def held_def MetaThread_new_def SetProcessorAffinity_def enabled_schedulers_def
        effective_mode_def RunMode_All_def cr_goto_def run_init_def example_masks Let_def)
  obtain p ts where 2: "run_acts (cr_next example_setup)
      ([Outside 0 TakeUntil, Outside 0 UntilCallback, own 0, own 0, own 0, own 0, own 0, own 0, own 0, own 0, GiveBack 0 1, own 0,
        ask 1, ask 1, ask 1, ask 1, ask 1, ask 1, own 1, own 1, own 1])
      (p1, ts1) = Some (p, ts)"
    and s2: "crpc (ts ! 0) = CrLoop RReturn" "crMask (ts ! 0) = 3" "untilWaiter (crMem (ts ! 0)) = Called"
      "crpc (ts ! 1) = CrLoop RTop" "metaThread (crAcq (ts ! 1)) = [7]"
    by (simp add: s1 example_setup_def cr_init_def acq_init_def AcquireMetaThread_step_def with_acqs_def
        ContextImpl_Run_step_def held_def MetaThread_new_def SetProcessorAffinity_def enabled_schedulers_def
        effective_mode_def RunMode_All_def cr_goto_def run_init_def example_masks Let_def untilCallback_def
        record_state_def ReleaseMetaThread_def wake_def)
  have "reaches (cr_next example_setup) ?s0 (p, ts)"
    using run_acts_reaches [OF 1] run_acts_reaches [OF 2] by (rule rtranclp_trans)
  then show ?thesis using s2 by blast
qed

theorem context_runs_refine_witness:
  "\<exists>p (ts :: context_run list). pool_reaches [7] 2 p (map crAcq ts) \<and> metaThread (crAcq (ts ! 1)) = [7] \<and> run_reaches 1 1 (crMem (ts ! 1)) RTop"
proof -
  obtain p ts where run: "cr_reaches example_setup [7] [3, 3] p ts"
    and s: "crpc (ts ! 1) = CrLoop RTop" "metaThread (crAcq (ts ! 1)) = [7]" using example_run by blast
  note t = context_runs_refine [OF run]
  have "ts ! 1 \<in> set ts" using cr_reaches_ok(1) [OF run] by simp
  then obtain n where n: "run_reaches 1 n (crMem (ts ! 1)) (loop_pc (crpc (ts ! 1)))"
    "\<exists>k. metaThread (crAcq (ts ! 1)) = [k] \<and>
      n = length (make_states (mRunModeOverrides (config example_setup k)) (mSchedulers example_setup))"
    using t s(1) by auto
  have "n = 1" using n(2) by (simp add: example_setup_def SetProcessorAffinity_def effective_mode_def RunMode_All_def)
  then have "run_reaches 1 1 (crMem (ts ! 1)) RTop" using n(1) s(1) by simp
  moreover have "pool_reaches [7] 2 p (map crAcq ts)" using t by (simp add: numeral_2_eq_2)
  ultimately show ?thesis using s(2) by blast
qed

theorem context_runs_exact_witness:
  "\<exists>p ts. cr_reaches example_setup [7] [3, 3] p ts \<and> crpc (ts ! 0) = CrLoop RReturn \<and> metaThread (crAcq (ts ! 0)) = [] \<and>
     crMask (ts ! 0) = 3 \<and> crMask (ts ! 1) = CreateCpuSet 2 AND 15"
proof -
  obtain p ts where run: "cr_reaches example_setup [7] [3, 3] p ts"
    and s: "crpc (ts ! 0) = CrLoop RReturn" "crMask (ts ! 0) = 3" "untilWaiter (crMem (ts ! 0)) = Called"
      "crpc (ts ! 1) = CrLoop RTop" using example_run by blast
  have "\<forall>i < length [3, 3 :: cpu_set]. \<forall>pc. crpc (ts ! i) = CrLoop pc \<and> pc \<notin> {RRegister, RDestroy, RReturn, RNone} \<longrightarrow>
      (\<exists>k. metaThread (crAcq (ts ! i)) = [k] \<and> crMask (ts ! i) = (if mProcessorAffinity (config example_setup k) = 0
        then [3, 3] ! i else CreateCpuSet (mProcessorAffinity (config example_setup k)) AND 15))"
    and "\<forall>i < length [3, 3 :: cpu_set]. crpc (ts ! i) = CrLoop RReturn \<longrightarrow>
      (untilWaiter (crMem (ts ! i)) = Called \<and> metaThread (crAcq (ts ! i)) = []) \<or>
      (untilWaiter (crMem (ts ! i)) = Unused \<and> metaThread (crAcq (ts ! i)) \<noteq> [])"
    using context_runs_exact [OF run, of 15] cpu_set_2
    by (simp_all add: example_setup_def SetProcessorAffinity_def drop_bit_eq_div)
  then have "crMask (ts ! 1) = CreateCpuSet 2 AND 15" "metaThread (crAcq (ts ! 0)) = []"
    using s by (auto simp: example_setup_def SetProcessorAffinity_def)
  then show ?thesis using run s by blast
qed

text \<open>What an exception of \<^verbatim>\<open>SetCurrentThreadAffinity\<close> leaves behind.  The thread may run on a processor whose
  number is beyond the 32 that an affinity can name: reading its affinity throws, the call ends with the meta
  thread, which is destroyed and not given back, and the waiter that refers to the local variables of the
  call stays with \<^verbatim>\<open>until\<close>.\<close>

theorem context_run_bind_fails:
  "\<exists>p ts. cr_reaches example_setup [7] [push_bit 40 1] p ts \<and> crpc (ts ! 0) = CrBindFailed \<and>
     mIdleMetaThreads p = [] \<and> untilWaiter (crMem (ts ! 0)) = Registered \<and>
     (\<forall>st accepted. ContextImpl_Run_step example_setup st accepted (ts ! 0) = None)"
proof -
  have "bit (push_bit 40 1 :: cpu_set) 40" by (simp add: bit_push_bit_iff)
  then have "CreateAffinity (push_bit 40 1) = None"
    unfolding CreateAffinity_def affinity_below_None sizeof_cpu_set_def by (intro exI [of _ 40]) simp
  then have fail: "Run_enter_affinity (kernel_sched 15) 2 (push_bit 40 1) = Inl OutOfRange"
    by (simp add: Run_enter_affinity_def Affinity_IsEmpty_def SetThreadAffinity_def GetProcessAffinity_def)
  obtain p ts where run: "run_acts (cr_next example_setup)
      [ask 0, ask 0, ask 0, ask 0, ask 0, ask 0, own 0, own 0, own 0]
      (\<lparr>poolLocked = False, mIdleMetaThreads = [7]\<rparr>, map cr_init [push_bit 40 1]) = Some (p, ts)"
    and s: "crpc (ts ! 0) = CrBindFailed" "mIdleMetaThreads p = []" "untilWaiter (crMem (ts ! 0)) = Registered"
    using fail by (simp add: example_setup_def cr_init_def acq_init_def AcquireMetaThread_step_def with_acqs_def
        ContextImpl_Run_step_def held_def MetaThread_new_def SetProcessorAffinity_def enabled_schedulers_def
        effective_mode_def RunMode_All_def cr_goto_def run_init_def Let_def del: push_bit_of_1)
  have "cr_reaches example_setup [7] [push_bit 40 1] p ts" using run_acts_reaches [OF run] .
  then show ?thesis using s by (intro exI [of _ p] exI [of _ ts]) (simp add: ContextImpl_Run_step_def)
qed

end
