(* ===== verification/Waiter_Clients.thy ===== *)
theory Waiter_Clients
  imports Waiter_List Wait_Functions
begin

text \<open>
  The waiters of an \<^verbatim>\<open>Event\<close> or a \<^verbatim>\<open>Semaphore\<close> while any number of threads call it: what theory
  Wait_Functions takes for granted of a waitable.  A client hangs its own waiters, one at a time,
  takes them back, or waits for their callback; it writes to a waiter that is not hung as it likes,
  as its destruction does.  Every waiter is in one place: with its owner, in the list, in the hands
  of one caller that will notify it, or notified.
\<close>

section \<open>The count of updates of the head\<close>

definition wver :: "u64 \<Rightarrow> nat" where
  "wver w = version 48 w"

lemma wver_low:
  "wver (w OR LOCK_BIT) = wver w" "wver (w AND NOT LOCK_BIT) = wver w"
  "wver (w OR USER_FLAG_BIT) = wver w" "wver (w AND NOT USER_FLAG_BIT) = wver w"
  using flag_bits by (simp_all add: wver_def wl.flag_def wl.version_low)

lemma wver_clear_ptr: "wver (w AND NOT PTR_MASK) = wver w"
  using wl.version_set [of 0 w] by (simp add: wver_def set_ptr_def)

lemma wver_SetPointer: "aligned p \<Longrightarrow> wver (SetPointer w p) = wver w"
  by (simp add: wver_def SetPointer_def aligned_def wl.version_set)

lemma wver_bump: "wver w + 1 < 2 ^ 16 \<Longrightarrow> wver (w + ABA_ADDEND) = wver w + 1"
  using wl.version_bump [of w] by (simp add: wver_def)

text \<open>The words that the operations write, for a count that has room for one more.\<close>

lemma wver_words:
  assumes "wver w + 1 < 2 ^ 16"
  shows "wver ((w OR LOCK_BIT) + ABA_ADDEND) = wver w + 1"
    and "aligned p \<Longrightarrow> wver (SetPointer w p + ABA_ADDEND) = wver w + 1"
  using assms by (simp_all add: wver_bump wver_low wver_SetPointer)

section \<open>What a step does to the list\<close>

definition wl_good :: "'z wl_mem_scheme \<Rightarrow> addr list \<Rightarrow> bool" where
  "wl_good g ws \<longleftrightarrow> holds_list g ws \<and> all_aligned (wnext g) \<and> (user_set (mWaiters g) \<longrightarrow> ws = [])"

text \<open>
  A thread that may write to the waiters \<open>A\<close>, and holds the list lock if \<open>k\<close>, takes the list \<open>ws\<close>
  to \<open>ws'\<close>.  It counts every update of the head but those that only clear a flag.  Under the lock of
  another thread it does no more than push.
\<close>

definition wl_change ::
  "addr set \<Rightarrow> bool \<Rightarrow> 'z wl_mem_scheme \<Rightarrow> addr list \<Rightarrow> 'z wl_mem_scheme \<Rightarrow> addr list \<Rightarrow> bool" where
  "wl_change A k g ws g' ws' \<longleftrightarrow>
     wl_good g' ws' \<and> set ws' \<subseteq> A \<union> set ws \<and>
     (\<forall>a. a \<notin> A \<longrightarrow> a \<notin> set ws \<longrightarrow> wnext g' a = wnext g a) \<and>
     (wver (mWaiters g) < wver (mWaiters g') \<or>
      wver (mWaiters g') = wver (mWaiters g) \<and>
      (\<not> lock_set (mWaiters g) \<longrightarrow> \<not> user_set (mWaiters g) \<longrightarrow>
         mWaiters g' = mWaiters g \<and> (\<forall>a \<in> set ws. wnext g' a = wnext g a))) \<and>
     (lock_set (mWaiters g) \<longrightarrow> \<not> k \<longrightarrow>
        (\<exists>us. ws' = us @ ws \<and> set us \<subseteq> A) \<and> (\<forall>a \<in> set ws. wnext g' a = wnext g a))"

lemma wl_change_refl [simp]: "wl_good g ws \<Longrightarrow> wl_change A k g ws g ws"
  by (simp add: wl_change_def)

text \<open>A value of the head that a thread has read, and one whose waiter's \<^verbatim>\<open>next\<close> it has read too.\<close>

definition seen_head :: "'z wl_mem_scheme \<Rightarrow> u64 \<Rightarrow> bool" where
  "seen_head g h \<longleftrightarrow> (user_set h \<longrightarrow> GetPointer h = 0) \<and>
     (wver h < wver (mWaiters g) \<or> wver h = wver (mWaiters g) \<and>
        (\<not> lock_set h \<longrightarrow> \<not> user_set h \<longrightarrow> mWaiters g = h))"

definition seen_next :: "'z wl_mem_scheme \<Rightarrow> u64 \<Rightarrow> addr \<Rightarrow> bool" where
  "seen_next g h n \<longleftrightarrow> GetPointer h \<noteq> 0 \<and> \<not> lock_set h \<and> \<not> user_set h \<and> aligned n \<and>
     (wver h < wver (mWaiters g) \<or> mWaiters g = h \<and> wnext g (GetPointer h) = n)"

lemma wl_good_head:
  assumes "wl_good g ws"
  shows "GetPointer (mWaiters g) = 0 \<longleftrightarrow> ws = []"
    and "GetPointer (mWaiters g) \<noteq> 0 \<Longrightarrow>
      \<exists>us. ws = GetPointer (mWaiters g) # us \<and>
        wlist (wnext g) (wnext g (GetPointer (mWaiters g))) us"
    and "distinct ws" and "0 \<notin> set ws" and "seen_head g (mWaiters g)"
proof -
  have l: "wlist (wnext g) (GetPointer (mWaiters g)) ws"
    using assms by (simp add: wl_good_def holds_list_def)
  show "GetPointer (mWaiters g) = 0 \<longleftrightarrow> ws = []" using l by (cases ws) auto
  show "distinct ws" "0 \<notin> set ws" using l wlist_distinct wlist_nonzero by blast+
  show "seen_head g (mWaiters g)" using assms l by (auto simp: seen_head_def wl_good_def)
  show "\<exists>us. ws = GetPointer (mWaiters g) # us \<and>
        wlist (wnext g) (wnext g (GetPointer (mWaiters g))) us" if "GetPointer (mWaiters g) \<noteq> 0"
    using l that by (simp add: wlist_nonnull)
qed

lemma seen_head_next:
  assumes "wl_good g ws" and "seen_head g h" and "GetPointer h \<noteq> 0" and "\<not> lock_set h"
  shows "seen_next g h (wnext g (GetPointer h))"
  using assms by (auto simp: seen_head_def seen_next_def wl_good_def)

text \<open>The two kinds of knowledge survive the steps of every thread.\<close>

lemma seen_head_change: "wl_change A k g ws g' ws' \<Longrightarrow> seen_head g h \<Longrightarrow> seen_head g' h"
  unfolding wl_change_def seen_head_def by (metis less_trans)

lemma seen_next_change:
  assumes "wl_good g ws" and "wl_change A k g ws g' ws'" and "seen_next g h n"
  shows "seen_next g' h n"
proof (cases "wver h < wver (mWaiters g)")
  case True
  then show ?thesis using assms(2,3) by (auto simp: wl_change_def seen_next_def)
next
  case False
  then have m: "mWaiters g = h" "wnext g (GetPointer h) = n" "GetPointer h \<noteq> 0"
    "\<not> lock_set h" "\<not> user_set h" using assms(3) by (auto simp: seen_next_def)
  then have "GetPointer h \<in> set ws" using wl_good_head(2) [OF assms(1)] by auto
  then show ?thesis using assms(2,3) m by (auto simp: wl_change_def seen_next_def)
qed

text \<open>A chain of waiters outside the list.\<close>

lemma wlist_change:
  assumes "wl_change A k g ws g' ws'" and "wlist (wnext g) p L" and "set L \<inter> (A \<union> set ws) = {}"
  shows "wlist (wnext g') p L"
proof -
  have "a \<in> set L \<Longrightarrow> wnext g' a = wnext g a" for a
    using assms(1,3) by (auto simp: wl_change_def)
  then show ?thesis using assms(2) wlist_cong [of L "wnext g'" "wnext g" p] by simp
qed

section \<open>RemoveWaiter among other threads\<close>

text \<open>What a thread inside \<^verbatim>\<open>RemoveWaiter\<close> knows of the list.\<close>

fun rw_knows :: "addr \<Rightarrow> 'z wl_mem_scheme \<Rightarrow> addr list \<Rightarrow> remove_pc \<Rightarrow> bool" where
  "rw_knows w g ws RwLoad \<longleftrightarrow> True"
| "rw_knows w g ws (RwTest h) \<longleftrightarrow> seen_head g h \<and> (GetPointer h = 0 \<longrightarrow> w \<notin> set ws)"
| "rw_knows w g ws (RwPop h n) \<longleftrightarrow> seen_next g h n \<and> GetPointer h = w"
| "rw_knows w g ws (RwScan c) \<longleftrightarrow> (\<exists>us vs. ws = us @ c # vs \<and> w \<notin> set us \<and> w \<noteq> c)"
| "rw_knows w g ws (RwRead c) \<longleftrightarrow> (\<exists>us vs. ws = us @ c # w # vs)"
| "rw_knows w g ws (RwWrite c n) \<longleftrightarrow> (\<exists>us vs. ws = us @ c # w # vs) \<and> n = wnext g w"
| "rw_knows w g ws (RwUnlock r) \<longleftrightarrow> w \<notin> set ws"
| "rw_knows w g ws (RwDone r) \<longleftrightarrow> w \<notin> set ws"

text \<open>It has taken its waiter out, and it may still update the head.\<close>

fun rw_took :: "remove_pc \<Rightarrow> bool" where
  "rw_took (RwUnlock r) = r"
| "rw_took (RwDone r) = r"
| "rw_took _ = False"

fun rw_updates :: "remove_pc \<Rightarrow> nat" where
  "rw_updates RwLoad = 1"
| "rw_updates (RwTest _) = 1"
| "rw_updates (RwPop _ _) = 1"
| "rw_updates _ = 0"

lemma rw_knows_change:
  assumes good: "wl_good g ws" and ch: "wl_change A k g ws g' ws'" and kn: "rw_knows w g ws pc"
    and w: "w \<notin> A" and lock: "rw_holds_lock pc = 1 \<Longrightarrow> lock_set (mWaiters g) \<and> \<not> k"
  shows "rw_knows w g' ws' pc"
proof -
  have out: "w \<notin> set ws \<Longrightarrow> w \<notin> set ws'" using ch w by (auto simp: wl_change_def)
  have locked: "rw_holds_lock pc = 1 \<Longrightarrow>
      (\<exists>us. ws' = us @ ws \<and> set us \<subseteq> A) \<and> (\<forall>a \<in> set ws. wnext g' a = wnext g a)"
    using ch lock by (auto simp: wl_change_def)
  show ?thesis
  proof (cases pc)
    case (RwScan c)
    then obtain us vs xs where "ws = us @ c # vs" "w \<notin> set us" "w \<noteq> c" "ws' = xs @ ws" "set xs \<subseteq> A"
      using kn locked by auto
    then have "ws' = (xs @ us) @ c # vs" "w \<notin> set (xs @ us)" using w by auto
    then show ?thesis using \<open>w \<noteq> c\<close> unfolding RwScan rw_knows.simps by blast
  next
    case (RwRead c)
    then obtain us vs xs where "ws' = (xs @ us) @ c # w # vs" using kn locked by auto
    then show ?thesis unfolding RwRead rw_knows.simps by blast
  next
    case (RwWrite c n)
    then obtain us vs xs where "ws = us @ c # w # vs" "ws' = (xs @ us) @ c # w # vs"
      using kn locked by auto
    moreover have "wnext g' w = wnext g w" using locked RwWrite calculation(1) by simp
    ultimately show ?thesis using kn unfolding RwWrite rw_knows.simps by metis
  qed (use kn out seen_head_change [OF ch] seen_next_change [OF good ch] in auto)
qed

text \<open>The steps of \<^verbatim>\<open>RemoveWaiter\<close>.\<close>

lemma rw_pop:
  assumes good: "wl_good g ws" and kn: "seen_next g h n" and h: "mWaiters g = h"
    and v: "wver (mWaiters g) + 1 < 2 ^ 16"
  defines "g' \<equiv> g\<lparr>mWaiters := SetPointer h n + ABA_ADDEND\<rparr>"
  shows "\<exists>us. ws = GetPointer h # us \<and> GetPointer h \<notin> set us \<and> wl_change {} k g ws g' us"
    and "wver (mWaiters g') = wver (mWaiters g) + 1" and "lock_free (mWaiters g') = lock_free (mWaiters g)"
proof -
  have n: "GetPointer h \<noteq> 0" "wnext g (GetPointer h) = n" "\<not> lock_set h" "\<not> user_set h" "aligned n"
    using kn h by (auto simp: seen_next_def)
  obtain us where ws: "ws = GetPointer h # us" and l: "wlist (wnext g) n us"
    using wl_good_head(2) [OF good] n h by auto
  have ver: "wver (mWaiters g') = wver (mWaiters g) + 1"
    using v n h by (simp add: g'_def wver_words)
  have "wl_good g' us" using good l n
    by (simp add: wl_good_def holds_list_def g'_def word_packing)
  then have "wl_change {} k g ws g' us"
    using ver n h by (auto simp: wl_change_def ws g'_def)
  then show "\<exists>us. ws = GetPointer h # us \<and> GetPointer h \<notin> set us \<and> wl_change {} k g ws g' us"
    using ws wl_good_head(3) [OF good] by auto
  show "wver (mWaiters g') = wver (mWaiters g) + 1" by (rule ver)
  show "lock_free (mWaiters g') = lock_free (mWaiters g)"
    using n h by (simp add: lock_free_def g'_def word_packing)
qed

text \<open>An update of the head that keeps its pointer.\<close>

lemma head_change:
  assumes good: "wl_good g ws" and p: "GetPointer m = GetPointer (mWaiters g)"
    and u: "user_set m \<Longrightarrow> ws = []"
    and v: "wver m = wver (mWaiters g) + 1 \<and> \<not> lock_set (mWaiters g) \<or> wver m = wver (mWaiters g) \<and>
      (\<not> lock_set (mWaiters g) \<longrightarrow> \<not> user_set (mWaiters g) \<longrightarrow> m = mWaiters g)"
  shows "wl_change A k g ws (g\<lparr>mWaiters := m\<rparr>) ws"
  using assms by (auto simp: wl_change_def wl_good_def holds_list_def)

lemma unlink_change:
  assumes good: "wl_good g ws" and ws: "ws = us @ c # w # vs" and lock: "lock_set (mWaiters g)" and k
  shows "wl_change {} k g ws (g\<lparr>wnext := (wnext g)(c := wnext g w)\<rparr>) (us @ c # vs)"
proof -
  have "wlist ((wnext g)(c := wnext g w)) (GetPointer (mWaiters g)) (us @ c # vs)"
    using good by (intro wlist_unlink) (simp add: wl_good_def holds_list_def ws)
  then show ?thesis using good lock \<open>k\<close>
    by (auto simp: wl_change_def wl_good_def holds_list_def ws fun_upd_apply)
qed

lemma remove_change:
  assumes st: "remove_step w g pc = Some (g', pc')" and good: "wl_good g ws"
    and kn: "rw_knows w g ws pc" and w: "waiter_addr w"
    and lock: "lock_free (mWaiters g) + rw_holds_lock pc \<le> 1"
    and v: "wver (mWaiters g) + rw_updates pc < 2 ^ 16"
  shows "\<exists>ws'. rw_knows w g' ws' pc' \<and> wl_change {} (rw_holds_lock pc = 1) g ws g' ws' \<and>
    (if rw_took pc' \<and> \<not> rw_took pc then w \<in> set ws \<and> set ws' = set ws - {w} else ws' = ws)"
proof (cases pc)
  case RwLoad
  have "w \<notin> set ws" if "GetPointer (mWaiters g) = 0"
    using that wl_good_head(1) [OF good] by simp
  then show ?thesis using st RwLoad good wl_good_head(5) [OF good] by auto
next
  case (RwTest h)
  have seen: "seen_head g h" "seen_head g (mWaiters g)"
    using kn RwTest wl_good_head(5) [OF good] by auto
  have none: "w \<notin> set ws" if "GetPointer (mWaiters g) = 0"
    using that wl_good_head(1) [OF good] by simp
  consider "GetPointer h = 0" | "GetPointer h \<noteq> 0" "lock_set h"
    | "GetPointer h \<noteq> 0" "\<not> lock_set h" "GetPointer h = w"
    | "GetPointer h \<noteq> 0" "\<not> lock_set h" "GetPointer h \<noteq> w" "mWaiters g = h"
    | "GetPointer h \<noteq> 0" "\<not> lock_set h" "GetPointer h \<noteq> w" "mWaiters g \<noteq> h" by blast
  then show ?thesis
  proof cases
    case 4
    let ?m = "(h OR LOCK_BIT) + ABA_ADDEND"
    have "wl_change {} k g ws (g\<lparr>mWaiters := ?m\<rparr>) ws" for k
    proof (rule head_change [OF good])
      show "wver ?m = wver (mWaiters g) + 1 \<and> \<not> lock_set (mWaiters g) \<or> wver ?m = wver (mWaiters g) \<and>
          (\<not> lock_set (mWaiters g) \<longrightarrow> \<not> user_set (mWaiters g) \<longrightarrow> ?m = mWaiters g)"
        using 4 v RwTest by (simp add: wver_words)
    qed (use 4 good in \<open>simp_all add: word_packing wl_good_def\<close>)
    moreover obtain us where "ws = GetPointer h # us" using wl_good_head(2) [OF good] 4 by auto
    then have "ws = [] @ GetPointer h # us \<and> w \<notin> set [] \<and> w \<noteq> GetPointer h" using 4 by simp
    then have "rw_knows w (g\<lparr>mWaiters := ?m\<rparr>) ws (RwScan (GetPointer h))"
      unfolding rw_knows.simps by blast
    moreover have "g' = g\<lparr>mWaiters := ?m\<rparr>" "pc' = RwScan (GetPointer h)"
      using st RwTest 4 by (auto simp: cas_head_if)
    ultimately show ?thesis by (intro exI [of _ ws]) (simp add: RwTest del: rw_knows.simps)
  qed (use st RwTest kn seen good none seen_head_next [OF good seen(1)] in \<open>auto simp: cas_head_if\<close>)
next
  case (RwPop h n)
  show ?thesis
  proof (cases "mWaiters g = h")
    case True
    then obtain us where "ws = w # us" "w \<notin> set us"
      and "wl_change {} False g ws (g\<lparr>mWaiters := SetPointer h n + ABA_ADDEND\<rparr>) us"
      using rw_pop(1) [OF good _ True, of n False] kn v RwPop by auto
    then show ?thesis using st RwPop True by (intro exI [of _ us]) (auto simp: cas_head_if)
  next
    case False
    have "w \<notin> set ws" if "GetPointer (mWaiters g) = 0"
      using that wl_good_head(1) [OF good] by simp
    then show ?thesis using st RwPop False good wl_good_head(5) [OF good] by (auto simp: cas_head_if)
  qed
next
  case (RwScan c)
  then obtain us vs where ws: "ws = us @ c # vs" "w \<notin> set us" "w \<noteq> c" using kn by auto
  then have vs: "wlist (wnext g) (wnext g c) vs"
    using good wlist_append [of "wnext g" "GetPointer (mWaiters g)" us c vs]
    by (simp add: wl_good_def holds_list_def)
  show ?thesis
  proof (cases vs)
    case Nil
    then show ?thesis using st RwScan vs good ws by auto
  next
    case (Cons d vs')
    have d: "d \<noteq> 0" "wnext g c = d" using vs Cons by auto
    show ?thesis
    proof (cases "d = w")
      case True
      then have "rw_knows w g ws (RwRead c)" using ws Cons by auto
      moreover have "g' = g" "pc' = RwRead c" using st RwScan d True by auto
      ultimately show ?thesis using good by (intro exI [of _ ws]) (simp del: rw_knows.simps)
    next
      case False
      have "ws = (us @ [c]) @ d # vs' \<and> w \<notin> set (us @ [c]) \<and> w \<noteq> d" using ws Cons False by simp
      then have "rw_knows w g ws (RwScan d)" unfolding rw_knows.simps by blast
      moreover have "g' = g" "pc' = RwScan d" using st RwScan d False by auto
      ultimately show ?thesis using good by (intro exI [of _ ws]) (simp del: rw_knows.simps)
    qed
  qed
next
  case (RwRead c)
  then have "rw_knows w g ws (RwWrite c (wnext g w))" using kn by simp
  moreover have "g' = g" "pc' = RwWrite c (wnext g w)" using st RwRead by auto
  ultimately show ?thesis using good by (intro exI [of _ ws]) (simp del: rw_knows.simps)
next
  case (RwWrite c n)
  then obtain us vs where ws: "ws = us @ c # w # vs" and n: "n = wnext g w" using kn by auto
  have "lock_set (mWaiters g)" using lock RwWrite by (simp add: lock_free_def split: if_splits)
  then have "wl_change {} True g ws g' (us @ c # vs)"
    using unlink_change [OF good ws] st RwWrite n by auto
  moreover have "w \<notin> set (us @ c # vs)" "set (us @ c # vs) = set ws - {w}"
    using wl_good_head(3) [OF good] ws by auto
  moreover have "pc' = RwUnlock True" "w \<in> set ws" using st RwWrite ws by auto
  ultimately show ?thesis by (intro exI [of _ "us @ c # vs"]) (simp add: RwWrite)
next
  case (RwUnlock r)
  have "wl_change {} True g ws (WaiterList_Unlock g) ws"
    unfolding WaiterList_Unlock_def
    by (rule head_change [OF good]) (use good lock RwUnlock in \<open>auto simp: AtomicAnd_def
        sync_fetch_and_def word_packing wver_low wl_good_def lock_free_def split: if_splits\<close>)
  then show ?thesis using st RwUnlock kn by auto
qed (use st in simp)

lemma remove_counts:
  assumes st: "remove_step w g pc = Some (g', pc')" and ok: "rw_ok w pc"
    and v: "wver (mWaiters g) + rw_updates pc < 2 ^ 16"
  shows "wver (mWaiters g') + rw_updates pc' \<le> wver (mWaiters g) + rw_updates pc"
    and "rw_took pc \<longrightarrow> rw_took pc'" and "notified g' = notified g"
  using st ok v by (cases pc; auto simp: cas_head_if wver_words wver_low step_simps split: if_splits)+

section \<open>Clients\<close>

text \<open>A waitable: the machine of \<^verbatim>\<open>AddWaiter\<close>, and that of the calls that notify.  \<^verbatim>\<open>RemoveWaiter\<close> is
  \<open>remove_step\<close> for all of them.\<close>

record ('z, 'a, 'c) waitable_calls =
  add_entry :: 'a
  add_step :: "addr \<Rightarrow> 'z wl_mem_scheme \<Rightarrow> 'a \<Rightarrow> ('z wl_mem_scheme \<times> 'a) option"
  add_answer :: "'a \<Rightarrow> bool option"
  call_step :: "'z wl_mem_scheme \<Rightarrow> 'c \<Rightarrow> ('z wl_mem_scheme \<times> 'c) option"
  call_over :: "'c \<Rightarrow> bool"

text \<open>\<open>Reuse w a\<close> writes \<open>a\<close> over the \<^verbatim>\<open>next\<close> of \<open>w\<close>, as \<^verbatim>\<open>Waiter::Free\<close> does.\<close>

datatype 'c client_op = Hang addr | Unhang addr | Await addr | Reuse addr addr | Call 'c

datatype ('a, 'c) client_pc = Resting | Hanging addr 'a | Unhanging addr remove_pc | Calling 'c

record ('a, 'c) client =
  cl_pc :: "('a, 'c) client_pc"
  cl_script :: "'c client_op list"
  cl_waiters :: "addr list" \<comment> \<open>the waiters it owns\<close>
  cl_hung :: "addr list" \<comment> \<open>those of them it has hung\<close>
  cl_awaited :: "addr list" \<comment> \<open>the callbacks it has waited for, latest first\<close>

definition client_init :: "'c client_op list \<times> addr list \<Rightarrow> ('a, 'c) client" where
  "client_init p = \<lparr>cl_pc = Resting, cl_script = fst p, cl_waiters = snd p, cl_hung = [], cl_awaited = []\<rparr>"

text \<open>The callback of \<open>w\<close> has run since the client last waited for it.\<close>

definition was_called :: "'z wl_mem_scheme \<Rightarrow> ('a, 'c) client \<Rightarrow> addr \<Rightarrow> bool" where
  "was_called g t w \<longleftrightarrow> count_list (cl_awaited t) w < count_list (notified g) w"

text \<open>An operation whose waiter is not as it needs it is left out: a waiter that hangs is not hung
  again and not written to, one that does not hang is not taken back nor waited for.\<close>

fun client_begin ::
  "('z, 'a, 'c) waitable_calls \<Rightarrow> 'c client_op \<Rightarrow> 'z wl_mem_scheme \<Rightarrow> ('a, 'c) client \<Rightarrow>
   ('z wl_mem_scheme \<times> ('a, 'c) client) option" where
  "client_begin M (Hang w) g t =
     Some (g, if w \<in> set (cl_hung t) then t else t\<lparr>cl_pc := Hanging w (add_entry M)\<rparr>)"
| "client_begin M (Unhang w) g t =
     Some (g, if w \<in> set (cl_hung t) then t\<lparr>cl_pc := Unhanging w RwLoad\<rparr> else t)"
| "client_begin M (Await w) g t =
     (if w \<notin> set (cl_hung t) then Some (g, t)
      else if was_called g t w
      then Some (g, t\<lparr>cl_hung := removeAll w (cl_hung t), cl_awaited := w # cl_awaited t\<rparr>)
      else None)"
| "client_begin M (Reuse w a) g t =
     Some (if w \<in> set (cl_hung t) then g else g\<lparr>wnext := (wnext g)(w := a)\<rparr>, t)"
| "client_begin M (Call c) g t = Some (g, t\<lparr>cl_pc := Calling c\<rparr>)"

definition client_step ::
  "('z, 'a, 'c) waitable_calls \<Rightarrow> 'z wl_mem_scheme \<Rightarrow> ('a, 'c) client \<Rightarrow>
   ('z wl_mem_scheme \<times> ('a, 'c) client) option" where
  "client_step M g t = (case cl_pc t of
     Resting \<Rightarrow>
       (case cl_script t of [] \<Rightarrow> None | op # ops \<Rightarrow> client_begin M op g (t\<lparr>cl_script := ops\<rparr>))
   | Hanging w p \<Rightarrow>
       (case add_answer M p of
          Some r \<Rightarrow> Some (g, t\<lparr>cl_pc := Resting, cl_hung := (if r then [w] else []) @ cl_hung t\<rparr>)
        | None \<Rightarrow> map_option (\<lambda>(g', p'). (g', t\<lparr>cl_pc := Hanging w p'\<rparr>)) (add_step M w g p))
   | Unhanging w (RwDone r) \<Rightarrow>
       Some (g, t\<lparr>cl_pc := Resting, cl_hung := if r then removeAll w (cl_hung t) else cl_hung t\<rparr>)
   | Unhanging w p \<Rightarrow> map_option (\<lambda>(g', p'). (g', t\<lparr>cl_pc := Unhanging w p'\<rparr>)) (remove_step w g p)
   | Calling c \<Rightarrow>
       if call_over M c then Some (g, t\<lparr>cl_pc := Resting\<rparr>)
       else map_option (\<lambda>(g', c'). (g', t\<lparr>cl_pc := Calling c'\<rparr>)) (call_step M g c))"

lemma client_step_cases:
  assumes "client_step M g t = Some (g', t')"
  obtains
    (start) op ops where "cl_pc t = Resting" "cl_script t = op # ops"
      "client_begin M op g (t\<lparr>cl_script := ops\<rparr>) = Some (g', t')"
  | (hang) w p p' where "cl_pc t = Hanging w p" "add_answer M p = None" "add_step M w g p = Some (g', p')"
      "t' = t\<lparr>cl_pc := Hanging w p'\<rparr>"
  | (hung) w p r where "cl_pc t = Hanging w p" "add_answer M p = Some r" "g' = g"
      "t' = t\<lparr>cl_pc := Resting, cl_hung := (if r then [w] else []) @ cl_hung t\<rparr>"
  | (unhang) w p p' where "cl_pc t = Unhanging w p" "remove_step w g p = Some (g', p')"
      "t' = t\<lparr>cl_pc := Unhanging w p'\<rparr>"
  | (unhung) w r where "cl_pc t = Unhanging w (RwDone r)" "g' = g"
      "t' = t\<lparr>cl_pc := Resting, cl_hung := if r then removeAll w (cl_hung t) else cl_hung t\<rparr>"
  | (call) c c' where "cl_pc t = Calling c" "\<not> call_over M c" "call_step M g c = Some (g', c')"
      "t' = t\<lparr>cl_pc := Calling c'\<rparr>"
  | (called) c where "cl_pc t = Calling c" "call_over M c" "g' = g" "t' = t\<lparr>cl_pc := Resting\<rparr>"
proof (cases "cl_pc t")
  case Resting
  then show ?thesis using assms start by (auto simp: client_step_def split: list.splits)
next
  case (Hanging w p)
  then show ?thesis using assms hang hung by (auto simp: client_step_def split: option.splits)
next
  case (Unhanging w p)
  show ?thesis
  proof (cases "\<exists>r. p = RwDone r")
    case True
    then obtain r where "p = RwDone r" ..
    then show ?thesis using assms Unhanging unhung [of w r] by (simp add: client_step_def)
  next
    case False
    then have "client_step M g t =
        map_option (\<lambda>(g', p'). (g', t\<lparr>cl_pc := Unhanging w p'\<rparr>)) (remove_step w g p)"
      using Unhanging by (cases p) (simp_all add: client_step_def del: remove_step.simps)
    then obtain p' where "remove_step w g p = Some (g', p')" "t' = t\<lparr>cl_pc := Unhanging w p'\<rparr>"
      using assms by (cases "remove_step w g p") auto
    then show ?thesis using Unhanging unhang by blast
  qed
next
  case (Calling c)
  then show ?thesis using assms call called by (auto simp: client_step_def split: if_splits)
qed

section \<open>Interface: waitables that keep waiters in a list\<close>

text \<open>Where every waiter is, the slack in the updates of the head, and the waiters that have an owner.
  The auxiliary state of a thread are the waiters in its hands, that it is going to notify.\<close>

record waiter_ghost =
  gh_list :: "addr list"
  gh_status :: "addr \<Rightarrow> wstatus"
  gh_slack :: nat
  gh_owned :: "addr set"

datatype waiter_token = Owned addr | Flying addr | ListBit | Updates

abbreviation hanging :: "wstatus set" where
  "hanging \<equiv> {Registered, InFlight, Called}"

text \<open>A step of a waitable, as theory Wait_Functions has it, for the waiter \<open>v\<close>.\<close>

definition status_moves :: "wstatus \<Rightarrow> nat \<Rightarrow> wstatus \<Rightarrow> nat \<Rightarrow> bool" where
  "status_moves s n s' n' \<longleftrightarrow>
     s' = s \<and> n' = n \<or> s = Registered \<and> s' = InFlight \<and> n' = n \<or> s = InFlight \<and> s' = Called \<and> n' = n + 1"

fun client_op_ok :: "('c \<Rightarrow> bool) \<Rightarrow> addr list \<Rightarrow> 'c client_op \<Rightarrow> bool" where
  "client_op_ok start ws (Hang w) \<longleftrightarrow> w \<in> set ws"
| "client_op_ok start ws (Unhang w) \<longleftrightarrow> w \<in> set ws"
| "client_op_ok start ws (Await w) \<longleftrightarrow> w \<in> set ws"
| "client_op_ok start ws (Reuse w a) \<longleftrightarrow> w \<in> set ws \<and> aligned a"
| "client_op_ok start ws (Call c) \<longleftrightarrow> start c"

text \<open>The status a client expects of a waiter of its own.\<close>

definition client_expects :: "('a \<Rightarrow> bool option) \<Rightarrow> ('a, 'c) client \<Rightarrow> addr \<Rightarrow> wstatus set" where
  "client_expects answer t w =
     (case cl_pc t of
        Hanging v p \<Rightarrow> if v = w \<and> answer p = Some True then hanging
          else if w \<in> set (cl_hung t) then hanging else {Unused}
      | Unhanging v p \<Rightarrow> if v = w \<and> rw_took p then {Taken}
          else if w \<in> set (cl_hung t) then hanging else {Unused}
      | _ \<Rightarrow> if w \<in> set (cl_hung t) then hanging else {Unused})"

locale listed_waiters =
  fixes M :: "('z, 'a, 'c) waitable_calls"
    and add_ok :: "addr \<Rightarrow> 'z wl_mem_scheme \<Rightarrow> 'a \<Rightarrow> bool"
    and add_updates :: "'a \<Rightarrow> nat"
    and call_ok :: "'z wl_mem_scheme \<Rightarrow> addr list \<Rightarrow> 'c \<Rightarrow> bool"
    and call_updates call_lock :: "'c \<Rightarrow> nat"
    and start :: "'c \<Rightarrow> bool"
    and uses_flag :: bool \<comment> \<open>of the head word\<close>
  assumes add_start: "add_ok w g (add_entry M) \<and> add_answer M (add_entry M) = None \<and>
      add_updates (add_entry M) \<le> 1"
    and add_change: "add_step M w g p = Some (g', p') \<Longrightarrow> add_answer M p = None \<Longrightarrow> add_ok w g p \<Longrightarrow>
      wl_good g ws \<Longrightarrow> (user_set (mWaiters g) \<longrightarrow> uses_flag) \<Longrightarrow> waiter_addr w \<Longrightarrow> w \<notin> set ws \<Longrightarrow>
      wver (mWaiters g) + add_updates p < 2 ^ 16 \<Longrightarrow>
      add_ok w g' p' \<and> (user_set (mWaiters g') \<longrightarrow> uses_flag) \<and> wl_change {w} False g ws g' ((if add_answer M p' = Some True then [w] else []) @ ws) \<and>
      notified g' = notified g \<and> lock_free (mWaiters g') = lock_free (mWaiters g) \<and>
      wver (mWaiters g') + add_updates p' \<le> wver (mWaiters g) + add_updates p"
    and add_stable: "add_ok w g p \<Longrightarrow> wnext g' w = wnext g w \<Longrightarrow> add_ok w g' p"
    and call_start: "start c \<Longrightarrow> call_ok g [] c \<and> call_lock c = 0 \<and> call_updates c \<le> 1"
    and call_change: "call_step M g c = Some (g', c') \<Longrightarrow> \<not> call_over M c \<Longrightarrow> call_ok g L c \<Longrightarrow>
      wl_good g ws \<Longrightarrow> (user_set (mWaiters g) \<longrightarrow> uses_flag) \<Longrightarrow> set L \<inter> set ws = {} \<Longrightarrow> distinct L \<Longrightarrow>
      lock_free (mWaiters g) + call_lock c \<le> 1 \<Longrightarrow> wver (mWaiters g) + call_updates c < 2 ^ 16 \<Longrightarrow>
      \<exists>ws' L'. call_ok g' L' c' \<and> wl_change {} (call_lock c = 1) g ws g' ws' \<and>
        (user_set (mWaiters g') \<longrightarrow> uses_flag) \<and>
        (ws' = ws \<and> (\<exists>w. L = w # L' \<and> notified g' = w # notified g) \<or>
         notified g' = notified g \<and> (\<exists>us. ws = us @ ws' \<and> L' = us @ L)) \<and>
        lock_free (mWaiters g') + call_lock c' = lock_free (mWaiters g) + call_lock c \<and>
        wver (mWaiters g') + call_updates c' \<le> wver (mWaiters g) + call_updates c"
    and call_stable: "call_ok g L c \<Longrightarrow> (\<And>a. a \<in> set L \<Longrightarrow> wnext g' a = wnext g a) \<Longrightarrow>
      (\<And>h. seen_head g h \<Longrightarrow> seen_head g' h) \<Longrightarrow> (\<And>h n. seen_next g h n \<Longrightarrow> seen_next g' h n) \<Longrightarrow>
      call_ok g' L c"
    and call_ends: "call_over M c \<Longrightarrow> call_ok g L c \<Longrightarrow> L = [] \<and> call_lock c = 0"
begin

text \<open>What a client is in the middle of.\<close>

definition pc_knows :: "waiter_ghost \<Rightarrow> 'z wl_mem_scheme \<Rightarrow> addr list \<Rightarrow> ('a, 'c) client \<Rightarrow> bool" where
  "pc_knows a g L t \<longleftrightarrow> (case cl_pc t of
     Resting \<Rightarrow> L = []
   | Hanging w p \<Rightarrow> L = [] \<and> w \<in> set (cl_waiters t) \<and> w \<notin> set (cl_hung t) \<and>
       (add_answer M p = None \<longrightarrow> add_ok w g p)
   | Unhanging w p \<Rightarrow> L = [] \<and> w \<in> set (cl_hung t) \<and> rw_ok w p \<and> rw_knows w g (gh_list a) p
   | Calling c \<Rightarrow> call_ok g L c)"

definition accounts :: "waiter_ghost \<Rightarrow> 'z wl_mem_scheme \<Rightarrow> ('a, 'c) client \<Rightarrow> bool" where
  "accounts a g t \<longleftrightarrow> (\<forall>w \<in> set (cl_waiters t). gh_status a w \<in> client_expects (add_answer M) t w \<and>
     count_list (notified g) w = count_list (cl_awaited t) w + of_bool (gh_status a w = Called))"

definition well_formed :: "('a, 'c) client \<Rightarrow> bool" where
  "well_formed t \<longleftrightarrow> list_all waiter_addr (cl_waiters t) \<and> set (cl_hung t) \<subseteq> set (cl_waiters t) \<and>
     list_all (client_op_ok start (cl_waiters t)) (cl_script t)"

definition cti :: "waiter_ghost \<Rightarrow> 'z wl_mem_scheme \<Rightarrow> addr list \<times> ('a, 'c) client \<Rightarrow> bool" where
  "cti a g p \<longleftrightarrow> well_formed (snd p) \<and> pc_knows a g (fst p) (snd p) \<and> accounts a g (snd p)"

definition cgi :: "waiter_ghost \<Rightarrow> 'z wl_mem_scheme \<Rightarrow> bool" where
  "cgi a g \<longleftrightarrow> wl_good g (gh_list a) \<and> (user_set (mWaiters g) \<longrightarrow> uses_flag) \<and>
     (\<forall>w. w \<in> set (gh_list a) \<longleftrightarrow> gh_status a w = Registered)"

definition pc_lock :: "('a, 'c) client \<Rightarrow> nat" where
  "pc_lock t = (case cl_pc t of Unhanging w p \<Rightarrow> rw_holds_lock p | Calling c \<Rightarrow> call_lock c | _ \<Rightarrow> 0)"

definition pc_updates :: "('a, 'c) client \<Rightarrow> nat" where
  "pc_updates t = (case cl_pc t of Hanging w p \<Rightarrow> add_updates p | Unhanging w p \<Rightarrow> rw_updates p
     | Calling c \<Rightarrow> call_updates c | Resting \<Rightarrow> 0)"

fun cgtok :: "waiter_token \<Rightarrow> waiter_ghost \<Rightarrow> 'z wl_mem_scheme \<Rightarrow> nat" where
  "cgtok (Owned w) a g = of_bool (w \<notin> gh_owned a)"
| "cgtok (Flying w) a g = of_bool (gh_status a w \<noteq> InFlight)"
| "cgtok ListBit a g = lock_free (mWaiters g)"
| "cgtok Updates a g = wver (mWaiters g) + gh_slack a"

fun cltok :: "waiter_token \<Rightarrow> addr list \<times> ('a, 'c) client \<Rightarrow> nat" where
  "cltok (Owned w) (L, t) = of_bool (w \<in> set (cl_waiters t))"
| "cltok (Flying w) (L, t) = count_list L w"
| "cltok ListBit (L, t) = pc_lock t"
| "cltok Updates (L, t) = pc_updates t + length (cl_script t)"

fun ccap :: "waiter_token \<Rightarrow> nat" where
  "ccap Updates = 2 ^ 16 - 1"
| "ccap _ = 1"

end

text \<open>A call takes waiters from the front of the list, or notifies one.\<close>

lemma call_moves:
  assumes what: "ws' = ws \<and> (\<exists>w. L = w # L' \<and> n' = w # n) \<or> n' = n \<and> (\<exists>us. ws = us @ ws' \<and> L' = us @ L)"
    and reg: "\<And>v. v \<in> set ws \<longleftrightarrow> st v = Registered" and inL: "\<And>v. v \<in> set L \<Longrightarrow> st v = InFlight"
    and d0: "distinct ws"
  shows "\<exists>st'. (\<forall>v. v \<in> set ws' \<longleftrightarrow> st' v = Registered) \<and>
    (\<forall>v. status_moves (st v) (count_list n v) (st' v) (count_list n' v)) \<and>
    (\<forall>v. of_bool (st' v \<noteq> InFlight) + count_list L' v =
      of_bool (st v \<noteq> InFlight) + count_list L v)"
  using what
proof (elim disjE conjE exE)
  fix w assume a: "ws' = ws" "L = w # L'" "n' = w # n"
  then have "st w = InFlight" using inL by simp
  then show ?thesis using a reg
    by (intro exI [of _ "st(w := Called)"])
      (auto simp: status_moves_def fun_upd_apply)
next
  fix us assume a: "n' = n" "ws = us @ ws'" "L' = us @ L"
  define st' where "st' = (\<lambda>v. if v \<in> set us then InFlight else st v)"
  have d: "distinct us" "set us \<inter> set ws' = {}" using d0 a(2) by auto
  have r: "v \<in> set us \<or> v \<in> set ws' \<longleftrightarrow> st v = Registered" for v
    using reg [of v] a(2) by simp
  have "(v \<in> set ws') = (st' v = Registered)" for v using r [of v] d by (auto simp: st'_def)
  moreover have "status_moves (st v) (count_list n v) (st' v) (count_list n' v)"
    for v using r [of v] a(1) by (auto simp: st'_def status_moves_def)
  moreover have "of_bool (st' v \<noteq> InFlight) + count_list L' v =
    of_bool (st v \<noteq> InFlight) + count_list L v" for v
    using r [of v] a(3) d(1) by (cases "v \<in> set us") (auto simp: st'_def count_list_of_distinct)
  ultimately show ?thesis by blast
qed

context listed_waiters
begin

definition step_ok ::
  "waiter_ghost \<Rightarrow> 'z wl_mem_scheme \<Rightarrow> addr list \<Rightarrow> ('a, 'c) client \<Rightarrow> 'z wl_mem_scheme \<Rightarrow> ('a, 'c) client \<Rightarrow> bool"
  where
  "step_ok a g L t g' t' \<longleftrightarrow> (\<exists>a' L'. cgi a' g' \<and> cti a' g' (L', t') \<and>
     (\<forall>i. cgtok i a' g' + cltok i (L', t') = cgtok i a g + cltok i (L, t)) \<and>
     (\<forall>p. cti a g p \<longrightarrow> (\<forall>i. cgtok i a g + cltok i (L, t) + cltok i p \<le> ccap i) \<longrightarrow> cti a' g' p))"

lemma cti_slack [simp]: "cti (a\<lparr>gh_slack := n\<rparr>) g p = cti a g p"
  by (simp add: cti_def pc_knows_def accounts_def split: client_pc.splits)

lemma status_moves_expected:
  "status_moves s n s' n' \<Longrightarrow> s \<in> client_expects (add_answer M) t w \<Longrightarrow>
   s' \<in> client_expects (add_answer M) t w"
  by (auto simp: status_moves_def client_expects_def split: client_pc.splits if_splits)

lemma accountsD:
  assumes "accounts a g t" and "w \<in> set (cl_waiters t)"
  shows "gh_status a w \<in> client_expects (add_answer M) t w"
    and "count_list (notified g) w = count_list (cl_awaited t) w + of_bool (gh_status a w = Called)"
  using assms by (simp_all add: accounts_def)

lemma accounts_cong:
  assumes "cl_waiters t' = cl_waiters t" and "cl_awaited t' = cl_awaited t"
    and "\<And>w. client_expects (add_answer M) t' w = client_expects (add_answer M) t w"
    and "accounts a g t"
  shows "accounts a g t'"
  using assms by (simp add: accounts_def)

lemma accounts_moves:
  assumes ac: "accounts a g t"
    and mv: "\<And>w. w \<in> set (cl_waiters t) \<Longrightarrow>
      status_moves (gh_status a w) (count_list (notified g) w) (st' w) (count_list (notified g') w)"
  shows "accounts (a\<lparr>gh_list := ws', gh_status := st'\<rparr>) g' t"
  unfolding accounts_def
proof (intro ballI conjI)
  fix w assume w: "w \<in> set (cl_waiters t)"
  have was: "gh_status a w \<in> client_expects (add_answer M) t w"
    "count_list (notified g) w = count_list (cl_awaited t) w + of_bool (gh_status a w = Called)"
    using ac w by (auto simp: accounts_def)
  show "gh_status (a\<lparr>gh_list := ws', gh_status := st'\<rparr>) w \<in> client_expects (add_answer M) t w"
    using status_moves_expected [OF mv [OF w] was(1)] by simp
  show "count_list (notified g') w = count_list (cl_awaited t) w +
      of_bool (gh_status (a\<lparr>gh_list := ws', gh_status := st'\<rparr>) w = Called)"
    using mv [OF w] was(2) by (auto simp: status_moves_def)
qed

text \<open>A step of one client, as the others see it.\<close>

lemma others_stable:
  assumes gi: "cgi a g" and ch: "wl_change A k g (gh_list a) g' ws'"
    and A: "\<And>w. w \<in> A \<Longrightarrow> w \<in> set (cl_waiters t) \<and> gh_status a w = Unused"
    and k: "k \<Longrightarrow> pc_lock t = 1"
    and mv: "\<And>w. w \<notin> set (cl_waiters t) \<Longrightarrow>
      status_moves (gh_status a w) (count_list (notified g) w) (st' w) (count_list (notified g') w)"
    and m: "cti a g (Lm, m)" and cap: "\<And>i. cgtok i a g + cltok i (L, t) + cltok i (Lm, m) \<le> ccap i"
  shows "cti (a\<lparr>gh_list := ws', gh_status := st'\<rparr>) g' (Lm, m)"
proof -
  have good: "wl_good g (gh_list a)" and reg: "\<And>w. w \<in> set (gh_list a) \<longleftrightarrow> gh_status a w = Registered"
    using gi by (auto simp: cgi_def)
  have wf: "well_formed m" and kn: "pc_knows a g Lm m" and ac: "accounts a g m"
    using m by (auto simp: cti_def)
  have other: "w \<notin> set (cl_waiters t) \<and> w \<notin> A" if "w \<in> set (cl_waiters m)" for w
    using cap [of "Owned w"] that A [of w] by (auto simp: of_bool_def split: if_splits)
  have frame: "wnext g' w = wnext g w" if "w \<notin> A" "gh_status a w \<noteq> Registered" for w
    using ch that reg by (auto simp: wl_change_def)
  have "accounts (a\<lparr>gh_list := ws', gh_status := st'\<rparr>) g' m"
    using accounts_moves [OF ac] mv other by blast
  moreover have "pc_knows (a\<lparr>gh_list := ws', gh_status := st'\<rparr>) g' Lm m"
  proof (cases "cl_pc m")
    case (Hanging w p)
    have w: "w \<in> set (cl_waiters m)" "w \<notin> set (cl_hung m)"
      "add_answer M p = None \<longrightarrow> add_ok w g p" using kn Hanging by (auto simp: pc_knows_def)
    have "gh_status a w = Unused" if "add_answer M p = None"
      using ac w that Hanging by (auto simp: accounts_def client_expects_def)
    then have "add_answer M p = None \<longrightarrow> add_ok w g' p"
      using w(3) add_stable [of w g p g'] frame [of w] other [OF w(1)] by auto
    then show ?thesis using kn Hanging by (simp add: pc_knows_def)
  next
    case (Unhanging w p)
    have w: "w \<in> set (cl_hung m)" "rw_knows w g (gh_list a) p"
      using kn Unhanging by (auto simp: pc_knows_def)
    have "w \<notin> A" using w(1) wf other [of w] by (auto simp: well_formed_def)
    moreover have "lock_set (mWaiters g) \<and> \<not> k" if "rw_holds_lock p = 1"
      using cap [of ListBit] that k Unhanging by (auto simp: pc_lock_def lock_free_def split: if_splits)
    ultimately have "rw_knows w g' ws' p" using rw_knows_change [OF good ch w(2)] by blast
    then show ?thesis using kn Unhanging by (simp add: pc_knows_def)
  next
    case (Calling c)
    have "gh_status a w = InFlight" if "w \<in> set Lm" for w
      using cap [of "Flying w"] that count_list_0_iff [of Lm w] by (auto simp: of_bool_def split: if_splits)
    then have "wnext g' w = wnext g w" if "w \<in> set Lm" for w
      using frame [of w] A [of w] that by force
    then have "call_ok g' Lm c" 
      using call_stable [of g Lm c g'] kn Calling seen_head_change [OF ch] seen_next_change [OF good ch]
      by (simp add: pc_knows_def)
    then show ?thesis using Calling by (simp add: pc_knows_def)
  qed (use kn in \<open>simp add: pc_knows_def\<close>)
  ultimately show ?thesis using wf by (simp add: cti_def)
qed

text \<open>What is to be shown of a step of a client.\<close>

lemma step_explained:
  assumes gi: "cgi a g" and ti: "cti a g (L, t)"
    and cap: "\<And>i. cgtok i a g + cltok i (L, t) \<le> ccap i"
    and ch: "wl_change A k g (gh_list a) g' ws'" and us: "user_set (mWaiters g') \<longrightarrow> uses_flag"
    and A: "\<And>w. w \<in> A \<Longrightarrow> w \<in> set (cl_waiters t) \<and> gh_status a w = Unused"
    and k: "k \<Longrightarrow> pc_lock t = 1"
    and reg: "\<And>w. w \<in> set ws' \<longleftrightarrow> st' w = Registered"
    and mv: "\<And>w. w \<notin> set (cl_waiters t) \<Longrightarrow>
      status_moves (gh_status a w) (count_list (notified g) w) (st' w) (count_list (notified g') w)"
    and own: "cti (a\<lparr>gh_list := ws', gh_status := st'\<rparr>) g' (L', t')"
    and wt: "cl_waiters t' = cl_waiters t"
    and lk: "lock_free (mWaiters g') + pc_lock t' = lock_free (mWaiters g) + pc_lock t"
    and fl: "\<And>w. of_bool (st' w \<noteq> InFlight) + count_list L' w =
      of_bool (gh_status a w \<noteq> InFlight) + count_list L w"
    and up: "wver (mWaiters g') + pc_updates t' + length (cl_script t') \<le>
      wver (mWaiters g) + pc_updates t + length (cl_script t)"
  shows "step_ok a g L t g' t'"
proof -
  define a1 where "a1 = a\<lparr>gh_list := ws', gh_status := st'\<rparr>"
  define a' where "a' = a1\<lparr>gh_slack := gh_slack a +
    (wver (mWaiters g) + pc_updates t + length (cl_script t)) -
    (wver (mWaiters g') + pc_updates t' + length (cl_script t'))\<rparr>"
  have "cgi a' g'" using ch us reg by (simp add: cgi_def a'_def a1_def wl_change_def)
  moreover have "cti a' g' (L', t')" using own by (simp add: a'_def a1_def)
  moreover have "cgtok i a' g' + cltok i (L', t') = cgtok i a g + cltok i (L, t)" for i
  proof (cases i)
    case (Owned w)
    then show ?thesis by (simp add: a'_def a1_def wt)
  next
    case (Flying w)
    then show ?thesis using fl [of w] by (simp add: a'_def a1_def)
  next
    case ListBit
    then show ?thesis using lk by simp
  next
    case Updates
    then show ?thesis using up by (simp add: a'_def)
  qed
  moreover have "cti a' g' p"
    if "cti a g p" "\<And>i. cgtok i a g + cltok i (L, t) + cltok i p \<le> ccap i" for p
    using others_stable [OF gi ch A k mv, of "fst p" "snd p" L] that by (simp add: a'_def a1_def)
  ultimately show ?thesis unfolding step_ok_def by blast
qed

end

context listed_waiters
begin

text \<open>Steps that leave the memory alone.\<close>

lemma quiet_step:
  assumes gi: "cgi a g" and ti: "cti a g (L, t)"
    and cap: "\<And>i. cgtok i a g + cltok i (L, t) \<le> ccap i"
    and st: "\<And>w. st' w = gh_status a w \<or> w \<in> set (cl_waiters t) \<and>
      gh_status a w \<notin> {Registered, InFlight} \<and> st' w \<notin> {Registered, InFlight}"
    and own: "cti (a\<lparr>gh_status := st'\<rparr>) g (L, t')"
    and wt: "cl_waiters t' = cl_waiters t" and lk: "pc_lock t' = pc_lock t"
    and up: "pc_updates t' + length (cl_script t') \<le> pc_updates t + length (cl_script t)"
  shows "step_ok a g L t g t'"
proof (rule step_explained [OF gi ti cap, where A = "{}" and k = False and ws' = "gh_list a" and st' = st'])
  show "wl_change {} False g (gh_list a) g (gh_list a)" "user_set (mWaiters g) \<longrightarrow> uses_flag"
    using gi by (simp_all add: cgi_def)
  show "cti (a\<lparr>gh_list := gh_list a, gh_status := st'\<rparr>) g (L, t')" using own by simp
  show "(w \<in> set (gh_list a)) = (st' w = Registered)" for w
    using gi st [of w] unfolding cgi_def by (metis insertI1)
  show "status_moves (gh_status a w) (count_list (notified g) w) (st' w) (count_list (notified g) w)"
    if "w \<notin> set (cl_waiters t)" for w using st [of w] that by (auto simp: status_moves_def)
  show "of_bool (st' w \<noteq> InFlight) + count_list L w =
      of_bool (gh_status a w \<noteq> InFlight) + count_list L w" for w using st [of w] by auto
qed (use wt lk up in simp_all)

lemmas pc_defs = well_formed_def pc_knows_def client_expects_def pc_lock_def pc_updates_def
lemmas own_defs = cti_def accounts_def pc_defs

lemma start_explained:
  assumes gi: "cgi a g" and ti: "cti a g (L, t)"
    and cap: "\<And>i. cgtok i a g + cltok i (L, t) \<le> ccap i"
    and pc: "cl_pc t = Resting" and sc: "cl_script t = op # ops"
    and st: "client_begin M op g (t\<lparr>cl_script := ops\<rparr>) = Some (g', t')"
  shows "step_ok a g L t g' t'"
proof (cases "\<exists>w b. op = Reuse w b \<and> w \<notin> set (cl_hung t)")
  case True
  then obtain w b where op: "op = Reuse w b" and w: "w \<notin> set (cl_hung t)" by blast
  have g': "g' = g\<lparr>wnext := (wnext g)(w := b)\<rparr>" and t': "t' = t\<lparr>cl_script := ops\<rparr>"
    using st op w by auto
  have b: "aligned b" and wt: "w \<in> set (cl_waiters t)" and un: "gh_status a w = Unused"
    using ti pc sc op w by (auto simp: own_defs)
  have good: "wl_good g (gh_list a)" and out: "w \<notin> set (gh_list a)" using gi un by (auto simp: cgi_def)
  have ch: "wl_change {w} False g (gh_list a) g' (gh_list a)"
    using good out b by (auto simp: wl_change_def wl_good_def holds_list_def g' fun_upd_apply)
  show ?thesis
    by (rule step_explained [OF gi ti cap ch, where st' = "gh_status a" and L' = L])
      (use gi ti pc sc wt un in \<open>auto simp: cgi_def status_moves_def g' t' own_defs\<close>)
next
  case False
  show ?thesis
  proof (cases "\<exists>w. op = Await w \<and> w \<in> set (cl_hung t)")
    case True
    then obtain w where op: "op = Await w" and w: "w \<in> set (cl_hung t)" by blast
    have wc: "was_called g t w" and g': "g' = g" and t': "t' = t\<lparr>cl_script := ops,
        cl_hung := removeAll w (cl_hung t), cl_awaited := w # cl_awaited t\<rparr>"
      using st op w by (auto simp: was_called_def split: if_splits)
    have wt: "w \<in> set (cl_waiters t)" using ti w by (auto simp: own_defs)
    then have s: "gh_status a w = Called" using wc ti by (auto simp: own_defs was_called_def split: if_splits)
    show ?thesis unfolding g'
      by (rule quiet_step [OF gi ti cap, where st' = "(gh_status a)(w := Unused)"])
        (use ti pc sc wt s in \<open>auto simp: t' own_defs fun_upd_apply\<close>)
  next
    case other: False
    have g': "g' = g" using st False other by (cases op) (auto split: if_splits)
    have wf: "well_formed t" and kn: "pc_knows a g L t" and ac: "accounts a g t"
      using ti by (auto simp: cti_def)
    have *: "well_formed t' \<and> pc_knows a g L t' \<and> cl_waiters t' = cl_waiters t \<and>
        cl_awaited t' = cl_awaited t \<and> cl_script t' = ops \<and> pc_lock t' = 0 \<and> pc_updates t' \<le> 1 \<and>
        (\<forall>w. client_expects (add_answer M) t' w = client_expects (add_answer M) t w)"
    proof (cases op)
      case (Hang w)
      then show ?thesis using wf kn pc sc st add_start [of w g]
        by (cases "w \<in> set (cl_hung t)") (auto simp: pc_defs)
    next
      case (Unhang w)
      then show ?thesis using wf kn pc sc st by (cases "w \<in> set (cl_hung t)") (auto simp: pc_defs)
    next
      case (Await w)
      then show ?thesis using wf kn pc sc st other by (auto simp: pc_defs)
    next
      case (Reuse w b)
      then show ?thesis using wf kn pc sc st False by (auto simp: pc_defs)
    next
      case (Call c)
      then have "call_ok g [] c \<and> call_lock c = 0 \<and> call_updates c \<le> 1"
        using call_start wf sc by (auto simp: well_formed_def)
      then show ?thesis using Call wf kn pc sc st by (auto simp: pc_defs)
    qed
    have "accounts a g t'" using ac * by (intro accounts_cong [of t' t]) blast+
    then show ?thesis unfolding g'
      by (intro quiet_step [OF gi ti cap, where st' = "gh_status a"])
        (use * pc sc in \<open>auto simp: pc_lock_def cti_def\<close>)
  qed
qed

end

context listed_waiters
begin

lemma hang_explained:
  assumes gi: "cgi a g" and ti: "cti a g (L, t)"
    and cap: "\<And>i. cgtok i a g + cltok i (L, t) \<le> ccap i"
    and pc: "cl_pc t = Hanging w p" and no: "add_answer M p = None"
    and st: "add_step M w g p = Some (g', p')" and t': "t' = t\<lparr>cl_pc := Hanging w p'\<rparr>"
  shows "step_ok a g L t g' t'"
proof -
  have wt: "w \<in> set (cl_waiters t)" "w \<notin> set (cl_hung t)" and ok: "add_ok w g p" and L: "L = []"
    and wf: "well_formed t" and ac: "accounts a g t"
    using ti pc no by (auto simp: cti_def pc_knows_def)
  have un: "gh_status a w = Unused"
    using ac wt pc no by (auto simp: accounts_def client_expects_def)
  have good: "wl_good g (gh_list a)" and us: "user_set (mWaiters g) \<longrightarrow> uses_flag"
    and reg: "\<And>v. v \<in> set (gh_list a) \<longleftrightarrow> gh_status a v = Registered"
    using gi by (auto simp: cgi_def)
  have addr: "waiter_addr w" using wf wt by (auto simp: well_formed_def list_all_iff)
  have v: "wver (mWaiters g) + add_updates p < 2 ^ 16"
    using cap [of Updates] pc by (simp add: pc_updates_def)
  let ?new = "add_answer M p' = Some True"
  define ws' where "ws' = (if ?new then [w] else []) @ gh_list a"
  define st' where "st' = (if ?new then (gh_status a)(w := Registered) else gh_status a)"
  have ok': "add_ok w g' p'" and us': "user_set (mWaiters g') \<longrightarrow> uses_flag" and ch: "wl_change {w} False g (gh_list a) g' ws'"
    and n: "notified g' = notified g" and lf: "lock_free (mWaiters g') = lock_free (mWaiters g)"
    and up: "wver (mWaiters g') + add_updates p' \<le> wver (mWaiters g) + add_updates p"
    using add_change [OF st no ok good us addr _ v] reg un by (auto simp: ws'_def)
  have "accounts (a\<lparr>gh_list := ws', gh_status := st'\<rparr>) g' t'"
    using ac pc no wt un by (auto simp: accounts_def client_expects_def t' st'_def n fun_upd_apply)
  then have own: "cti (a\<lparr>gh_list := ws', gh_status := st'\<rparr>) g' (L, t')"
    using wf wt ok' L by (simp add: cti_def t' well_formed_def pc_knows_def)
  show ?thesis
    by (rule step_explained [OF gi ti cap ch us' _ _ _ _ own])
      (use reg wt un lf up pc in \<open>auto simp: t' n ws'_def st'_def status_moves_def pc_lock_def
        pc_updates_def fun_upd_apply\<close>)
qed

lemma unhang_explained:
  assumes gi: "cgi a g" and ti: "cti a g (L, t)"
    and cap: "\<And>i. cgtok i a g + cltok i (L, t) \<le> ccap i"
    and pc: "cl_pc t = Unhanging w p"
    and st: "remove_step w g p = Some (g', p')" and t': "t' = t\<lparr>cl_pc := Unhanging w p'\<rparr>"
  shows "step_ok a g L t g' t'"
proof -
  have wf: "well_formed t" and ac: "accounts a g t" and L: "L = []" and hu: "w \<in> set (cl_hung t)"
    and ok: "rw_ok w p" and kn: "rw_knows w g (gh_list a) p"
    using ti pc by (auto simp: cti_def pc_knows_def)
  have good: "wl_good g (gh_list a)" and us: "user_set (mWaiters g) \<longrightarrow> uses_flag"
    and reg: "\<And>v. v \<in> set (gh_list a) \<longleftrightarrow> gh_status a v = Registered"
    using gi by (auto simp: cgi_def)
  have wt: "w \<in> set (cl_waiters t)" and addr: "waiter_addr w"
    using wf hu by (auto simp: well_formed_def list_all_iff)
  have lk: "lock_free (mWaiters g) + rw_holds_lock p \<le> 1"
    using cap [of ListBit] pc by (simp add: pc_lock_def)
  have v: "wver (mWaiters g) + rw_updates p < 2 ^ 16"
    using cap [of Updates] pc by (simp add: pc_updates_def)
  obtain ws' where kn': "rw_knows w g' ws' p'"
    and ch: "wl_change {} (rw_holds_lock p = 1) g (gh_list a) g' ws'"
    and took: "if rw_took p' \<and> \<not> rw_took p then w \<in> set (gh_list a) \<and> set ws' = set (gh_list a) - {w}
      else ws' = gh_list a"
    using remove_change [OF st good kn addr lk v] by blast
  note cnt = remove_counts [OF st ok v]
  have al: "all_aligned (wnext g)" using good by (simp add: wl_good_def)
  have ok': "rw_ok w p'" using remove_step_ok [OF st ok al] by blast
  have lf: "lock_free (mWaiters g') + rw_holds_lock p' = lock_free (mWaiters g) + rw_holds_lock p"
    by (rule remove_step_lock [OF st ok lk])
  define now where "now \<longleftrightarrow> rw_took p' \<and> \<not> rw_took p"
  define st' where "st' = (if now then (gh_status a)(w := Taken) else gh_status a)"
  have was: "now \<Longrightarrow> gh_status a w = Registered" using took reg by (simp add: now_def)
  have "accounts (a\<lparr>gh_list := ws', gh_status := st'\<rparr>) g' t'"
    using ac pc wt cnt(2,3) was
    by (auto simp: accounts_def client_expects_def t' st'_def now_def fun_upd_apply)
  then have own: "cti (a\<lparr>gh_list := ws', gh_status := st'\<rparr>) g' (L, t')"
    using wf hu ok' kn' L by (simp add: cti_def t' well_formed_def pc_knows_def)
  have reg': "(v \<in> set ws') = (st' v = Registered)" for v
    using took reg [of v] by (cases now) (auto simp: now_def st'_def fun_upd_apply split: if_splits)
  have us': "user_set (mWaiters g') \<longrightarrow> uses_flag" using us remove_step_user [OF st ok] by simp
  show ?thesis
    by (rule step_explained [OF gi ti cap ch us' _ _ reg' _ own])
      (use wt was lf cnt pc in \<open>auto simp: t' st'_def status_moves_def pc_lock_def pc_updates_def
        fun_upd_apply\<close>)
qed

lemma call_explained:
  assumes gi: "cgi a g" and ti: "cti a g (L, t)"
    and cap: "\<And>i. cgtok i a g + cltok i (L, t) \<le> ccap i"
    and pc: "cl_pc t = Calling c" and no: "\<not> call_over M c"
    and st: "call_step M g c = Some (g', c')" and t': "t' = t\<lparr>cl_pc := Calling c'\<rparr>"
  shows "step_ok a g L t g' t'"
proof -
  have wf: "well_formed t" and ac: "accounts a g t" and ok: "call_ok g L c"
    using ti pc by (auto simp: cti_def pc_knows_def)
  have good: "wl_good g (gh_list a)" and us: "user_set (mWaiters g) \<longrightarrow> uses_flag"
    and reg: "\<And>v. v \<in> set (gh_list a) \<longleftrightarrow> gh_status a v = Registered"
    using gi by (auto simp: cgi_def)
  have fly: "count_list L v \<le> of_bool (gh_status a v = InFlight)" for v
    using cap [of "Flying v"] by (cases "gh_status a v = InFlight") auto
  have inL: "v \<in> set L \<Longrightarrow> gh_status a v = InFlight" for v
    using fly [of v] count_list_0_iff [of L v] by (cases "gh_status a v = InFlight") auto
  have dis: "set L \<inter> set (gh_list a) = {}" using inL reg by fastforce
  have dL: "distinct L"
  proof (rule distinct_if_counts)
    show "count_list L v \<le> 1" for v using fly [of v] by (rule order_trans) simp
  qed
  have lk: "lock_free (mWaiters g) + call_lock c \<le> 1" using cap [of ListBit] pc by (simp add: pc_lock_def)
  have v: "wver (mWaiters g) + call_updates c < 2 ^ 16"
    using cap [of Updates] pc by (simp add: pc_updates_def)
  obtain ws' L' where ok': "call_ok g' L' c'" and ch: "wl_change {} (call_lock c = 1) g (gh_list a) g' ws'"
    and us': "user_set (mWaiters g') \<longrightarrow> uses_flag"
    and what: "ws' = gh_list a \<and> (\<exists>w. L = w # L' \<and> notified g' = w # notified g) \<or>
      notified g' = notified g \<and> (\<exists>us. gh_list a = us @ ws' \<and> L' = us @ L)"
    and lf: "lock_free (mWaiters g') + call_lock c' = lock_free (mWaiters g) + call_lock c"
    and up: "wver (mWaiters g') + call_updates c' \<le> wver (mWaiters g) + call_updates c"
    using call_change [OF st no ok good us dis dL lk v] by blast
  have "\<exists>st'. (\<forall>v. v \<in> set ws' \<longleftrightarrow> st' v = Registered) \<and>
    (\<forall>v. status_moves (gh_status a v) (count_list (notified g) v) (st' v) (count_list (notified g') v)) \<and>
    (\<forall>v. of_bool (st' v \<noteq> InFlight) + count_list L' v = of_bool (gh_status a v \<noteq> InFlight) + count_list L v)"
    by (rule call_moves [OF what reg inL wl_good_head(3) [OF good]])
  then obtain st' where reg': "\<And>v. v \<in> set ws' \<longleftrightarrow> st' v = Registered"
    and mv: "\<And>v. status_moves (gh_status a v) (count_list (notified g) v) (st' v) (count_list (notified g') v)"
    and fl: "\<And>v. of_bool (st' v \<noteq> InFlight) + count_list L' v =
      of_bool (gh_status a v \<noteq> InFlight) + count_list L v" by blast
  have "accounts (a\<lparr>gh_list := ws', gh_status := st'\<rparr>) g' t'"
    using accounts_moves [OF ac mv] pc by (intro accounts_cong [of t' t]) (auto simp: t' client_expects_def)
  then have own: "cti (a\<lparr>gh_list := ws', gh_status := st'\<rparr>) g' (L', t')"
    using wf ok' by (simp add: cti_def t' well_formed_def pc_knows_def)
  show ?thesis
    by (rule step_explained [OF gi ti cap ch us' _ _ reg' mv own])
      (use fl lf up pc in \<open>auto simp: t' pc_lock_def pc_updates_def\<close>)
qed

theorem client_step_explained:
  assumes gi: "cgi a g" and ti: "cti a g (L, t)"
    and cap: "\<And>i. cgtok i a g + cltok i (L, t) \<le> ccap i"
    and st: "client_step M g t = Some (g', t')"
  shows "step_ok a g L t g' t'"
  using st
proof (cases rule: client_step_cases)
  case (start op ops)
  then show ?thesis by (rule start_explained [OF gi ti cap])
next
  case (hang w p p')
  then show ?thesis by (rule hang_explained [OF gi ti cap])
next
  case (hung w p r)
  have "client_expects (add_answer M) t' v = client_expects (add_answer M) t v" for v
    using hung by (cases r) (auto simp: client_expects_def)
  then have "accounts a g t'"
    using ti hung by (intro accounts_cong [of t' t]) (auto simp: cti_def)
  then have "cti (a\<lparr>gh_status := gh_status a\<rparr>) g (L, t')"
    using ti hung by (auto simp: cti_def pc_knows_def well_formed_def)
  then show ?thesis unfolding hung(3)
    by (rule quiet_step [OF gi ti cap, rotated]) (use hung in \<open>auto simp: pc_lock_def pc_updates_def\<close>)
next
  case (unhang w p p')
  then show ?thesis by (rule unhang_explained [OF gi ti cap])
next
  case (unhung w r)
  have ac: "accounts a g t" and w: "w \<in> set (cl_waiters t)"
    using ti unhung by (auto simp: own_defs)
  have taken: "gh_status a w = Taken" if r
    using accountsD(1) [OF ac w] that unhung by (simp add: client_expects_def)
  define st' where "st' = (if r then (gh_status a)(w := Unused) else gh_status a)"
  have "accounts (a\<lparr>gh_status := st'\<rparr>) g t'"
    unfolding accounts_def
  proof (intro ballI conjI)
    fix v assume "v \<in> set (cl_waiters t')"
    then have v: "v \<in> set (cl_waiters t)" using unhung by simp
    show "gh_status (a\<lparr>gh_status := st'\<rparr>) v \<in> client_expects (add_answer M) t' v"
      using accountsD(1) [OF ac v] unhung taken
      by (cases r; cases "v = w") (auto simp: client_expects_def st'_def fun_upd_apply)
    show "count_list (notified g) v = count_list (cl_awaited t') v +
        of_bool (gh_status (a\<lparr>gh_status := st'\<rparr>) v = Called)"
      using accountsD(2) [OF ac v] unhung taken
      by (cases r; cases "v = w") (auto simp: st'_def fun_upd_apply)
  qed
  then have "cti (a\<lparr>gh_status := st'\<rparr>) g (L, t')"
    using ti unhung by (auto simp: cti_def pc_knows_def well_formed_def)
  then show ?thesis unfolding unhung(2)
    by (rule quiet_step [OF gi ti cap, rotated])
      (use unhung w taken in \<open>auto simp: pc_lock_def pc_updates_def st'_def fun_upd_apply\<close>)
next
  case (call c c')
  then show ?thesis by (rule call_explained [OF gi ti cap])
next
  case (called c)
  have "L = []" "call_lock c = 0"
    using call_ends [OF called(2), of g L] ti called(1) by (auto simp: cti_def pc_knows_def)
  then have "cti (a\<lparr>gh_status := gh_status a\<rparr>) g (L, t')"
    using ti called by (auto simp: own_defs)
  then show ?thesis unfolding called(3)
    by (rule quiet_step [OF gi ti cap, rotated])
      (use called \<open>call_lock c = 0\<close> in \<open>auto simp: pc_lock_def pc_updates_def\<close>)
qed

end

sublocale listed_waiters \<subseteq> clients: ghost_protocol "client_step M" cgi cti cgtok cltok ccap
proof unfold_locales
  fix a g b l g' l'
  assume "cgi a g" "cti a g (b, l)" "\<And>k. cgtok k a g + cltok k (b, l) \<le> ccap k"
    and "client_step M g l = Some (g', l')"
  then show "\<exists>a' b'. cgi a' g' \<and> cti a' g' (b', l') \<and>
      (\<forall>k. cgtok k a' g' + cltok k (b', l') = cgtok k a g + cltok k (b, l)) \<and>
      (\<forall>p. cti a g p \<longrightarrow> (\<forall>k. cgtok k a g + cltok k (b, l) + cltok k p \<le> ccap k) \<longrightarrow> cti a' g' p)"
    using client_step_explained unfolding step_ok_def by blast
qed

section \<open>Every waiter is in one place\<close>

text \<open>Scripts with the waiters of each client: they have room in the count of updates, and no waiter
  has two owners.\<close>

definition clients_ok :: "('c \<Rightarrow> bool) \<Rightarrow> ('c client_op list \<times> addr list) list \<Rightarrow> bool" where
  "clients_ok start ps \<longleftrightarrow>
     (\<forall>(ops, ws) \<in> set ps. list_all waiter_addr ws \<and> list_all (client_op_ok start ws) ops) \<and>
     distinct (concat (map snd ps)) \<and> sum_list (map (length \<circ> fst) ps) < 2 ^ 16"

text \<open>The waiters in the hands of a client: \<open>L\<close>.\<close>

definition in_hands ::
  "('g \<Rightarrow> addr list \<Rightarrow> 'c \<Rightarrow> bool) \<Rightarrow> 'g \<Rightarrow> addr list \<Rightarrow> ('a, 'c) client_pc \<Rightarrow> bool" where
  "in_hands ok g L pc \<longleftrightarrow> (case pc of Calling c \<Rightarrow> ok g L c | _ \<Rightarrow> L = [])"

lemma owners: "distinct (concat (map snd ps)) \<Longrightarrow>
  sum_list (map (\<lambda>p. of_bool (w \<in> set (snd p))) ps) = (of_bool (w \<in> set (concat (map snd ps))) :: nat)"
  by (induction ps) auto

context listed_waiters
begin

lemma start_explains:
  assumes ok: "clients_ok start ps" and g: "wl_good g []" "notified g = []" "wver (mWaiters g) = 0"
    and nl: "\<not> lock_set (mWaiters g)" and us: "user_set (mWaiters g) \<longrightarrow> uses_flag"
  shows "\<exists>a. clients.explained a g (map (\<lambda>p. ([], client_init p)) ps)"
proof -
  define n where "n = sum_list (map (length \<circ> fst) ps)"
  define a where "a = \<lparr>gh_list = [], gh_status = (\<lambda>_. Unused), gh_slack = 2 ^ 16 - 1 - n,
    gh_owned = set (concat (map snd ps))\<rparr>"
  let ?ps = "map (\<lambda>p. ([], client_init p)) ps :: (addr list \<times> ('a, 'c) client) list"
  have n: "n < 2 ^ 16" and d: "distinct (concat (map snd ps))"
    and each: "\<And>p. p \<in> set ps \<Longrightarrow>
      list_all waiter_addr (snd p) \<and> list_all (client_op_ok start (snd p)) (fst p)"
    using ok by (auto simp: clients_ok_def n_def)
  have "cgi a g" using g us by (simp add: cgi_def a_def)
  moreover have "cti a g ([], client_init p)" if "p \<in> set ps" for p
    using each [OF that] g
    by (simp add: own_defs client_init_def a_def)
  moreover have "cgtok i a g + sum_list (map (cltok i) ?ps) = ccap i" for i
  proof (cases i)
    case (Owned w)
    have "map (cltok i) ?ps = map (\<lambda>p. of_bool (w \<in> set (snd p))) ps"
      by (simp add: Owned client_init_def)
    then have "sum_list (map (cltok i) ?ps) = of_bool (w \<in> gh_owned a)"
      using owners [OF d, of w] by (simp only: a_def waiter_ghost.simps)
    then show ?thesis using Owned by simp
  next
    case (Flying w)
    have "map (cltok i) ?ps = map (\<lambda>_. 0) ps" by (simp add: Flying)
    then show ?thesis using Flying by (simp add: a_def)
  next
    case ListBit
    have "map (cltok i) ?ps = map (\<lambda>_. 0) ps" by (simp add: ListBit client_init_def pc_lock_def)
    then show ?thesis using ListBit nl by (simp add: lock_free_def)
  next
    case Updates
    have "map (cltok i) ?ps = map (length \<circ> fst) ps"
      by (simp add: Updates client_init_def pc_updates_def)
    then have "sum_list (map (cltok i) ?ps) = n" by (simp only: n_def)
    then show ?thesis using Updates n g by (simp add: a_def)
  qed
  ultimately have "clients.explained a g ?ps" by (auto simp: clients.explained_def)
  then show ?thesis ..
qed

lemma clients_exact:
  assumes ok: "clients_ok start ps" and g0: "wl_good g0 []" "notified g0 = []" "wver (mWaiters g0) = 0"
    and nl: "\<not> lock_set (mWaiters g0)" and us: "user_set (mWaiters g0) \<longrightarrow> uses_flag"
    and ex: "executes (client_step M) (g0, map client_init ps) (g, ts)"
  shows "\<exists>ws Ls st. holds_list g ws \<and> (user_set (mWaiters g) \<longrightarrow> ws = []) \<and> distinct (ws @ concat Ls) \<and>
    (\<forall>w. (w \<in> set ws \<longleftrightarrow> st w = Registered) \<and> (w \<in> set (concat Ls) \<longleftrightarrow> st w = InFlight)) \<and>
    length Ls = length ts \<and>
    (\<forall>i < length ts. in_hands call_ok g (Ls ! i) (cl_pc (ts ! i)) \<and>
      set (cl_hung (ts ! i)) \<subseteq> set (cl_waiters (ts ! i)) \<and>
      (\<forall>w. cl_pc (ts ! i) = Unhanging w (RwDone False) \<longrightarrow> st w \<in> {InFlight, Called}) \<and>
      (\<forall>w \<in> set (cl_waiters (ts ! i)). st w \<in> client_expects (add_answer M) (ts ! i) w \<and>
         count_list (notified g) w = count_list (cl_awaited (ts ! i)) w + of_bool (st w = Called)))"
proof -
  have init: "map client_init ps = map snd (map (\<lambda>p. ([] :: addr list, client_init p)) ps)" by simp
  obtain a rs where e: "clients.explained a g rs" and ts: "ts = map snd rs"
    using start_explains [OF ok g0 nl us] clients.executes_explained ex unfolding init by blast
  have gi: "cgi a g" and ti: "\<And>i. i < length rs \<Longrightarrow> cti a g (rs ! i)"
    and tok: "\<And>k. cgtok k a g + sum_list (map (cltok k) rs) = ccap k"
    using e by (auto simp: clients.explained_def)
  define Ls where "Ls = map fst rs"
  have "cltok (Flying w) = (\<lambda>p. count_list (fst p) w)" for w by (auto simp: fun_eq_iff)
  then have fl: "of_bool (gh_status a w \<noteq> InFlight) + count_list (concat Ls) w = 1" for w
    using tok [of "Flying w"] by (simp add: count_list_concat Ls_def comp_def)
  have inL: "w \<in> set (concat Ls) \<longleftrightarrow> gh_status a w = InFlight" for w
    using fl [of w] count_list_0_iff [of "concat Ls" w] by (auto simp: of_bool_def split: if_splits)
  have dL: "distinct (concat Ls)" by (rule distinct_if_counts) (use fl in \<open>metis le_add2\<close>)
  have good: "wl_good g (gh_list a)" and reg: "\<And>w. w \<in> set (gh_list a) \<longleftrightarrow> gh_status a w = Registered"
    using gi by (auto simp: cgi_def)
  have d: "distinct (gh_list a @ concat Ls)"
    using wl_good_head(3) [OF good] dL reg inL by (simp add: disjoint_iff del: set_concat) 
  have each: "in_hands call_ok g (Ls ! i) (cl_pc (ts ! i)) \<and>
      set (cl_hung (ts ! i)) \<subseteq> set (cl_waiters (ts ! i)) \<and>
      (\<forall>w. cl_pc (ts ! i) = Unhanging w (RwDone False) \<longrightarrow> gh_status a w \<in> {InFlight, Called}) \<and>
      accounts a g (ts ! i)" if i: "i < length ts" for i
  proof -
    have kn: "pc_knows a g (Ls ! i) (ts ! i)" and ac: "accounts a g (ts ! i)" and wf: "well_formed (ts ! i)"
      using ti [of i] i by (auto simp: cti_def ts Ls_def)
    have "gh_status a w \<in> {InFlight, Called}" if "cl_pc (ts ! i) = Unhanging w (RwDone False)" for w
    proof -
      have w: "w \<in> set (cl_hung (ts ! i))" "w \<notin> set (gh_list a)" using kn that by (auto simp: pc_knows_def)
      then have "w \<in> set (cl_waiters (ts ! i))" using wf by (auto simp: well_formed_def)
      then show ?thesis using accountsD(1) [OF ac] w that reg [of w] by (force simp: client_expects_def)
    qed
    moreover have "set (cl_hung (ts ! i)) \<subseteq> set (cl_waiters (ts ! i))" using wf by (simp add: well_formed_def)
    moreover have "in_hands call_ok g (Ls ! i) (cl_pc (ts ! i))"
      using kn by (simp add: pc_knows_def in_hands_def split: client_pc.splits)
    ultimately show ?thesis using ac by blast
  qed
  show ?thesis
    by (rule exI [of _ "gh_list a"], rule exI [of _ Ls], rule exI [of _ "gh_status a"])
      (use good reg inL d each in \<open>auto simp: wl_good_def accounts_def ts Ls_def simp del: set_concat\<close>)
qed

end

end
