(* ===== verification/Event_Clients.thy ===== *)
theory Event_Clients
  imports Waiter_Clients Event
begin

text \<open>
  \<^verbatim>\<open>Event\<close> as a waitable of many clients: threads hang waiters into it, take them back, set it and
  reset it, at the same time.
\<close>

section \<open>The event as a waitable\<close>

datatype event_call = CallSet event_set_pc | CallReset | CallReturned

fun Event_call_step :: "event_mem \<Rightarrow> event_call \<Rightarrow> (event_mem \<times> event_call) option" where
  "Event_call_step g (CallSet pc) = map_option (\<lambda>(g', pc'). (g', CallSet pc')) (Event_Set_step g pc)"
| "Event_call_step g CallReset = Some (Event_Reset g, CallReturned)"
| "Event_call_step g CallReturned = None"

fun event_add_answer :: "event_add_pc \<Rightarrow> bool option" where
  "event_add_answer (EvAddDone r) = Some r"
| "event_add_answer _ = None"

definition event_calls :: "(unit, event_add_pc, event_call) waitable_calls" where
  "event_calls = \<lparr>add_entry = EvAddEntry, add_step = Event_AddWaiter_step, add_answer = event_add_answer,
     call_step = Event_call_step, call_over = (\<lambda>c. c \<in> {CallSet SetDone, CallReturned})\<rparr>"

lemma event_calls_simps [simp]:
  "add_entry event_calls = EvAddEntry" "add_step event_calls = Event_AddWaiter_step"
  "add_answer event_calls = event_add_answer" "call_step event_calls = Event_call_step"
  "call_over event_calls c \<longleftrightarrow> c = CallSet SetDone \<or> c = CallReturned"
  by (simp_all add: event_calls_def)

definition event_call_start :: "event_call \<Rightarrow> bool" where
  "event_call_start c \<longleftrightarrow> c = CallSet SetEntry \<or> c = CallReset"

text \<open>The waiters that \<^verbatim>\<open>Set\<close> has taken and not notified yet, in their order.\<close>

fun event_to_notify :: "event_mem \<Rightarrow> addr list \<Rightarrow> event_call \<Rightarrow> bool" where
  "event_to_notify g L (CallSet (SetNotify current)) \<longleftrightarrow> wlist (wnext g) current L"
| "event_to_notify g L (CallSet (SetCall current nxt)) \<longleftrightarrow>
     (\<exists>us. L = current # us \<and> current \<notin> set us \<and> wlist (wnext g) nxt us)"
| "event_to_notify g L _ \<longleftrightarrow> L = []"

fun event_add_knows :: "addr \<Rightarrow> event_mem \<Rightarrow> event_add_pc \<Rightarrow> bool" where
  "event_add_knows w g (EvAddPush head) \<longleftrightarrow> wnext g w = GetPointer head \<and> \<not> user_set head"
| "event_add_knows w g pc \<longleftrightarrow> True"

fun event_add_updates :: "event_add_pc \<Rightarrow> nat" where
  "event_add_updates EvAddEntry = 1"
| "event_add_updates (EvAddTest _) = 1"
| "event_add_updates (EvAddPush _) = 1"
| "event_add_updates _ = 0"

fun event_call_updates :: "event_call \<Rightarrow> nat" where
  "event_call_updates (CallSet SetEntry) = 1"
| "event_call_updates (CallSet (SetTest _)) = 1"
| "event_call_updates _ = 0"

fun event_call_lock :: "event_call \<Rightarrow> nat" where
  "event_call_lock (CallSet pc) = set_holds_lock pc"
| "event_call_lock _ = 0"

section \<open>Its steps\<close>

lemma wver_event_words:
  assumes "wver w + 1 < 2 ^ 16"
  shows "wver (Event_set_word w) = wver w + 1" and "wver (Event_locked_word w) = wver w + 1"
  using assms
  by (simp_all add: wver_bump wver_low wver_clear_ptr Event_set_word_def Event_locked_word_def
      EVENT_SET_BIT_def)

lemma event_add_change:
  assumes st: "Event_AddWaiter_step w g p = Some (g', p')" and no: "event_add_answer p = None"
    and kn: "event_add_knows w g p" and good: "wl_good g ws" and w: "waiter_addr w" "w \<notin> set ws"
    and v: "wver (mWaiters g) + event_add_updates p < 2 ^ 16"
  shows "event_add_knows w g' p' \<and>
    wl_change {w} False g ws g' ((if event_add_answer p' = Some True then [w] else []) @ ws) \<and>
    notified g' = notified g \<and> lock_free (mWaiters g') = lock_free (mWaiters g) \<and>
    wver (mWaiters g') + event_add_updates p' \<le> wver (mWaiters g) + event_add_updates p"
proof (cases p)
  case (EvAddTest h)
  show ?thesis
  proof (cases "user_set h")
    case False
    then have s: "g' = g\<lparr>wnext := (wnext g)(w := GetPointer h)\<rparr>" "p' = EvAddPush h"
      using st EvAddTest by auto
    have "wl_change {w} False g ws g' ws"
      using good w by (auto simp: wl_change_def wl_good_def holds_list_def s fun_upd_apply)
    then show ?thesis using s False EvAddTest by simp
  qed (use st EvAddTest good in auto)
next
  case (EvAddPush h)
  have al: "aligned w" using w by (simp add: waiter_addr_def)
  show ?thesis
  proof (cases "mWaiters g = h")
    case True
    then have s: "g' = g\<lparr>mWaiters := SetPointer h w + ABA_ADDEND\<rparr>" "p' = EvAddDone True"
      using st EvAddPush al by (auto simp: cas_head_if)
    have ver: "wver (SetPointer h w + ABA_ADDEND) = wver (mWaiters g) + 1"
      using v EvAddPush True al by (simp add: wver_words)
    have "wl_good g' (w # ws)"
      using good kn EvAddPush True w al
      by (simp add: wl_good_def holds_list_def s word_packing waiter_addr_def)
    then have "wl_change {w} False g ws g' (w # ws)"
      using ver by (auto simp: wl_change_def s)
    then show ?thesis using s ver EvAddPush True al by (simp add: lock_free_def word_packing)
  next
    case False
    then show ?thesis using st EvAddPush al good by (auto simp: cas_head_if)
  qed
qed (use st good no in auto)

lemma event_set_change:
  assumes st: "Event_Set_step g pc = Some (g', pc')" and kn: "event_to_notify g L (CallSet pc)"
    and good: "wl_good g ws" and L: "set L \<inter> set ws = {}" "distinct L"
    and lk: "lock_free (mWaiters g) + set_holds_lock pc \<le> 1"
    and v: "wver (mWaiters g) + event_call_updates (CallSet pc) < 2 ^ 16"
  shows "\<exists>ws' L'. event_to_notify g' L' (CallSet pc') \<and> wl_change {} (set_holds_lock pc = 1) g ws g' ws' \<and>
    (ws' = ws \<and> (\<exists>w. L = w # L' \<and> notified g' = w # notified g) \<or>
     notified g' = notified g \<and> (\<exists>us. ws = us @ ws' \<and> L' = us @ L)) \<and>
    lock_free (mWaiters g') + set_holds_lock pc' = lock_free (mWaiters g) + set_holds_lock pc \<and>
    wver (mWaiters g') + event_call_updates (CallSet pc') \<le> wver (mWaiters g) + event_call_updates (CallSet pc)"
proof (cases pc)
  case (SetTest h)
  have L: "L = []" using kn SetTest by simp
  show ?thesis
  proof (cases "mWaiters g = h \<and> \<not> user_set h \<and> \<not> lock_set h")
    case False
    then have "g' = g" "event_to_notify g [] (CallSet pc')" "set_holds_lock pc' = 0"
      "event_call_updates (CallSet pc') \<le> 1"
      using st SetTest by (auto simp: cas_head_if split: if_splits)
    then show ?thesis using good SetTest L by (intro exI [of _ ws] exI [of _ "[]"]) simp
  next
    case True
    show ?thesis
    proof (cases "GetPointer h = 0")
      case p: True
      have s: "g' = g\<lparr>mWaiters := Event_set_word h\<rparr>" "pc' = SetDone"
        using st SetTest True p by (auto simp: cas_head_if)
      have ws: "ws = []" using wl_good_head(1) [OF good] True p by simp
      have ver: "wver (Event_set_word h) = wver h + 1" using v SetTest True by (simp add: wver_event_words)
      have "wl_change {} False g ws g' ws" unfolding s
        by (rule head_change [OF good]) (use True ver ws in \<open>simp_all add: word_packing\<close>)
      then show ?thesis using s ver True SetTest L
        by (intro exI [of _ ws] exI [of _ "[]"]) (simp add: lock_free_def word_packing)
    next
      case p: False
      have s: "g' = g\<lparr>mWaiters := Event_locked_word h\<rparr>" "pc' = SetNotify (GetPointer h)"
        using st SetTest True p by (auto simp: cas_head_if)
      have ver: "wver (Event_locked_word h) = wver h + 1"
        using v SetTest True by (simp add: wver_event_words)
      have "wl_change {} False g ws g' []" using good True ver
        by (auto simp: wl_change_def wl_good_def holds_list_def s word_packing)
      moreover have "wlist (wnext g') (GetPointer h) ws"
        using good True by (simp add: wl_good_def holds_list_def s)
      ultimately show ?thesis using s ver True SetTest L
        by (intro exI [of _ "[]"] exI [of _ ws]) (simp add: lock_free_def word_packing)
    qed
  qed
next
  case (SetNotify c)
  have l: "wlist (wnext g) c L" using kn SetNotify by simp
  show ?thesis
  proof (cases "c = 0")
    case True
    then show ?thesis using st SetNotify good l by (intro exI [of _ ws] exI [of _ "[]"]) auto
  next
    case False
    then obtain us where "L = c # us" "wlist (wnext g) (wnext g c) us" using l by (auto simp: wlist_nonnull)
    then show ?thesis using st SetNotify good L False
      by (intro exI [of _ ws] exI [of _ L]) auto
  qed
next
  case (SetCall c n)
  then obtain us where "L = c # us" "wlist (wnext g) n us" using kn by auto
  moreover have "wl_change {} True g ws g' ws" using st SetCall good
    by (auto simp: wl_change_def wl_good_def holds_list_def)
  ultimately show ?thesis using st SetCall by (intro exI [of _ ws] exI [of _ us]) auto
next
  case SetUnlock
  have lock: "lock_set (mWaiters g)" using lk SetUnlock by (simp add: lock_free_def split: if_splits)
  have "wl_change {} True g ws (WaiterList_Unlock g) ws"
    unfolding WaiterList_Unlock_def
    by (rule head_change [OF good]) (use good lock in \<open>auto simp: AtomicAnd_def
        sync_fetch_and_def word_packing wver_low wl_good_def\<close>)
  then show ?thesis using st SetUnlock kn lock
    by (intro exI [of _ ws] exI [of _ "[]"]) (auto simp: step_simps lock_free_def word_packing wver_low)
qed (use st kn good in auto)

lemma clear_clear_user: "\<not> user_set w \<Longrightarrow> w AND NOT USER_FLAG_BIT = w"
  unfolding user_set_def by (rule bit_word_eqI) (auto simp: bit_simps bit_eq_iff)

lemma event_reset_change:
  assumes good: "wl_good g ws"
  shows "wl_change {} k g ws (Event_Reset g) ws"
proof -
  have "Event_Reset g = g\<lparr>mWaiters := mWaiters g AND NOT USER_FLAG_BIT\<rparr>"
    by (simp add: Event_Reset_def AtomicAnd_def sync_fetch_and_def EVENT_SET_BIT_def)
  then show ?thesis
    using head_change [OF good, of "mWaiters g AND NOT USER_FLAG_BIT" "{}" k] good
    by (simp add: word_packing wver_low clear_clear_user wl_good_def)
qed

interpretation evc: listed_waiters event_calls event_add_knows event_add_updates event_to_notify
  event_call_updates event_call_lock event_call_start True
proof (unfold_locales, goal_cases)
  case (1 w g)
  then show ?case by simp
next
  case (2 w g p g' p' ws)
  then show ?case using event_add_change [of w g p g' p' ws] by simp
next
  case (3 w g p g')
  then show ?case by (cases p) auto
next
  case (4 c g)
  then show ?case by (auto simp: event_call_start_def)
next
  case (5 g c g' c' L ws)
  show ?case
  proof (cases c)
    case (CallSet pc)
    then obtain pc' where "Event_Set_step g pc = Some (g', pc')" "c' = CallSet pc'" using 5 by auto
    then show ?thesis using event_set_change [of g pc g' pc' L ws] 5 CallSet by simp
  next
    case CallReset
    then show ?thesis using 5 event_reset_change [of g ws False]
      by (intro exI [of _ ws] exI [of _ "[]"]) (auto simp: step_simps word_packing lock_free_def wver_low)
  qed (use 5 in simp)
next
  case (6 g L c g')
  have "wlist (wnext g') p us = wlist (wnext g) p us" if "set us \<subseteq> set L" for p us
    by (rule wlist_cong) (use 6(2) that in auto)
  then show ?case using 6(1) subset_insertI
    by (cases "(g, L, c)" rule: event_to_notify.cases) (auto simp: subset_insertI)
next
  case (7 c g L)
  then show ?case by auto
qed

section \<open>Correctness\<close>

text \<open>An event with its clients, from the beginning.\<close>

definition event_clients_run ::
  "bool \<Rightarrow> (event_call client_op list \<times> addr list) list \<Rightarrow> event_mem \<Rightarrow>
   (event_add_pc, event_call) client list \<Rightarrow> bool" where
  "event_clients_run initialState ps g ts \<longleftrightarrow> clients_ok event_call_start ps \<and>
     (\<exists>nx. all_aligned nx \<and>
        executes (client_step event_calls) (Event_init initialState nx, map client_init ps) (g, ts))"

lemma wver_init: "wver 0 = 0" "wver EVENT_SET_BIT = 0"
  by (simp_all add: wver_def version_def EVENT_SET_BIT_def USER_FLAG_BIT_def)

lemma event_clients_places:
  assumes "event_clients_run b ps g ts"
  shows "\<exists>ws Ls st. holds_list g ws \<and> (Event_IsSet g \<longrightarrow> ws = []) \<and> distinct (ws @ concat Ls) \<and>
    (\<forall>w. (w \<in> set ws \<longleftrightarrow> st w = Registered) \<and> (w \<in> set (concat Ls) \<longleftrightarrow> st w = InFlight)) \<and>
    length Ls = length ts \<and>
    (\<forall>i < length ts. in_hands event_to_notify g (Ls ! i) (cl_pc (ts ! i)) \<and>
      set (cl_hung (ts ! i)) \<subseteq> set (cl_waiters (ts ! i)) \<and>
      (\<forall>w. cl_pc (ts ! i) = Unhanging w (RwDone False) \<longrightarrow> st w \<in> {InFlight, Called}) \<and>
      (\<forall>w \<in> set (cl_waiters (ts ! i)). st w \<in> client_expects event_add_answer (ts ! i) w \<and>
         count_list (notified g) w = count_list (cl_awaited (ts ! i)) w + of_bool (st w = Called)))"
proof -
  obtain nx where nx: "all_aligned nx" and ok: "clients_ok event_call_start ps"
    and ex: "executes (client_step event_calls) (Event_init b nx, map client_init ps) (g, ts)"
    using assms by (auto simp: event_clients_run_def)
  have "wl_good (Event_init b nx) []" "notified (Event_init b nx) = []"
    "wver (mWaiters (Event_init b nx)) = 0" "\<not> lock_set (mWaiters (Event_init b nx))"
    using nx by (cases b; simp add: wl_good_def holds_list_def Event_init_def wver_init)+
  then show ?thesis using evc.clients_exact [OF ok _ _ _ _ _ ex] by (simp add: Event_IsSet_eq)
qed

text \<open>Claim C2.
  However many threads hang waiters into an \<^verbatim>\<open>Event\<close>, take them back, set and reset it at the same
  time, with fewer than 2^16 operations in all, the event is the waitable that the wait functions
  take for granted.  Every waiter has one status: the registered ones are those in the list, each
  once; the waiters in flight are those that some call of \<^verbatim>\<open>Set\<close> has taken and not notified, each
  with one of them; a waiter was called once more than its owner has waited for exactly when its
  callback is new.  A waiter that \<^verbatim>\<open>AddWaiter\<close> accepted is registered, in flight or called; one that
  it refused, or that does not hang, is nowhere.  \<^verbatim>\<open>RemoveWaiter\<close> answers true when it took the
  waiter and nobody will call it, false when its callback has run or will.\<close>

theorem event_implements_waitable:
  assumes "event_clients_run initialState ps g ts"
  shows "\<exists>ws Ls st. holds_list g ws \<and> (Event_IsSet g \<longrightarrow> ws = []) \<and> distinct (ws @ concat Ls) \<and>
    (\<forall>w. (w \<in> set ws \<longleftrightarrow> st w = Registered) \<and> (w \<in> set (concat Ls) \<longleftrightarrow> st w = InFlight)) \<and>
    length Ls = length ts \<and>
    (\<forall>i < length ts. in_hands event_to_notify g (Ls ! i) (cl_pc (ts ! i)) \<and>
      set (cl_hung (ts ! i)) \<subseteq> set (cl_waiters (ts ! i)) \<and>
      (\<forall>w. cl_pc (ts ! i) = Unhanging w (RwDone False) \<longrightarrow> st w \<in> {InFlight, Called}) \<and>
      (\<forall>w \<in> set (cl_waiters (ts ! i)). st w \<in> client_expects event_add_answer (ts ! i) w \<and>
         count_list (notified g) w = count_list (cl_awaited (ts ! i)) w + of_bool (st w = Called)))"
  by (rule event_clients_places [OF assms])

text \<open>Thread 0 hangs the waiter 8, thread 1 calls \<^verbatim>\<open>Set\<close>.\<close>

definition event_clients_demo :: "(event_call client_op list \<times> addr list) list" where
  "event_clients_demo = [([Hang 8, Await 8], [8]), ([Call (CallSet SetEntry)], [])]"

lemma event_clients_demo_run:
  assumes "run_sched (client_step event_calls) sched
    (Event_init False (\<lambda>_. 0), map client_init event_clients_demo) = Some (g, ts)"
  shows "event_clients_run False event_clients_demo g ts"
proof -
  have "clients_ok event_call_start event_clients_demo"
    by (simp add: clients_ok_def event_clients_demo_def event_call_start_def waiter_addr_def view_eval)
  moreover have "all_aligned (\<lambda>_. 0)" by (simp add: all_aligned_def)
  ultimately show ?thesis using run_sched_executes [OF assms] unfolding event_clients_run_def by blast
qed

text \<open>\<^verbatim>\<open>Set\<close> has taken the waiter and not yet called it.\<close>

theorem event_implements_waitable_witness:
  "\<exists>g ts ws Ls st. event_clients_run False event_clients_demo g ts \<and>
     cl_pc (ts ! 1) = Calling (CallSet (SetCall 8 0)) \<and> cl_hung (ts ! 0) = [8] \<and>
     holds_list g ws \<and> 8 \<notin> set ws \<and> Ls ! 1 = [8 :: addr] \<and> st (8 :: addr) = InFlight \<and>
     in_hands event_to_notify g (Ls ! 1) (cl_pc (ts ! 1)) \<and> st 8 \<in> client_expects event_add_answer (ts ! 0) 8"
proof -
  obtain g ts where run: "run_sched (client_step event_calls) [0,0,0,0,0, 1,1,1,1]
      (Event_init False (\<lambda>_. 0), map client_init event_clients_demo) = Some (g, ts)"
    and pc: "cl_pc (ts ! 1) = Calling (CallSet (SetCall 8 0))" "cl_hung (ts ! 0) = [8]"
    "cl_waiters (ts ! 0) = [8]" "length ts = 2"
    by (auto simp: event_clients_demo_def client_init_def client_step_def Event_init_def cas_head_if
        Event_locked_word_def view_eval EVENT_SET_BIT_def)
  note r = event_clients_demo_run [OF run]
  obtain ws Ls st where *: "holds_list g ws" "distinct (ws @ concat Ls)" "length Ls = length ts"
    "\<forall>w. (w \<in> set ws \<longleftrightarrow> st w = Registered) \<and> (w \<in> set (concat Ls) \<longleftrightarrow> st w = InFlight)"
    and each: "\<forall>i < length ts. in_hands event_to_notify g (Ls ! i) (cl_pc (ts ! i)) \<and>
      (\<forall>w \<in> set (cl_waiters (ts ! i)). st w \<in> client_expects event_add_answer (ts ! i) w)"
    using event_implements_waitable [OF r] by blast
  have hands: "in_hands event_to_notify g (Ls ! 1) (cl_pc (ts ! 1))"
    and ex: "st 8 \<in> client_expects event_add_answer (ts ! 0) 8" using each [rule_format, of 1] each [rule_format, of 0] pc by simp_all
  have L: "Ls ! 1 = [8]" using hands pc(1) by (auto simp: in_hands_def)
  moreover have "Ls ! 1 \<in> set Ls" using * pc by simp
  ultimately have "8 \<in> set (concat Ls)" by (metis concat.simps in_set_conv_nth list.set_intros(1) UN_I set_concat)
  then have "st 8 = InFlight" "8 \<notin> set ws" using * by auto
  then show ?thesis using r pc *(1) L hands ex by blast
qed

text \<open>Claim C8.
  When a client waits for the callback of a waiter that it hung, nobody is inside \<^verbatim>\<open>Set\<close>, and the
  client cannot go on, then the event is not set and the waiter is in its list, where the next
  \<^verbatim>\<open>Set\<close> finds it: no wake-up is lost, whatever the interleaving with the threads that add, remove,
  set and reset.\<close>

theorem event_clients_no_lost_wakeup:
  assumes "event_clients_run initialState ps g ts" and "i < length ts"
    and "cl_pc (ts ! i) = Resting" and "cl_script (ts ! i) = Await w # ops"
    and "client_step event_calls g (ts ! i) = None"
    and "\<forall>t \<in> set ts. \<forall>pc. cl_pc t \<noteq> Calling (CallSet pc)"
  shows "\<not> Event_IsSet g \<and> (\<exists>ws. holds_list g ws \<and> w \<in> set ws)"
proof -
  obtain ws Ls st where l: "holds_list g ws" "Event_IsSet g \<longrightarrow> ws = []" and len: "length Ls = length ts"
    and st: "\<forall>w. (w \<in> set ws \<longleftrightarrow> st w = Registered) \<and> (w \<in> set (concat Ls) \<longleftrightarrow> st w = InFlight)"
    and each: "\<forall>i < length ts. in_hands event_to_notify g (Ls ! i) (cl_pc (ts ! i)) \<and>
      set (cl_hung (ts ! i)) \<subseteq> set (cl_waiters (ts ! i)) \<and>
      (\<forall>w \<in> set (cl_waiters (ts ! i)). st w \<in> client_expects event_add_answer (ts ! i) w \<and>
         count_list (notified g) w = count_list (cl_awaited (ts ! i)) w + of_bool (st w = Called))"
    using event_clients_places [OF assms(1)] by blast
  have hung: "w \<in> set (cl_hung (ts ! i))" and nc: "\<not> was_called g (ts ! i) w"
    using assms(3-5) by (auto simp: client_step_def was_called_def split: if_splits)
  have wt: "w \<in> set (cl_waiters (ts ! i))" using each assms(2) hung by auto
  have "Ls ! j = []" if "j < length Ls" for j
    using each assms(6) that len nth_mem [of j ts]
    by (cases "cl_pc (ts ! j)"; cases "(g, Ls ! j, case cl_pc (ts ! j) of Calling c \<Rightarrow> c)" rule: event_to_notify.cases) (auto simp: in_hands_def)
  then have "w \<notin> set (concat Ls)" by (auto simp: in_set_conv_nth)
  then have "st w \<noteq> InFlight" using st by blast
  moreover have "st w \<in> client_expects event_add_answer (ts ! i) w"
    and "count_list (notified g) w = count_list (cl_awaited (ts ! i)) w + of_bool (st w = Called)"
    using each assms(2) wt by blast+
  then have "st w \<in> hanging" "st w \<noteq> Called"
    using assms(3) hung nc by (auto simp: client_expects_def was_called_def)
  ultimately have "w \<in> set ws" using st by auto
  then show ?thesis using l by auto
qed

text \<open>Thread 0 has hung its waiter and waits.\<close>

theorem event_clients_no_lost_wakeup_witness:
  "\<exists>g ts. event_clients_run False event_clients_demo g ts \<and> cl_script (ts ! 0) = [Await 8] \<and>
     \<not> Event_IsSet g \<and> (\<exists>ws. holds_list g ws \<and> 8 \<in> set ws)"
proof -
  obtain g ts where run: "run_sched (client_step event_calls) [0,0,0,0,0]
      (Event_init False (\<lambda>_. 0), map client_init event_clients_demo) = Some (g, ts)"
    and pc: "cl_pc (ts ! 0) = Resting" "cl_script (ts ! 0) = [Await 8]" "length ts = 2"
    and stuck: "client_step event_calls g (ts ! 0) = None"
    and others: "\<forall>t \<in> set ts. \<forall>pc. cl_pc t \<noteq> Calling (CallSet pc)"
    by (auto simp: event_clients_demo_def client_init_def client_step_def Event_init_def cas_head_if
        was_called_def view_eval)
  note r = event_clients_demo_run [OF run]
  have "\<not> Event_IsSet g \<and> (\<exists>ws. holds_list g ws \<and> 8 \<in> set ws)"
    using event_clients_no_lost_wakeup [OF r _ pc(1,2) stuck others] pc(3) by simp
  then show ?thesis using r pc by blast
qed

end
