(* ===== verification/Semaphore_Clients.thy ===== *)
theory Semaphore_Clients
  imports Waiter_Clients Semaphore
begin

text \<open>
  \<^verbatim>\<open>Semaphore\<close> as a waitable of many clients: threads hang waiters into it, take them back and post
  it, at the same time.  The places of the waiters are exact, as those of an event are; which posts
  find a waiter is another matter, see theory Semaphore.
\<close>

section \<open>The semaphore as a waitable\<close>

fun sem_add_answer :: "sem_add_pc \<Rightarrow> bool option" where
  "sem_add_answer (SemAddDone r) = Some r"
| "sem_add_answer _ = None"

definition sem_calls :: "(unit sem_mem_ext, sem_add_pc, sem_post_pc) waitable_calls" where
  "sem_calls = \<lparr>add_entry = SemAddEntry, add_step = Semaphore_AddWaiter_step,
     add_answer = sem_add_answer, call_step = Semaphore_Post_step, call_over = (\<lambda>c. c = PostDone)\<rparr>"

lemma sem_calls_simps [simp]:
  "add_entry sem_calls = SemAddEntry" "add_step sem_calls = Semaphore_AddWaiter_step"
  "add_answer sem_calls = sem_add_answer" "call_step sem_calls = Semaphore_Post_step"
  "call_over sem_calls c \<longleftrightarrow> c = PostDone"
  by (simp_all add: sem_calls_def)

definition sem_call_start :: "sem_post_pc \<Rightarrow> bool" where
  "sem_call_start c \<longleftrightarrow> c = PostEntry"

text \<open>The waiter that \<^verbatim>\<open>Post\<close> has taken and not notified yet, and what it knows of the head.\<close>

fun sem_to_notify :: "sem_mem \<Rightarrow> addr list \<Rightarrow> sem_post_pc \<Rightarrow> bool" where
  "sem_to_notify g L (PostTest head) \<longleftrightarrow> L = [] \<and> seen_head g head"
| "sem_to_notify g L (PostPop head nxt) \<longleftrightarrow> L = [] \<and> seen_next g head nxt"
| "sem_to_notify g L (PostNotify w) \<longleftrightarrow> L = [w]"
| "sem_to_notify g L PostAssert \<longleftrightarrow> False"
| "sem_to_notify g L _ \<longleftrightarrow> L = []"

fun sem_add_knows :: "addr \<Rightarrow> sem_mem \<Rightarrow> sem_add_pc \<Rightarrow> bool" where
  "sem_add_knows w g (SemAddTest head) \<longleftrightarrow> \<not> user_set head"
| "sem_add_knows w g (SemAddPush head) \<longleftrightarrow> wnext g w = GetPointer head \<and> \<not> user_set head"
| "sem_add_knows w g pc \<longleftrightarrow> True"

fun sem_add_updates :: "sem_add_pc \<Rightarrow> nat" where
  "sem_add_updates (SemAddDone _) = 0"
| "sem_add_updates SemAddAssert = 0"
| "sem_add_updates _ = 1"

fun sem_post_updates :: "sem_post_pc \<Rightarrow> nat" where
  "sem_post_updates (PostNotify _) = 0"
| "sem_post_updates PostDone = 0"
| "sem_post_updates PostAssert = 0"
| "sem_post_updates _ = 1"

section \<open>Its steps\<close>

lemma same_list_change:
  "mWaiters g' = mWaiters g \<Longrightarrow> wnext g' = wnext g \<Longrightarrow> wl_good g ws \<Longrightarrow> wl_change A k g ws g' ws"
  by (simp add: wl_change_def wl_good_def holds_list_def)

lemma sem_add_change:
  assumes st: "Semaphore_AddWaiter_step w g p = Some (g', p')" and no: "sem_add_answer p = None"
    and kn: "sem_add_knows w g p" and good: "wl_good g ws" and nu: "\<not> user_set (mWaiters g)"
    and w: "waiter_addr w" "w \<notin> set ws" and v: "wver (mWaiters g) + sem_add_updates p < 2 ^ 16"
  shows "sem_add_knows w g' p' \<and> \<not> user_set (mWaiters g') \<and>
    wl_change {w} False g ws g' ((if sem_add_answer p' = Some True then [w] else []) @ ws) \<and>
    notified g' = notified g \<and> lock_free (mWaiters g') = lock_free (mWaiters g) \<and>
    wver (mWaiters g') + sem_add_updates p' \<le> wver (mWaiters g) + sem_add_updates p"
proof (cases p)
  case SemAddEntry
  then have "mWaiters g' = mWaiters g" "wnext g' = wnext g" "notified g' = notified g"
    "p' = SemAddDone False \<or> p' = SemAddLoad"
    using st by (auto simp: Let_def split: prod.splits if_splits)
  then show ?thesis using same_list_change [of g' g ws] good nu SemAddEntry by auto
next
  case (SemAddTest h)
  then have s: "g' = g\<lparr>wnext := (wnext g)(w := GetPointer h)\<rparr>" "p' = SemAddPush h"
    using st by auto
  have "wl_change {w} False g ws g' ws"
    using good w by (auto simp: wl_change_def wl_good_def holds_list_def s fun_upd_apply)
  then show ?thesis using s kn nu SemAddTest by simp
next
  case (SemAddPush h)
  have al: "aligned w" using w by (simp add: waiter_addr_def)
  show ?thesis
  proof (cases "mWaiters g = h")
    case True
    then have s: "g' = g\<lparr>mWaiters := SetPointer h w + ABA_ADDEND\<rparr>" "p' = SemAddDone True"
      using st SemAddPush al by (auto simp: cas_head_if)
    have ver: "wver (SetPointer h w + ABA_ADDEND) = wver (mWaiters g) + 1"
      using v SemAddPush True al by (simp add: wver_words)
    have "wl_good g' (w # ws)"
      using good kn SemAddPush True w al
      by (simp add: wl_good_def holds_list_def s word_packing waiter_addr_def)
    then have "wl_change {w} False g ws g' (w # ws)" using ver by (auto simp: wl_change_def s)
    then show ?thesis using s ver SemAddPush True al nu by (simp add: lock_free_def word_packing)
  next
    case False
    then show ?thesis using st SemAddPush al good nu by (auto simp: cas_head_if)
  qed
qed (use st good no nu in auto)

lemma sem_post_change:
  assumes st: "Semaphore_Post_step g c = Some (g', c')" and kn: "sem_to_notify g L c"
    and good: "wl_good g ws" and nu: "\<not> user_set (mWaiters g)"
    and v: "wver (mWaiters g) + sem_post_updates c < 2 ^ 16"
  shows "\<exists>ws' L'. sem_to_notify g' L' c' \<and> wl_change {} k g ws g' ws' \<and> \<not> user_set (mWaiters g') \<and>
    (ws' = ws \<and> (\<exists>w. L = w # L' \<and> notified g' = w # notified g) \<or>
     notified g' = notified g \<and> (\<exists>us. ws = us @ ws' \<and> L' = us @ L)) \<and>
    lock_free (mWaiters g') = lock_free (mWaiters g) \<and>
    wver (mWaiters g') + sem_post_updates c' \<le> wver (mWaiters g) + sem_post_updates c"
proof (cases c)
  case PostEntry
  then have "mWaiters g' = mWaiters g" "wnext g' = wnext g" "notified g' = notified g"
    "c' = PostDone \<or> c' = PostLoad"
    using st by (auto simp: Let_def split: prod.splits if_splits)
  then show ?thesis using same_list_change [of g' g ws] good nu kn PostEntry
    by (intro exI [of _ ws] exI [of _ "[]"]) auto
next
  case PostLoad
  then show ?thesis using st kn good nu wl_good_head(5) [OF good]
    by (intro exI [of _ ws] exI [of _ "[]"]) auto
next
  case (PostTest h)
  have L: "L = []" "seen_head g h" using kn PostTest by auto
  have "mWaiters g' = mWaiters g" "wnext g' = wnext g" "notified g' = notified g"
    "sem_to_notify g' [] c'" "sem_post_updates c' \<le> 1"
    using st PostTest L seen_head_next [OF good L(2)] by (auto split: if_splits)
  then show ?thesis using same_list_change [of g' g ws] good nu L PostTest
    by (intro exI [of _ ws] exI [of _ "[]"]) simp
next
  case (PostPop h n)
  have L: "L = []" "seen_next g h n" and al: "aligned n" using kn PostPop by (auto simp: seen_next_def)
  show ?thesis
  proof (cases "mWaiters g = h")
    case True
    then have s: "g' = g\<lparr>mWaiters := SetPointer h n + ABA_ADDEND\<rparr>" "c' = PostNotify (GetPointer h)"
      using st PostPop al by (auto simp: cas_head_if)
    have v1: "wver (mWaiters g) + 1 < 2 ^ 16" using v PostPop by simp
    note pop = rw_pop [OF good L(2) True v1]
    obtain us where "ws = GetPointer h # us" "wl_change {} k g ws g' us"
      using pop(1) [of k] unfolding s by blast
    then show ?thesis using pop(2,3) s L True nu al PostPop
      by (intro exI [of _ us] exI [of _ "[GetPointer h]"]) (simp add: word_packing)
  next
    case False
    then show ?thesis using st PostPop al L good nu wl_good_head(5) [OF good]
      by (intro exI [of _ ws] exI [of _ "[]"]) (auto simp: cas_head_if)
  qed
next
  case (PostNotify w)
  have "wl_change {} k g ws g' ws" using st PostNotify good by (intro same_list_change) auto
  then show ?thesis using st PostNotify kn nu by (intro exI [of _ ws] exI [of _ "[]"]) auto
qed (use st in auto)

interpretation semc: listed_waiters sem_calls sem_add_knows sem_add_updates sem_to_notify
  sem_post_updates "\<lambda>_. 0" sem_call_start False
proof (unfold_locales, goal_cases)
  case (1 w g)
  then show ?case by simp
next
  case (2 w g p g' p' ws)
  then show ?case using sem_add_change [of w g p g' p' ws] by simp
next
  case (3 w g p g')
  then show ?case by (cases p) auto
next
  case (4 c g)
  then show ?case by (simp add: sem_call_start_def)
next
  case (5 g c g' c' L ws)
  then show ?case using sem_post_change [of g c g' c' L ws False] by simp
next
  case (6 g L c g')
  then show ?case by (cases c) auto
next
  case (7 c g L)
  then show ?case by simp
qed

section \<open>Correctness\<close>

definition sem_clients_run ::
  "u32 \<Rightarrow> (sem_post_pc client_op list \<times> addr list) list \<Rightarrow> sem_mem \<Rightarrow>
   (sem_add_pc, sem_post_pc) client list \<Rightarrow> bool" where
  "sem_clients_run initialCount ps g ts \<longleftrightarrow> clients_ok sem_call_start ps \<and>
     (\<exists>nx. all_aligned nx \<and>
        executes (client_step sem_calls) (Semaphore_init initialCount nx, map client_init ps) (g, ts))"

lemma sem_clients_places:
  assumes "sem_clients_run n ps g ts"
  shows "\<exists>ws Ls st. holds_list g ws \<and> distinct (ws @ concat Ls) \<and>
    (\<forall>w. (w \<in> set ws \<longleftrightarrow> st w = Registered) \<and> (w \<in> set (concat Ls) \<longleftrightarrow> st w = InFlight)) \<and>
    length Ls = length ts \<and>
    (\<forall>i < length ts. in_hands sem_to_notify g (Ls ! i) (cl_pc (ts ! i)) \<and>
      set (cl_hung (ts ! i)) \<subseteq> set (cl_waiters (ts ! i)) \<and>
      (\<forall>w. cl_pc (ts ! i) = Unhanging w (RwDone False) \<longrightarrow> st w \<in> {InFlight, Called}) \<and>
      (\<forall>w \<in> set (cl_waiters (ts ! i)). st w \<in> client_expects sem_add_answer (ts ! i) w \<and>
         count_list (notified g) w = count_list (cl_awaited (ts ! i)) w + of_bool (st w = Called)))"
proof -
  obtain nx where nx: "all_aligned nx" and ok: "clients_ok sem_call_start ps"
    and ex: "executes (client_step sem_calls) (Semaphore_init n nx, map client_init ps) (g, ts)"
    using assms by (auto simp: sem_clients_run_def)
  have init: "wl_good (Semaphore_init n nx) []" "notified (Semaphore_init n nx) = []"
    "wver (mWaiters (Semaphore_init n nx)) = 0" "\<not> lock_set (mWaiters (Semaphore_init n nx))"
    "user_set (mWaiters (Semaphore_init n nx)) \<longrightarrow> False"
    using nx by (simp_all add: wl_good_def holds_list_def Semaphore_init_def wver_def version_def)
  show ?thesis
    using semc.clients_exact [OF ok init ex] unfolding sem_calls_simps
    by (elim exE conjE) (intro exI conjI; assumption)
qed

text \<open>Claim C4.
  However many threads hang waiters into a \<^verbatim>\<open>Semaphore\<close>, take them back and post it at the same time,
  with fewer than 2^16 operations in all, every waiter has one status, as in theory Wait_Functions:
  the registered ones are those in the list, each once; those in flight are in the hands of one \<^verbatim>\<open>Post\<close>
  that has taken them; a waiter was called once more than its owner has waited for exactly when its
  callback is new.  \<^verbatim>\<open>RemoveWaiter\<close> answers true when it took the waiter and nobody will call it, false
  when its callback has run or will.\<close>

theorem semaphore_implements_waitable:
  assumes "sem_clients_run initialCount ps g ts"
  shows "\<exists>ws Ls st. holds_list g ws \<and> distinct (ws @ concat Ls) \<and>
    (\<forall>w. (w \<in> set ws \<longleftrightarrow> st w = Registered) \<and> (w \<in> set (concat Ls) \<longleftrightarrow> st w = InFlight)) \<and>
    length Ls = length ts \<and>
    (\<forall>i < length ts. in_hands sem_to_notify g (Ls ! i) (cl_pc (ts ! i)) \<and>
      set (cl_hung (ts ! i)) \<subseteq> set (cl_waiters (ts ! i)) \<and>
      (\<forall>w. cl_pc (ts ! i) = Unhanging w (RwDone False) \<longrightarrow> st w \<in> {InFlight, Called}) \<and>
      (\<forall>w \<in> set (cl_waiters (ts ! i)). st w \<in> client_expects sem_add_answer (ts ! i) w \<and>
         count_list (notified g) w = count_list (cl_awaited (ts ! i)) w + of_bool (st w = Called)))"
  by (rule sem_clients_places [OF assms])

text \<open>Thread 1 has taken the waiter of thread 0 and not yet called it.\<close>

definition sem_clients_demo :: "(sem_post_pc client_op list \<times> addr list) list" where
  "sem_clients_demo = [([Hang 8, Await 8], [8]), ([Call PostEntry], [])]"

theorem semaphore_implements_waitable_witness:
  "\<exists>g ts ws Ls st. sem_clients_run 0 sem_clients_demo g ts \<and>
     cl_pc (ts ! 1) = Calling (PostNotify 8) \<and> cl_hung (ts ! 0) = [8] \<and>
     holds_list g ws \<and> 8 \<notin> set ws \<and> Ls ! 1 = [8 :: addr] \<and> st (8 :: addr) = InFlight \<and>
     st 8 \<in> client_expects sem_add_answer (ts ! 0) 8"
proof -
  obtain g ts where run: "run_sched (client_step sem_calls) [0,0,0,0,0,0, 1,1,1,1,1]
      (Semaphore_init 0 (\<lambda>_. 0), map client_init sem_clients_demo) = Some (g, ts)"
    and pc: "cl_pc (ts ! 1) = Calling (PostNotify 8)" "cl_hung (ts ! 0) = [8]"
    "cl_waiters (ts ! 0) = [8]" "length ts = 2"
    by (auto simp: sem_clients_demo_def client_init_def client_step_def Semaphore_init_def cas_head_if
        linux_defs view_eval)
  have "clients_ok sem_call_start sem_clients_demo"
    by (simp add: clients_ok_def sem_clients_demo_def sem_call_start_def waiter_addr_def view_eval)
  moreover have "all_aligned (\<lambda>_. 0)" by (simp add: all_aligned_def)
  ultimately have r: "sem_clients_run 0 sem_clients_demo g ts"
    using run_sched_executes [OF run] unfolding sem_clients_run_def by blast
  obtain ws Ls st where *: "holds_list g ws" "distinct (ws @ concat Ls)" "length Ls = length ts"
    "\<forall>w. (w \<in> set ws \<longleftrightarrow> st w = Registered) \<and> (w \<in> set (concat Ls) \<longleftrightarrow> st w = InFlight)"
    and each: "\<forall>i < length ts. in_hands sem_to_notify g (Ls ! i) (cl_pc (ts ! i)) \<and>
      (\<forall>w \<in> set (cl_waiters (ts ! i)). st w \<in> client_expects sem_add_answer (ts ! i) w)"
    using semaphore_implements_waitable [OF r] by blast
  have hands: "in_hands sem_to_notify g (Ls ! 1) (cl_pc (ts ! 1))"
    and ex: "st 8 \<in> client_expects sem_add_answer (ts ! 0) 8"
    using each [rule_format, of 1] each [rule_format, of 0] pc by simp_all
  have L: "Ls ! 1 = [8]" using hands pc(1) by (simp add: in_hands_def)
  moreover have "Ls ! 1 \<in> set Ls" using * pc by simp
  ultimately have "8 \<in> set (concat Ls)" by (metis list.set_intros(1) UN_I set_concat)
  then have "st 8 = InFlight" "8 \<notin> set ws" using * by auto
  then show ?thesis using r pc *(1) L ex by blast
qed

end
