(* ===== verification/Spec2Isabelle.thy ===== *)
theory Spec2Isabelle
  imports Mutex Event Semaphore Lifo_List System_Sync Meta_Threads Thread_Pool Future Waiter_Alloc Processors
    Backoff Versioned_Data Spin_Barrier Lifo_Queue Meta_Context Future_Event Thread_Handles Pool_Locks
    Pool_Futures Throttlers Context_Calls Affinity_Win32 Context_Run Event_Clients Semaphore_Clients
begin

text \<open>
  A verification of crunch.concurrency, a C++ library of synchronisation primitives: atomics, waiters and
  waitables, a cooperative meta scheduler, a thread pool with futures, threads, lock-free lists, and
  processor affinity and topology.

  \<^bold>\<open>How the program is put together.\<close>  Everything blocks through one interface.  An \<^verbatim>\<open>IWaitable\<close> (mutex,
  event, semaphore, future) takes a \<^verbatim>\<open>Waiter\<close>, an object from a lock-free allocator, into a list whose head
  is a packed word, and later notifies it.  \<^verbatim>\<open>WaitFor\<close>, \<^verbatim>\<open>WaitForAll\<close> and \<^verbatim>\<open>WaitForAny\<close> hang waiters that
  post a system semaphore and wait on it.  \<^verbatim>\<open>MetaScheduler\<close> runs schedulers on meta threads until a waitable
  is signalled.  The thread pool runs work items on its threads, over a system mutex and condition variable,
  and hands out futures, whose shared state contains an event.

  \<^bold>\<open>Execution.\<close>  Crunch\_Prelude defines the interleaving of threads: a thread is a step function on the
  shared memory and its own state, and \<open>executes\<close> lets any thread make the next step, any number of
  times.  One step makes at most one access to shared memory, so a machine such as \<open>Mutex_Lock_step\<close> has
  one constructor of its program counter for each point between two accesses of the function it models, with
  the local variables as arguments.  \<open>None\<close> is a thread that is done or blocked.  Systems in which an
  environment makes choices (what a scheduler answers, whether a system call succeeds) are labelled, with
  \<open>reaches\<close>.  Memory is sequentially consistent.  The interfaces that carry the proofs are locales there:
  \<open>token_protocol\<close> and \<open>token_systems\<close> (resources that memory and threads hold between them and that no step
  makes or loses), \<open>labelled_invariant\<close>, and \<open>thread_simulation\<close>, which turns a simulation of the steps of one
  thread into one of all interleavings; \<open>ghost_protocol\<close> is the first of them with
  auxiliary state, and \<open>listed_waiters\<close> (in Waiter\_Clients) is what an object that keeps its waiters in a list has to satisfy.
  Every machine is interpreted in one of them, and the
  interpretation's proof is the step-by-step check of its invariant or simulation.

  \<^bold>\<open>Theories.\<close>  Below include/crunch/concurrency and source:
    \<^item> Atomic\_Ops: platform/linux/atomic\_ops\_x86.hpp, platform/win32/atomic\_ops\_x86.hpp, atomic.hpp,
      memory\_order.hpp.  Every operation with its result and effect; the two layers agree, and the 64-bit
      fallback loop of 32-bit Windows loses no update.
    \<^item> Tagged\_Pointer: the pointer, flags and ABA count that detail/waiter\_list.hpp, waiter.cpp and
      mpmc\_lifo\_list.hpp pack in a word, as interpretations of one locale, \<open>tagged_word\<close>.
    \<^item> Waiter\_List, Waiter\_Alloc: waiter\_utility.hpp, detail/waiter\_list.hpp, waiter\_list.cpp; waiter.hpp,
      waiter.cpp and \<^verbatim>\<open>AddWaiter\<close> of a functor in waitable.hpp.  List operations on the heap of next pointers,
      \<^verbatim>\<open>RemoveWaiter\<close> with the list lock, the allocator and the life of a waiter.  The locale \<open>iwaitable\<close> states
      what a waitable promises.
    \<^item> Mutex, Event, Semaphore: the three waitables.  Safety for every interleaving of every script of calls
      (mutual exclusion, no waiters on a set event, no unit granted twice), and the refinement of an
      abstract mutex, event and semaphore by calls that run on their own.
    \<^item> Waiter\_Clients, Event\_Clients, Semaphore\_Clients: threads that own waiters and hang them into an event
      or a semaphore, take them back and signal it, all at the same time.  Every waiter is in one place, is
      called at most once, and \<^verbatim>\<open>RemoveWaiter\<close> tells the truth: what Wait\_Functions takes for granted of a
      waitable.
    \<^item> System\_Sync: detail/system\_semaphore.hpp, detail/system\_event.hpp and the platform files, and the
      arithmetic of \<^verbatim>\<open>ThreadSleep\<close>.
    \<^item> System\_Mutex, System\_Condition: detail/system\_mutex.hpp, lock\_guard.hpp, detail/system\_condition.hpp
      with the files of both platforms, and the Windows event.  The platforms agree on every sequence of calls that
      does not lock a mutex twice, and the Linux event implements the Windows one.
    \<^item> Wait\_Functions, Meta\_Scheduler, Throttlers, Meta\_Threads, Meta\_Context, Context\_Calls: waitable.hpp,
      scheduler.hpp, meta\_scheduler.hpp, meta\_scheduler.cpp.  The wait functions against any waitables, the loop
      of \<^verbatim>\<open>Run\<close> with its callbacks, how much a scheduler may run, the pool of meta threads, the contexts and all
      waits of a thread that has one, configuration, affinity.
    \<^item> Context\_Run: whole calls of \<^verbatim>\<open>Run\<close>, many at a time, made of the parts in the theories above; both the
      pool and the loop are shown to be what is left when the others are hidden.
    \<^item> Thread\_Pool, Pool\_Locks, Pool\_Futures: thread\_pool.hpp, thread\_pool.cpp.  The pool with one step for
      each critical section; over its mutex and condition variable with one step for each access, which
      implements the former; and \<^verbatim>\<open>Post\<close>, with the promises and futures of the posted functions.
    \<^item> Future, Future\_Event, Promise\_Handles: future.hpp, promise.hpp, detail/future\_data.hpp.  The shared
      state over an abstract event with threads that copy and drop references; the same over the machines of
      theory Event; and \<^verbatim>\<open>Promise\<close> and \<^verbatim>\<open>Future\<close> objects with their moves and copies, for values and for \<^verbatim>\<open>void\<close>.
    \<^item> Threads, Thread\_Handles: thread.hpp, thread.cpp, thread\_data.hpp, thread\_data.cpp and the thread.cpp
      of Linux and Windows.  One thread with its data, cancellation and end; any number of them with handles that move, and
      \<^verbatim>\<open>ThreadId\<close>.
    \<^item> Lifo\_List, Lifo\_Queue: mpmc\_lifo\_list.hpp, mpmc\_lifo\_queue.hpp.  The list is linearizable to a stack;
      the queue runs over the machines of two such lists, one step for each access, and its nodes wander between them.
    \<^item> Spin\_Barrier, Versioned\_Data, Backoff: spin\_barrier.hpp; versioned\_data.hpp; the back-offs, yield.hpp
      and wait\_mode.hpp.
    \<^item> Processors, Affinity\_Win32: processor\_affinity.hpp, processor\_affinity.cpp, processor\_topology.hpp,
      processor\_topology.cpp with the Linux and Windows files.

  \<^bold>\<open>Kinds of lemmas.\<close>  Each theory of a component has its state and steps first, then the invariant and
  the lemma that each step keeps it, then the properties, each with a concrete execution that shows that its
  hypotheses can hold.  Where a component is used by another one, the two are composed: a future over the event, the pool
  over locks and with futures, \<^verbatim>\<open>Run\<close> over the pool of meta threads, the waits of a context over one semaphore.
  Where modelling found the code to do something else than it means to do, the
  theorem says what the code does: lost wake-ups of the semaphore, of \<^verbatim>\<open>AcquireMetaThread\<close> and of the thread
  pool's destructor, the loops of \<^verbatim>\<open>Event::Set\<close> and \<^verbatim>\<open>Semaphore::Post\<close> that never reload the head, the
  second phase of \<^verbatim>\<open>WaitForAll\<close>, which can wait for a mutex that the first has taken, the
  stop path of \<^verbatim>\<open>Run\<close> and its exits that lose the meta thread, a barrier used again too early, a cancellation
  that ends the program, a thread whose handle is assigned over, an exception of a posted function, which breaks
  its promise in a worker and leaves the pool's destructor.

  \<^bold>\<open>Bounds.\<close>  Machine integers keep their width.  The compare-and-swap loops are correct for fewer updates
  of a word than its ABA count can tell apart (the hypothesis of \<open>lifo_list_linearizable\<close>, the 2 to the 16 calls of
  \<open>lifo_queue_conserves\<close>, and the 2 to the 16 operations in \<open>clients_ok\<close>); the list of a mutex is not among these, since its free word starts the count
  again; semaphore counts
  stay within 32 bits; \<open>versioned_data_snapshots\<close> says what 2 to the 32 updates would break.  The fuel of
  \<open>run_within\<close> in the refinement theorems is the number of accesses of an uninterrupted call, and the
  theorems state that it suffices.  Loops that may not end are never assumed to: machines may step for
  ever, and the sub-leaf loop of the topology is a partial function whose termination is characterised.

  \<^bold>\<open>Parameters.\<close>  The library crunch.base is not in the repository: CPUID, the bit utilities and vendor
  strings are parameters of Processors, the timer is one of Throttlers, and \<^verbatim>\<open>IntrusivePtr\<close>, which calls \<^verbatim>\<open>AddRef\<close> and
  \<^verbatim>\<open>Release\<close> where it is made, copied, assigned and dropped, is one of Promise\_Handles and Pool\_Futures: its
  calls keep step with its pointers (\<open>intrusive_ptr_ok\<close>), and what it leaves in the source of a move is open.  The
  addresses that \<^verbatim>\<open>new\<close> returns to the lock-free queue are a parameter (\<open>new_nodes\<close>).  The system calls that set an affinity are parameters, the kernel's
  \<^verbatim>\<open>sched_setaffinity\<close> with its documented behaviour as hypothesis.  The schedulers and waitables of a user
  are choices of the environment.

  \<^bold>\<open>Not modelled.\<close>  Weaker memory orders than sequential consistency (the orderings are arguments of the
  atomic operations only); \<^verbatim>\<open>Atomic<T*>\<close>, whose arithmetic does not compile when used; failures of system
  calls that the code asserts away; the Darwin affinity functions, which have empty bodies; functions
  that are declared and never defined (\<^verbatim>\<open>SetRunModeOverride\<close>, the operators of \<^verbatim>\<open>ProcessorAffinity\<close>,
  \<^verbatim>\<open>GetProcessorsOnCore\<close>); yields, pauses and fences, which have no effect here; tests and benchmarks.  What is left of the source
  then are declarations of the functions that are modelled, and macros.
\<close>

end
